(* ===== verification/Prelude.thy ===== *)
theory Prelude
  imports Main "HOL-Library.Char_ord" "HOL-Library.List_Lexorder"
begin

text \<open>
  The vocabulary the whole development shares: byte strings, the error values of the
  repository and of the libraries it calls, results of fallible code, results of fallible
  code that also changes a state, and list facts used by several components.

  A Go \<open>string\<close> and a Go \<open>[]byte\<close> are both sequences of bytes, here a HOL \<open>string\<close>
  (a list of 8-bit \<open>char\<close>). A \<open>[]byte\<close> that may be \<open>nil\<close> is an \<open>option\<close>: the code tells
  \<open>nil\<close> (no such key) from the empty slice (an empty value).
\<close>

named_theorems codec \<open>injectivity and decoding of stored keys and integers\<close>
named_theorems store_simps \<open>what a read returns after a write to the ordered store\<close>
named_theorems ledis_defs \<open>definitions of the data-type layer, to be unfolded together\<close>
named_theorems cmd_defs \<open>definitions of the command handlers\<close>

type_synonym bytes = string

section \<open>Errors and results\<close>

text \<open>
  Every error the modelled code returns. The first group are the errors of the command
  framework (package \<open>uhaha\<close>), the second the errors of the data-type layer
  (\<open>ledis/const.go\<close>, \<open>ledis/util.go\<close>, \<open>ledis/t_*.go\<close>), then those of \<open>strconv\<close>, texts made
  by \<open>errors.New\<close> and \<open>fmt.Errorf\<close>, and last a run-time panic.
\<close>

datatype gerr =
    ErrWrongNumArgs | ErrInvalid | ErrSyntax
  | errKeySize | errValueSize | errHashFieldSize | errSetMemberSize | errZSetMemberSize
  | errExpireValue | errListIndex | errListSeq | errIntNumber | errScoreMiss | errScoreOverflow
  | errWriteInROnly | errDataType
  | errKVKey | errLMetaKey | errListKey | errHashKey | errHSizeKey | errSetKey | errSSizeKey
  | errZSetKey | errZSizeKey | errZScoreKey | errExpMetaKey | errExpTimeKey | errKeyIndex
  | NumSyntax | NumRange
  | ErrText string
  | Panic

type_synonym 'a result = "gerr + 'a"

text \<open>
  The pattern \<open>v, err := f(); if err != nil { return nil, err }\<close>, for a pure \<open>f\<close> and for an
  \<open>f\<close> that also returns the changed state.
\<close>

definition rbind :: "'a result \<Rightarrow> ('a \<Rightarrow> 'b result) \<Rightarrow> 'b result" where
  "rbind r f = (case r of Inl e \<Rightarrow> Inl e | Inr a \<Rightarrow> f a)"

definition sbind :: "'a result \<times> 's \<Rightarrow> ('a \<Rightarrow> 's \<Rightarrow> 'b result \<times> 's) \<Rightarrow> 'b result \<times> 's" where
  "sbind r f = (case r of (Inl e, s) \<Rightarrow> (Inl e, s) | (Inr a, s) \<Rightarrow> f a s)"

definition lift_r :: "'a result \<Rightarrow> 's \<Rightarrow> 'a result \<times> 's" where
  "lift_r r s = (r, s)"

lemma rbind_simps [simp]:
  "rbind (Inl e) f = Inl e"
  "rbind (Inr a) f = f a"
  by (simp_all add: rbind_def)

lemma sbind_simps [simp]:
  "sbind (Inl e, s) f = (Inl e, s)"
  "sbind (Inr a, s) f = f a s"
  by (simp_all add: sbind_def)

lemma lift_r_simps [simp]:
  "fst (lift_r r s) = r"
  "snd (lift_r r s) = s"
  by (simp_all add: lift_r_def)

lemma rbind_eq_Inr: "rbind r f = Inr b \<longleftrightarrow> (\<exists>a. r = Inr a \<and> f a = Inr b)"
  by (cases r) simp_all

lemma sbind_eq_Inr:
  "sbind r f = (Inr b, s') \<longleftrightarrow> (\<exists>a s. r = (Inr a, s) \<and> f a s = (Inr b, s'))"
  by (cases r; cases "fst r") auto

lemma sbind_snd_same:
  assumes "snd r = s" "\<And>a. snd (f a s) = s"
  shows "snd (sbind r f) = s"
  using assms by (cases r; cases "fst r") auto

lemma snd_sbind_ret [simp]: "snd (sbind r (\<lambda>a s. (h a s, s))) = snd r"
  by (simp add: sbind_def split: prod.splits sum.splits)

lemma snd_case_ret [simp]:
  "snd (case r of (Inl e, s) \<Rightarrow> (f e s, s) | (Inr a, s) \<Rightarrow> (g a s, s)) = snd r"
  by (simp split: prod.splits sum.splits)

text \<open>
  The order in which \<open>range\<close> visits the keys of a Go map is left open by the language: a function
  that rearranges a list of distinct keys.
\<close>

definition any_order :: "(bytes list \<Rightarrow> bytes list) \<Rightarrow> bool" where
  "any_order ord \<longleftrightarrow> (\<forall>ks. distinct ks \<longrightarrow> distinct (ord ks) \<and> set (ord ks) = set ks)"

lemma any_order_id [simp]: "any_order (\<lambda>ks. ks)"
  by (simp add: any_order_def)

lemma any_orderD: "any_order ord \<Longrightarrow> distinct ks \<Longrightarrow> distinct (ord ks) \<and> set (ord ks) = set ks"
  by (simp add: any_order_def)

section \<open>Lists\<close>

text \<open>A fold of steps that commute does not depend on the order of a list without repetitions.\<close>

lemma fold_distinct_set:
  assumes "\<And>x y. f x \<circ> f y = f y \<circ> f x"
  shows "distinct xs \<Longrightarrow> distinct ys \<Longrightarrow> set xs = set ys \<Longrightarrow> fold f xs = fold f ys"
proof (induction xs arbitrary: ys)
  case (Cons x xs)
  have "fold f ys = fold f (remove1 x ys) \<circ> f x"
    using Cons.prems by (intro fold_remove1_split assms) auto
  moreover have "fold f xs = fold f (remove1 x ys)"
    using Cons.prems by (intro Cons.IH) auto
  ultimately show ?case by simp
qed simp

lemma length_2_iff: "length xs = 2 \<longleftrightarrow> (\<exists>a b. xs = [a, b])"
  by (auto simp: numeral_2_eq_2 length_Suc_conv)

lemma length_3_iff: "length xs = 3 \<longleftrightarrow> (\<exists>a b c. xs = [a, b, c])"
  by (auto simp: numeral_3_eq_3 length_Suc_conv)

lemma append_eq_append_same_length:
  "length a = length b \<Longrightarrow> a @ x = b @ y \<longleftrightarrow> a = b \<and> x = y"
  by auto

lemma last_update_snoc: "(xs @ [x])[length xs := y] = xs @ [y]"
  by (simp add: list_update_append)

subsection \<open>Sorted lists: prefixes and suffixes selected by a bound are filters\<close>

lemma dropWhile_less_eq_filter:
  fixes f :: "'a \<Rightarrow> 'k::linorder"
  assumes "sorted_wrt (<) (map f xs)"
  shows "dropWhile (\<lambda>x. f x < m) xs = filter (\<lambda>x. m \<le> f x) xs"
  using assms
proof (induction xs)
  case (Cons x xs)
  show ?case
  proof (cases "f x < m")
    case True
    then show ?thesis using Cons by auto
  next
    case False
    then have "\<forall>y \<in> set xs. m \<le> f y" using Cons.prems by fastforce
    then show ?thesis using False by (simp add: filter_id_conv not_less)
  qed
qed simp

lemma takeWhile_mono_eq_filter:
  fixes f :: "'a \<Rightarrow> 'k::linorder"
  assumes "sorted_wrt (<) (map f xs)"
    and "\<And>a b. a < b \<Longrightarrow> P b \<Longrightarrow> P a"
  shows "takeWhile (\<lambda>x. P (f x)) xs = filter (\<lambda>x. P (f x)) xs"
  using assms(1)
proof (induction xs)
  case (Cons x xs)
  show ?case
  proof (cases "P (f x)")
    case True
    then show ?thesis using Cons by auto
  next
    case False
    then have "\<forall>y \<in> set xs. \<not> P (f y)" using Cons.prems assms(2) by fastforce
    then show ?thesis using False by (simp add: filter_empty_conv)
  qed
qed simp

lemma sorted_wrt_map_filter:
  "sorted_wrt R (map f xs) \<Longrightarrow> sorted_wrt R (map f (filter P xs))"
  by (induction xs) auto

subsection \<open>The lexicographic order on byte strings\<close>

lemma append_less_append_iff [simp]:
  fixes p :: "'a::linorder list"
  shows "p @ x < p @ y \<longleftrightarrow> x < y"
  by (induction p) auto

lemma append_le_append_iff [simp]:
  fixes p :: "'a::linorder list"
  shows "p @ x \<le> p @ y \<longleftrightarrow> x \<le> y"
  by (induction p) auto

lemma le_append_self [simp]:
  fixes p :: "'a::linorder list"
  shows "p \<le> p @ x"
  by (induction p) auto

text \<open>
  The strings between \<open>p @ [c]\<close> (included) and \<open>p @ [d]\<close> (excluded), where \<open>d\<close> is the byte
  after \<open>c\<close>, are the strings that start with \<open>p @ [c]\<close>: the range scans of the data-type
  layer rely on it.
\<close>

lemma prefix_range:
  fixes p :: "'a::linorder list"
  assumes cd: "c < d" and adj: "\<And>e. c < e \<Longrightarrow> d \<le> e"
  shows "(p @ [c] \<le> x \<and> x < p @ [d]) \<longleftrightarrow> (\<exists>f. x = p @ c # f)"
proof (induction p arbitrary: x)
  case Nil
  show ?case
  proof (cases x)
    case (Cons y ys)
    have "c \<le> y \<and> y < d \<longleftrightarrow> y = c"
      using cd adj by (metis leD le_less order_le_less)
    then show ?thesis using Cons cd by auto
  qed simp
next
  case (Cons a p)
  show ?case
  proof (cases x)
    case (Cons y ys)
    then show ?thesis using Cons.IH [of ys] by auto
  qed simp
qed

subsection \<open>Strings between two extensions of a prefix\<close>

lemma between_has_prefix:
  fixes p :: "'a::linorder list"
  shows "p @ a \<le> x \<Longrightarrow> x \<le> p @ b \<Longrightarrow> \<exists>y. x = p @ y"
proof (induction p arbitrary: x)
  case (Cons c p)
  then show ?case by (cases x) auto
qed simp

lemma above_without_prefix:
  fixes p :: "'a::linorder list"
  assumes "p @ a \<le> x" "\<nexists>y. x = p @ y"
  shows "p @ b < x"
  using between_has_prefix [of p a x b] assms by force

subsection \<open>Filters of a strictly sorted list\<close>

lemma filter_partition_sorted:
  fixes f :: "'a \<Rightarrow> 'k::linorder"
  assumes "sorted_wrt (<) (map f xs)"
    and "\<And>x y. x \<in> set xs \<Longrightarrow> y \<in> set xs \<Longrightarrow> P x \<Longrightarrow> \<not> P y \<Longrightarrow> f x < f y"
  shows "xs = filter P xs @ filter (\<lambda>x. \<not> P x) xs"
  using assms
proof (induction xs)
  case (Cons x xs)
  then have IH: "xs = filter P xs @ filter (\<lambda>x. \<not> P x) xs" by simp
  show ?case
  proof (cases "P x")
    case False
    then have "\<forall>y \<in> set xs. \<not> P y" using Cons.prems by (force dest: order_less_asym)
    then have "filter P xs = []" "filter (\<lambda>x. \<not> P x) xs = xs" by (simp_all add: filter_empty_conv filter_id_conv)
    then show ?thesis using False by simp
  qed (use IH in simp)
qed simp

lemma append_less_same_length:
  fixes a :: "'a::linorder list"
  shows "length a = length b \<Longrightarrow> a @ x < b @ y \<longleftrightarrow> a < b \<or> a = b \<and> x < y"
  by (induction a b rule: list_induct2) auto

lemma append_le_same_length:
  fixes a :: "'a::linorder list"
  shows "length a = length b \<Longrightarrow> a @ x \<le> b @ y \<longleftrightarrow> a < b \<or> a = b \<and> x \<le> y"
  by (auto simp: le_less append_less_same_length)

lemma append_between:
  fixes p :: "'a::linorder list"
  shows "p @ a \<le> x \<Longrightarrow> x \<le> p @ b \<Longrightarrow> \<exists>y. x = p @ y \<and> a \<le> y \<and> y \<le> b"
proof (induction p arbitrary: x)
  case (Cons c p)
  then obtain d x' where x: "x = d # x'" by (cases x) auto
  then have "d = c" "p @ a \<le> x'" "x' \<le> p @ b" using Cons.prems by (auto dest: order.asym)
  then show ?case using Cons.IH [of x'] x by auto
qed simp

text \<open>The elements of a sorted list up to and from one of them.\<close>

lemma filter_upto:
  fixes q :: "'a::linorder"
  assumes "sorted_wrt (<) xs" "q \<in> set xs"
  shows "filter (\<lambda>p. p \<le> q) xs = filter (\<lambda>p. p < q) xs @ [q]" "filter (\<lambda>p. q \<le> p) xs = q # filter (\<lambda>p. q < p) xs"
proof -
  obtain ys zs where xs: "xs = ys @ q # zs" using assms(2) by (metis split_list)
  then have "\<forall>y \<in> set ys. y < q" "\<forall>z \<in> set zs. q < z" using assms(1) by (auto simp: sorted_wrt_append)
  then have "filter (\<lambda>p. p \<le> q) ys = ys" "filter (\<lambda>p. p < q) ys = ys" "filter (\<lambda>p. p \<le> q) zs = []"
    "filter (\<lambda>p. p < q) zs = []" "filter (\<lambda>p. q \<le> p) ys = []" "filter (\<lambda>p. q < p) ys = []"
    "filter (\<lambda>p. q \<le> p) zs = zs" "filter (\<lambda>p. q < p) zs = zs"
    by (auto simp: filter_id_conv filter_empty_conv)
  then show "filter (\<lambda>p. p \<le> q) xs = filter (\<lambda>p. p < q) xs @ [q]" "filter (\<lambda>p. q \<le> p) xs = q # filter (\<lambda>p. q < p) xs"
    by (simp_all add: xs)
qed

end
