(* ===== verification/GoStd.thy ===== *)
theory GoStd
  imports Prelude
begin

text \<open>
  What the repository uses of the Go language and its standard library: the wrap-around of
  \<open>int32\<close> and \<open>int64\<close>, \<open>strconv.ParseInt\<close>, \<open>strconv.Atoi\<close> and \<open>strconv.FormatInt\<close> in base 10,
  \<open>strings.ToUpper\<close> and \<open>strings.ToLower\<close>, and the fixed-width integer encodings of
  \<open>encoding/binary\<close>. Go's \<open>int\<close> is the 64-bit one.
\<close>

section \<open>Fixed-width integers\<close>

definition wrap32 :: "int \<Rightarrow> int" where
  "wrap32 x = (x + 2147483648) mod 4294967296 - 2147483648"

definition wrap64 :: "int \<Rightarrow> int" where
  "wrap64 x = (x + 9223372036854775808) mod 18446744073709551616 - 9223372036854775808"

abbreviation MaxInt64 :: int where "MaxInt64 \<equiv> 9223372036854775807"
abbreviation MinInt64 :: int where "MinInt64 \<equiv> - 9223372036854775808"

definition is_int32 :: "int \<Rightarrow> bool" where
  "is_int32 x \<longleftrightarrow> - 2147483648 \<le> x \<and> x < 2147483648"

definition is_int64 :: "int \<Rightarrow> bool" where
  "is_int64 x \<longleftrightarrow> MinInt64 \<le> x \<and> x \<le> MaxInt64"

lemma wrap32_id [simp]: "is_int32 x \<Longrightarrow> wrap32 x = x"
  by (simp add: wrap32_def is_int32_def)

lemma wrap64_id [simp]: "is_int64 x \<Longrightarrow> wrap64 x = x"
  by (simp add: wrap64_def is_int64_def)

lemma is_int32_wrap32 [simp]: "is_int32 (wrap32 x)"
  by (auto simp: wrap32_def is_int32_def)

lemma is_int64_wrap64 [simp]: "is_int64 (wrap64 x)"
proof -
  have "0 \<le> (x + 9223372036854775808) mod 18446744073709551616"
    and "(x + 9223372036854775808) mod 18446744073709551616 < 18446744073709551616"
    by simp_all
  then show ?thesis by (simp add: wrap64_def is_int64_def)
qed

lemma wrap64_mod: "wrap64 x mod 18446744073709551616 = x mod 18446744073709551616"
  by (simp add: wrap64_def mod_diff_left_eq)

lemma wrap32_mod: "wrap32 x mod 4294967296 = x mod 4294967296"
  by (simp add: wrap32_def mod_diff_left_eq)

section \<open>Decimal integers (strconv)\<close>

definition is_digit :: "char \<Rightarrow> bool" where
  "is_digit c \<longleftrightarrow> (48::nat) \<le> of_char c \<and> (of_char c :: nat) \<le> 57"

definition digit_val :: "char \<Rightarrow> int" where
  "digit_val c = int (of_char c) - 48"

abbreviation maxUint64 :: int where "maxUint64 \<equiv> 18446744073709551615"

text \<open>The digit loop of \<open>strconv.ParseUint\<close>: \<open>cutoff\<close> is \<open>maxUint64/10 + 1\<close>.\<close>

fun parse_digits :: "int \<Rightarrow> string \<Rightarrow> int result" where
  "parse_digits n [] = Inr n"
| "parse_digits n (c # cs) =
     (if \<not> is_digit c then Inl NumSyntax
      else if 1844674407370955162 \<le> n then Inl NumRange
      else if maxUint64 < n * 10 + digit_val c then Inl NumRange
      else parse_digits (n * 10 + digit_val c) cs)"

definition ParseUint :: "string \<Rightarrow> int result" where
  "ParseUint s = (if s = [] then Inl NumSyntax else parse_digits 0 s)"

definition ParseInt :: "string \<Rightarrow> int result" where
  "ParseInt s =
     (case s of
        [] \<Rightarrow> Inl NumSyntax
      | c # cs \<Rightarrow>
          (let neg = (c = CHR ''-''); t = (if c = CHR ''+'' \<or> neg then cs else s)
           in rbind (ParseUint t) (\<lambda>un.
                if \<not> neg \<and> 9223372036854775808 \<le> un then Inl NumRange
                else if neg \<and> 9223372036854775808 < un then Inl NumRange
                else Inr (if neg then - un else un))))"

text \<open>\<open>Atoi\<close> has a fast path for short inputs, which accepts the same strings.\<close>

definition Atoi :: "string \<Rightarrow> int result" where
  "Atoi s = ParseInt s"

definition digit_char :: "nat \<Rightarrow> char" where
  "digit_char d = char_of (48 + d)"

fun nat_str :: "nat \<Rightarrow> string" where
  "nat_str n = (if n < 10 then [digit_char n] else nat_str (n div 10) @ [digit_char (n mod 10)])"

declare nat_str.simps [simp del]

definition FormatInt :: "int \<Rightarrow> string" where
  "FormatInt i = (if i < 0 then CHR ''-'' # nat_str (nat (- i)) else nat_str (nat i))"

subsection \<open>Printing and parsing are inverse\<close>

lemma of_char_digit_char [simp]: "d < 10 \<Longrightarrow> (of_char (digit_char d) :: nat) = 48 + d"
  by (simp add: digit_char_def)

lemma digit_val_digit_char [simp]: "d < 10 \<Longrightarrow> digit_val (digit_char d) = int d"
  by (simp add: digit_val_def del: of_nat_of_char)

lemma is_digit_digit_char [simp]: "d < 10 \<Longrightarrow> is_digit (digit_char d)"
  by (simp add: is_digit_def)

lemma digit_val_bounds: "is_digit c \<Longrightarrow> 0 \<le> digit_val c \<and> digit_val c \<le> 9"
  by (simp add: is_digit_def digit_val_def del: of_nat_of_char)

lemma parse_digits_snoc:
  "parse_digits n (s @ [c]) = rbind (parse_digits n s) (\<lambda>m. parse_digits m [c])"
  by (induction n s rule: parse_digits.induct) auto

lemma nat_str_nonempty [simp]: "nat_str n \<noteq> []"
  by (subst nat_str.simps) simp

lemma nat_str_digits: "\<forall>c \<in> set (nat_str n). is_digit c"
proof (induction n rule: nat_str.induct)
  case (1 n)
  then show ?case by (subst nat_str.simps) auto
qed

lemma parse_digits_nat_str:
  "int n \<le> maxUint64 \<Longrightarrow> parse_digits 0 (nat_str n) = Inr (int n)"
proof (induction n rule: nat_str.induct)
  case (1 n)
  show ?case
  proof (cases "n < 10")
    case True
    then show ?thesis by (subst nat_str.simps) simp
  next
    case False
    then have "parse_digits 0 (nat_str (n div 10)) = Inr (int (n div 10))"
      using 1 by (simp add: zdiv_int)
    moreover have "int (n div 10) * 10 + int (n mod 10) = int n"
      by (simp add: zdiv_int zmod_int)
    moreover have "\<not> 1844674407370955162 \<le> int (n div 10)"
      using "1.prems" by (simp add: zdiv_int)
    ultimately show ?thesis using False "1.prems"
      by (subst nat_str.simps) (simp add: parse_digits_snoc)
  qed
qed

lemma hd_nat_str_not_sign:
  "nat_str n = c # cs \<Longrightarrow> c \<noteq> CHR ''-'' \<and> c \<noteq> CHR ''+''"
  using nat_str_digits [of n] by (auto simp: is_digit_def)

lemma ParseInt_FormatInt: "is_int64 i \<Longrightarrow> ParseInt (FormatInt i) = Inr i"
proof -
  assume i: "is_int64 i"
  show ?thesis
  proof (cases "i < 0")
    case True
    then have "parse_digits 0 (nat_str (nat (- i))) = Inr (- i)"
      using i parse_digits_nat_str [of "nat (- i)"] by (simp add: is_int64_def)
    then show ?thesis using True i
      by (simp add: ParseInt_def FormatInt_def ParseUint_def is_int64_def)
  next
    case False
    obtain c cs where s: "nat_str (nat i) = c # cs"
      using nat_str_nonempty by (metis neq_Nil_conv)
    have "parse_digits 0 (nat_str (nat i)) = Inr i"
      using i False parse_digits_nat_str [of "nat i"] by (simp add: is_int64_def)
    then show ?thesis using False i s hd_nat_str_not_sign [OF s]
      by (simp add: ParseInt_def FormatInt_def ParseUint_def is_int64_def)
  qed
qed

lemma parse_digits_nonneg: "0 \<le> n \<Longrightarrow> parse_digits n s = Inr m \<Longrightarrow> 0 \<le> m"
proof (induction n s rule: parse_digits.induct)
  case (2 n c cs)
  then show ?case using digit_val_bounds [of c] by (auto split: if_splits)
qed simp

lemma ParseUint_nonneg: "ParseUint s = Inr m \<Longrightarrow> 0 \<le> m"
  by (auto simp: ParseUint_def simp del: parse_digits.simps
      dest: parse_digits_nonneg [OF order_refl] split: if_splits)

lemma ParseInt_int64: "ParseInt s = Inr i \<Longrightarrow> is_int64 i"
  by (auto simp: ParseInt_def Let_def is_int64_def rbind_eq_Inr
      dest!: ParseUint_nonneg split: list.splits if_splits)

section \<open>Allocation (make)\<close>

text \<open>
  \<open>make([]T, 0, cap)\<close> for an element type of \<open>sz\<close> bytes panics when the capacity is negative or the
  slice would be larger than the address space of the heap, 2^48 bytes on 64-bit machines. A
  slice within that limit is taken to be allocated: running out of memory is not modelled.
\<close>

definition make_slice :: "int \<Rightarrow> int \<Rightarrow> unit result" where
  "make_slice sz cap = (if cap < 0 \<or> sz * cap > 281474976710656 then Inl Panic else Inr ())"

lemma make_slice_ok [simp]: "0 \<le> cap \<Longrightarrow> sz * cap \<le> 281474976710656 \<Longrightarrow> make_slice sz cap = Inr ()"
  by (simp add: make_slice_def)

lemma make_slice_panic: "281474976710656 < sz * cap \<Longrightarrow> make_slice sz cap = Inl Panic"
  by (simp add: make_slice_def)

section \<open>Letter case (strings.ToUpper, strings.ToLower)\<close>

text \<open>
  ASCII letters are mapped byte by byte. Of the code points beyond ASCII, U+0131 (bytes C4 B1)
  and U+017F (C5 BF) are the two whose upper case is an ASCII letter (I and S), and U+212A
  (E2 84 AA) and U+0130 (C4 B0) the two whose lower case is (k and i); the others stay beyond
  ASCII and are left as they are, so that a comparison with an ASCII keyword is exact.
\<close>

definition upper_char :: "char \<Rightarrow> char" where
  "upper_char c = (if (97::nat) \<le> of_char c \<and> (of_char c :: nat) \<le> 122
                   then char_of ((of_char c :: nat) - 32) else c)"

definition lower_char :: "char \<Rightarrow> char" where
  "lower_char c = (if (65::nat) \<le> of_char c \<and> (of_char c :: nat) \<le> 90
                   then char_of ((of_char c :: nat) + 32) else c)"

fun ToUpper :: "string \<Rightarrow> string" where
  "ToUpper [] = []"
| "ToUpper [c] = [upper_char c]"
| "ToUpper (c # d # s) =
     (if c = CHR 0xC4 \<and> d = CHR 0xB1 then CHR ''I'' # ToUpper s
      else if c = CHR 0xC5 \<and> d = CHR 0xBF then CHR ''S'' # ToUpper s
      else upper_char c # ToUpper (d # s))"

fun ToLower :: "string \<Rightarrow> string" where
  "ToLower [] = []"
| "ToLower (c # s) =
     (if c = CHR 0xC4 \<and> take 1 s = [CHR 0xB0] then CHR ''i'' # ToLower (drop 1 s)
      else if c = CHR 0xE2 \<and> take 2 s = [CHR 0x84, CHR 0xAA] then CHR ''k'' # ToLower (drop 2 s)
      else lower_char c # ToLower s)"

section \<open>Integers as bytes (encoding/binary)\<close>

fun le_bytes :: "nat \<Rightarrow> nat \<Rightarrow> bytes" where
  "le_bytes 0 v = []"
| "le_bytes (Suc n) v = char_of (v mod 256) # le_bytes n (v div 256)"

fun le_nat :: "bytes \<Rightarrow> nat" where
  "le_nat [] = 0"
| "le_nat (c # cs) = of_char c + 256 * le_nat cs"

definition be_bytes :: "nat \<Rightarrow> nat \<Rightarrow> bytes" where
  "be_bytes n v = rev (le_bytes n v)"

definition be_nat :: "bytes \<Rightarrow> nat" where
  "be_nat bs = le_nat (rev bs)"

lemma length_le_bytes [simp]: "length (le_bytes n v) = n"
  by (induction n arbitrary: v) auto

lemma length_be_bytes [simp]: "length (be_bytes n v) = n"
  by (simp add: be_bytes_def)

lemma le_nat_le_bytes [codec]: "le_nat (le_bytes n v) = v mod 256 ^ n"
proof (induction n arbitrary: v)
  case (Suc n)
  then show ?case
    using mod_mult2_eq [of v 256 "256 ^ n"] by simp
qed simp

lemma be_nat_be_bytes [codec]: "be_nat (be_bytes n v) = v mod 256 ^ n"
  by (simp add: be_nat_def be_bytes_def le_nat_le_bytes)

lemma le_bytes_mod: "le_bytes n (v mod 256 ^ n) = le_bytes n v"
proof (induction n arbitrary: v)
  case (Suc n)
  have "v mod 256 ^ Suc n = 256 * (v div 256 mod 256 ^ n) + v mod 256"
    by (simp add: mod_mult2_eq)
  then have "v mod 256 ^ Suc n div 256 = v div 256 mod 256 ^ n"
    and "v mod 256 ^ Suc n mod 256 = v mod 256"
    by simp_all
  then show ?case using Suc.IH by (simp del: power_Suc)
qed simp

lemma le_bytes_inj: "le_bytes n v = le_bytes n w \<longleftrightarrow> v mod 256 ^ n = w mod 256 ^ n"
  by (metis le_bytes_mod le_nat_le_bytes)

lemma be_bytes_inj [codec]: "be_bytes n v = be_bytes n w \<longleftrightarrow> v mod 256 ^ n = w mod 256 ^ n"
  by (simp add: be_bytes_def le_bytes_inj)

lemma le_bytes_Suc_snoc: "le_bytes (Suc n) v = le_bytes n v @ [char_of (v div 256 ^ n mod 256)]"
  by (induction n arbitrary: v) (simp_all add: div_mult2_eq)

lemma be_bytes_Suc: "be_bytes (Suc n) v = char_of (v div 256 ^ n mod 256) # be_bytes n v"
  by (simp add: be_bytes_def le_bytes_Suc_snoc del: le_bytes.simps)

lemma char_of_less_iff: "a < 256 \<Longrightarrow> b < 256 \<Longrightarrow> char_of (a :: nat) < char_of b \<longleftrightarrow> a < b"
  by (simp add: less_char_def)

lemma char_of_eq_iff_less: "a < 256 \<Longrightarrow> b < 256 \<Longrightarrow> char_of (a :: nat) = char_of b \<longleftrightarrow> a = b"
  by (metis mod_less of_char_of)

lemma less_div_mod:
  "v < w \<longleftrightarrow> v div p < w div p \<or> v div p = w div p \<and> v mod p < w mod p" for v w p :: nat
proof (cases "v div p = w div p")
  case True
  moreover have "v = v div p * p + v mod p" "w = w div p * p + w mod p" by simp_all
  ultimately show ?thesis by (metis add_less_cancel_left less_irrefl)
next
  case False
  then show ?thesis using div_le_mono [of v w p] div_le_mono [of w v p] by linarith
qed

text \<open>Big-endian encodings sort like the numbers.\<close>

lemma be_bytes_less_iff:
  "v < 256 ^ n \<Longrightarrow> w < 256 ^ n \<Longrightarrow> be_bytes n v < be_bytes n w \<longleftrightarrow> v < w"
proof (induction n arbitrary: v w)
  case (Suc n)
  let ?p = "256 ^ n :: nat"
  have hv: "v div ?p < 256" "w div ?p < 256"
    using Suc.prems by (simp_all add: less_mult_imp_div_less)
  have low: "be_bytes n x = be_bytes n (x mod ?p)" for x
    by (simp add: be_bytes_def le_bytes_mod)
  have IH: "be_bytes n v < be_bytes n w \<longleftrightarrow> v mod ?p < w mod ?p"
    using Suc.IH [of "v mod ?p" "w mod ?p"] low by simp
  have "v < w \<longleftrightarrow> v div ?p < w div ?p \<or> v div ?p = w div ?p \<and> v mod ?p < w mod ?p"
    by (rule less_div_mod)
  then show ?case using hv IH by (auto simp: be_bytes_Suc char_of_less_iff char_of_eq_iff_less)
qed (simp add: be_bytes_def)

lemma be_bytes_le_iff:
  "v < 256 ^ n \<Longrightarrow> w < 256 ^ n \<Longrightarrow> be_bytes n v \<le> be_bytes n w \<longleftrightarrow> v \<le> w"
  using be_bytes_less_iff [of w n v] by (simp add: not_less [symmetric])

lemma wrap32_if_small: "- 2147483648 \<le> x \<Longrightarrow> x < 2147483648 \<Longrightarrow> wrap32 x = x"
  by (simp add: is_int32_def)

lemma wrap32_beyond: "2147483648 \<le> x \<Longrightarrow> x < 4294967296 \<Longrightarrow> wrap32 x = x - 4294967296"
  using minus_mod_self2 [of "x + 2147483648" 4294967296]
    mod_pos_pos_trivial [of "x + 2147483648 - 4294967296" 4294967296] by (simp add: wrap32_def)

lemma parse_digits_digits: "parse_digits n s = Inr m \<Longrightarrow> c \<in> set s \<Longrightarrow> is_digit c"
  by (induction n s rule: parse_digits.induct) (auto split: if_splits)

lemma ToLower_plain:
  "\<forall>c \<in> set s. is_digit c \<or> c = CHR ''-'' \<or> c = CHR ''+'' \<Longrightarrow> ToLower s = s"
proof (induction s)
  case (Cons c s)
  then have "lower_char c = c" "c \<noteq> CHR 0xC4" "c \<noteq> CHR 0xE2" by (auto simp: lower_char_def is_digit_def)
  then show ?case using Cons by simp
qed simp

lemma ParseInt_text:
  assumes "ParseInt s = Inr n"
  shows "s \<noteq> []" "hd s \<noteq> CHR ''(''" "ToLower s = s" "s \<noteq> ''-inf''" "s \<noteq> ''+inf''"
proof -
  show ne: "s \<noteq> []" using assms by (auto simp: ParseInt_def)
  then obtain c cs where s: "s = c # cs" by (cases s) auto
  let ?t = "if c = CHR ''+'' \<or> c = CHR ''-'' then cs else c # cs"
  obtain u where "ParseUint ?t = Inr u" using assms by (auto simp: ParseInt_def s Let_def rbind_eq_Inr)
  then have t: "?t \<noteq> []" "\<forall>d \<in> set ?t. is_digit d"
    using parse_digits_digits by (auto simp: ParseUint_def split: if_splits)
  then have "\<forall>d \<in> set s. is_digit d \<or> d = CHR ''-'' \<or> d = CHR ''+''" by (auto simp: s split: if_splits)
  then show "ToLower s = s" by (rule ToLower_plain)
  show "hd s \<noteq> CHR ''(''" using t by (auto simp: s is_digit_def split: if_splits)
  show "s \<noteq> ''-inf''" "s \<noteq> ''+inf''" using t by (auto simp: s is_digit_def split: if_splits)
qed

end
