(* ===== verification/KvStore.thy ===== *)
theory KvStore
  imports GoStd
begin

text \<open>
  The ordered key-value store under the data-type layer (\<open>ledisdb/store\<close>): its contents as
  the list of entries in key order, reads and writes, write batches, and the range iterators
  of \<open>store/iterator.go\<close>. The locale \<open>ordered_kv\<close> is the contract a storage driver owes that
  layer; it is interpreted here on the entry list, which is the model's store.
\<close>

section \<open>Contents, reads and writes\<close>

type_synonym store = "(bytes \<times> bytes) list"

definition sget :: "store \<Rightarrow> bytes \<Rightarrow> bytes option" where
  "sget s k = map_of s k"

fun sput :: "bytes \<Rightarrow> bytes \<Rightarrow> store \<Rightarrow> store" where
  "sput k v [] = [(k, v)]"
| "sput k v ((a, b) # s) =
     (if k < a then (k, v) # (a, b) # s else if k = a then (k, v) # s else (a, b) # sput k v s)"

definition sdel :: "bytes \<Rightarrow> store \<Rightarrow> store" where
  "sdel k s = filter (\<lambda>p. fst p \<noteq> k) s"

definition store_ok :: "store \<Rightarrow> bool" where
  "store_ok s \<longleftrightarrow> sorted_wrt (<) (map fst s)"

lemma sget_Nil [store_simps, simp]: "sget [] k = None"
  by (simp add: sget_def)

lemma sget_sput [store_simps]: "sget (sput k v s) k' = (if k' = k then Some v else sget s k')"
  by (induction k v s rule: sput.induct) (auto simp: sget_def)

lemma sget_sdel [store_simps]: "sget (sdel k s) k' = (if k' = k then None else sget s k')"
  by (induction s) (auto simp: sget_def sdel_def)

lemma set_sput_keys: "fst ` set (sput k v s) = insert k (fst ` set s)"
  by (induction k v s rule: sput.induct) auto

lemma store_ok_sput [simp]: "store_ok s \<Longrightarrow> store_ok (sput k v s)"
proof (induction k v s rule: sput.induct)
  case (2 k v a b s)
  have "store_ok s" using "2.prems" by (simp add: store_ok_def)
  moreover have "\<forall>x \<in> fst ` set (sput k v s). a < x" if "a < k"
    using that "2.prems" by (auto simp: set_sput_keys store_ok_def)
  ultimately show ?case using 2 by (fastforce simp: store_ok_def)
qed (simp add: store_ok_def)

lemma store_ok_sdel [simp]: "store_ok s \<Longrightarrow> store_ok (sdel k s)"
  by (simp add: store_ok_def sdel_def sorted_wrt_map_filter)

lemma store_ok_Nil [simp]: "store_ok []"
  by (simp add: store_ok_def)

lemma store_ok_distinct: "store_ok s \<Longrightarrow> distinct (map fst s)"
  by (simp add: store_ok_def strict_sorted_iff)

lemma sget_eq_Some_iff: "store_ok s \<Longrightarrow> sget s k = Some v \<longleftrightarrow> (k, v) \<in> set s"
  by (simp add: sget_def store_ok_distinct)

section \<open>The contract of a storage driver\<close>

text \<open>
  What the data-type layer needs of a driver (\<open>store/driver\<close>, interface \<open>IDB\<close>): reads see
  the last write, and the iterator walks the entries in strictly increasing key order.
\<close>

datatype bop = BPut bytes bytes | BDel bytes

fun ops_map :: "bop list \<Rightarrow> (bytes \<rightharpoonup> bytes) \<Rightarrow> (bytes \<rightharpoonup> bytes)" where
  "ops_map [] m = m"
| "ops_map (BPut k v # ops) m = ops_map ops (m(k \<mapsto> v))"
| "ops_map (BDel k # ops) m = ops_map ops (m(k := None))"

locale ordered_kv =
  fixes get :: "'s \<Rightarrow> bytes \<Rightarrow> bytes option"
    and put :: "bytes \<Rightarrow> bytes \<Rightarrow> 's \<Rightarrow> 's"
    and del :: "bytes \<Rightarrow> 's \<Rightarrow> 's"
    and entries :: "'s \<Rightarrow> (bytes \<times> bytes) list"
    and ok :: "'s \<Rightarrow> bool"
  assumes get_put: "ok s \<Longrightarrow> get (put k v s) = (get s)(k \<mapsto> v)"
    and get_del: "ok s \<Longrightarrow> get (del k s) = (get s)(k := None)"
    and ok_put: "ok s \<Longrightarrow> ok (put k v s)"
    and ok_del: "ok s \<Longrightarrow> ok (del k s)"
    and entries_get: "ok s \<Longrightarrow> get s = map_of (entries s)"
    and entries_sorted: "ok s \<Longrightarrow> sorted_wrt (<) (map fst (entries s))"
begin

lemma mem_entries: "ok s \<Longrightarrow> (k, v) \<in> set (entries s) \<longleftrightarrow> get s k = Some v"
  using entries_sorted [of s] by (simp add: entries_get strict_sorted_iff)

lemma entries_by_keys: "ok s \<Longrightarrow> map (\<lambda>k. (k, the (get s k))) (map fst (entries s)) = entries s"
  using mem_entries [of s] by (auto intro!: map_idI)

lemma entries_determined:
  assumes "ok s" "ok t" "get s = get t"
  shows "entries s = entries t"
proof -
  have "set (entries s) = set (entries t)"
    using assms mem_entries by auto
  then have "map fst (entries s) = map fst (entries t)"
    using assms entries_sorted by (intro strict_sorted_equal) auto
  then show ?thesis using assms entries_by_keys by metis
qed

lemma batch_ok:
  "ok s \<Longrightarrow> ok (fold (\<lambda>op. case op of BPut k v \<Rightarrow> put k v | BDel k \<Rightarrow> del k) ops s)"
  by (induction ops arbitrary: s) (auto simp: ok_put ok_del split: bop.split)

lemma batch_get:
  "ok s \<Longrightarrow> get (fold (\<lambda>op. case op of BPut k v \<Rightarrow> put k v | BDel k \<Rightarrow> del k) ops s)
     = ops_map ops (get s)"
proof (induction ops arbitrary: s)
  case (Cons op ops)
  then show ?case by (cases op) (simp_all add: get_put get_del ok_put ok_del fun_upd_def)
qed simp

end

interpretation mem: ordered_kv sget sput sdel "\<lambda>s. s" store_ok
proof unfold_locales
  fix s k v assume "store_ok s"
  show "sget (sput k v s) = (sget s)(k \<mapsto> v)" by (rule ext) (simp add: sget_sput)
  show "sget (sdel k s) = (sget s)(k := None)" by (rule ext) (simp add: sget_sdel)
qed (auto simp: sget_def store_ok_def [symmetric])

section \<open>Write batches\<close>

text \<open>
  A batch collects puts and deletes and \<open>Commit\<close> applies them in order
  (\<open>ledis/batch.go\<close>, \<open>store/writebatch.go\<close>).
\<close>

definition apply_op :: "bop \<Rightarrow> store \<Rightarrow> store" where
  "apply_op op = (case op of BPut k v \<Rightarrow> sput k v | BDel k \<Rightarrow> sdel k)"

definition apply_batch :: "bop list \<Rightarrow> store \<Rightarrow> store" where
  "apply_batch ops s = fold apply_op ops s"

lemma apply_batch_simps [simp]:
  "apply_batch [] s = s"
  "apply_batch (BPut k v # ops) s = apply_batch ops (sput k v s)"
  "apply_batch (BDel k # ops) s = apply_batch ops (sdel k s)"
  by (simp_all add: apply_batch_def apply_op_def)

lemma apply_batch_append [simp]: "apply_batch (xs @ ys) s = apply_batch ys (apply_batch xs s)"
  by (simp add: apply_batch_def)

lemma store_ok_apply_batch [simp]: "store_ok s \<Longrightarrow> store_ok (apply_batch ops s)"
  using mem.batch_ok [of s ops] by (simp add: apply_batch_def apply_op_def [abs_def])

lemma sput_commute: "sput k v (sput k' v s) = sput k' v (sput k v s)"
  by (induction s) auto

text \<open>Puts of one value may come in any order.\<close>

lemma apply_batch_puts_set:
  assumes "distinct xs" "distinct ys" "set xs = set ys"
  shows "apply_batch (map (\<lambda>x. BPut (g x) v) xs) = apply_batch (map (\<lambda>x. BPut (g x) v) ys)"
proof -
  have "fold (apply_op \<circ> (\<lambda>x. BPut (g x) v)) xs = fold (apply_op \<circ> (\<lambda>x. BPut (g x) v)) ys"
    using assms by (intro fold_distinct_set) (simp_all add: apply_op_def fun_eq_iff sput_commute)
  then show ?thesis by (simp add: apply_batch_def [abs_def] fold_map)
qed

fun op_key :: "bop \<Rightarrow> bytes" where
  "op_key (BPut k v) = k"
| "op_key (BDel k) = k"

lemma sget_apply_batch_other:
  "k \<notin> op_key ` set ops \<Longrightarrow> sget (apply_batch ops s) k = sget s k"
proof (induction ops arbitrary: s)
  case (Cons op ops)
  then show ?case by (cases op) (auto simp: store_simps)
qed simp

lemma sget_apply_batch_deletes:
  "sget (apply_batch (map BDel ks) s) k = (if k \<in> set ks then None else sget s k)"
  by (induction ks arbitrary: s) (auto simp: store_simps)

section \<open>Range iterators\<close>

datatype rangeType = RangeClose | RangeLOpen | RangeROpen | RangeOpen

fun lopen :: "rangeType \<Rightarrow> bool" where
  "lopen RangeLOpen = True" | "lopen RangeOpen = True" | "lopen _ = False"

fun ropen :: "rangeType \<Rightarrow> bool" where
  "ropen RangeROpen = True" | "ropen RangeOpen = True" | "ropen _ = False"

text \<open>
  A \<open>RangeLimitIterator\<close> is modelled by the entries that the loop
  \<open>for ; it.Valid(); it.Next()\<close> visits. \<open>range_start\<close> is where \<open>rangeLimitIterator\<close> leaves
  the driver's iterator before the offset loop, as the entries still ahead of it in the
  direction of travel; \<open>range_valid\<close> is the bound \<open>Valid\<close> checks.
\<close>

definition range_start :: "store \<Rightarrow> bytes option \<Rightarrow> bytes option \<Rightarrow> rangeType \<Rightarrow> bool \<Rightarrow> store" where
  "range_start s rmin rmax rt backward =
     (if \<not> backward then
        (case rmin of
           None \<Rightarrow> s
         | Some m \<Rightarrow>
             (let at = dropWhile (\<lambda>p. fst p < m) s
              in if lopen rt \<and> at \<noteq> [] \<and> fst (hd at) = m then tl at else at))
      else
        (case rmax of
           None \<Rightarrow> rev s
         | Some m \<Rightarrow>
             (let before = takeWhile (\<lambda>p. fst p < m) s;
                  at = dropWhile (\<lambda>p. fst p < m) s;
                  pos = (if at = [] then rev s
                         else if fst (hd at) \<noteq> m then rev before
                         else hd at # rev before)
              in if ropen rt \<and> pos \<noteq> [] \<and> fst (hd pos) = m then tl pos else pos)))"

definition range_valid :: "bytes option \<Rightarrow> bytes option \<Rightarrow> rangeType \<Rightarrow> bool \<Rightarrow> bytes \<Rightarrow> bool" where
  "range_valid rmin rmax rt backward k =
     (if \<not> backward then
        (case rmax of None \<Rightarrow> True | Some m \<Rightarrow> if ropen rt then \<not> k \<ge> m else \<not> k > m)
      else
        (case rmin of None \<Rightarrow> True | Some m \<Rightarrow> if lopen rt then \<not> k \<le> m else \<not> k < m))"

definition rangeLimitIterator ::
  "store \<Rightarrow> bytes option \<Rightarrow> bytes option \<Rightarrow> rangeType \<Rightarrow> int \<Rightarrow> int \<Rightarrow> bool \<Rightarrow> store" where
  "rangeLimitIterator s rmin rmax rt offset count backward =
     (if offset < 0 then []
      else let ahead = drop (nat offset) (range_start s rmin rmax rt backward);
               limited = (if count \<ge> 0 then take (nat count) ahead else ahead)
           in takeWhile (\<lambda>p. range_valid rmin rmax rt backward (fst p)) limited)"

text \<open>\<open>Iterator.Find\<close>: seek to the key and read there if the key is equal.\<close>

definition it_Find :: "store \<Rightarrow> bytes \<Rightarrow> bytes option" where
  "it_Find s k =
     (case dropWhile (\<lambda>p. fst p < k) s of
        [] \<Rightarrow> None
      | p # _ \<Rightarrow> if fst p = k then Some (snd p) else None)"

subsection \<open>An iterator visits exactly the entries of its range\<close>

definition in_range :: "bytes option \<Rightarrow> bytes option \<Rightarrow> rangeType \<Rightarrow> bytes \<Rightarrow> bool" where
  "in_range rmin rmax rt k \<longleftrightarrow>
     (case rmin of None \<Rightarrow> True | Some m \<Rightarrow> if lopen rt then m < k else m \<le> k) \<and>
     (case rmax of None \<Rightarrow> True | Some m \<Rightarrow> if ropen rt then k < m else k \<le> m)"

definition limit :: "int \<Rightarrow> int \<Rightarrow> 'a list \<Rightarrow> 'a list" where
  "limit offset count xs =
     (if offset < 0 then []
      else let ys = drop (nat offset) xs in if count \<ge> 0 then take (nat count) ys else ys)"

lemma limit_all [simp]: "limit 0 (-1) xs = xs"
  by (simp add: limit_def)

lemma it_Find_eq_sget:
  assumes "store_ok s"
  shows "it_Find s k = sget s k"
  using assms
proof (induction s)
  case (Cons p s)
  have "sget s k = None" if "k < fst p"
    using that Cons.prems by (force simp: sget_def store_ok_def map_of_eq_None_iff)
  then show ?case using Cons
    by (cases p) (auto simp: it_Find_def sget_def store_ok_def)
qed (simp add: it_Find_def)

text \<open>Dropping a prefix and then keeping while a downward closed bound holds.\<close>

lemma takeWhile_drop_sorted:
  assumes "sorted_wrt R (map f xs)" and "\<And>a b. R a b \<Longrightarrow> P b \<Longrightarrow> P a"
  shows "takeWhile (\<lambda>x. P (f x)) (drop n xs) = drop n (filter (\<lambda>x. P (f x)) xs)"
  using assms(1)
proof (induction xs arbitrary: n)
  case (Cons x xs)
  have none: "filter (\<lambda>x. P (f x)) xs = []" if "\<not> P (f x)"
    using that Cons.prems assms(2) by (fastforce simp: filter_empty_conv)
  show ?case
  proof (cases n)
    case 0
    then show ?thesis using none Cons.IH [of 0] Cons.prems by auto
  next
    case (Suc m)
    then show ?thesis using none Cons by auto
  qed
qed simp

lemma takeWhile_take: "takeWhile P (take n xs) = take n (takeWhile P xs)"
  by (induction xs arbitrary: n) (auto simp: take_Cons split: nat.splits)

text \<open>The entries of a sorted store around a bound.\<close>

lemma store_split_at:
  assumes "store_ok s"
  obtains (none) "filter (\<lambda>p. m \<le> fst p) s = []" "filter (\<lambda>p. fst p < m) s = s"
      "filter (\<lambda>p. fst p \<le> m) s = s" "filter (\<lambda>p. m < fst p) s = []"
    | (above) a v at where "filter (\<lambda>p. m \<le> fst p) s = (a, v) # at" "a \<noteq> m"
      "filter (\<lambda>p. m < fst p) s = (a, v) # at" "filter (\<lambda>p. fst p \<le> m) s = filter (\<lambda>p. fst p < m) s"
    | (at) v at where "filter (\<lambda>p. m \<le> fst p) s = (m, v) # at" "filter (\<lambda>p. m < fst p) s = at"
      "filter (\<lambda>p. fst p \<le> m) s = filter (\<lambda>p. fst p < m) s @ [(m, v)]"
  using assms
proof (induction s arbitrary: thesis)
  case Nil
  then show ?case by simp
next
  case (Cons p s)
  obtain a v where p: "p = (a, v)" by force
  have ok: "store_ok s" and ge: "\<forall>q \<in> set s. a < fst q"
    using Cons.prems(4) by (simp_all add: p store_ok_def)
  consider "a < m" | "a = m" | "m < a" by (rule linorder_cases)
  then show ?case
  proof cases
    case 1
    then have "\<not> m \<le> a" "\<not> m < a" "a \<le> m" by auto
    with 1 Cons.prems(1-3) show ?thesis
      by - (rule Cons.IH [OF _ _ _ ok], simp_all add: p)
  next
    case 2
    have "filter (\<lambda>q. m \<le> fst q) s = s" "filter (\<lambda>q. m < fst q) s = s"
      "filter (\<lambda>q. fst q \<le> m) s = []" "filter (\<lambda>q. fst q < m) s = []"
      using ge 2 by (fastforce simp: filter_id_conv filter_empty_conv)+
    then show ?thesis using 2 by - (rule Cons.prems(3), auto simp: p)
  next
    case 3
    have "filter (\<lambda>q. m \<le> fst q) s = s" "filter (\<lambda>q. m < fst q) s = s"
      "filter (\<lambda>q. fst q \<le> m) s = []" "filter (\<lambda>q. fst q < m) s = []"
      using ge 3 by (fastforce simp: filter_id_conv filter_empty_conv)+
    then show ?thesis using 3 by - (rule Cons.prems(2), auto simp: p)
  qed
qed

lemma store_dropWhile: "store_ok s \<Longrightarrow> dropWhile (\<lambda>p. fst p < m) s = filter (\<lambda>p. m \<le> fst p) s"
  by (intro dropWhile_less_eq_filter) (simp add: store_ok_def)

lemma store_takeWhile: "store_ok s \<Longrightarrow> takeWhile (\<lambda>p. fst p < m) s = filter (\<lambda>p. fst p < m) s"
  using takeWhile_mono_eq_filter [of fst s "\<lambda>k. k < m"] by (simp add: store_ok_def)

lemma range_start_forward:
  assumes "store_ok s"
  shows "range_start s rmin rmax rt False
    = filter (\<lambda>p. case rmin of None \<Rightarrow> True | Some m \<Rightarrow> if lopen rt then m < fst p else m \<le> fst p) s"
proof (cases rmin)
  case (Some m)
  then show ?thesis
    by (cases rule: store_split_at [OF assms, of m]; cases "lopen rt")
      (auto simp: range_start_def store_dropWhile [OF assms])
qed (simp add: range_start_def)

lemma range_start_backward:
  assumes "store_ok s"
  shows "range_start s rmin rmax rt True
    = rev (filter (\<lambda>p. case rmax of None \<Rightarrow> True | Some m \<Rightarrow> if ropen rt then fst p < m else fst p \<le> m) s)"
proof (cases rmax)
  case (Some m)
  have hd_lt: "fst (hd (rev (filter (\<lambda>p. fst p < m) s))) \<noteq> m" if "filter (\<lambda>p. fst p < m) s \<noteq> []"
    using hd_in_set [of "rev (filter (\<lambda>p. fst p < m) s)"] that by auto
  from Some show ?thesis
    by (cases rule: store_split_at [OF assms, of m]; cases "ropen rt")
      (use hd_lt in \<open>auto simp: range_start_def Let_def store_dropWhile [OF assms] store_takeWhile [OF assms]\<close>)
qed (simp add: range_start_def)

lemma rangeLimitIterator_forward:
  assumes "store_ok s"
  shows "rangeLimitIterator s rmin rmax rt offset count False
    = limit offset count (filter (\<lambda>p. in_range rmin rmax rt (fst p)) s)"
proof -
  let ?L = "\<lambda>p. case rmin of None \<Rightarrow> True | Some m \<Rightarrow> if lopen rt then m < fst p else m \<le> fst p"
  have "takeWhile (\<lambda>p. range_valid rmin rmax rt False (fst p)) (drop n (filter ?L s))
     = drop n (filter (\<lambda>p. range_valid rmin rmax rt False (fst p)) (filter ?L s))" for n
    using assms
    by (intro takeWhile_drop_sorted
        [where f = fst and R = "(<)" and P = "range_valid rmin rmax rt False"])
      (auto simp: store_ok_def sorted_wrt_map_filter range_valid_def split: option.splits if_splits)
  moreover have "filter (\<lambda>p. range_valid rmin rmax rt False (fst p)) (filter ?L s)
     = filter (\<lambda>p. in_range rmin rmax rt (fst p)) s"
    by (auto intro!: filter_cong simp: range_valid_def in_range_def not_le not_less
        split: option.splits)
  ultimately show ?thesis
    by (simp add: rangeLimitIterator_def limit_def range_start_forward [OF assms] Let_def
        takeWhile_take)
qed

lemma rangeLimitIterator_backward:
  assumes "store_ok s"
  shows "rangeLimitIterator s rmin rmax rt offset count True
    = limit offset count (rev (filter (\<lambda>p. in_range rmin rmax rt (fst p)) s))"
proof -
  let ?U = "\<lambda>p. case rmax of None \<Rightarrow> True | Some m \<Rightarrow> if ropen rt then fst p < m else fst p \<le> m"
  let ?V = "\<lambda>p. range_valid rmin rmax rt True (fst p)"
  have srt: "sorted_wrt (>) (map fst (rev (filter ?U s)))"
    using assms
    by (simp only: rev_map [symmetric] sorted_wrt_rev)
      (simp add: store_ok_def sorted_wrt_map_filter)
  have anti: "range_valid rmin rmax rt True a" if "b < a" "range_valid rmin rmax rt True b" for a b
    using that by (auto simp: range_valid_def not_le not_less split: option.splits if_splits)
  have tw: "takeWhile ?V (drop n (rev (filter ?U s))) = drop n (filter ?V (rev (filter ?U s)))" for n
    by (rule takeWhile_drop_sorted [OF srt anti])
  have "filter ?V (filter ?U s) = filter (\<lambda>p. in_range rmin rmax rt (fst p)) s"
    by (auto intro!: filter_cong simp: range_valid_def in_range_def not_le not_less
        split: option.splits)
  then have "filter ?V (rev (filter ?U s)) = rev (filter (\<lambda>p. in_range rmin rmax rt (fst p)) s)"
    by (simp only: rev_filter [symmetric])
  with tw show ?thesis
    by (simp only: rangeLimitIterator_def limit_def range_start_backward [OF assms] Let_def
        takeWhile_take if_distrib [of "takeWhile ?V"])
qed

lemma filter_store_eq:
  assumes "store_ok s" "sorted_wrt (<) ks" "\<And>x. x \<in> set ks \<longleftrightarrow> P x \<and> sget s x \<noteq> None"
  shows "filter (\<lambda>p. P (fst p)) s = map (\<lambda>k. (k, the (sget s k))) ks"
proof -
  let ?f = "filter (\<lambda>p. P (fst p)) s"
  have k: "x \<in> set (map fst ?f) \<longleftrightarrow> P x \<and> sget s x \<noteq> None" for x
    using assms(1) by (force simp: sget_eq_Some_iff image_iff)
  have "sorted_wrt (<) (map fst ?f)" using assms(1) by (simp add: store_ok_def sorted_wrt_map_filter)
  moreover have "set (map fst ?f) = set ks" by (rule set_eqI) (simp only: k assms(3))
  ultimately have "map fst ?f = ks" using assms(2) by (intro strict_sorted_equal)
  moreover have "map (\<lambda>k. (k, the (sget s k))) (map fst ?f) = ?f"
    using assms(1) by (auto intro!: map_idI simp: sget_eq_Some_iff [symmetric])
  ultimately show ?thesis by simp
qed

lemma sget_apply_batch_cases:
  "sget (apply_batch ops st) x \<noteq> None \<Longrightarrow> sget st x \<noteq> None \<or> x \<in> op_key ` set ops"
  using sget_apply_batch_other by metis

text \<open>A batch of puts under distinct keys.\<close>

lemma sget_puts_hit:
  "inj_on f {..<n} \<Longrightarrow> i < n \<Longrightarrow> sget (apply_batch (map (\<lambda>i. BPut (f i) (g i)) [0..<n]) st) (f i) = Some (g i)"
proof (induction n)
  case (Suc n)
  then show ?case
    by (cases "i = n") (auto simp: store_simps inj_on_def lessThan_Suc)
qed simp

lemma sget_puts_miss:
  "\<forall>i < n. f i \<noteq> x \<Longrightarrow> sget (apply_batch (map (\<lambda>i. BPut (f i) (g i)) [0..<n]) st) x = sget st x"
  by (rule sget_apply_batch_other) auto

lemma sget_deletes:
  "store_ok st \<Longrightarrow> sget (apply_batch (map BDel xs) st) x = (if x \<in> set xs then None else sget st x)"
  by (induction xs arbitrary: st) (auto simp: store_simps)

lemma sget_apply_batch_cong: "sget s k = sget t k \<Longrightarrow> sget (apply_batch ops s) k = sget (apply_batch ops t) k"
proof (induction ops arbitrary: s t)
  case (Cons op ops)
  then show ?case by (cases op) (auto simp: store_simps)
qed simp

lemma length_sput: "length (sput k v s) \<le> Suc (length s)"
  by (induction k v s rule: sput.induct) auto

lemma length_apply_batch: "length (apply_batch ops s) \<le> length s + length ops"
proof (induction ops arbitrary: s)
  case (Cons op ops)
  show ?case
  proof (cases op)
    case (BPut k v)
    then show ?thesis using Cons [of "sput k v s"] length_sput [of k v s] by simp
  next
    case (BDel k)
    have "length (sdel k s) \<le> length s" by (simp add: sdel_def)
    then show ?thesis using BDel Cons [of "sdel k s"] by simp
  qed
qed simp

lemma fold_sput_sorted:
  assumes "sorted_wrt (<) (map fst s)"
  shows "fold (\<lambda>(k, v). sput k v) s [] = s"
proof -
  have "sput k v t = t @ [(k, v)]" if "\<forall>p \<in> set t. fst p < k" for t k v
    using that by (induction k v t rule: sput.induct) (auto dest: order.asym)
  then have "fold (\<lambda>(k, v). sput k v) s t = t @ s"
    if "sorted_wrt (<) (map fst (t @ s))" for t
    using that
  proof (induction s arbitrary: t)
    case (Cons p s)
    then have "\<forall>q \<in> set t. fst q < fst p" by (auto simp: sorted_wrt_append)
    then show ?case using Cons by (cases p) (simp add: sorted_wrt_append)
  qed simp
  from this [of "[]"] show ?thesis using assms by simp
qed

end
