(* ===== verification/LedisCore.thy ===== *)
theory LedisCore
  imports KvStore
begin

text \<open>
  The common part of the data-type layer (\<open>vendor/github.com/ledisdb/ledisdb/ledis\<close>, the fork
  the build uses): the database handle, the byte layout of the keys it stores, size checks,
  integers in values, the commit of a batch, and the expiry records of \<open>t_ttl.go\<close>.

  The state is the record \<open>ledisdb\<close>: the bucket (the ordered store), the database index as the
  key prefix, the read-only switch of the configuration, and the time of the next expiry check.
  The store itself never fails here: an operation's error is an error of the code modelled.
\<close>

section \<open>The database handle\<close>

record ledisdb =
  bucket :: store
  indexVarBuf :: bytes
  readonly :: bool
  nc :: int

text \<open>\<open>binary.PutUvarint\<close>, and the handle \<open>newDB\<close> makes for a database index.\<close>

fun PutUvarint :: "nat \<Rightarrow> bytes" where
  "PutUvarint n = (if n < 128 then [char_of n] else char_of (n mod 128 + 128) # PutUvarint (n div 128))"

declare PutUvarint.simps [simp del]

definition newDB :: "nat \<Rightarrow> store \<Rightarrow> ledisdb" where
  "newDB index s = \<lparr>bucket = s, indexVarBuf = PutUvarint index, readonly = False, nc = 0\<rparr>"

text \<open>\<open>batch.Commit\<close>.\<close>

definition Commit :: "bop list \<Rightarrow> ledisdb \<Rightarrow> unit result \<times> ledisdb" where
  "Commit t db =
     (if readonly db then (Inl errWriteInROnly, db)
      else (Inr (), db\<lparr>bucket := apply_batch t (bucket db)\<rparr>))"

abbreviation db_get :: "ledisdb \<Rightarrow> bytes \<Rightarrow> bytes option" where
  "db_get db k \<equiv> sget (bucket db) k"

section \<open>Type tags and limits (const.go)\<close>

abbreviation NoneType :: char where "NoneType \<equiv> CHR 0x00"
abbreviation KVType :: char where "KVType \<equiv> CHR 0x01"
abbreviation HashType :: char where "HashType \<equiv> CHR 0x02"
abbreviation HSizeType :: char where "HSizeType \<equiv> CHR 0x03"
abbreviation ListType :: char where "ListType \<equiv> CHR 0x04"
abbreviation LMetaType :: char where "LMetaType \<equiv> CHR 0x05"
abbreviation ZSetType :: char where "ZSetType \<equiv> CHR 0x06"
abbreviation ZSizeType :: char where "ZSizeType \<equiv> CHR 0x07"
abbreviation ZScoreType :: char where "ZScoreType \<equiv> CHR 0x08"
abbreviation SetType :: char where "SetType \<equiv> CHR 0x0B"
abbreviation SSizeType :: char where "SSizeType \<equiv> CHR 0x0C"
abbreviation maxDataType :: char where "maxDataType \<equiv> CHR 0x64"
abbreviation ExpMetaType :: char where "ExpMetaType \<equiv> CHR 0x66"
abbreviation ExpTimeType :: char where "ExpTimeType \<equiv> CHR 0x67"

abbreviation MaxKeySize :: nat where "MaxKeySize \<equiv> 1024"
abbreviation MaxHashFieldSize :: nat where "MaxHashFieldSize \<equiv> 1024"
abbreviation MaxZSetMemberSize :: nat where "MaxZSetMemberSize \<equiv> 1024"
abbreviation MaxSetMemberSize :: nat where "MaxSetMemberSize \<equiv> 1024"
abbreviation MaxValueSize :: nat where "MaxValueSize \<equiv> 1073741824"

definition checkKeySize :: "bytes \<Rightarrow> unit result" where
  "checkKeySize key = (if length key > MaxKeySize \<or> length key = 0 then Inl errKeySize else Inr ())"

definition checkValueSize :: "bytes \<Rightarrow> unit result" where
  "checkValueSize v = (if length v > MaxValueSize then Inl errValueSize else Inr ())"

definition checkHashKFSize :: "bytes \<Rightarrow> bytes \<Rightarrow> unit result" where
  "checkHashKFSize key field =
     (if length key > MaxKeySize \<or> length key = 0 then Inl errKeySize
      else if length field > MaxHashFieldSize \<or> length field = 0 then Inl errHashFieldSize
      else Inr ())"

definition checkSetKMSize :: "bytes \<Rightarrow> bytes \<Rightarrow> unit result" where
  "checkSetKMSize key member =
     (if length key > MaxKeySize \<or> length key = 0 then Inl errKeySize
      else if length member > MaxSetMemberSize \<or> length member = 0 then Inl errSetMemberSize
      else Inr ())"

definition checkZSetKMSize :: "bytes \<Rightarrow> bytes \<Rightarrow> unit result" where
  "checkZSetKMSize key member =
     (if length key > MaxKeySize \<or> length key = 0 then Inl errKeySize
      else if length member > MaxZSetMemberSize \<or> length member = 0 then Inl errZSetMemberSize
      else Inr ())"

definition key_ok :: "bytes \<Rightarrow> bool" where
  "key_ok key \<longleftrightarrow> key \<noteq> [] \<and> length key \<le> 1024"

lemma checkKeySize_eq: "checkKeySize key = (if key_ok key then Inr () else Inl errKeySize)"
  by (auto simp: checkKeySize_def key_ok_def)

lemma checkKeySize_ok [simp]: "key_ok key \<Longrightarrow> checkKeySize key = Inr ()"
  by (simp add: checkKeySize_eq)

lemma checkHashKFSize_ok [simp]: "key_ok key \<Longrightarrow> key_ok f \<Longrightarrow> checkHashKFSize key f = Inr ()"
  by (simp add: checkHashKFSize_def key_ok_def)

lemma checkSetKMSize_ok [simp]: "key_ok key \<Longrightarrow> key_ok f \<Longrightarrow> checkSetKMSize key f = Inr ()"
  by (simp add: checkSetKMSize_def key_ok_def)

lemma checkZSetKMSize_ok [simp]: "key_ok key \<Longrightarrow> key_ok f \<Longrightarrow> checkZSetKMSize key f = Inr ()"
  by (simp add: checkZSetKMSize_def key_ok_def)

lemma key_ok_length [dest]: "key_ok key \<Longrightarrow> length key < 65536"
  by (simp add: key_ok_def)

section \<open>Integers in values (util.go)\<close>

text \<open>Two's complement of a 64-bit and of a 32-bit pattern.\<close>

definition uint64 :: "int \<Rightarrow> nat" where
  "uint64 i = nat (i mod 18446744073709551616)"

definition uint32 :: "int \<Rightarrow> nat" where
  "uint32 i = nat (i mod 4294967296)"

definition Int64 :: "bytes option \<Rightarrow> int result" where
  "Int64 v =
     (case v of
        None \<Rightarrow> Inr 0
      | Some b \<Rightarrow> if length b = 0 then Inr 0
                  else if length b \<noteq> 8 then Inl errIntNumber
                  else Inr (wrap64 (int (le_nat b))))"

definition PutInt64 :: "int \<Rightarrow> bytes" where
  "PutInt64 v = le_bytes 8 (uint64 v)"

definition StrInt64 :: "bytes option \<Rightarrow> int result" where
  "StrInt64 v = (case v of None \<Rightarrow> Inr 0 | Some b \<Rightarrow> ParseInt b)"

lemma length_PutInt64 [simp]: "length (PutInt64 v) = 8"
  by (simp add: PutInt64_def)

lemma uint64_less: "uint64 i < 256 ^ 8"
  by (simp add: uint64_def nat_less_iff)

lemma uint32_less: "uint32 i < 256 ^ 4"
  by (simp add: uint32_def nat_less_iff)

lemma wrap64_uint64 [simp]: "wrap64 (int (uint64 i)) = wrap64 i"
  by (simp add: wrap64_def uint64_def mod_add_left_eq)

lemma wrap32_uint32 [simp]: "wrap32 (int (uint32 i)) = wrap32 i"
  by (simp add: wrap32_def uint32_def mod_add_left_eq)

lemma Int64_PutInt64 [simp]: "Int64 (Some (PutInt64 v)) = Inr (wrap64 v)"
  using uint64_less [of v] by (simp add: Int64_def PutInt64_def le_nat_le_bytes)

lemma Int64_None [simp]: "Int64 None = Inr 0"
  by (simp add: Int64_def)

lemma uint64_inj: "is_int64 a \<Longrightarrow> is_int64 b \<Longrightarrow> uint64 a = uint64 b \<longleftrightarrow> a = b"
  by (metis wrap64_uint64 wrap64_id)

lemma uint32_inj: "is_int32 a \<Longrightarrow> is_int32 b \<Longrightarrow> uint32 a = uint32 b \<longleftrightarrow> a = b"
  by (metis wrap32_uint32 wrap32_id)

lemma StrInt64_simps [simp]:
  "StrInt64 None = Inr 0"
  "is_int64 n \<Longrightarrow> StrInt64 (Some (FormatInt n)) = Inr n"
  by (simp_all add: StrInt64_def ParseInt_FormatInt)

lemma is_int32_64 [simp]: "is_int32 i \<Longrightarrow> is_int64 i"
  by (simp add: is_int32_def is_int64_def)

section \<open>Key layout\<close>

text \<open>\<open>checkKeyIndex\<close> returns the length of the prefix.\<close>

definition checkKeyIndex :: "ledisdb \<Rightarrow> bytes \<Rightarrow> nat result" where
  "checkKeyIndex db buf =
     (if length buf < length (indexVarBuf db) then Inl (ErrText ''key is too small'')
      else if indexVarBuf db \<noteq> take (length (indexVarBuf db)) buf
        then Inl (ErrText ''invalid db index'')
      else Inr (length (indexVarBuf db)))"

text \<open>Keys of the form prefix, tag, key: the value of a string and the size records.\<close>

definition encodeKVKey :: "ledisdb \<Rightarrow> bytes \<Rightarrow> bytes" where
  "encodeKVKey db key = indexVarBuf db @ KVType # key"

definition lEncodeMetaKey :: "ledisdb \<Rightarrow> bytes \<Rightarrow> bytes" where
  "lEncodeMetaKey db key = indexVarBuf db @ LMetaType # key"

definition hEncodeSizeKey :: "ledisdb \<Rightarrow> bytes \<Rightarrow> bytes" where
  "hEncodeSizeKey db key = indexVarBuf db @ HSizeType # key"

definition sEncodeSizeKey :: "ledisdb \<Rightarrow> bytes \<Rightarrow> bytes" where
  "sEncodeSizeKey db key = indexVarBuf db @ SSizeType # key"

definition zEncodeSizeKey :: "ledisdb \<Rightarrow> bytes \<Rightarrow> bytes" where
  "zEncodeSizeKey db key = indexVarBuf db @ ZSizeType # key"

definition decode_tagged :: "ledisdb \<Rightarrow> char \<Rightarrow> gerr \<Rightarrow> bytes \<Rightarrow> bytes result" where
  "decode_tagged db tag err ek =
     rbind (checkKeyIndex db ek) (\<lambda>pos.
       if pos + 1 > length ek \<or> ek ! pos \<noteq> tag then Inl err else Inr (drop (pos + 1) ek))"

definition decodeKVKey :: "ledisdb \<Rightarrow> bytes \<Rightarrow> bytes result" where
  "decodeKVKey db ek = decode_tagged db KVType errKVKey ek"

definition lDecodeMetaKey :: "ledisdb \<Rightarrow> bytes \<Rightarrow> bytes result" where
  "lDecodeMetaKey db ek = decode_tagged db LMetaType errLMetaKey ek"

definition hDecodeSizeKey :: "ledisdb \<Rightarrow> bytes \<Rightarrow> bytes result" where
  "hDecodeSizeKey db ek = decode_tagged db HSizeType errHSizeKey ek"

definition sDecodeSizeKey :: "ledisdb \<Rightarrow> bytes \<Rightarrow> bytes result" where
  "sDecodeSizeKey db ek = decode_tagged db SSizeType errSSizeKey ek"

definition zDecodeSizeKey :: "ledisdb \<Rightarrow> bytes \<Rightarrow> bytes result" where
  "zDecodeSizeKey db ek = decode_tagged db ZSizeType errZSizeKey ek"

lemmas size_key_defs = encodeKVKey_def lEncodeMetaKey_def hEncodeSizeKey_def
  sEncodeSizeKey_def zEncodeSizeKey_def

lemmas size_decode_defs = decodeKVKey_def lDecodeMetaKey_def hDecodeSizeKey_def
  sDecodeSizeKey_def zDecodeSizeKey_def

lemma decode_tagged_append [codec]:
  "decode_tagged db tag err (indexVarBuf db @ t # key) = (if t = tag then Inr key else Inl err)"
  by (simp add: decode_tagged_def checkKeyIndex_def)

text \<open>Keys of the form prefix, tag, 16-bit length, key, rest: the elements of a container.\<close>

definition elem_key :: "ledisdb \<Rightarrow> char \<Rightarrow> bytes \<Rightarrow> bytes \<Rightarrow> bytes" where
  "elem_key db tag key rest = indexVarBuf db @ tag # be_bytes 2 (length key) @ key @ rest"

lemma elem_key_inj [codec]:
  assumes "length k < 65536" "length k' < 65536"
  shows "elem_key db t k r = elem_key db t' k' r' \<longleftrightarrow> t = t' \<and> k = k' \<and> r = r'"
proof
  assume *: "elem_key db t k r = elem_key db t' k' r'"
  then have "be_bytes 2 (length k) @ k @ r = be_bytes 2 (length k') @ k' @ r'"
    by (simp add: elem_key_def)
  then have "be_bytes 2 (length k) = be_bytes 2 (length k')" and kr: "k @ r = k' @ r'"
    by simp_all
  then have "length k = length k'"
    using assms by (simp add: be_bytes_inj)
  with * kr show "t = t' \<and> k = k' \<and> r = r'" by (simp add: elem_key_def)
qed simp

definition lEncodeListKey :: "ledisdb \<Rightarrow> bytes \<Rightarrow> int \<Rightarrow> bytes" where
  "lEncodeListKey db key seq = elem_key db ListType key (be_bytes 4 (uint32 seq))"

definition hEncodeHashKey :: "ledisdb \<Rightarrow> bytes \<Rightarrow> bytes \<Rightarrow> bytes" where
  "hEncodeHashKey db key field = elem_key db HashType key (CHR '':'' # field)"

definition sEncodeSetKey :: "ledisdb \<Rightarrow> bytes \<Rightarrow> bytes \<Rightarrow> bytes" where
  "sEncodeSetKey db key member = elem_key db SetType key (CHR '':'' # member)"

definition zEncodeSetKey :: "ledisdb \<Rightarrow> bytes \<Rightarrow> bytes \<Rightarrow> bytes" where
  "zEncodeSetKey db key member = elem_key db ZSetType key (CHR '':'' # member)"

definition zEncodeScoreKey :: "ledisdb \<Rightarrow> bytes \<Rightarrow> bytes \<Rightarrow> int \<Rightarrow> bytes" where
  "zEncodeScoreKey db key member score =
     elem_key db ZScoreType key
       ((if score < 0 then CHR ''<'' else CHR ''='') # be_bytes 8 (uint64 score) @ CHR '':'' # member)"

lemmas elem_key_defs = lEncodeListKey_def hEncodeHashKey_def sEncodeSetKey_def
  zEncodeSetKey_def zEncodeScoreKey_def

text \<open>
  Decoding reads the length, then the key; what follows is the container's business.
  \<open>elem_split\<close> is the part the decoders of hash and set keys share.
\<close>

definition elem_split :: "ledisdb \<Rightarrow> char \<Rightarrow> gerr \<Rightarrow> bytes \<Rightarrow> (bytes \<times> bytes) result" where
  "elem_split db tag err ek =
     rbind (checkKeyIndex db ek) (\<lambda>pos.
       if pos + 1 > length ek \<or> ek ! pos \<noteq> tag then Inl err
       else if pos + 3 > length ek then Inl err
       else let keyLen = be_nat (take 2 (drop (pos + 1) ek))
            in if keyLen + (pos + 3) > length ek then Inl err
               else Inr (take keyLen (drop (pos + 3) ek), drop keyLen (drop (pos + 3) ek)))"

definition decode_member :: "ledisdb \<Rightarrow> char \<Rightarrow> gerr \<Rightarrow> bytes \<Rightarrow> (bytes \<times> bytes) result" where
  "decode_member db tag err ek =
     rbind (elem_split db tag err ek) (\<lambda>(key, rest).
       case rest of
         [] \<Rightarrow> Inl Panic
       | c # field \<Rightarrow> if c \<noteq> CHR '':'' then Inl err else Inr (key, field))"

definition hDecodeHashKey :: "ledisdb \<Rightarrow> bytes \<Rightarrow> (bytes \<times> bytes) result" where
  "hDecodeHashKey db ek = decode_member db HashType errHashKey ek"

definition sDecodeSetKey :: "ledisdb \<Rightarrow> bytes \<Rightarrow> (bytes \<times> bytes) result" where
  "sDecodeSetKey db ek = decode_member db SetType errSetKey ek"

lemma elem_split_elem_key [codec]:
  assumes "length key < 65536"
  shows "elem_split db tag err (elem_key db t key rest)
     = (if t = tag then Inr (key, rest) else Inl err)"
  using assms
  by (simp add: elem_split_def elem_key_def checkKeyIndex_def nth_append be_nat_be_bytes Let_def)

lemma hDecodeHashKey_encode [codec]:
  "length key < 65536 \<Longrightarrow> hDecodeHashKey db (hEncodeHashKey db key field) = Inr (key, field)"
  by (simp add: hDecodeHashKey_def hEncodeHashKey_def decode_member_def elem_split_elem_key)

lemma sDecodeSetKey_encode [codec]:
  "length key < 65536 \<Longrightarrow> sDecodeSetKey db (sEncodeSetKey db key m) = Inr (key, m)"
  by (simp add: sDecodeSetKey_def sEncodeSetKey_def decode_member_def elem_split_elem_key)

section \<open>Expiry records (t_ttl.go)\<close>

text \<open>
  An expiring key has two records: under the meta key the time, and under the time key, which
  sorts by time, the meta key. The clock \<open>now\<close> is \<open>time.Now().Unix()\<close>, an argument.
\<close>

definition expEncodeTimeKey :: "ledisdb \<Rightarrow> char \<Rightarrow> bytes \<Rightarrow> int \<Rightarrow> bytes" where
  "expEncodeTimeKey db dataType key when =
     indexVarBuf db @ ExpTimeType # be_bytes 8 (uint64 when) @ dataType # key"

definition expEncodeMetaKey :: "ledisdb \<Rightarrow> char \<Rightarrow> bytes \<Rightarrow> bytes" where
  "expEncodeMetaKey db dataType key = indexVarBuf db @ ExpMetaType # dataType # key"

definition expDecodeTimeKey :: "ledisdb \<Rightarrow> bytes \<Rightarrow> (char \<times> bytes \<times> int) result" where
  "expDecodeTimeKey db tk =
     rbind (checkKeyIndex db tk) (\<lambda>pos.
       if pos + 10 > length tk \<or> tk ! pos \<noteq> ExpTimeType then Inl errExpTimeKey
       else Inr (tk ! (pos + 9), drop (pos + 10) tk,
                 wrap64 (int (be_nat (take 8 (drop (pos + 1) tk))))))"

definition setNextCheckTime :: "int \<Rightarrow> bool \<Rightarrow> ledisdb \<Rightarrow> ledisdb" where
  "setNextCheckTime when force db =
     (if force then db\<lparr>nc := when\<rparr> else if nc db > when then db\<lparr>nc := when\<rparr> else db)"

text \<open>
  \<open>expireAt\<close> and \<open>rmExpire\<close> add to the current batch; they return what they add. \<open>expireAt\<close>
  also moves the next check, at once and not on commit.
\<close>

definition expireAt_ops :: "ledisdb \<Rightarrow> char \<Rightarrow> bytes \<Rightarrow> int \<Rightarrow> bop list" where
  "expireAt_ops db dataType key when =
     (let mk = expEncodeMetaKey db dataType key; tk = expEncodeTimeKey db dataType key when
      in [BPut tk mk, BPut mk (PutInt64 when)])"

definition rmExpire :: "ledisdb \<Rightarrow> char \<Rightarrow> bytes \<Rightarrow> (int \<times> bop list) result" where
  "rmExpire db dataType key =
     (let mk = expEncodeMetaKey db dataType key
      in case db_get db mk of
           None \<Rightarrow> Inr (0, [])
         | Some v \<Rightarrow>
             rbind (Int64 (Some v)) (\<lambda>when.
               Inr (1, [BDel mk, BDel (expEncodeTimeKey db dataType key when)])))"

text \<open>What the callers that ignore \<open>rmExpire\<close>'s error add to their batch.\<close>

definition rmExpire_ops :: "ledisdb \<Rightarrow> char \<Rightarrow> bytes \<Rightarrow> bop list" where
  "rmExpire_ops db dataType key =
     (case rmExpire db dataType key of Inl e \<Rightarrow> [] | Inr (n, ops) \<Rightarrow> ops)"

definition ttl :: "ledisdb \<Rightarrow> int \<Rightarrow> char \<Rightarrow> bytes \<Rightarrow> int result" where
  "ttl db now dataType key =
     rbind (Int64 (db_get db (expEncodeMetaKey db dataType key))) (\<lambda>t.
       if t = 0 then Inr (-1)
       else let d = wrap64 (t - now) in Inr (if d \<le> 0 then -1 else d))"

text \<open>
  Setting an expiry, as \<open>setExpireAt\<close>, \<open>lExpireAt\<close>, \<open>hExpireAt\<close> and \<open>sExpireAt\<close> do after they
  have found that the key exists.
\<close>

definition commit_expireAt :: "char \<Rightarrow> bytes \<Rightarrow> int \<Rightarrow> ledisdb \<Rightarrow> int result \<times> ledisdb" where
  "commit_expireAt dataType key when db =
     sbind (Commit (expireAt_ops db dataType key when) (setNextCheckTime when False db))
       (\<lambda>_ db. (Inr 1, db))"

definition commit_persist :: "char \<Rightarrow> bytes \<Rightarrow> ledisdb \<Rightarrow> int result \<times> ledisdb" where
  "commit_persist dataType key db =
     sbind (lift_r (checkKeySize key) db) (\<lambda>_ db.
     sbind (lift_r (rmExpire db dataType key) db) (\<lambda>(n, ops) db.
     sbind (Commit ops db) (\<lambda>_ db. (Inr n, db))))"

lemmas exp_key_defs = expEncodeTimeKey_def expEncodeMetaKey_def

lemma rmExpire_op_keys:
  "op \<in> set (rmExpire_ops db dt key) \<Longrightarrow>
     (\<exists>when. op_key op = expEncodeTimeKey db dt key when) \<or> op_key op = expEncodeMetaKey db dt key"
  by (auto simp: rmExpire_ops_def rmExpire_def Let_def rbind_def
      split: option.splits sum.splits)

lemma expDecodeTimeKey_encode [codec]:
  "expDecodeTimeKey db (expEncodeTimeKey db dt key w) = Inr (dt, key, wrap64 w)"
  using uint64_less [of w]
  by (simp add: expDecodeTimeKey_def expEncodeTimeKey_def checkKeyIndex_def nth_append
      be_nat_be_bytes)

section \<open>Laws of a commit\<close>

lemma Commit_ok [simp]:
  "\<not> readonly db \<Longrightarrow> Commit t db = (Inr (), db\<lparr>bucket := apply_batch t (bucket db)\<rparr>)"
  by (simp add: Commit_def)

lemma Commit_readonly [simp]: "readonly db \<Longrightarrow> Commit t db = (Inl errWriteInROnly, db)"
  by (simp add: Commit_def)

lemma setNextCheckTime_sel [simp]:
  "bucket (setNextCheckTime w f db) = bucket db"
  "indexVarBuf (setNextCheckTime w f db) = indexVarBuf db"
  "readonly (setNextCheckTime w f db) = readonly db"
  by (simp_all add: setNextCheckTime_def)

text \<open>Encodings depend on the handle only through its prefix.\<close>

lemma encode_bucket_update [simp]:
  "encodeKVKey (db\<lparr>bucket := s\<rparr>) = encodeKVKey db"
  "lEncodeMetaKey (db\<lparr>bucket := s\<rparr>) = lEncodeMetaKey db"
  "hEncodeSizeKey (db\<lparr>bucket := s\<rparr>) = hEncodeSizeKey db"
  "sEncodeSizeKey (db\<lparr>bucket := s\<rparr>) = sEncodeSizeKey db"
  "zEncodeSizeKey (db\<lparr>bucket := s\<rparr>) = zEncodeSizeKey db"
  "lEncodeListKey (db\<lparr>bucket := s\<rparr>) = lEncodeListKey db"
  "hEncodeHashKey (db\<lparr>bucket := s\<rparr>) = hEncodeHashKey db"
  "sEncodeSetKey (db\<lparr>bucket := s\<rparr>) = sEncodeSetKey db"
  "zEncodeSetKey (db\<lparr>bucket := s\<rparr>) = zEncodeSetKey db"
  "zEncodeScoreKey (db\<lparr>bucket := s\<rparr>) = zEncodeScoreKey db"
  "expEncodeTimeKey (db\<lparr>bucket := s\<rparr>) = expEncodeTimeKey db"
  "expEncodeMetaKey (db\<lparr>bucket := s\<rparr>) = expEncodeMetaKey db"
  by (simp_all add: size_key_defs elem_key_defs exp_key_defs elem_key_def fun_eq_iff)

lemma encode_nc_update [simp]:
  "encodeKVKey (setNextCheckTime w f db) = encodeKVKey db"
  "lEncodeMetaKey (setNextCheckTime w f db) = lEncodeMetaKey db"
  "hEncodeSizeKey (setNextCheckTime w f db) = hEncodeSizeKey db"
  "sEncodeSizeKey (setNextCheckTime w f db) = sEncodeSizeKey db"
  "zEncodeSizeKey (setNextCheckTime w f db) = zEncodeSizeKey db"
  "lEncodeListKey (setNextCheckTime w f db) = lEncodeListKey db"
  "hEncodeHashKey (setNextCheckTime w f db) = hEncodeHashKey db"
  "sEncodeSetKey (setNextCheckTime w f db) = sEncodeSetKey db"
  "zEncodeSetKey (setNextCheckTime w f db) = zEncodeSetKey db"
  "zEncodeScoreKey (setNextCheckTime w f db) = zEncodeScoreKey db"
  "expEncodeTimeKey (setNextCheckTime w f db) = expEncodeTimeKey db"
  "expEncodeMetaKey (setNextCheckTime w f db) = expEncodeMetaKey db"
  by (simp_all add: size_key_defs elem_key_defs exp_key_defs elem_key_def fun_eq_iff)

text \<open>Keys of different kinds never coincide: their tags differ.\<close>

lemma keys_disjoint [simp]:
  "encodeKVKey db k \<noteq> expEncodeMetaKey db dt k'" "expEncodeMetaKey db dt k' \<noteq> encodeKVKey db k"
  "encodeKVKey db k \<noteq> expEncodeTimeKey db dt k' w" "expEncodeTimeKey db dt k' w \<noteq> encodeKVKey db k"
  "lEncodeMetaKey db k \<noteq> expEncodeMetaKey db dt k'" "expEncodeMetaKey db dt k' \<noteq> lEncodeMetaKey db k"
  "lEncodeMetaKey db k \<noteq> expEncodeTimeKey db dt k' w" "expEncodeTimeKey db dt k' w \<noteq> lEncodeMetaKey db k"
  "lEncodeListKey db k i \<noteq> expEncodeMetaKey db dt k'" "expEncodeMetaKey db dt k' \<noteq> lEncodeListKey db k i"
  "lEncodeListKey db k i \<noteq> expEncodeTimeKey db dt k' w" "expEncodeTimeKey db dt k' w \<noteq> lEncodeListKey db k i"
  "lEncodeListKey db k i \<noteq> lEncodeMetaKey db k''" "lEncodeMetaKey db k'' \<noteq> lEncodeListKey db k i"
  "hEncodeSizeKey db k \<noteq> expEncodeMetaKey db dt k'" "expEncodeMetaKey db dt k' \<noteq> hEncodeSizeKey db k"
  "hEncodeSizeKey db k \<noteq> expEncodeTimeKey db dt k' w" "expEncodeTimeKey db dt k' w \<noteq> hEncodeSizeKey db k"
  "hEncodeHashKey db k f \<noteq> expEncodeMetaKey db dt k'" "expEncodeMetaKey db dt k' \<noteq> hEncodeHashKey db k f"
  "hEncodeHashKey db k f \<noteq> expEncodeTimeKey db dt k' w" "expEncodeTimeKey db dt k' w \<noteq> hEncodeHashKey db k f"
  "hEncodeHashKey db k f \<noteq> hEncodeSizeKey db k''" "hEncodeSizeKey db k'' \<noteq> hEncodeHashKey db k f"
  "sEncodeSizeKey db k \<noteq> expEncodeMetaKey db dt k'" "expEncodeMetaKey db dt k' \<noteq> sEncodeSizeKey db k"
  "sEncodeSizeKey db k \<noteq> expEncodeTimeKey db dt k' w" "expEncodeTimeKey db dt k' w \<noteq> sEncodeSizeKey db k"
  "sEncodeSetKey db k f \<noteq> expEncodeMetaKey db dt k'" "expEncodeMetaKey db dt k' \<noteq> sEncodeSetKey db k f"
  "sEncodeSetKey db k f \<noteq> expEncodeTimeKey db dt k' w" "expEncodeTimeKey db dt k' w \<noteq> sEncodeSetKey db k f"
  "sEncodeSetKey db k f \<noteq> sEncodeSizeKey db k''" "sEncodeSizeKey db k'' \<noteq> sEncodeSetKey db k f"
  "expEncodeMetaKey db dt k \<noteq> expEncodeTimeKey db dt' k' w" "expEncodeTimeKey db dt' k' w \<noteq> expEncodeMetaKey db dt k"
  by (simp_all add: size_key_defs elem_key_defs exp_key_defs elem_key_def)

lemma size_keys_inj [codec]:
  "encodeKVKey db k = encodeKVKey db k' \<longleftrightarrow> k = k'"
  "lEncodeMetaKey db k = lEncodeMetaKey db k' \<longleftrightarrow> k = k'"
  "hEncodeSizeKey db k = hEncodeSizeKey db k' \<longleftrightarrow> k = k'"
  "sEncodeSizeKey db k = sEncodeSizeKey db k' \<longleftrightarrow> k = k'"
  "zEncodeSizeKey db k = zEncodeSizeKey db k' \<longleftrightarrow> k = k'"
  "expEncodeMetaKey db dt k = expEncodeMetaKey db dt' k' \<longleftrightarrow> dt = dt' \<and> k = k'"
  by (simp_all add: size_key_defs exp_key_defs)

section \<open>Which data type owns a record\<close>

text \<open>
  Every stored key belongs to one data type: by its tag, or, for an expiry record, by the type
  byte it carries. An operation of one data type must leave the records of the others alone;
  \<open>keeps T\<close> is that contract, for an operation of type \<open>T\<close>.
\<close>

definition type_of_tag :: "char \<Rightarrow> char option" where
  "type_of_tag t =
     (if t = KVType then Some KVType
      else if t = HashType \<or> t = HSizeType then Some HashType
      else if t = ListType \<or> t = LMetaType then Some ListType
      else if t = ZSetType \<or> t = ZSizeType \<or> t = ZScoreType then Some ZSetType
      else if t = SetType \<or> t = SSizeType then Some SetType
      else None)"

definition owner_tail :: "bytes \<Rightarrow> char option" where
  "owner_tail r =
     (case r of
        [] \<Rightarrow> None
      | t # r' \<Rightarrow>
          if t = ExpMetaType then (case r' of [] \<Rightarrow> None | dt # _ \<Rightarrow> Some dt)
          else if t = ExpTimeType then (case drop 8 r' of [] \<Rightarrow> None | dt # _ \<Rightarrow> Some dt)
          else type_of_tag t)"

definition owner :: "ledisdb \<Rightarrow> bytes \<Rightarrow> char option" where
  "owner db k =
     (let n = length (indexVarBuf db)
      in if take n k = indexVarBuf db then owner_tail (drop n k) else None)"

lemma owner_simps [simp]:
  "owner db (encodeKVKey db k) = Some KVType"
  "owner db (lEncodeMetaKey db k) = Some ListType"
  "owner db (lEncodeListKey db k i) = Some ListType"
  "owner db (hEncodeSizeKey db k) = Some HashType"
  "owner db (hEncodeHashKey db k f) = Some HashType"
  "owner db (sEncodeSizeKey db k) = Some SetType"
  "owner db (sEncodeSetKey db k f) = Some SetType"
  "owner db (zEncodeSizeKey db k) = Some ZSetType"
  "owner db (zEncodeSetKey db k f) = Some ZSetType"
  "owner db (zEncodeScoreKey db k f w) = Some ZSetType"
  "owner db (expEncodeMetaKey db dt k) = Some dt"
  "owner db (expEncodeTimeKey db dt k w) = Some dt"
  by (simp_all add: owner_def owner_tail_def type_of_tag_def size_key_defs elem_key_defs
      exp_key_defs elem_key_def)

definition keeps :: "char \<Rightarrow> ledisdb \<Rightarrow> ledisdb \<Rightarrow> bool" where
  "keeps T db db' \<longleftrightarrow>
     indexVarBuf db' = indexVarBuf db \<and> readonly db' = readonly db \<and>
     (store_ok (bucket db) \<longrightarrow> store_ok (bucket db')) \<and>
     (\<forall>k. owner db k \<noteq> Some T \<longrightarrow> db_get db' k = db_get db k)"

lemma keeps_refl [simp, intro]: "keeps T db db"
  by (simp add: keeps_def)

lemma owner_cong: "indexVarBuf db' = indexVarBuf db \<Longrightarrow> owner db' = owner db"
  by (simp add: owner_def fun_eq_iff)

lemma owner_update [simp]:
  "owner (setNextCheckTime w f db) = owner db"
  "owner (db\<lparr>bucket := s\<rparr>) = owner db"
  by (rule owner_cong; simp)+

lemma keeps_trans:
  assumes "keeps T a b" "keeps T b c"
  shows "keeps T a c"
proof -
  have "owner b = owner a" using assms(1) by (intro owner_cong) (simp add: keeps_def)
  then show ?thesis using assms by (simp add: keeps_def)
qed

lemma keeps_Commit:
  "\<forall>op \<in> set t. owner db (op_key op) = Some T \<Longrightarrow> keeps T db (snd (Commit t db))"
  by (auto simp: keeps_def Commit_def intro!: sget_apply_batch_other)

lemma keeps_setNextCheckTime [simp]: "keeps T db (setNextCheckTime w f db)"
  by (simp add: keeps_def)

lemma owner_rmExpire_ops [simp]:
  "op \<in> set (rmExpire_ops db dt key) \<Longrightarrow> owner db (op_key op) = Some dt"
  using rmExpire_op_keys [of op db dt key] by auto

lemma owner_rmExpire:
  "rmExpire db dt key = Inr (n, ops) \<Longrightarrow> op \<in> set ops \<Longrightarrow> owner db (op_key op) = Some dt"
  using owner_rmExpire_ops [of op db dt key] by (simp add: rmExpire_ops_def)

lemma owner_expireAt_ops [simp]:
  "op \<in> set (expireAt_ops db dt key w) \<Longrightarrow> owner db (op_key op) = Some dt"
  by (auto simp: expireAt_ops_def Let_def)

text \<open>The steps of an operation keep the contract when each part does.\<close>

lemma keeps_sbind:
  assumes "keeps T db (snd r)"
    and "\<And>a db'. r = (Inr a, db') \<Longrightarrow> keeps T db' (snd (f a db'))"
  shows "keeps T db (snd (sbind r f))"
  using assms by (cases r; cases "fst r") (auto intro: keeps_trans)

lemma keeps_lift [simp]: "keeps T db (snd (lift_r r db))"
  by simp

text \<open>The shape of a writing method: checks that only read, then one commit.\<close>

lemma keeps_checked:
  assumes "\<And>a. r = Inr a \<Longrightarrow> keeps T db (snd (f a db))"
  shows "keeps T db (snd (sbind (lift_r r db) f))"
  using assms by (cases r) (simp_all add: lift_r_def)

lemma keeps_commit_expireAt: "keeps T db (snd (commit_expireAt T key w db))"
  unfolding commit_expireAt_def
proof (rule keeps_sbind)
  have "keeps T (setNextCheckTime w False db)
      (snd (Commit (expireAt_ops db T key w) (setNextCheckTime w False db)))"
    by (rule keeps_Commit) simp
  then show "keeps T db (snd (Commit (expireAt_ops db T key w) (setNextCheckTime w False db)))"
    by (rule keeps_trans [OF keeps_setNextCheckTime])
qed simp

lemma keeps_commit_persist: "keeps T db (snd (commit_persist T key db))"
proof (cases "checkKeySize key"; cases "rmExpire db T key")
  fix r p assume "checkKeySize key = Inr r" "rmExpire db T key = Inr p"
  moreover have "keeps T db (snd (Commit (snd p) db))"
    using calculation(2) by (intro keeps_Commit) (metis owner_rmExpire prod.collapse)
  ultimately show ?thesis
    by (auto simp: commit_persist_def lift_r_def split: prod.splits intro: keeps_sbind)
qed (simp_all add: commit_persist_def lift_r_def)

section \<open>Expiry records are well formed\<close>

text \<open>
  Every expiry time is stored in eight bytes. With it \<open>rmExpire\<close> never fails.
\<close>

definition ttl_ok :: "ledisdb \<Rightarrow> bool" where
  "ttl_ok db \<longleftrightarrow> (\<forall>dt k v. db_get db (expEncodeMetaKey db dt k) = Some v \<longrightarrow> length v = 8)"

lemma Int64_length8: "length v = 8 \<Longrightarrow> Int64 (Some v) = Inr (wrap64 (int (le_nat v)))"
  by (auto simp: Int64_def)

lemma rmExpire_total:
  "ttl_ok db \<Longrightarrow> \<exists>n. rmExpire db dt key = Inr (n, rmExpire_ops db dt key)"
  by (cases "db_get db (expEncodeMetaKey db dt key)")
    (auto simp: ttl_ok_def rmExpire_ops_def rmExpire_def Let_def Int64_length8)

text \<open>After the batch of \<open>rmExpire\<close> the key has no expiry, and no other meta record changes.\<close>

lemma sget_rmExpire_meta:
  "ttl_ok db \<Longrightarrow> sget s (expEncodeMetaKey db dt key) = db_get db (expEncodeMetaKey db dt key) \<Longrightarrow>
   sget (apply_batch (rmExpire_ops db dt key) s) (expEncodeMetaKey db dt' key')
     = (if dt' = dt \<and> key' = key then None else sget s (expEncodeMetaKey db dt' key'))"
  by (cases "db_get db (expEncodeMetaKey db dt key)")
    (auto simp: ttl_ok_def rmExpire_ops_def rmExpire_def Let_def Int64_length8 store_simps codec)

lemma sget_rmExpire_other:
  assumes "\<And>w. k \<noteq> expEncodeTimeKey db dt key w" "k \<noteq> expEncodeMetaKey db dt key"
  shows "sget (apply_batch (rmExpire_ops db dt key) s) k = sget s k"
  using assms rmExpire_op_keys by (intro sget_apply_batch_other) fastforce

lemma sget_rmExpire_data [simp]:
  "sget (apply_batch (rmExpire_ops db dt key) s) (encodeKVKey db k) = sget s (encodeKVKey db k)"
  "sget (apply_batch (rmExpire_ops db dt key) s) (lEncodeMetaKey db k) = sget s (lEncodeMetaKey db k)"
  "sget (apply_batch (rmExpire_ops db dt key) s) (lEncodeListKey db k i) = sget s (lEncodeListKey db k i)"
  "sget (apply_batch (rmExpire_ops db dt key) s) (hEncodeSizeKey db k) = sget s (hEncodeSizeKey db k)"
  "sget (apply_batch (rmExpire_ops db dt key) s) (hEncodeHashKey db k f) = sget s (hEncodeHashKey db k f)"
  "sget (apply_batch (rmExpire_ops db dt key) s) (sEncodeSizeKey db k) = sget s (sEncodeSizeKey db k)"
  "sget (apply_batch (rmExpire_ops db dt key) s) (sEncodeSetKey db k f) = sget s (sEncodeSetKey db k f)"
  by (rule sget_rmExpire_other; simp)+

text \<open>The expiry of a key as the layer reads it.\<close>

definition expiry_of :: "ledisdb \<Rightarrow> char \<Rightarrow> bytes \<Rightarrow> int option" where
  "expiry_of db dt k =
     map_option (\<lambda>v. wrap64 (int (le_nat v))) (db_get db (expEncodeMetaKey db dt k))"

lemma Int64_expiry:
  "ttl_ok db \<Longrightarrow> Int64 (db_get db (expEncodeMetaKey db dt k))
     = Inr (case expiry_of db dt k of None \<Rightarrow> 0 | Some t \<Rightarrow> t)"
  by (cases "db_get db (expEncodeMetaKey db dt k)")
    (auto simp: ttl_ok_def expiry_of_def Int64_length8)

lemma ttl_expiry:
  "ttl_ok db \<Longrightarrow> ttl db now dt k =
     Inr (case expiry_of db dt k of
            None \<Rightarrow> -1
          | Some t \<Rightarrow> if t = 0 then -1 else if wrap64 (t - now) \<le> 0 then -1 else wrap64 (t - now))"
  by (simp add: ttl_def Int64_expiry Let_def split: option.splits)

lemma le_nat_PutInt64 [simp]: "wrap64 (int (le_nat (PutInt64 v))) = wrap64 v"
  using Int64_PutInt64 [of v] Int64_length8 [of "PutInt64 v"] by simp

text \<open>
  How a batch acts on the expiry records: \<open>rmExpire\<close> forgets one key, \<open>expireAt\<close> sets one,
  and a batch of data records changes none.
\<close>

lemma expiry_of_rmExpire:
  assumes "ttl_ok db" "\<And>k'. sget s (expEncodeMetaKey db dt k') = db_get db (expEncodeMetaKey db dt k')"
  shows "expiry_of (db\<lparr>bucket := apply_batch (rmExpire_ops db dt k) s\<rparr>) dt = (expiry_of db dt)(k := None)"
  using assms by (auto simp: expiry_of_def fun_eq_iff sget_rmExpire_meta)

lemma ttl_ok_cong:
  assumes "ttl_ok db" "indexVarBuf db' = indexVarBuf db"
    and "\<And>dt k. db_get db' (expEncodeMetaKey db dt k) = None \<or>
        db_get db' (expEncodeMetaKey db dt k) = db_get db (expEncodeMetaKey db dt k) \<or>
        (\<exists>t. db_get db' (expEncodeMetaKey db dt k) = Some (PutInt64 t))"
  shows "ttl_ok db'"
proof -
  have "expEncodeMetaKey db' = expEncodeMetaKey db"
    using assms(2) by (simp add: expEncodeMetaKey_def fun_eq_iff)
  then show ?thesis unfolding ttl_ok_def using assms(1,3)
    by (metis length_PutInt64 option.distinct(1) option.inject ttl_ok_def)
qed

lemma ttl_ok_rmExpire:
  assumes "ttl_ok db" "\<And>dt' k'. sget s (expEncodeMetaKey db dt' k') = db_get db (expEncodeMetaKey db dt' k')"
  shows "ttl_ok (db\<lparr>bucket := apply_batch (rmExpire_ops db dt k) s\<rparr>)"
  using assms(1) by (rule ttl_ok_cong) (auto simp: assms sget_rmExpire_meta)

section \<open>A fresh database\<close>

abbreviation db0 :: ledisdb where
  "db0 \<equiv> newDB 0 []"

lemma newDB_sel [simp]:
  "\<not> readonly (newDB i s)" "bucket (newDB i s) = s" "indexVarBuf (newDB i s) = PutUvarint i"
  by (simp_all add: newDB_def)

lemma ttl_ok_newDB [simp]: "ttl_ok (newDB i [])"
  by (simp add: ttl_ok_def)

lemma lEncodeListKey_inj [codec]:
  "length k < 65536 \<Longrightarrow> length k' < 65536 \<Longrightarrow> is_int32 s \<Longrightarrow> is_int32 s' \<Longrightarrow>
     lEncodeListKey db k s = lEncodeListKey db k' s' \<longleftrightarrow> k = k' \<and> s = s'"
  using uint32_less [of s] uint32_less [of s']
  by (auto simp: lEncodeListKey_def elem_key_inj be_bytes_inj uint32_inj)

section \<open>Operations that leave the expiries alone\<close>

definition exp_same :: "ledisdb \<Rightarrow> ledisdb \<Rightarrow> bool" where
  "exp_same db db' \<longleftrightarrow> indexVarBuf db' = indexVarBuf db \<and> readonly db' = readonly db \<and>
     (\<forall>dt k. db_get db' (expEncodeMetaKey db dt k) = db_get db (expEncodeMetaKey db dt k))"

lemma exp_same_refl [simp, intro]: "exp_same db db"
  by (simp add: exp_same_def)

lemma exp_sameD:
  assumes "exp_same db db'"
  shows "expiry_of db' = expiry_of db" "ttl_ok db' \<longleftrightarrow> ttl_ok db" "readonly db' = readonly db"
proof -
  have e: "expEncodeMetaKey db' = expEncodeMetaKey db"
    using assms by (simp add: exp_same_def expEncodeMetaKey_def fun_eq_iff)
  show "expiry_of db' = expiry_of db" "ttl_ok db' \<longleftrightarrow> ttl_ok db" "readonly db' = readonly db"
    using assms by (simp_all add: exp_same_def expiry_of_def ttl_ok_def e fun_eq_iff)
qed

lemma no_meta_op:
  "\<forall>op \<in> set t. \<forall>dt k. op_key op \<noteq> expEncodeMetaKey db dt k \<Longrightarrow>
     sget (apply_batch t s) (expEncodeMetaKey db dt k) = sget s (expEncodeMetaKey db dt k)"
  by (intro sget_apply_batch_other) (metis imageE)

lemma exp_same_Commit:
  "\<forall>op \<in> set t. \<forall>dt k. op_key op \<noteq> expEncodeMetaKey db dt k \<Longrightarrow> exp_same db (snd (Commit t db))"
  by (simp add: exp_same_def Commit_def no_meta_op)

lemma ttl_ok_Commit_rmExpire:
  assumes "ttl_ok db" "\<forall>op \<in> set t. \<forall>dt k. op_key op \<noteq> expEncodeMetaKey db dt k"
  shows "ttl_ok (db\<lparr>bucket := apply_batch (t @ rmExpire_ops db T key) (bucket db)\<rparr>)"
    and "expiry_of (db\<lparr>bucket := apply_batch (t @ rmExpire_ops db T key) (bucket db)\<rparr>) T
       = (expiry_of db T)(key := None)"
proof -
  have "sget (apply_batch t (bucket db)) (expEncodeMetaKey db dt k) = db_get db (expEncodeMetaKey db dt k)" for dt k
    using assms(2) by (rule no_meta_op)
  then show "ttl_ok (db\<lparr>bucket := apply_batch (t @ rmExpire_ops db T key) (bucket db)\<rparr>)"
    "expiry_of (db\<lparr>bucket := apply_batch (t @ rmExpire_ops db T key) (bucket db)\<rparr>) T
       = (expiry_of db T)(key := None)"
    using ttl_ok_rmExpire [OF assms(1)] expiry_of_rmExpire [OF assms(1)] by simp_all
qed

lemma exp_same_checked:
  assumes "\<And>a. r = Inr a \<Longrightarrow> exp_same db (snd (f a db))"
  shows "exp_same db (snd (sbind (lift_r r db) f))"
  using assms by (cases r) (simp_all add: lift_r_def)

lemma keeps_if:
  "(b \<Longrightarrow> keeps T db (snd x)) \<Longrightarrow> (\<not> b \<Longrightarrow> keeps T db (snd y)) \<Longrightarrow> keeps T db (snd (if b then x else y))"
  by simp

lemma ttl_ok_commit_expireAt: "ttl_ok db \<Longrightarrow> ttl_ok (snd (commit_expireAt dt k w db))"
proof (cases "readonly db")
  case True
  moreover assume "ttl_ok db"
  ultimately show ?thesis by (simp add: commit_expireAt_def ttl_ok_def)
next
  case False
  moreover assume "ttl_ok db"
  then have "ttl_ok ((setNextCheckTime w False db)\<lparr>bucket := apply_batch (expireAt_ops db dt k w) (bucket db)\<rparr>)"
    by (rule ttl_ok_cong) (auto simp: expireAt_ops_def Let_def store_simps)
  ultimately show ?thesis by (simp add: commit_expireAt_def)
qed

lemma expiry_commit_expireAt:
  "\<not> readonly db \<Longrightarrow> is_int64 w \<Longrightarrow>
     expiry_of (snd (commit_expireAt dt k w db)) dt = (expiry_of db dt)(k \<mapsto> w)"
  by (auto simp: commit_expireAt_def expireAt_ops_def Let_def expiry_of_def store_simps codec fun_eq_iff)

lemma readonly_checked:
  "(\<And>a. r = Inr a \<Longrightarrow> snd (f a db) = db) \<Longrightarrow> snd (sbind (lift_r r db) f) = db"
  by (cases r) (simp_all add: lift_r_def)

lemma readonly_if: "snd x = db \<Longrightarrow> snd y = db \<Longrightarrow> snd (if c then x else y) = db"
  by simp

lemma rmExpire_deletes: "\<exists>xs. rmExpire_ops db dt k = map BDel xs \<and>
  (\<forall>x \<in> set xs. (\<exists>w. x = expEncodeTimeKey db dt k w) \<or> x = expEncodeMetaKey db dt k)"
proof -
  have "\<exists>xs. rmExpire_ops db dt k = map BDel xs"
    by (auto simp: rmExpire_ops_def rmExpire_def Let_def rbind_eq_Inr split: sum.splits option.splits
        intro: exI [of _ "[]"] exI [of _ "[a, b]" for a b])
  then obtain xs where xs: "rmExpire_ops db dt k = map BDel xs" by blast
  have "(\<exists>w. x = expEncodeTimeKey db dt k w) \<or> x = expEncodeMetaKey db dt k" if "x \<in> set xs" for x
    using rmExpire_op_keys [of "BDel x" db dt k] xs that by simp
  then show ?thesis using xs by blast
qed

lemma ttl_ok_deletes:
  "ttl_ok db \<Longrightarrow> store_ok (bucket db) \<Longrightarrow> ttl_ok (db\<lparr>bucket := apply_batch (map BDel xs) (bucket db)\<rparr>)"
  by (simp add: ttl_ok_def sget_deletes)

lemma checkHashKFSize_eq: "checkHashKFSize k f =
   (if \<not> key_ok k then Inl errKeySize else if \<not> key_ok f then Inl errHashFieldSize else Inr ())"
  by (auto simp: checkHashKFSize_def key_ok_def)

lemma checkSetKMSize_eq: "checkSetKMSize k f =
   (if \<not> key_ok k then Inl errKeySize else if \<not> key_ok f then Inl errSetMemberSize else Inr ())"
  by (auto simp: checkSetKMSize_def key_ok_def)

lemma checkZSetKMSize_eq: "checkZSetKMSize k f =
   (if \<not> key_ok k then Inl errKeySize else if \<not> key_ok f then Inl errZSetMemberSize else Inr ())"
  by (auto simp: checkZSetKMSize_def key_ok_def)

lemma rmExpire_ops_present:
  "ttl_ok db \<Longrightarrow> db_get db (expEncodeMetaKey db dt k) \<noteq> None \<Longrightarrow>
     BDel (expEncodeMetaKey db dt k) \<in> set (rmExpire_ops db dt k)"
  by (auto simp: rmExpire_ops_def rmExpire_def Let_def ttl_ok_def Int64_length8)

end
