(* ===== verification/CmdBase.thy ===== *)
theory CmdBase
  imports LedisCore
begin

text \<open>
  What the command handlers of package \<open>main\<close> share: the values they return as
  \<open>interface{}\<close>, and the machine they are called with. A handler takes the machine, the words
  of the command (the name first) and the database, and returns a reply or an error, and the
  database. \<open>m_Now\<close> is \<open>m.Now().Unix()\<close>, the time of the replicated log entry; \<open>wall\<close> is
  \<open>time.Now().Unix()\<close>, the clock of the node that runs the handler, taken to stand still while
  one handler runs. \<open>map_order\<close> is the order in which this run visits the keys of a Go map, which
  the language leaves open.
\<close>

datatype reply =
    NilReply
  | SimpleInt int
  | SimpleString bytes
  | Bytes "bytes option"
  | GoString string
  | GoInt int
  | BytesList "bytes option list"
  | StrMap "(bytes \<times> bytes) list"
  | AnyList "reply list"

record machine =
  m_Now :: int
  wall :: int
  map_order :: "bytes list \<Rightarrow> bytes list"

type_synonym handler = "machine \<Rightarrow> string list \<Rightarrow> ledisdb \<Rightarrow> reply result \<times> ledisdb"

text \<open>A handler that has read the database and answers.\<close>

definition answer :: "'a result \<Rightarrow> ('a \<Rightarrow> reply) \<Rightarrow> ledisdb \<Rightarrow> reply result \<times> ledisdb" where
  "answer r f db = (rbind r (\<lambda>a. Inr (f a)), db)"

text \<open>\<open>n, err := op(); if err != nil { return nil, err }; return f(n), nil\<close>\<close>

definition reply_with :: "('a \<Rightarrow> reply) \<Rightarrow> 'a result \<times> ledisdb \<Rightarrow> reply result \<times> ledisdb" where
  "reply_with f r = sbind r (\<lambda>a db. (Inr (f a), db))"

abbreviation wrong_args :: "ledisdb \<Rightarrow> reply result \<times> ledisdb" where
  "wrong_args db \<equiv> (Inl ErrWrongNumArgs, db)"

lemma answer_simps [simp]:
  "snd (answer r f db) = db"
  "answer (Inl e) f db = (Inl e, db)"
  "answer (Inr a) f db = (Inr (f a), db)"
  by (simp_all add: answer_def)

lemma reply_with_simps [simp]:
  "reply_with f (Inl e, db) = (Inl e, db)"
  "reply_with f (Inr a, db) = (Inr (f a), db)"
  "snd (reply_with f r) = snd r"
  by (simp_all add: reply_with_def sbind_def split: prod.splits sum.splits)

text \<open>A node whose clocks stand at 100, for examples.\<close>

abbreviation node :: machine where
  "node \<equiv> \<lparr>m_Now = 100, wall = 100, map_order = (\<lambda>ks. ks)\<rparr>"

text \<open>A predicate on the database that every step of a handler keeps.\<close>

lemma inv_checked: "P db \<Longrightarrow> (\<And>a. P (snd (f a db))) \<Longrightarrow> P (snd (sbind (lift_r r db) f))"
  by (cases r) (simp_all add: lift_r_def)

lemma inv_sbind: "P (snd r) \<Longrightarrow> (\<And>a d. P d \<Longrightarrow> P (snd (f a d))) \<Longrightarrow> P (snd (sbind r f))"
  by (cases r) (auto simp: sbind_def split: sum.split)

end
