(* ===== verification/LedisKV.thy ===== *)
theory LedisKV
  imports LedisCore
begin

text \<open>
  Strings of the data-type layer (\<open>ledis/t_kv.go\<close>): one definition per method of \<open>DB\<close> that the
  string commands call. A method that writes returns its result and the new handle; a method
  that only reads returns its result. \<open>now\<close> is \<open>time.Now().Unix()\<close>.
\<close>

unbundle bit_operations_syntax

section \<open>Reading and writing\<close>

definition Exists :: "ledisdb \<Rightarrow> bytes \<Rightarrow> int result" where
  "Exists db key =
     rbind (checkKeySize key) (\<lambda>_.
       case db_get db (encodeKVKey db key) of None \<Rightarrow> Inr 0 | Some v \<Rightarrow> Inr 1)"

definition Get :: "ledisdb \<Rightarrow> bytes \<Rightarrow> bytes option result" where
  "Get db key = rbind (checkKeySize key) (\<lambda>_. Inr (db_get db (encodeKVKey db key)))"

definition StrLen :: "ledisdb \<Rightarrow> bytes \<Rightarrow> int result" where
  "StrLen db key =
     rbind (checkKeySize key) (\<lambda>_.
       case db_get db (encodeKVKey db key) of None \<Rightarrow> Inr 0 | Some s \<Rightarrow> Inr (int (length s)))"

fun MGet :: "ledisdb \<Rightarrow> bytes list \<Rightarrow> bytes option list result" where
  "MGet db [] = Inr []"
| "MGet db (k # ks) =
     rbind (checkKeySize k) (\<lambda>_.
       rbind (MGet db ks) (\<lambda>vs. Inr (it_Find (bucket db) (encodeKVKey db k) # vs)))"

definition incr :: "bytes \<Rightarrow> int \<Rightarrow> ledisdb \<Rightarrow> int result \<times> ledisdb" where
  "incr key delta db =
     sbind (lift_r (checkKeySize key) db) (\<lambda>_ db.
       let ek = encodeKVKey db key in
       sbind (lift_r (StrInt64 (db_get db ek)) db) (\<lambda>n db.
         let n = wrap64 (n + delta) in
         sbind (Commit [BPut ek (FormatInt n)] db) (\<lambda>_ db. (Inr n, db))))"

definition Incr :: "bytes \<Rightarrow> ledisdb \<Rightarrow> int result \<times> ledisdb" where
  "Incr key db = incr key 1 db"

definition IncrBy :: "bytes \<Rightarrow> int \<Rightarrow> ledisdb \<Rightarrow> int result \<times> ledisdb" where
  "IncrBy key increment db = incr key increment db"

definition Decr :: "bytes \<Rightarrow> ledisdb \<Rightarrow> int result \<times> ledisdb" where
  "Decr key db = incr key (-1) db"

definition DecrBy :: "bytes \<Rightarrow> int \<Rightarrow> ledisdb \<Rightarrow> int result \<times> ledisdb" where
  "DecrBy key decrement db = incr key (wrap64 (- decrement)) db"

text \<open>The callback of the expiry sweep: it deletes the value record only.\<close>

definition delete :: "ledisdb \<Rightarrow> bytes \<Rightarrow> int \<times> bop list" where
  "delete db key = (1, [BDel (encodeKVKey db key)])"

text \<open>\<open>Del\<close> checks no key size and counts every key given, stored or not.\<close>

definition Del :: "bytes list \<Rightarrow> ledisdb \<Rightarrow> int result \<times> ledisdb" where
  "Del keys db =
     (if length keys = 0 then (Inr 0, db)
      else sbind (Commit (concat (map (\<lambda>k. BDel (encodeKVKey db k) # rmExpire_ops db KVType k) keys)) db)
             (\<lambda>_ db. (Inr (int (length keys)), db)))"

definition GetSet :: "bytes \<Rightarrow> bytes \<Rightarrow> ledisdb \<Rightarrow> bytes option result \<times> ledisdb" where
  "GetSet key value db =
     sbind (lift_r (checkKeySize key) db) (\<lambda>_ db.
     sbind (lift_r (checkValueSize value) db) (\<lambda>_ db.
       let ek = encodeKVKey db key; oldValue = db_get db ek in
       sbind (Commit [BPut ek value] db) (\<lambda>_ db. (Inr oldValue, db))))"

fun mset_ops :: "ledisdb \<Rightarrow> (bytes \<times> bytes) list \<Rightarrow> bop list result" where
  "mset_ops db [] = Inr []"
| "mset_ops db ((k, v) # args) =
     rbind (checkKeySize k) (\<lambda>_.
     rbind (checkValueSize v) (\<lambda>_.
     rbind (mset_ops db args) (\<lambda>ops. Inr (BPut (encodeKVKey db k) v # ops))))"

definition MSet :: "(bytes \<times> bytes) list \<Rightarrow> ledisdb \<Rightarrow> unit result \<times> ledisdb" where
  "MSet args db =
     (if length args = 0 then (Inr (), db)
      else sbind (lift_r (mset_ops db args) db) (\<lambda>ops db. Commit ops db))"

text \<open>\<open>Set\<close>.\<close>

definition Set_kv :: "bytes \<Rightarrow> bytes \<Rightarrow> ledisdb \<Rightarrow> unit result \<times> ledisdb" where
  "Set_kv key value db =
     sbind (lift_r (checkKeySize key) db) (\<lambda>_ db.
     sbind (lift_r (checkValueSize value) db) (\<lambda>_ db.
     sbind (lift_r (rmExpire db KVType key) db) (\<lambda>(n, ops) db.
       Commit (BPut (encodeKVKey db key) value # ops) db)))"

definition SetNX :: "bytes \<Rightarrow> bytes \<Rightarrow> ledisdb \<Rightarrow> int result \<times> ledisdb" where
  "SetNX key value db =
     sbind (lift_r (checkKeySize key) db) (\<lambda>_ db.
     sbind (lift_r (checkValueSize value) db) (\<lambda>_ db.
       let ek = encodeKVKey db key in
       case db_get db ek of
         Some v \<Rightarrow> (Inr 0, db)
       | None \<Rightarrow> sbind (Commit [BPut ek value] db) (\<lambda>_ db. (Inr 1, db))))"

definition SetEXAT :: "int \<Rightarrow> bytes \<Rightarrow> int \<Rightarrow> bytes \<Rightarrow> ledisdb \<Rightarrow> unit result \<times> ledisdb" where
  "SetEXAT now key timestamp value db =
     sbind (lift_r (checkKeySize key) db) (\<lambda>_ db.
     sbind (lift_r (checkValueSize value) db) (\<lambda>_ db.
       if timestamp \<le> now then (Inl errExpireValue, db)
       else Commit (BPut (encodeKVKey db key) value # expireAt_ops db KVType key timestamp)
              (setNextCheckTime timestamp False db)))"

definition setExpireAt :: "bytes \<Rightarrow> int \<Rightarrow> ledisdb \<Rightarrow> int result \<times> ledisdb" where
  "setExpireAt key when db =
     sbind (lift_r (Exists db key) db) (\<lambda>exist db.
       if exist = 0 then (Inr 0, db) else commit_expireAt KVType key when db)"

definition ExpireAt :: "int \<Rightarrow> bytes \<Rightarrow> int \<Rightarrow> ledisdb \<Rightarrow> int result \<times> ledisdb" where
  "ExpireAt now key when db =
     (if when \<le> now then (Inl errExpireValue, db) else setExpireAt key when db)"

definition TTL :: "ledisdb \<Rightarrow> int \<Rightarrow> bytes \<Rightarrow> int result" where
  "TTL db now key = rbind (checkKeySize key) (\<lambda>_. ttl db now KVType key)"

definition Persist :: "bytes \<Rightarrow> ledisdb \<Rightarrow> int result \<times> ledisdb" where
  "Persist key db = commit_persist KVType key db"

section \<open>Ranges\<close>

text \<open>Go's \<open>copy(dst[off:], src)\<close> for \<open>off \<le> length dst\<close>.\<close>

definition copy_at :: "nat \<Rightarrow> bytes \<Rightarrow> bytes \<Rightarrow> bytes" where
  "copy_at off src dst =
     (let n = min (length src) (length dst - off)
      in take off dst @ take n src @ drop (off + n) dst)"

definition SetRange :: "bytes \<Rightarrow> int \<Rightarrow> bytes \<Rightarrow> ledisdb \<Rightarrow> int result \<times> ledisdb" where
  "SetRange key offset value db =
     (if length value = 0 then (Inr 0, db)
      else sbind (lift_r (checkKeySize key) db) (\<lambda>_ db.
        if wrap64 (int (length value) + offset) > int MaxValueSize then (Inl errValueSize, db)
        else
          let ek = encodeKVKey db key;
              old = (case db_get db ek of None \<Rightarrow> [] | Some v \<Rightarrow> v);
              extra = wrap64 (wrap64 (offset + int (length value)) - int (length old));
              old' = (if extra > 0 then old @ replicate (nat extra) (CHR 0x00) else old)
          in if offset < 0 \<or> offset > int (length old') then (Inl Panic, db)
             else let new = copy_at (nat offset) value old'
                  in sbind (Commit [BPut ek new] db) (\<lambda>_ db. (Inr (int (length new)), db))))"

definition getRange :: "int \<Rightarrow> int \<Rightarrow> int \<Rightarrow> int \<times> int" where
  "getRange start end valLen =
     (let start = (if start < 0 then valLen + start else start);
          end = (if end < 0 then valLen + end else end);
          start = (if start < 0 then 0 else start);
          end = (if end < 0 then 0 else end);
          end = (if end \<ge> valLen then valLen - 1 else end)
      in (start, end))"

definition getBitRange :: "int \<Rightarrow> int \<Rightarrow> int \<Rightarrow> int \<times> int" where
  "getBitRange start end bitLength =
     (let start = (if start < 0 then bitLength + start else start);
          end = (if end < 0 then bitLength + end else end);
          start = (if start < 0 then 0 else start);
          end = (if end < 0 then 0 else end);
          end = (if end \<ge> bitLength then bitLength - 1 else end)
      in (start, end))"

text \<open>The slice \<open>v[a:b]\<close>, in range.\<close>

definition slice :: "int \<Rightarrow> int \<Rightarrow> 'a list \<Rightarrow> 'a list" where
  "slice a b v = take (nat b - nat a) (drop (nat a) v)"

definition GetRange :: "ledisdb \<Rightarrow> bytes \<Rightarrow> int \<Rightarrow> int \<Rightarrow> bytes option result" where
  "GetRange db key start end =
     rbind (checkKeySize key) (\<lambda>_.
       let value = (case db_get db (encodeKVKey db key) of None \<Rightarrow> [] | Some v \<Rightarrow> v);
           (start, end) = getRange start end (int (length value))
       in if start > end then Inr None else Inr (Some (slice start (end + 1) value)))"

definition Append :: "bytes \<Rightarrow> bytes \<Rightarrow> ledisdb \<Rightarrow> int result \<times> ledisdb" where
  "Append key value db =
     (if length value = 0 then (Inr 0, db)
      else sbind (lift_r (checkKeySize key) db) (\<lambda>_ db.
        let ek = encodeKVKey db key;
            old = (case db_get db ek of None \<Rightarrow> [] | Some v \<Rightarrow> v)
        in if length old + length value > MaxValueSize then (Inl errValueSize, db)
           else case Commit [BPut ek (old @ value)] db of
                  (Inl e, db) \<Rightarrow> (Inr 0, db)
                | (Inr _, db) \<Rightarrow> (Inr (int (length (old @ value))), db)))"

section \<open>Bits\<close>

definition byte_and :: "char \<Rightarrow> char \<Rightarrow> char" where
  "byte_and a b = char_of ((of_char a :: nat) AND of_char b)"

definition byte_or :: "char \<Rightarrow> char \<Rightarrow> char" where
  "byte_or a b = char_of ((of_char a :: nat) OR of_char b)"

definition byte_xor :: "char \<Rightarrow> char \<Rightarrow> char" where
  "byte_xor a b = char_of ((of_char a :: nat) XOR of_char b)"

text \<open>
  \<open>BitOP\<close>: one round of its loop combines the value so far with the next source, the longer of
  the two first. An operation that is none of the three is an error as soon as there is a byte
  to combine.
\<close>

definition bitop_byte :: "string \<Rightarrow> char \<Rightarrow> char \<Rightarrow> char option" where
  "bitop_byte op a b =
     (if op = ''and'' then Some (byte_and a b)
      else if op = ''or'' then Some (byte_or a b)
      else if op = ''xor'' then Some (byte_xor a b)
      else None)"

definition bitop_round :: "string \<Rightarrow> bytes \<Rightarrow> bytes \<Rightarrow> bytes result" where
  "bitop_round op value ovalue =
     (let (value, ovalue) = (if length value < length ovalue then (ovalue, value) else (value, ovalue));
          n = length ovalue
      in if n > 0 \<and> op \<notin> {''and'', ''or'', ''xor''} then Inl (ErrText (''invalid op type: '' @ op))
         else Inr (map2 (\<lambda>a b. the (bitop_byte op a b)) (take n value) ovalue @
                   (if op = ''and'' then map (\<lambda>a. byte_and a (CHR 0x00)) (drop n value)
                    else drop n value)))"

fun bitop_loop :: "ledisdb \<Rightarrow> string \<Rightarrow> bytes \<Rightarrow> bytes list \<Rightarrow> bytes result" where
  "bitop_loop db op value [] = Inr value"
| "bitop_loop db op value (k # ks) =
     rbind (checkKeySize k) (\<lambda>_.
       let ovalue = (case db_get db (encodeKVKey db k) of None \<Rightarrow> [] | Some v \<Rightarrow> v)
       in rbind (bitop_round op value ovalue) (\<lambda>value. bitop_loop db op value ks))"

definition BitOP :: "string \<Rightarrow> bytes \<Rightarrow> bytes list \<Rightarrow> ledisdb \<Rightarrow> int result \<times> ledisdb" where
  "BitOP op destKey srcKeys db =
     sbind (lift_r (checkKeySize destKey) db) (\<lambda>_ db.
       let op = ToLower op in
       if length srcKeys = 0 then (Inr 0, db)
       else if op = ''not'' \<and> length srcKeys > 1
         then (Inl (ErrText ''BITOP NOT has only one srckey''), db)
       else if length srcKeys < 2 then (Inr 0, db)
       else
         let value = (case db_get db (encodeKVKey db (hd srcKeys)) of None \<Rightarrow> [] | Some v \<Rightarrow> v)
         in sbind (lift_r (bitop_loop db op value (tl srcKeys)) db) (\<lambda>value db.
              sbind (Commit [BPut (encodeKVKey db destKey) value] db)
                (\<lambda>_ db. (Inr (int (length value)), db))))"

definition validateRange :: "string \<Rightarrow> string \<Rightarrow> int \<Rightarrow> int \<Rightarrow> int \<Rightarrow> (int \<times> int) result" where
  "validateRange outOfBounds invalid start end len =
     (if start \<ge> len then Inl (ErrText outOfBounds)
      else if end \<ge> len then Inl (ErrText outOfBounds)
      else let start = (if start < 0 then len + start else start);
               end = (if end < 0 then len + end else end);
               start = (if start < 0 then 0 else start);
               end = (if end \<ge> len then len - 1 else end)
           in if start > end then Inl (ErrText invalid) else Inr (start, end))"

definition validateByteRange :: "int \<Rightarrow> int \<Rightarrow> int \<Rightarrow> (int \<times> int) result" where
  "validateByteRange = validateRange ''byte range out of bounds'' ''byte invalid range: start > end''"

definition validateBitRange :: "int \<Rightarrow> int \<Rightarrow> int \<Rightarrow> (int \<times> int) result" where
  "validateBitRange = validateRange ''bit range out of bounds'' ''ERR invalid bit range: start > end''"

text \<open>
  \<open>numberBitCount\<close> on a \<open>uint32\<close>, as arithmetic modulo \<open>2^32\<close>, and the table \<open>bitsInByte\<close>.
\<close>

definition numberBitCount :: "nat \<Rightarrow> nat" where
  "numberBitCount i =
     (let i1 = (i + 4294967296 - ((i div 2) AND 0x55555555)) mod 4294967296;
          i2 = ((i1 AND 0x33333333) + ((i1 div 4) AND 0x33333333)) mod 4294967296
      in (((i2 + i2 div 16) mod 4294967296 AND 0x0F0F0F0F) * 0x01010101) mod 4294967296 div 16777216)"

definition bitsInByte :: "nat list" where
  "bitsInByte = [0, 1, 1, 2, 1, 2, 2, 3, 1, 2, 2, 3, 2, 3, 3,
	4, 1, 2, 2, 3, 2, 3, 3, 4, 2, 3, 3, 4, 3, 4, 4, 5, 1, 2, 2, 3, 2, 3,
	3, 4, 2, 3, 3, 4, 3, 4, 4, 5, 2, 3, 3, 4, 3, 4, 4, 5, 3, 4, 4, 5, 4,
	5, 5, 6, 1, 2, 2, 3, 2, 3, 3, 4, 2, 3, 3, 4, 3, 4, 4, 5, 2, 3, 3, 4,
	3, 4, 4, 5, 3, 4, 4, 5, 4, 5, 5, 6, 2, 3, 3, 4, 3, 4, 4, 5, 3, 4, 4,
	5, 4, 5, 5, 6, 3, 4, 4, 5, 4, 5, 5, 6, 4, 5, 5, 6, 5, 6, 6, 7, 1, 2,
	2, 3, 2, 3, 3, 4, 2, 3, 3, 4, 3, 4, 4, 5, 2, 3, 3, 4, 3, 4, 4, 5, 3,
	4, 4, 5, 4, 5, 5, 6, 2, 3, 3, 4, 3, 4, 4, 5, 3, 4, 4, 5, 4, 5, 5, 6,
	3, 4, 4, 5, 4, 5, 5, 6, 4, 5, 5, 6, 5, 6, 6, 7, 2, 3, 3, 4, 3, 4, 4,
	5, 3, 4, 4, 5, 4, 5, 5, 6, 3, 4, 4, 5, 4, 5, 5, 6, 4, 5, 5, 6, 5, 6,
	6, 7, 3, 4, 4, 5, 4, 5, 5, 6, 4, 5, 5, 6, 5, 6, 6, 7, 4, 5, 5, 6, 5,
	6, 6, 7, 5, 6, 6, 7, 6, 7, 7, 8]"

fun bitcount_bytes :: "bytes \<Rightarrow> int" where
  "bitcount_bytes (a # b # c # d # rest) =
     int (numberBitCount (be_nat [a, b, c, d])) + bitcount_bytes rest"
| "bitcount_bytes (a # rest) = int (bitsInByte ! of_char a) + bitcount_bytes rest"
| "bitcount_bytes [] = 0"

definition mask_first :: "nat \<Rightarrow> bytes \<Rightarrow> bytes" where
  "mask_first startBit v = v[0 := byte_and (v ! 0) (char_of (255 div 2 ^ startBit :: nat))]"

definition mask_last :: "nat \<Rightarrow> bytes \<Rightarrow> bytes" where
  "mask_last endBit v =
     v[length v - 1 := byte_and (v ! (length v - 1)) (char_of (255 * 2 ^ (7 - endBit) :: nat))]"

definition BitCount :: "ledisdb \<Rightarrow> bytes \<Rightarrow> int \<Rightarrow> int \<Rightarrow> string \<Rightarrow> int result" where
  "BitCount db key start end bitMode =
     rbind (checkKeySize key) (\<lambda>_.
       case db_get db (encodeKVKey db key) of
         None \<Rightarrow> Inr 0
       | Some value \<Rightarrow>
           let bitMode = ToUpper bitMode; valueLen = int (length value) in
           if bitMode \<noteq> ''BYTE'' \<and> bitMode \<noteq> ''BIT'' then Inl (ErrText ''ERR invalid bit mode'')
           else if bitMode = ''BYTE'' then
             rbind (validateByteRange start end valueLen) (\<lambda>(start, end).
               Inr (bitcount_bytes (slice start (end + 1) value)))
           else
             rbind (validateBitRange start end (valueLen * 8)) (\<lambda>(start, end).
               let startByte = start div 8; startBit = nat (start mod 8);
                   endByte = end div 8; endBit = nat (end mod 8)
               in if startByte \<ge> valueLen \<or> endByte \<ge> valueLen
                    then Inl (ErrText ''ERR bit range out of bounds'')
                  else
                    let v = slice startByte (endByte + 1) value;
                        v = (if startBit > 0 then mask_first startBit v else v);
                        v = (if endBit < 7 then mask_last endBit v else v)
                    in Inr (bitcount_bytes v)))"

text \<open>Go's truncating division and remainder by a positive constant.\<close>

definition quot :: "int \<Rightarrow> int \<Rightarrow> int" where
  "quot a b = (if a < 0 then - ((- a) div b) else a div b)"

definition rem :: "int \<Rightarrow> int \<Rightarrow> int" where
  "rem a b = a - b * quot a b"

text \<open>The two loops of \<open>BitPos\<close>: over the bits of a byte, most significant first, and over bytes.\<close>

definition bit_at :: "char \<Rightarrow> nat \<Rightarrow> int" where
  "bit_at v bitIdx = int ((of_char v div 2 ^ (7 - bitIdx)) mod 2)"

definition find_bit :: "int \<Rightarrow> char \<Rightarrow> int \<Rightarrow> int \<Rightarrow> int option" where
  "find_bit on v bitStart bitEnd =
     find (\<lambda>bitIdx. bit_at v (nat bitIdx) = on) [bitStart..bitEnd]"

fun bitpos_loop :: "int \<Rightarrow> int \<Rightarrow> int \<Rightarrow> int \<Rightarrow> int \<Rightarrow> int \<Rightarrow> bytes \<Rightarrow> int" where
  "bitpos_loop on startByte endByte startBit endBit byteOffset [] = -1"
| "bitpos_loop on startByte endByte startBit endBit byteOffset (v # vs) =
     (let (bitStart, bitEnd) =
        (if byteOffset = startByte then (startBit, 7)
         else if byteOffset = endByte then (0, endBit)
         else (0, 7))
      in case find_bit on v bitStart bitEnd of
           Some bitIdx \<Rightarrow> byteOffset * 8 + bitIdx
         | None \<Rightarrow> bitpos_loop on startByte endByte startBit endBit (byteOffset + 1) vs)"

definition BitPos :: "ledisdb \<Rightarrow> bytes \<Rightarrow> int \<Rightarrow> int \<Rightarrow> int \<Rightarrow> string \<Rightarrow> int result" where
  "BitPos db key on start end bitMode =
     rbind (checkKeySize key) (\<lambda>_.
       if on \<noteq> 0 \<and> on \<noteq> 1 then Inl (ErrText ''bit must be 0 or 1'')
       else
         let value = (case db_get db (encodeKVKey db key) of None \<Rightarrow> [] | Some v \<Rightarrow> v);
             len = int (length value);
             (startByte, startBit, endByte, endBit) =
               (if bitMode = ''BIT'' then
                  let (start, end) = getBitRange start end (len * 8)
                  in (quot start 8, rem start 8, quot end 8, rem end 8)
                else let (start, end) = getRange start end len in (start, 0, end, 7))
         in if startByte > endByte then Inr (-1)
            else if startByte < 0 \<or> endByte + 1 > len then Inl Panic
            else Inr (bitpos_loop on startByte endByte startBit endBit startByte
                        (slice startByte (endByte + 1) value)))"

definition byteOffset32 :: "int \<Rightarrow> nat" where
  "byteOffset32 offset = nat (offset mod 4294967296) div 8"

definition bit32 :: "int \<Rightarrow> nat" where
  "bit32 offset = 7 - nat (offset mod 4294967296) mod 8"

definition SetBit :: "bytes \<Rightarrow> int \<Rightarrow> int \<Rightarrow> ledisdb \<Rightarrow> int result \<times> ledisdb" where
  "SetBit key offset on db =
     sbind (lift_r (checkKeySize key) db) (\<lambda>_ db.
       if on \<noteq> 0 \<and> on \<noteq> 1 then (Inl (ErrText ''bit must be 0 or 1''), db)
       else
         let ek = encodeKVKey db key;
             value = (case db_get db ek of None \<Rightarrow> [] | Some v \<Rightarrow> v);
             byteOffset = byteOffset32 offset;
             value = value @ replicate (byteOffset + 1 - length value) (CHR 0x00);
             byteVal = (of_char (value ! byteOffset) :: nat);
             bit = bit32 offset;
             bitVal = byteVal AND 2 ^ bit;
             byteVal = byteVal AND (255 - 2 ^ bit);
             byteVal = byteVal OR (nat on * 2 ^ bit)
         in sbind (Commit [BPut ek (value[byteOffset := char_of byteVal])] db)
              (\<lambda>_ db. (Inr (if bitVal > 0 then 1 else 0), db)))"

definition GetBit :: "ledisdb \<Rightarrow> bytes \<Rightarrow> int \<Rightarrow> int result" where
  "GetBit db key offset =
     rbind (checkKeySize key) (\<lambda>_.
       let value = (case db_get db (encodeKVKey db key) of None \<Rightarrow> [] | Some v \<Rightarrow> v);
           byteOffset = byteOffset32 offset; bit = bit32 offset
       in if byteOffset \<ge> length value then Inr 0
          else Inr (if (of_char (value ! byteOffset) :: nat) AND 2 ^ bit > 0 then 1 else 0))"

section \<open>String operations touch string records only\<close>

lemma keeps_incr: "keeps KVType db (snd (incr key delta db))"
  by (auto simp: incr_def Let_def intro!: keeps_checked keeps_Commit)

lemma keeps_Del: "keeps KVType db (snd (Del keys db))"
  by (auto simp: Del_def intro!: keeps_Commit)

lemma keeps_GetSet: "keeps KVType db (snd (GetSet key value db))"
  by (auto simp: GetSet_def Let_def intro!: keeps_checked keeps_Commit)

lemma owner_mset_ops:
  "mset_ops db args = Inr ops \<Longrightarrow> op \<in> set ops \<Longrightarrow> owner db (op_key op) = Some KVType"
  by (induction db args arbitrary: ops rule: mset_ops.induct) (auto simp: rbind_eq_Inr)

lemma keeps_MSet: "keeps KVType db (snd (MSet args db))"
  by (auto simp: MSet_def intro!: keeps_checked keeps_Commit dest: owner_mset_ops)

lemma keeps_Set_kv: "keeps KVType db (snd (Set_kv key value db))"
  by (auto simp: Set_kv_def intro!: keeps_checked keeps_Commit dest: owner_rmExpire)

lemma keeps_SetNX: "keeps KVType db (snd (SetNX key value db))"
  by (auto simp: SetNX_def Let_def intro!: keeps_checked keeps_Commit split: option.split)

lemma keeps_SetEXAT: "keeps KVType db (snd (SetEXAT now key timestamp value db))"
proof -
  have "keeps KVType db (snd (Commit (BPut (encodeKVKey db key) value
      # expireAt_ops db KVType key timestamp) (setNextCheckTime timestamp False db)))"
    by (rule keeps_trans [OF keeps_setNextCheckTime keeps_Commit]) auto
  then show ?thesis by (auto simp: SetEXAT_def intro!: keeps_checked)
qed

lemma keeps_ExpireAt: "keeps KVType db (snd (ExpireAt now key w db))"
  by (auto simp: ExpireAt_def setExpireAt_def intro!: keeps_checked keeps_commit_expireAt)

lemma keeps_SetRange: "keeps KVType db (snd (SetRange key offset value db))"
  by (auto simp: SetRange_def Let_def intro!: keeps_checked keeps_Commit)

lemma keeps_Append: "keeps KVType db (snd (Append key value db))"
  by (auto simp: Append_def Let_def intro!: keeps_checked keeps_Commit)

lemma keeps_BitOP: "keeps KVType db (snd (BitOP op destKey srcKeys db))"
  by (auto simp: BitOP_def Let_def intro!: keeps_checked keeps_Commit)

lemma keeps_SetBit: "keeps KVType db (snd (SetBit key offset on db))"
  by (auto simp: SetBit_def Let_def intro!: keeps_checked keeps_Commit)

lemmas kv_keeps = keeps_incr keeps_Del keeps_GetSet keeps_MSet keeps_Set_kv keeps_SetNX
  keeps_SetEXAT keeps_ExpireAt keeps_SetRange keeps_Append keeps_BitOP keeps_SetBit

section \<open>Functional behaviour\<close>

text \<open>What the string records of a database hold, as a map, and the value a missing key reads as.\<close>

definition kv_of :: "ledisdb \<Rightarrow> bytes \<rightharpoonup> bytes" where
  "kv_of db k = db_get db (encodeKVKey db k)"

definition kv_value :: "ledisdb \<Rightarrow> bytes \<Rightarrow> bytes" where
  "kv_value db k = (case kv_of db k of None \<Rightarrow> [] | Some v \<Rightarrow> v)"

lemma kv_of_put [simp]:
  "kv_of (db\<lparr>bucket := sput (encodeKVKey db k) v s\<rparr>) = (kv_of (db\<lparr>bucket := s\<rparr>))(k \<mapsto> v)"
  by (auto simp: kv_of_def store_simps codec fun_eq_iff)

lemma kv_of_del [simp]:
  "kv_of (db\<lparr>bucket := sdel (encodeKVKey db k) s\<rparr>) = (kv_of (db\<lparr>bucket := s\<rparr>))(k := None)"
  by (auto simp: kv_of_def store_simps codec fun_eq_iff)

lemma kv_of_rmExpire [simp]:
  "kv_of (db\<lparr>bucket := apply_batch (rmExpire_ops db dt key) s\<rparr>) = kv_of (db\<lparr>bucket := s\<rparr>)"
  by (simp add: kv_of_def fun_eq_iff)

lemma kv_of_same [simp]: "kv_of (db\<lparr>bucket := bucket db\<rparr>) = kv_of db"
  by simp

lemma expiry_of_put_kv [simp]:
  "expiry_of (db\<lparr>bucket := sput (encodeKVKey db k) v s\<rparr>) dt = expiry_of (db\<lparr>bucket := s\<rparr>) dt"
  by (auto simp: expiry_of_def store_simps fun_eq_iff)

lemma Set_kv_ok:
  assumes "\<not> readonly db" "ttl_ok db" "key_ok k" "length v \<le> MaxValueSize"
  shows "\<exists>db'. Set_kv k v db = (Inr (), db') \<and> kv_of db' = (kv_of db)(k \<mapsto> v) \<and>
     expiry_of db' KVType = (expiry_of db KVType)(k := None) \<and> ttl_ok db'"
proof -
  let ?s = "sput (encodeKVKey db k) v (bucket db)"
  let ?db = "db\<lparr>bucket := apply_batch (rmExpire_ops db KVType k) ?s\<rparr>"
  obtain n where "rmExpire db KVType k = Inr (n, rmExpire_ops db KVType k)"
    using rmExpire_total assms(2) by blast
  then have "Set_kv k v db = (Inr (), ?db)"
    using assms by (simp add: Set_kv_def checkValueSize_def lift_r_def)
  moreover have "kv_of ?db = (kv_of db)(k \<mapsto> v)" by simp
  moreover have "expiry_of ?db KVType = (expiry_of db KVType)(k := None)"
    using assms(2) by (rule expiry_of_rmExpire) (simp add: store_simps)
  moreover have "ttl_ok ?db" using assms(2) by (rule ttl_ok_rmExpire) (simp add: store_simps)
  ultimately show ?thesis by blast
qed

lemma Get_eq: "Get db k = (if key_ok k then Inr (kv_of db k) else Inl errKeySize)"
  by (simp add: Get_def checkKeySize_eq kv_of_def)

lemma Exists_eq:
  "Exists db k = (if key_ok k then Inr (if kv_of db k = None then 0 else 1) else Inl errKeySize)"
  by (simp add: Exists_def checkKeySize_eq kv_of_def split: option.split)

lemma TTL_eq: "TTL db now k = (if key_ok k then ttl db now KVType k else Inl errKeySize)"
  by (simp add: TTL_def checkKeySize_eq)

text \<open>A decimal value: a missing key counts as 0.\<close>

definition kv_int :: "ledisdb \<Rightarrow> bytes \<Rightarrow> int \<Rightarrow> bool" where
  "kv_int db k n \<longleftrightarrow> StrInt64 (kv_of db k) = Inr n"

lemma incr_ok:
  assumes "\<not> readonly db" "key_ok k" "kv_int db k n"
  shows "\<exists>db'. incr k d db = (Inr (wrap64 (n + d)), db') \<and>
     kv_of db' = (kv_of db)(k \<mapsto> FormatInt (wrap64 (n + d))) \<and>
     expiry_of db' KVType = expiry_of db KVType \<and> readonly db' = readonly db"
proof -
  let ?v = "FormatInt (wrap64 (n + d))"
  let ?db = "db\<lparr>bucket := sput (encodeKVKey db k) ?v (bucket db)\<rparr>"
  have "incr k d db = (Inr (wrap64 (n + d)), ?db)"
    using assms by (simp add: incr_def lift_r_def kv_int_def kv_of_def Let_def)
  moreover have "kv_of ?db = (kv_of db)(k \<mapsto> ?v)" by simp
  moreover have "expiry_of ?db KVType = expiry_of db KVType" by simp
  ultimately show ?thesis by (intro exI [of _ ?db]) simp
qed

lemma wrap64_add_wrap64: "wrap64 (wrap64 a + b) = wrap64 (a + b)"
  by (simp add: wrap64_def mod_simps algebra_simps)

lemma kv_value_eq: "kv_value db k = (case db_get db (encodeKVKey db k) of None \<Rightarrow> [] | Some v \<Rightarrow> v)"
  by (simp add: kv_value_def kv_of_def)

text \<open>\<open>SETRANGE\<close>: the value padded with zeros up to the offset, overwritten from there.\<close>

definition overwrite :: "nat \<Rightarrow> bytes \<Rightarrow> bytes \<Rightarrow> bytes" where
  "overwrite off v old =
     take off (old @ replicate (off - length old) (CHR 0x00)) @ v @ drop (off + length v) old"

lemma length_overwrite: "length (overwrite off v old) = max (length old) (off + length v)"
  by (simp add: overwrite_def)

lemma slice_overwrite: "take (length v) (drop off (overwrite off v old)) = v"
proof -
  have "length (take off (old @ replicate (off - length old) (CHR 0x00))) = off" by simp
  then show ?thesis by (simp add: overwrite_def)
qed

lemma copy_at_overwrite:
  "copy_at off v (old @ replicate (off + length v - length old) (CHR 0x00)) = overwrite off v old"
proof -
  let ?dst = "old @ replicate (off + length v - length old) (CHR 0x00)"
  have "min (length v) (length ?dst - off) = length v" by simp
  moreover have "drop (off + length v) ?dst = drop (off + length v) old" by simp
  moreover have "take off ?dst = take off (old @ replicate (off - length old) (CHR 0x00))"
    by (simp add: min_def)
  ultimately show ?thesis by (simp only: copy_at_def overwrite_def Let_def) simp
qed

lemma SetRange_ok:
  assumes "\<not> readonly db" "key_ok k" "v \<noteq> []" "off + length v \<le> MaxValueSize"
    and "length (kv_value db k) \<le> MaxValueSize"
  shows "\<exists>db'. SetRange k (int off) v db = (Inr (int (max (length (kv_value db k)) (off + length v))), db') \<and>
     kv_of db' = (kv_of db)(k \<mapsto> overwrite off v (kv_value db k)) \<and>
     expiry_of db' KVType = expiry_of db KVType"
proof -
  let ?old = "kv_value db k"
  let ?new = "overwrite off v ?old"
  let ?db = "db\<lparr>bucket := sput (encodeKVKey db k) ?new (bucket db)\<rparr>"
  have w: "wrap64 (int (length v) + int off) = int (off + length v)"
    "wrap64 (int off + int (length v)) = int (off + length v)"
    "wrap64 (int (off + length v) - int (length ?old)) = int (off + length v) - int (length ?old)"
    using assms(4,5) by (simp_all add: is_int64_def)
  have old: "(if 0 < int (off + length v) - int (length ?old)
       then ?old @ replicate (nat (int (off + length v) - int (length ?old))) (CHR 0x00) else ?old)
     = ?old @ replicate (off + length v - length ?old) (CHR 0x00)"
    by (simp add: nat_diff_distrib nat_int_add)
  have "SetRange k (int off) v db = (Inr (int (length ?new)), ?db)"
    unfolding SetRange_def lift_r_def checkKeySize_ok [OF assms(2)] sbind_simps Let_def
      kv_value_eq [symmetric] w old copy_at_overwrite
    using assms by (auto simp: copy_at_overwrite)
  then show ?thesis by (auto simp: length_overwrite)
qed

text \<open>The bits of a value, the most significant bit of the first byte first; zero beyond its end.\<close>

definition bit_of :: "bytes \<Rightarrow> nat \<Rightarrow> bool" where
  "bit_of v i \<longleftrightarrow> i div 8 < length v \<and> bit (of_char (v ! (i div 8)) :: nat) (7 - i mod 8)"

lemma bit_mask_out: "b < 8 \<Longrightarrow> bit (255 - 2 ^ b :: nat) j \<longleftrightarrow> j < 8 \<and> j \<noteq> b"
proof -
  assume b: "b < 8"
  let ?m = "mask 8 XOR push_bit b (1 :: nat)"
  have "?m AND push_bit b 1 = 0" using b by (intro bit_eqI) (auto simp: bit_simps)
  then have "?m + push_bit b 1 = ?m XOR push_bit b 1" by (rule disjunctive_add_eq_xor)
  also have "\<dots> = mask 8" by (simp add: xor.assoc)
  finally have "?m + 2 ^ b = 255" by (simp add: mask_eq_exp_minus_1)
  then have "255 - 2 ^ b = ?m" by linarith
  then show ?thesis using b by (auto simp: bit_simps)
qed

lemma bit_byte: "bit (of_char (char_of (n :: nat)) :: nat) j \<longleftrightarrow> j < 8 \<and> bit n j"
  using bit_take_bit_iff [of 8 n j] by (simp add: take_bit_eq_mod)

lemma bit_set:
  "b < 8 \<Longrightarrow> j < 8 \<Longrightarrow> bit (((x :: nat) AND (255 - 2 ^ b)) OR (of_bool on * 2 ^ b)) j
     \<longleftrightarrow> (if j = b then on else bit x j)"
  by (auto simp: bit_or_iff bit_and_iff bit_mask_out bit_exp_iff)

lemma bit_of_pad: "bit_of (v @ replicate n (CHR 0x00)) i = bit_of v i"
  by (auto simp: bit_of_def nth_append)

lemma bit_of_update:
  assumes "i div 8 < length v"
  shows "bit_of (v[i div 8 := char_of ((of_char (v ! (i div 8)) AND (255 - 2 ^ (7 - i mod 8)))
      OR (of_bool on * 2 ^ (7 - i mod 8) :: nat))]) j = (if j = i then on else bit_of v j)"
proof (cases "j div 8 = i div 8")
  case True
  define b c where "b = 7 - i mod 8" and "c = 7 - j mod 8"
  have b: "b < 8" and c: "c < 8" by (simp_all add: b_def c_def)
  have "c = b \<longleftrightarrow> j mod 8 = i mod 8"
    unfolding b_def c_def using mod_less_divisor [of 8 i] mod_less_divisor [of 8 j] by linarith
  then have "c = b \<longleftrightarrow> j = i" using True by (metis div_mult_mod_eq)
  moreover have "bit (of_char (char_of ((of_char x AND (255 - 2 ^ b)) OR (of_bool on * 2 ^ b) :: nat)) :: nat) c
      = (if c = b then on else bit (of_char x :: nat) c)" for x
    unfolding bit_byte by (simp only: bit_set [OF b c] c simp_thms)
  ultimately show ?thesis using assms
    by (simp add: bit_of_def True del: of_char_of flip: b_def c_def)
next
  case False
  then show ?thesis by (auto simp: bit_of_def)
qed

lemma and_exp_pos: "(0 < (x :: nat) AND 2 ^ b) = bit x b"
  using and_exp_eq_0_iff_not_bit [of x b] by (metis gr0I less_irrefl)

lemma GetBit_eq:
  "key_ok k \<Longrightarrow> GetBit db k offset = Inr (of_bool (bit_of (kv_value db k) (nat (offset mod 4294967296))))"
  by (simp add: GetBit_def flip: kv_value_eq)
    (simp add: byteOffset32_def bit32_def bit_of_def and_exp_pos Let_def)

lemma SetBit_ok:
  assumes "\<not> readonly db" "key_ok k" "on \<in> {0, 1}"
    and i: "i = nat (offset mod 4294967296)"
  shows "\<exists>v' db'. SetBit k offset on db = (Inr (of_bool (bit_of (kv_value db k) i)), db') \<and>
     kv_of db' = (kv_of db)(k \<mapsto> v') \<and> length v' = max (length (kv_value db k)) (i div 8 + 1) \<and>
     (\<forall>j. bit_of v' j = (if j = i then on = 1 else bit_of (kv_value db k) j)) \<and>
     expiry_of db' KVType = expiry_of db KVType"
proof -
  let ?v = "kv_value db k" and ?o = "i div 8" and ?b = "7 - i mod 8"
  let ?p = "?v @ replicate (?o + 1 - length ?v) (CHR 0x00)"
  let ?v' = "?p[?o := char_of ((of_char (?p ! ?o) AND (255 - 2 ^ ?b)) OR (of_bool (on = 1) * 2 ^ ?b :: nat))]"
  let ?db = "db\<lparr>bucket := sput (encodeKVKey db k) ?v' (bucket db)\<rparr>"
  have o: "byteOffset32 offset = ?o" "bit32 offset = ?b"
    by (simp_all add: byteOffset32_def bit32_def i)
  have on: "nat on = of_bool (on = 1)" "\<not> (on \<noteq> 0 \<and> on \<noteq> 1)" using assms(3) by auto
  have len: "length ?p = max (length ?v) (?o + 1)" unfolding length_append length_replicate by linarith
  then have "?o < length ?p" by linarith
  then have "bit_of ?p i = bit (of_char (?p ! ?o) :: nat) ?b" by (simp only: bit_of_def simp_thms)
  then have old: "(0 < (of_char (?p ! ?o) :: nat) AND 2 ^ ?b) = bit_of ?v i"
    by (simp only: and_exp_pos bit_of_pad)
  have "SetBit k offset on db = (Inr (if bit_of ?v i then 1 else 0), ?db)"
    unfolding SetBit_def lift_r_def checkKeySize_ok [OF assms(2)] sbind_simps Let_def
      kv_value_eq [symmetric] o on(1) old Commit_ok [OF assms(1)]
    using on(2) by simp
  moreover have "bit_of ?v' j = (if j = i then on = 1 else bit_of ?v j)" for j
    using bit_of_update [of i ?p "on = 1" j] \<open>?o < length ?p\<close> by (simp only: bit_of_pad)
  ultimately show ?thesis
    by (intro exI [of _ ?v'] exI [of _ ?db]) (simp only: kv_of_put expiry_of_put_kv length_list_update len, simp)
qed

lemma mset_ops_ok:
  "\<forall>(k, v) \<in> set kvs. key_ok k \<and> length v \<le> MaxValueSize \<Longrightarrow>
     mset_ops db kvs = Inr (map (\<lambda>(k, v). BPut (encodeKVKey db k) v) kvs)"
  by (induction db kvs rule: mset_ops.induct) (auto simp: checkValueSize_def)

lemma mset_ops_error:
  "\<not> (\<forall>(k, v) \<in> set kvs. key_ok k \<and> length v \<le> MaxValueSize) \<Longrightarrow>
     mset_ops db kvs = Inl errKeySize \<or> mset_ops db kvs = Inl errValueSize"
proof (induction db kvs rule: mset_ops.induct)
  case (2 db k v args)
  show ?case
  proof (cases "key_ok k \<and> length v \<le> MaxValueSize")
    case True
    then have "mset_ops db args = Inl errKeySize \<or> mset_ops db args = Inl errValueSize"
      using 2 by (simp add: checkValueSize_def)
    then show ?thesis using True by (auto simp: checkValueSize_def)
  qed (auto simp: checkValueSize_def checkKeySize_eq)
qed simp

lemma kv_of_puts:
  "kv_of (db\<lparr>bucket := apply_batch (map (\<lambda>(k, v). BPut (encodeKVKey db k) v) kvs) s\<rparr>)
     = kv_of (db\<lparr>bucket := s\<rparr>) ++ map_of (rev kvs)"
proof (induction kvs arbitrary: s)
  case (Cons kv kvs)
  obtain k v where "kv = (k, v)" by (cases kv)
  then show ?case using Cons by (simp add: map_add_assoc [symmetric] map_add_def fun_eq_iff split: option.split)
qed simp

lemma expiry_of_puts:
  "expiry_of (db\<lparr>bucket := apply_batch (map (\<lambda>(k, v). BPut (encodeKVKey db k) v) kvs) s\<rparr>)
     = expiry_of (db\<lparr>bucket := s\<rparr>)"
  by (induction kvs arbitrary: s) (auto simp: fun_eq_iff)

text \<open>\<open>BITOP\<close>: the operations byte by byte, a value that has ended counting as zeros.\<close>

definition byte_at :: "bytes \<Rightarrow> nat \<Rightarrow> char" where
  "byte_at v i = (if i < length v then v ! i else CHR 0x00)"

definition bitop_fun :: "string \<Rightarrow> char \<Rightarrow> char \<Rightarrow> char" where
  "bitop_fun op = (if op = ''and'' then byte_and else if op = ''or'' then byte_or else byte_xor)"

lemma char_of_0: "char_of (0 :: nat) = CHR 0x00"
  by (simp add: char_of_def)

lemma byte_ops_zero [simp]:
  "byte_and a (CHR 0x00) = CHR 0x00" "byte_or a (CHR 0x00) = a" "byte_xor a (CHR 0x00) = a"
  by (simp_all add: byte_and_def byte_or_def byte_xor_def char_of_0)

lemma bitop_fun_commute: "bitop_fun op a b = bitop_fun op b a"
  by (simp add: bitop_fun_def byte_and_def byte_or_def byte_xor_def ac_simps)

lemma bitop_round_longer:
  assumes "op \<in> {''and'', ''or'', ''xor''}" "length o' \<le> length v"
  shows "\<exists>w. bitop_round op v o' = Inr w \<and> length w = length v \<and>
     (\<forall>i. byte_at w i = bitop_fun op (byte_at v i) (byte_at o' i))"
  using assms
  by (auto simp: bitop_round_def Let_def byte_at_def bitop_fun_def bitop_byte_def nth_append)

lemma bitop_round_swap:
  "length v < length o' \<Longrightarrow> bitop_round op v o' = bitop_round op o' v"
  by (simp add: bitop_round_def)

lemma bitop_round_ok:
  assumes "op \<in> {''and'', ''or'', ''xor''}"
  shows "\<exists>w. bitop_round op v o' = Inr w \<and> length w = max (length v) (length o') \<and>
     (\<forall>i. byte_at w i = bitop_fun op (byte_at v i) (byte_at o' i))"
proof (cases "length o' \<le> length v")
  case True
  then show ?thesis using bitop_round_longer [OF assms True] by (simp add: max_def)
next
  case False
  then show ?thesis using bitop_round_longer [OF assms, of v o'] bitop_round_swap [of v o' op]
    by (auto simp: max_def bitop_fun_commute)
qed

lemma bitop_loop_ok:
  assumes "op \<in> {''and'', ''or'', ''xor''}" "\<forall>k \<in> set ks. key_ok k"
  shows "\<exists>w. bitop_loop db op v ks = Inr w \<and>
     length w = fold max (map (\<lambda>k. length (kv_value db k)) ks) (length v) \<and>
     (\<forall>i. byte_at w i = foldl (bitop_fun op) (byte_at v i) (map (\<lambda>k. byte_at (kv_value db k) i) ks))"
  using assms(2)
proof (induction ks arbitrary: v)
  case (Cons k ks)
  obtain w where w: "bitop_round op v (kv_value db k) = Inr w"
    "length w = max (length v) (length (kv_value db k))"
    "\<forall>i. byte_at w i = bitop_fun op (byte_at v i) (byte_at (kv_value db k) i)"
    using bitop_round_ok [OF assms(1)] by blast
  have "bitop_loop db op v (k # ks) = bitop_loop db op w ks"
    using Cons.prems w(1) by (simp flip: kv_value_eq)
  then show ?case using Cons.IH [of w] Cons.prems w(2,3) by (simp add: max.commute)
qed simp

lemma BitOP_ok:
  assumes "\<not> readonly db" "key_ok dest" "\<forall>k \<in> set ks. key_ok k" "ks \<noteq> []"
    and "ToLower op \<in> {''and'', ''or'', ''xor''}"
  shows "\<exists>w db'. BitOP op dest (k # ks) db = (Inr (int (length w)), db') \<and>
     kv_of db' = (kv_of db)(dest \<mapsto> w) \<and>
     length w = fold max (map (\<lambda>k. length (kv_value db k)) ks) (length (kv_value db k)) \<and>
     (\<forall>i. byte_at w i = foldl (bitop_fun (ToLower op)) (byte_at (kv_value db k) i)
        (map (\<lambda>k. byte_at (kv_value db k) i) ks)) \<and>
     expiry_of db' KVType = expiry_of db KVType"
proof -
  obtain w where w: "bitop_loop db (ToLower op) (kv_value db k) ks = Inr w"
    "length w = fold max (map (\<lambda>k. length (kv_value db k)) ks) (length (kv_value db k))"
    "\<forall>i. byte_at w i = foldl (bitop_fun (ToLower op)) (byte_at (kv_value db k) i)
        (map (\<lambda>k. byte_at (kv_value db k) i) ks)"
    using bitop_loop_ok [OF assms(5,3)] by blast
  let ?db = "db\<lparr>bucket := sput (encodeKVKey db dest) w (bucket db)\<rparr>"
  have "BitOP op dest (k # ks) db = (Inr (int (length w)), ?db)"
    using assms w(1) by (auto simp: BitOP_def Let_def lift_r_def Suc_le_eq simp flip: kv_value_eq)
  then show ?thesis using w(2,3) by (intro exI [of _ w] exI [of _ ?db]) auto
qed

text \<open>Setting an expiry.\<close>

lemma expiry_of_nc [simp]: "expiry_of (setNextCheckTime w f db) = expiry_of db"
  "kv_of (setNextCheckTime w f db) = kv_of db"
  by (simp_all add: expiry_of_def kv_of_def fun_eq_iff)

lemma commit_expireAt_ok:
  assumes "\<not> readonly db" "is_int64 w"
  shows "\<exists>db'. commit_expireAt dt k w db = (Inr 1, db') \<and>
     expiry_of db' dt = (expiry_of db dt)(k \<mapsto> w) \<and> kv_of db' = kv_of db"
  using assms
  by (auto simp: commit_expireAt_def expireAt_ops_def Let_def expiry_of_def kv_of_def store_simps codec fun_eq_iff)

lemma ExpireAt_eq:
  assumes "\<not> readonly db" "key_ok k" "is_int64 w"
  shows "\<exists>db'. ExpireAt now k w db =
      (if w \<le> now then Inl errExpireValue else Inr (if kv_of db k = None then 0 else 1), db') \<and>
    kv_of db' = kv_of db \<and>
    expiry_of db' KVType =
      (if now < w \<and> kv_of db k \<noteq> None then (expiry_of db KVType)(k \<mapsto> w) else expiry_of db KVType)"
  using assms commit_expireAt_ok [OF assms(1,3), of KVType k]
  by (auto simp: ExpireAt_def setExpireAt_def Exists_eq lift_r_def)

lemma Del_one:
  assumes "\<not> readonly db" "ttl_ok db"
  shows "\<exists>db'. Del [k] db = (Inr 1, db') \<and> kv_of db' = (kv_of db)(k := None) \<and>
    expiry_of db' KVType = (expiry_of db KVType)(k := None)"
proof -
  let ?db = "db\<lparr>bucket := apply_batch (rmExpire_ops db KVType k) (sdel (encodeKVKey db k) (bucket db))\<rparr>"
  have "Del [k] db = (Inr 1, ?db)" using assms by (simp add: Del_def)
  moreover have "expiry_of ?db KVType = (expiry_of db KVType)(k := None)"
    using assms(2) by (rule expiry_of_rmExpire) (simp add: store_simps)
  ultimately show ?thesis by (intro exI [of _ ?db]) simp
qed

lemma GetRange_inside:
  assumes "key_ok k" "s \<le> e" "e < length (kv_value db k)"
  shows "GetRange db k (int s) (int e) = Inr (Some (take (e + 1 - s) (drop s (kv_value db k))))"
proof -
  have "getRange (int s) (int e) (int (length (kv_value db k))) = (int s, int e)"
    using assms(2,3) by (simp add: getRange_def)
  then show ?thesis using assms
    by (simp add: GetRange_def Let_def slice_def nat_add_distrib flip: kv_value_eq)
qed

end
