(* ===== verification/PopCount.thy ===== *)
theory PopCount
  imports LedisKV
begin

text \<open>
  The bit counting of \<open>BITCOUNT\<close>: \<open>t_kv.go\<close> counts four bytes at a time with a bit trick
  (\<open>numberBitCount\<close>) and the bytes that are left with a table (\<open>bitsInByte\<close>). Both give the
  number of bits set, so \<open>bitcount_bytes\<close> is the sum over the bytes. The table is compared with
  the doubling recursion \<open>pop_table\<close>; the trick is followed on hexadecimal digits.
\<close>

section \<open>The number of bits set\<close>

definition popcount :: "nat \<Rightarrow> nat \<Rightarrow> nat" where
  "popcount n x = (\<Sum>i<n. of_bool (bit x i))"

fun pop_table :: "nat \<Rightarrow> nat list" where
  "pop_table 0 = [0]"
| "pop_table (Suc n) = pop_table n @ map Suc (pop_table n)"

lemma length_pop_table [simp]: "length (pop_table n) = 2 ^ n"
  by (induction n) simp_all

lemma popcount_cong: "(\<And>i. i < n \<Longrightarrow> bit x i = bit y i) \<Longrightarrow> popcount n x = popcount n y"
  by (auto simp: popcount_def intro!: sum.cong)

lemma pop_table_nth: "x < 2 ^ n \<Longrightarrow> pop_table n ! x = popcount n x"
proof (induction n arbitrary: x)
  case 0
  then show ?case by (simp add: popcount_def)
next
  case (Suc n)
  have low: "popcount n x = popcount n (x mod 2 ^ n)"
    by (rule popcount_cong) (simp add: take_bit_eq_mod [symmetric] bit_take_bit_iff)
  have "x div 2 ^ n = of_bool (2 ^ n \<le> x)"
    using Suc.prems by (simp add: le_div_geq)
  then have top: "bit x n \<longleftrightarrow> 2 ^ n \<le> x"
    by (simp add: bit_iff_odd)
  have mod: "x mod 2 ^ n = x - 2 ^ n" if "2 ^ n \<le> x"
  proof -
    have "x - 2 ^ n < 2 ^ n" using Suc.prems by simp
    then show ?thesis using le_mod_geq [OF that] by simp
  qed
  have split: "popcount (Suc n) x = popcount n (x mod 2 ^ n) + of_bool (2 ^ n \<le> x)"
    using low top by (simp add: popcount_def)
  show ?case
  proof (cases "2 ^ n \<le> x")
    case True
    then have "x - 2 ^ n < 2 ^ n" using Suc.prems by simp
    then show ?thesis using True split mod Suc.IH by (simp add: nth_append)
  next
    case False
    then show ?thesis using split Suc.IH by (simp add: nth_append)
  qed
qed

lemma pop_table_8: "pop_table 8 = bitsInByte"
  unfolding bitsInByte_def by (simp add: numeral_eq_Suc)


section \<open>The bit trick\<close>

text \<open>A number as its list of hexadecimal digits, least significant first.\<close>

fun hex :: "nat list \<Rightarrow> nat" where
  "hex [] = 0"
| "hex (x # xs) = x + 16 * hex xs"

lemma and_digit:
  fixes x m p q :: nat
  assumes "x < 16" "m < 16"
  shows "(x + 16 * p) AND (m + 16 * q) = (x AND m) + 16 * (p AND q)"
proof -
  let ?n = "(x + 16 * p) AND (m + 16 * q)"
  have "?n mod 2 ^ 4 = x AND m"
    using assms by (simp only: take_bit_eq_mod [symmetric] take_bit_and) (simp add: take_bit_eq_mod)
  moreover have "?n div 2 ^ 4 = p AND q"
    using assms by (simp only: drop_bit_eq_div [symmetric] drop_bit_and) (simp add: drop_bit_eq_div)
  ultimately show ?thesis using div_mult_mod_eq [of ?n "2 ^ 4"] by simp
qed

lemma digit_cases:
  assumes "(x::nat) < 16"
  shows "x \<in> {0, 1, 2, 3, 4, 5, 6, 7, 8, 9, 10, 11, 12, 13, 14, 15}"
  using assms by (simp add: numeral_eq_Suc less_Suc_eq)

lemma hex_and_hex:
  "length ms = length xs \<Longrightarrow> \<forall>x \<in> set xs. x < 16 \<Longrightarrow> \<forall>m \<in> set ms. m < 16 \<Longrightarrow>
   hex xs AND hex ms = hex (map2 (AND) xs ms)"
  by (induction ms xs rule: list_induct2) (simp_all add: and_digit)

lemma hex_and: "\<forall>x \<in> set xs. x < 16 \<Longrightarrow> m < 16 \<Longrightarrow>
   hex xs AND hex (replicate (length xs) m) = hex (map (\<lambda>x. x AND m) xs)"
  by (induction xs) (simp_all add: and_digit)

lemma hex_add: "hex (map f xs) + hex (map g xs) = hex (map (\<lambda>x. f x + g x) xs)"
  by (induction xs) simp_all

lemma hex_le: "\<forall>x \<in> set xs. g x \<le> f x \<Longrightarrow> hex (map g xs) \<le> hex (map f xs)"
  by (induction xs) (simp_all add: add_mono)

lemma hex_diff: "\<forall>x \<in> set xs. g x \<le> x \<Longrightarrow> hex xs - hex (map g xs) = hex (map (\<lambda>x. x - g x) xs)"
proof (induction xs)
  case (Cons x xs)
  then have "hex (map g xs) \<le> hex xs" using hex_le [of xs g "\<lambda>x. x"] by simp
  then show ?case using Cons by (simp add: algebra_simps)
qed simp

lemma digit_div2: "x < 16 \<Longrightarrow> y < 2 \<Longrightarrow> (x div 2 + 8 * y) AND 5 = (x div 2) AND (5::nat)"
  using digit_cases [of x] by (auto simp: less_2_cases_iff)

lemma digit_div4: "x < 16 \<Longrightarrow> (x div 4 + 4 * y) AND 3 = (x div 4) AND (3::nat)"
proof -
  have m: "z AND 3 = z mod 4" for z :: nat
    using take_bit_eq_mask [of 2 z] by (simp add: take_bit_eq_mod mask_eq_exp_minus_1)
  show "(x div 4 + 4 * y) AND 3 = (x div 4) AND 3" by (simp add: m)
qed

lemma hex_div2:
  "\<forall>x \<in> set xs. x < 16 \<Longrightarrow>
     (hex xs div 2) AND hex (replicate (length xs) 5) = hex (map (\<lambda>x. (x div 2) AND 5) xs)"
proof (induction xs)
  case (Cons x xs)
  let ?y = "hex xs"
  have "(x + 16 * ?y) div 2 = x div 2 + 8 * ?y" using div_mult_self2 [of 2 x "8 * ?y"] by simp
  moreover have "8 * ?y = 8 * (?y mod 2) + 16 * (?y div 2)"
    using mult_div_mod_eq [of 2 ?y] by linarith
  ultimately have "(x + 16 * ?y) div 2 = (x div 2 + 8 * (?y mod 2)) + 16 * (?y div 2)" by linarith
  moreover have "x div 2 < 8" "?y mod 2 < 2" using Cons.prems by (simp_all add: less_mult_imp_div_less)
  then have "x div 2 + 8 * (?y mod 2) < 16" by linarith
  ultimately show ?case using Cons digit_div2 [of x "?y mod 2"] by (simp add: and_digit)
qed simp

lemma hex_div4:
  "\<forall>x \<in> set xs. x < 16 \<Longrightarrow>
     (hex xs div 4) AND hex (replicate (length xs) 3) = hex (map (\<lambda>x. (x div 4) AND 3) xs)"
proof (induction xs)
  case (Cons x xs)
  let ?y = "hex xs"
  have "(x + 16 * ?y) div 4 = x div 4 + 4 * ?y" using div_mult_self2 [of 4 x "4 * ?y"] by simp
  moreover have "4 * ?y = 4 * (?y mod 4) + 16 * (?y div 4)"
    using mult_div_mod_eq [of 4 ?y] by linarith
  ultimately have "(x + 16 * ?y) div 4 = (x div 4 + 4 * (?y mod 4)) + 16 * (?y div 4)" by linarith
  moreover have "x div 4 < 4" "?y mod 4 < 4" using Cons.prems by (simp_all add: less_mult_imp_div_less)
  then have "x div 4 + 4 * (?y mod 4) < 16" by linarith
  ultimately show ?case using Cons digit_div4 [of x "?y mod 4"] by (simp add: and_digit)
qed simp

text \<open>The two first steps of \<open>numberBitCount\<close> on one digit count its bits.\<close>

definition pairs :: "nat \<Rightarrow> nat" where "pairs x = x - ((x div 2) AND 5)"
definition quads :: "nat \<Rightarrow> nat" where "quads x = (pairs x AND 3) + ((pairs x div 4) AND 3)"

lemma pop_table_4: "pop_table 4 = [0, 1, 1, 2, 1, 2, 2, 3, 1, 2, 2, 3, 2, 3, 3, 4]"
  by (simp add: numeral_eq_Suc)

lemma pairs_bound: "x < 16 \<Longrightarrow> (x div 2) AND 5 \<le> x \<and> pairs x < 16"
  using digit_cases [of x] by (auto simp: pairs_def)

lemma quads_popcount: "x < 16 \<Longrightarrow> quads x = popcount 4 x"
proof -
  assume x: "x < 16"
  then have "quads x = pop_table 4 ! x"
    using digit_cases [of x] by (auto simp: quads_def pairs_def pop_table_4)
  then show ?thesis using pop_table_nth [of x 4] x by simp
qed

lemma popcount_le: "popcount n x \<le> n"
proof -
  have "popcount n x \<le> (\<Sum>i<n. 1)" unfolding popcount_def by (rule sum_mono) simp
  then show ?thesis by simp
qed

lemma popcount_byte:
  assumes "lo < 16" "hi < 16"
  shows "popcount 8 (lo + 16 * hi) = popcount 4 lo + popcount 4 hi"
proof -
  have "bit (lo + 16 * hi) i = bit (take_bit 4 (lo + 16 * hi)) i" if "i < 4" for i
    using that by (simp add: bit_take_bit_iff)
  then have l: "bit (lo + 16 * hi) i = bit lo i" if "i < 4" for i
    using that assms by (simp add: take_bit_eq_mod)
  have h: "bit (lo + 16 * hi) (4 + i) = bit hi i" for i
    using assms bit_drop_bit_eq [of 4 "lo + 16 * hi"] by (simp add: drop_bit_eq_div)
  have "popcount 8 (lo + 16 * hi) = (\<Sum>i<4. of_bool (bit (lo + 16 * hi) i))
      + (\<Sum>i<4. of_bool (bit (lo + 16 * hi) (4 + i)))"
    unfolding popcount_def by (simp add: numeral_eq_Suc)
  then show ?thesis by (simp only: h popcount_def) (simp add: l)
qed

lemma hex_less: "\<forall>x \<in> set xs. x < 16 \<Longrightarrow> hex xs < 16 ^ length xs"
proof (induction xs)
  case (Cons x xs)
  then have "x < 16" "hex xs + 1 \<le> 16 ^ length xs" by simp_all
  then show ?case by simp
qed simp

lemma replicate_8: "replicate 8 m = [m, m, m, m, m, m, m, m]"
  by (simp add: numeral_eq_Suc)

lemma masks:
  "0x55555555 = hex (replicate 8 5)" "0x33333333 = hex (replicate 8 3)"
  "0x0F0F0F0F = hex [15, 0, 15, 0, 15, 0, 15, 0]"
  by (simp_all only: replicate_8) simp_all

lemma quads_le: "x < 16 \<Longrightarrow> quads x \<le> 4"
  using popcount_le [of 4 x] by (simp add: quads_popcount)

lemma wrap_diff: "X \<le> n \<Longrightarrow> n < M \<Longrightarrow> (n + M - X) mod M = n - (X :: nat)"
  using mod_add_self2 [of "n - X" M] by (simp add: less_imp_diff_less)

lemma mod_and_mask: "m < 4294967296 \<Longrightarrow> x mod 4294967296 AND m = x AND (m :: nat)"
proof -
  assume "m < 4294967296"
  then have "take_bit 32 m = m" by (simp add: take_bit_eq_mod)
  moreover have "take_bit 32 x AND take_bit 32 m = x AND take_bit 32 m"
    by (rule bit_eqI) (auto simp: bit_simps)
  ultimately show ?thesis by (simp add: take_bit_eq_mod)
qed

lemma numberBitCount_steps:
  assumes "length xs = 8" "\<forall>x \<in> set xs. x < 16"
  shows "numberBitCount (hex xs) =
    (((hex (map quads xs) + hex (map quads xs) div 16) AND hex [15, 0, 15, 0, 15, 0, 15, 0])
       * 0x01010101) mod 4294967296 div 16777216"
proof -
  let ?n = "hex xs" and ?X = "hex (map (\<lambda>x. (x div 2) AND 5) xs)"
  have n: "?n < 4294967296" using hex_less [OF assms(2)] assms(1) by simp
  have "?n - ?X = hex (map pairs xs)"
    using assms pairs_bound hex_diff [of xs "\<lambda>x. (x div 2) AND 5"]
    by (auto simp: pairs_def [abs_def])
  moreover have "?X \<le> ?n"
    using assms pairs_bound hex_le [of xs "\<lambda>x. (x div 2) AND 5" "\<lambda>x. x"] by simp
  moreover have "(?n div 2) AND 0x55555555 = ?X"
    using hex_div2 [OF assms(2)] by (simp only: masks assms(1))
  ultimately have 1: "(?n + 4294967296 - ((?n div 2) AND 0x55555555)) mod 4294967296 = hex (map pairs xs)"
    using n by (simp only: wrap_diff)
  have p: "\<forall>x \<in> set (map pairs xs). x < 16" using assms pairs_bound by auto
  have "hex (map quads xs) < 4294967296"
    using hex_less [of "map quads xs"] assms quads_le by fastforce
  moreover have "hex (map pairs xs) AND 0x33333333 = hex (map (\<lambda>x. pairs x AND 3) xs)"
    using hex_and [OF p] assms(1) by (simp only: masks) (simp add: o_def)
  moreover have "(hex (map pairs xs) div 4) AND 0x33333333 = hex (map (\<lambda>x. (pairs x div 4) AND 3) xs)"
    using hex_div4 [OF p] assms(1) by (simp only: masks) (simp add: o_def)
  ultimately have 2: "((hex (map pairs xs) AND 0x33333333) + ((hex (map pairs xs) div 4) AND 0x33333333))
      mod 4294967296 = hex (map quads xs)"
    by (simp add: hex_add quads_def [abs_def])
  have "(hex (map quads xs) + hex (map quads xs) div 16) mod 4294967296 AND 0x0F0F0F0F
      = (hex (map quads xs) + hex (map quads xs) div 16) AND 0x0F0F0F0F"
    by (rule mod_and_mask) simp
  then show ?thesis unfolding numberBitCount_def Let_def 1 2 by (simp only: masks)
qed

lemma of_char_less: "(of_char c :: nat) < 256"
  by (metis mod_less_divisor of_char_mod_256 zero_less_numeral)

lemma byte_sum:
  fixes a b c d :: nat
  assumes "a \<le> 8" "b \<le> 8" "c \<le> 8" "d \<le> 8"
  shows "((a + 256 * b + 65536 * c + 16777216 * d) * 0x01010101) mod 4294967296 div 16777216 = a + b + c + d"
proof -
  let ?low = "a + 256 * (a + b) + 65536 * (a + b + c)"
  have low: "?low < 16777216" using assms by (simp add: algebra_simps)
  have "(a + 256 * b + 65536 * c + 16777216 * d) * 0x01010101
      = (?low + 16777216 * (a + b + c + d)) + 4294967296 * (b + c + d + 256 * (c + d) + 65536 * d)"
    by (simp add: algebra_simps)
  moreover have "?low + 16777216 * (a + b + c + d) < 4294967296" using low assms by simp
  ultimately have "((a + 256 * b + 65536 * c + 16777216 * d) * 0x01010101) mod 4294967296
      = ?low + 16777216 * (a + b + c + d)"
    by (metis mod_less mod_mult_self2)
  then show ?thesis using low div_mult_self2 [of 16777216 ?low "a + b + c + d"] by simp
qed

lemma digit_masks: "z < 16 \<Longrightarrow> z AND 15 = z" "z AND 0 = (0 :: nat)"
  using take_bit_eq_mask [of 4 z] by (simp_all add: take_bit_eq_mod mask_eq_exp_minus_1)

lemma fold_quads:
  assumes "\<forall>q \<in> {a, b, c, d, e, f, g, h}. q \<le> 4"
  shows "(hex [a, b, c, d, e, f, g, h] + hex [a, b, c, d, e, f, g, h] div 16)
      AND hex [15, 0, 15, 0, 15, 0, 15, 0]
    = (a + b) + 256 * (c + d) + 65536 * (e + f) + 16777216 * (g + h)"
proof -
  have 1: "hex [a, b, c, d, e, f, g, h] div 16 = hex [b, c, d, e, f, g, h]"
    using assms div_mult_self2 [of 16 a "hex [b, c, d, e, f, g, h]"] by simp
  have 2: "hex [a, b, c, d, e, f, g, h] + hex [b, c, d, e, f, g, h]
      = hex [a + b, b + c, c + d, d + e, e + f, f + g, g + h, h]" by simp
  have 3: "hex [a + b, b + c, c + d, d + e, e + f, f + g, g + h, h] AND hex [15, 0, 15, 0, 15, 0, 15, 0]
      = hex [a + b, 0, c + d, 0, e + f, 0, g + h, 0]"
  proof -
    have "map2 (AND) [a + b, b + c, c + d, d + e, e + f, f + g, g + h, h] [15, 0, 15, 0, 15, 0, 15, 0]
        = [a + b, 0, c + d, 0, e + f, 0, g + h, 0]"
      using assms by (simp add: digit_masks)
    then show ?thesis using assms
      hex_and_hex [of "[15, 0, 15, 0, 15, 0, 15, 0]" "[a + b, b + c, c + d, d + e, e + f, f + g, g + h, h]"]
      by (simp del: hex.simps)
  qed
  show ?thesis unfolding 1 2 3 by simp
qed

lemma numberBitCount_hex:
  assumes "length xs = 8" "\<forall>x \<in> set xs. x < 16"
  shows "numberBitCount (hex xs) = sum_list (map (popcount 4) xs)"
proof -
  obtain a b c d e f g h where xs: "xs = [a, b, c, d, e, f, g, h]"
    using assms(1) by (auto simp: numeral_eq_Suc length_Suc_conv)
  have q: "\<forall>q \<in> {quads a, quads b, quads c, quads d, quads e, quads f, quads g, quads h}. q \<le> 4"
    using assms(2) quads_le by (simp add: xs)
  have "numberBitCount (hex xs)
      = (quads a + quads b) + (quads c + quads d) + (quads e + quads f) + (quads g + quads h)"
    unfolding numberBitCount_steps [OF assms] unfolding xs list.map fold_quads [OF q]
    using q by (intro byte_sum) simp_all
  then show ?thesis using assms(2) by (simp add: xs quads_popcount)
qed

lemma numberBitCount_be:
  "numberBitCount (be_nat [a, b, c, d])
     = popcount 8 (of_char a) + popcount 8 (of_char b) + popcount 8 (of_char c) + popcount 8 (of_char d)"
proof -
  let ?lo = "\<lambda>z. of_char z mod 16 :: nat" and ?hi = "\<lambda>z. of_char z div 16 :: nat"
  have b: "?lo z < 16" "?hi z < 16" for z :: char
    using of_char_less [of z] by (simp_all add: less_mult_imp_div_less)
  have e: "of_char z = ?lo z + 16 * ?hi z" for z :: char by simp
  have p: "popcount 8 (of_char z) = popcount 4 (?lo z) + popcount 4 (?hi z)" for z :: char
    using popcount_byte [OF b [of z]] by simp
  have "(l + 16 * h) + 256 * y = l + 16 * (h + 16 * y)" for l h y :: nat by simp
  then have r: "of_char z + 256 * y = ?lo z + 16 * (?hi z + 16 * y)" for z :: char and y
    by (metis e)
  have "be_nat [a, b, c, d] = of_char d + 256 * (of_char c + 256 * (of_char b + 256 * (of_char a + 256 * 0)))"
    by (simp add: be_nat_def)
  also have "\<dots> = hex [?lo d, ?hi d, ?lo c, ?hi c, ?lo b, ?hi b, ?lo a, ?hi a]"
    by (simp only: r hex.simps)
  also have "numberBitCount \<dots> = sum_list (map (popcount 4) [?lo d, ?hi d, ?lo c, ?hi c, ?lo b, ?hi b, ?lo a, ?hi a])"
    by (rule numberBitCount_hex) (simp_all only: list.set ball_simps insert_iff b, simp)
  finally show ?thesis by (simp only: p list.map sum_list.Cons sum_list.Nil ac_simps add_0_right)
qed

lemma bitcount_bytes_popcount:
  "bitcount_bytes v = (\<Sum>c\<leftarrow>v. int (popcount 8 (of_char c)))"
proof -
  have t: "bitsInByte ! of_char c = popcount 8 (of_char c)" for c
    using pop_table_nth [of "of_char c" 8] of_char_less [of c] by (simp add: pop_table_8)
  show ?thesis by (induction v rule: bitcount_bytes.induct) (simp_all add: numberBitCount_be t)
qed

section \<open>Counting the bits of a value\<close>

lemma card_bits_byte: "card {i. i < 8 \<and> bit_of [c] i} = popcount 8 (of_char c)"
proof -
  have "popcount 8 (of_char c) = (\<Sum>i<8. of_bool (bit (of_char c :: nat) (7 - i)))"
    unfolding popcount_def by (simp add: numeral_eq_Suc)
  also have "\<dots> = (\<Sum>i\<in>{i. i < 8 \<and> bit_of [c] i}. 1)"
    by (rule sum.mono_neutral_cong_right) (auto simp: bit_of_def)
  finally show ?thesis by simp
qed

lemma bit_of_Cons: "bit_of (c # v) i = (if i < 8 then bit_of [c] i else bit_of v (i - 8))"
proof (cases "i < 8")
  case False
  then obtain j where "i = j + 8" by (metis add.commute le_Suc_ex not_less)
  moreover have "(j + 8) div 8 = Suc (j div 8)" by simp
  ultimately show ?thesis by (simp add: bit_of_def)
qed (simp add: bit_of_def)

lemma bit_of_bound: "bit_of v i \<Longrightarrow> i < 8 * length v"
  by (simp add: bit_of_def) (metis div_less_iff_less_mult mult.commute zero_less_numeral)

lemma finite_bits [simp]: "finite {i. bit_of v i}" "finite {i. P i \<and> bit_of v i}"
  by (rule finite_subset [of _ "{..<8 * length v}"]; auto dest: bit_of_bound)+

lemma bitcount_card: "bitcount_bytes v = int (card {i. bit_of v i})"
proof -
  have "int (card {i. bit_of v i}) = (\<Sum>c\<leftarrow>v. int (popcount 8 (of_char c)))"
  proof (induction v)
    case (Cons c v)
    have "{i. bit_of (c # v) i} = {i. i < 8 \<and> bit_of [c] i} \<union> (\<lambda>i. i + 8) ` {i. bit_of v i}"
    proof (rule set_eqI)
      fix i
      show "i \<in> {i. bit_of (c # v) i} \<longleftrightarrow> i \<in> {i. i < 8 \<and> bit_of [c] i} \<union> (\<lambda>i. i + 8) ` {i. bit_of v i}"
      proof (cases "i < 8")
        case False
        then obtain j where "i = j + 8" by (metis add.commute le_Suc_ex not_less)
        then show ?thesis by (simp add: bit_of_Cons [of c v] image_iff)
      qed (auto simp: bit_of_Cons [of c v])
    qed
    moreover have "card ({i. i < 8 \<and> bit_of [c] i} \<union> (\<lambda>i. i + 8) ` {i. bit_of v i})
        = card {i. i < 8 \<and> bit_of [c] i} + card ((\<lambda>i. i + 8) ` {i. bit_of v i})"
      by (rule card_Un_disjoint) auto
    ultimately have "card {i. bit_of (c # v) i} = popcount 8 (of_char c) + card {i. bit_of v i}"
      by (simp only: card_bits_byte card_image [OF inj_on_add'] )
    then show ?case using Cons by simp
  qed (simp add: bit_of_def)
  then show ?thesis by (simp add: bitcount_bytes_popcount)
qed

text \<open>The two masks of \<open>BitCount\<close> cut off the bits before the first and after the last one.\<close>

lemma bit_of_char: "bit (of_char c :: nat) j \<Longrightarrow> j < 8"
proof -
  have "take_bit 8 (of_char c :: nat) = of_char c"
    using of_char_less [of c] by (simp add: take_bit_eq_mod)
  then show "bit (of_char c :: nat) j \<Longrightarrow> j < 8" by (metis bit_take_bit_iff)
qed

lemma bit_byte_and:
  "bit (of_char (byte_and a b) :: nat) j \<longleftrightarrow> bit (of_char a :: nat) j \<and> bit (of_char b :: nat) j"
  unfolding byte_and_def bit_byte bit_and_iff using bit_of_char [of a j] by blast

lemma bit_of_mask_first:
  assumes "v \<noteq> []" "sb < 8"
  shows "bit_of (mask_first sb v) i \<longleftrightarrow> bit_of v i \<and> sb \<le> i"
proof (cases "i div 8 = 0")
  case True
  have "(255 div 2 ^ sb :: nat) = drop_bit sb (mask 8)"
    by (simp add: drop_bit_eq_div mask_eq_exp_minus_1)
  then have "bit (of_char (char_of (255 div 2 ^ sb :: nat)) :: nat) (7 - i) \<longleftrightarrow> sb + (7 - i) < 8"
    unfolding bit_byte by (auto simp: bit_simps)
  moreover have "i < 8" "i mod 8 = i" using True by (auto simp: div_eq_0_iff)
  ultimately show ?thesis using assms True
    by (auto simp: bit_of_def mask_first_def bit_byte_and)
next
  case False
  then have "8 \<le> i" by (metis div_less not_less)
  then show ?thesis using assms False by (auto simp: bit_of_def mask_first_def)
qed

lemma bit_of_mask_last:
  assumes "v \<noteq> []" "eb < 8"
  shows "bit_of (mask_last eb v) i \<longleftrightarrow> bit_of v i \<and> i \<le> 8 * (length v - 1) + eb"
proof (cases "i div 8 = length v - 1")
  case True
  have i: "i = 8 * (length v - 1) + i mod 8" by (metis True mult_div_mod_eq)
  have "(255 * 2 ^ (7 - eb) :: nat) = push_bit (7 - eb) (mask 8)"
    by (simp add: push_bit_eq_mult mask_eq_exp_minus_1)
  then have "bit (of_char (char_of (255 * 2 ^ (7 - eb) :: nat)) :: nat) (7 - r) \<longleftrightarrow> r \<le> eb" if "r < 8" for r
    unfolding bit_byte using that assms(2) by (auto simp: bit_simps)
  then have "bit (of_char (char_of (255 * 2 ^ (7 - eb) :: nat)) :: nat) (7 - i mod 8) \<longleftrightarrow> i mod 8 \<le> eb"
    by simp
  moreover have "i mod 8 \<le> eb \<longleftrightarrow> i \<le> 8 * (length v - 1) + eb" using i by linarith
  ultimately show ?thesis using assms(1) True
    by (auto simp: bit_of_def mask_last_def bit_byte_and)
next
  case False
  then have "i div 8 < length v \<Longrightarrow> i \<le> 8 * (length v - 1) + eb" by linarith
  then show ?thesis using False by (auto simp: bit_of_def mask_last_def)
qed

lemma bit_of_slice:
  assumes "a \<le> b" "b \<le> length v"
  shows "bit_of (slice (int a) (int b) v) i \<longleftrightarrow> bit_of v (8 * a + i) \<and> i < 8 * (b - a)"
  using assms by (auto simp: bit_of_def slice_def div_less_iff_less_mult mult.commute)

lemma bit_of_mask_first_opt:
  "v \<noteq> [] \<Longrightarrow> sb < 8 \<Longrightarrow> bit_of (if 0 < sb then mask_first sb v else v) i \<longleftrightarrow> bit_of v i \<and> sb \<le> i"
  by (simp add: bit_of_mask_first)

lemma bit_of_mask_last_opt:
  "v \<noteq> [] \<Longrightarrow> eb < 8 \<Longrightarrow>
     bit_of (if eb < 7 then mask_last eb v else v) i \<longleftrightarrow> bit_of v i \<and> i \<le> 8 * (length v - 1) + eb"
  using bit_of_bound [of v i] by (cases v) (auto simp: bit_of_mask_last)

lemma card_shift: "card {i. P (n + i)} = card {i. n \<le> i \<and> P i}" for n :: nat
proof -
  have "{i. n \<le> i \<and> P i} = (+) n ` {i. P (n + i)}"
    by (auto simp: image_iff) (metis le_Suc_ex)
  then show ?thesis by (simp add: card_image)
qed

lemma bitcount_masked:
  assumes "s \<le> e" "e < 8 * length v"
  defines "w \<equiv> slice (int (s div 8)) (int (e div 8) + 1) v"
  defines "w1 \<equiv> (if 0 < s mod 8 then mask_first (s mod 8) w else w)"
  shows "bitcount_bytes (if e mod 8 < 7 then mask_last (e mod 8) w1 else w1)
     = int (card {i. s \<le> i \<and> i \<le> e \<and> bit_of v i})"
proof -
  let ?a = "s div 8" and ?b = "Suc (e div 8)"
  have ab: "?a \<le> ?b" "?a < ?b" "?b \<le> length v" using assms(1,2)
    by (simp_all add: div_le_mono le_imp_less_Suc less_eq_Suc_le [symmetric]
        div_less_iff_less_mult mult.commute le_SucI)
  have w: "bit_of w i \<longleftrightarrow> bit_of v (8 * ?a + i) \<and> i < 8 * (?b - ?a)" for i
    using bit_of_slice [OF ab(1,3)] by (simp add: w_def add.commute)
  have ne: "w \<noteq> []" "length w = ?b - ?a" using ab by (auto simp: w_def slice_def nat_add_distrib)
  then have w1: "w1 \<noteq> []" "length w1 = ?b - ?a"
    by (auto simp: w1_def mask_first_def)
  have "bit_of (if e mod 8 < 7 then mask_last (e mod 8) w1 else w1) i \<longleftrightarrow>
      s \<le> 8 * ?a + i \<and> 8 * ?a + i \<le> e \<and> bit_of v (8 * ?a + i)" for i
  proof -
    have "s mod 8 \<le> i \<longleftrightarrow> s \<le> 8 * ?a + i" using mult_div_mod_eq [of 8 s] by linarith
    moreover have "i \<le> 8 * (?b - ?a - 1) + e mod 8 \<longleftrightarrow> 8 * ?a + i \<le> e"
      using mult_div_mod_eq [of 8 e] ab by linarith
    moreover have "8 * ?a + i \<le> e \<Longrightarrow> i < 8 * (?b - ?a)"
      using mult_div_mod_eq [of 8 e] mod_less_divisor [of 8 e] ab by linarith
    ultimately show ?thesis
      using bit_of_mask_last_opt [OF w1(1), of "e mod 8" i] bit_of_mask_first_opt [OF ne(1), of "s mod 8" i]
      by (auto simp: w w1(2) simp flip: w1_def)
  qed
  then have "{i. bit_of (if e mod 8 < 7 then mask_last (e mod 8) w1 else w1) i}
      = {i. s \<le> 8 * ?a + i \<and> 8 * ?a + i \<le> e \<and> bit_of v (8 * ?a + i)}" by (rule Collect_cong)
  moreover have "8 * ?a \<le> s" by simp
  then have "{i. 8 * ?a \<le> i \<and> s \<le> i \<and> i \<le> e \<and> bit_of v i} = {i. s \<le> i \<and> i \<le> e \<and> bit_of v i}"
    by auto
  ultimately show ?thesis unfolding bitcount_card
    using card_shift [of "\<lambda>i. s \<le> i \<and> i \<le> e \<and> bit_of v i" "8 * ?a"] by (simp only:)
qed

text \<open>The ranges that lie in the value pass the validation unchanged.\<close>

lemma validateRange_inside:
  "s \<le> e \<Longrightarrow> e < n \<Longrightarrow> validateRange m1 m2 (int s) (int e) (int n) = Inr (int s, int e)"
  by (simp add: validateRange_def)

lemma BitCount_bit:
  assumes "key_ok k" "kv_of db k = Some v" "s \<le> e" "e < 8 * length v"
  shows "BitCount db k (int s) (int e) ''BIT'' = Inr (int (card {i. s \<le> i \<and> i \<le> e \<and> bit_of v i}))"
proof -
  have "ToUpper ''BIT'' = ''BIT''" by (simp add: upper_char_def)
  moreover have "validateBitRange (int s) (int e) (int (length v) * 8) = Inr (int s, int e)"
    using validateRange_inside [OF assms(3,4)] by (simp add: validateBitRange_def mult.commute)
  moreover have "s div 8 < length v" "e div 8 < length v"
    using assms(3,4) by (simp_all add: div_less_iff_less_mult mult.commute)
  moreover have "int s div 8 = int (s div 8)" "int e div 8 = int (e div 8)"
    "nat (int s mod 8) = s mod 8" "nat (int e mod 8) = e mod 8"
    by (simp_all add: zdiv_int nat_mod_distrib)
  ultimately show ?thesis using assms bitcount_masked [OF assms(3,4)]
    by (simp add: BitCount_def Let_def kv_of_def del: zero_less_nat_eq split del: if_split cong: if_cong)
qed

lemma BitCount_byte:
  assumes "key_ok k" "kv_of db k = Some v" "s \<le> e" "e < length v"
  shows "BitCount db k (int s) (int e) ''BYTE''
    = Inr (int (card {i. 8 * s \<le> i \<and> i < 8 * (e + 1) \<and> bit_of v i}))"
proof -
  have "ToUpper ''BYTE'' = ''BYTE''" by (simp add: upper_char_def)
  moreover have "validateByteRange (int s) (int e) (int (length v)) = Inr (int s, int e)"
    using validateRange_inside [OF assms(3,4)] by (simp add: validateByteRange_def)
  moreover have "bit_of (slice (int s) (int e + 1) v) i \<longleftrightarrow>
      8 * s + i < 8 * (e + 1) \<and> bit_of v (8 * s + i)" for i
    using bit_of_slice [of s "e + 1" v i] assms(3,4) by (auto simp: add.commute)
  then have "bit_of (slice (int s) (int e + 1) v) = (\<lambda>i. 8 * s + i < 8 * (e + 1) \<and> bit_of v (8 * s + i))"
    by (rule ext)
  ultimately show ?thesis
    using assms card_shift [of "\<lambda>i. i < 8 * (e + 1) \<and> bit_of v i" "8 * s"]
    by (simp add: BitCount_def kv_of_def bitcount_card)
qed

section \<open>Finding a bit\<close>

text \<open>\<open>BITPOS\<close> over whole bytes returns the first position that holds the bit.\<close>

lemma bit_at_bit: "j < 8 \<Longrightarrow> (bit_at c j = 1) = bit (of_char c :: nat) (7 - j)" "bit_at c j \<in> {0, 1}"
  by (auto simp: bit_at_def bit_iff_odd odd_iff_mod_2_eq_one)

lemma find_bit_byte:
  assumes "on \<in> {0, 1}"
  shows "find_bit on c 0 7 = find (\<lambda>j. bit_of [c] (nat j) = (on = 1)) [0..7]"
  unfolding find_bit_def
proof (rule find_cong)
  fix j :: int assume "j \<in> set [0..7]"
  then have "nat j < 8" by auto
  then have "(bit_at c (nat j) = 1) = bit_of [c] (nat j)"
    by (subst bit_at_bit) (auto simp: bit_of_def)
  then show "(bit_at c (nat j) = on) = (bit_of [c] (nat j) = (on = 1))"
    using bit_at_bit(2) [of c "nat j"] assms by auto
qed simp

lemma find_first: "find P xs = Some x \<Longrightarrow> sorted_wrt (<) xs \<Longrightarrow>
    P x \<and> x \<in> set xs \<and> (\<forall>y \<in> set xs. y < x \<longrightarrow> \<not> P y)" for x :: int
  by (induction xs) (auto split: if_splits)

text \<open>What it means that \<open>r\<close> is the first position of the bit, counted from \<open>8 * b\<close>.\<close>

definition first_bit :: "bool \<Rightarrow> nat \<Rightarrow> bytes \<Rightarrow> int \<Rightarrow> bool" where
  "first_bit on b v r \<longleftrightarrow>
     (r = -1 \<and> (\<forall>i < 8 * length v. bit_of v i \<noteq> on)) \<or>
     (\<exists>i < 8 * length v. r = int (8 * b + i) \<and> bit_of v i = on \<and> (\<forall>j < i. bit_of v j \<noteq> on))"

lemma first_bit_here:
  assumes "find (\<lambda>j. bit_of [c] (nat j) = on) [0..7] = Some j"
  shows "first_bit on b (c # v) (int b * 8 + j)"
proof -
  have j: "bit_of [c] (nat j) = on" "0 \<le> j" "j \<le> 7"
    "\<forall>y \<in> set [0..7]. y < j \<longrightarrow> \<not> bit_of [c] (nat y) = on"
    using find_first [OF assms] by auto
  have "\<not> bit_of [c] i = on" if "i < nat j" for i
    using j(4) [rule_format, of "int i"] that j(3) by auto
  then show ?thesis unfolding first_bit_def using j(1-3)
    by (intro disjI2 exI [of _ "nat j"]) (auto simp: bit_of_Cons [of c v])
qed

lemma first_bit_later:
  assumes "find (\<lambda>j. bit_of [c] (nat j) = on) [0..7] = None" "first_bit on (b + 1) v r"
  shows "first_bit on b (c # v) r"
proof -
  have none: "bit_of [c] i \<noteq> on" if "i < 8" for i
  proof -
    have "int i \<in> set [0..7]" using that by simp
    moreover have "\<forall>j \<in> set [0..7]. \<not> bit_of [c] (nat j) = on"
      using assms(1) by (simp only: find_None_iff) blast
    ultimately show ?thesis by fastforce
  qed
  consider "r = -1" "\<forall>i < 8 * length v. bit_of v i \<noteq> on"
    | i where "i < 8 * length v" "r = int (8 * (b + 1) + i)" "bit_of v i = on" "\<forall>j < i. bit_of v j \<noteq> on"
    using assms(2) unfolding first_bit_def by blast
  then show ?thesis
  proof cases
    case 1
    then show ?thesis using none by (auto simp: first_bit_def bit_of_Cons [of c v])
  next
    case 2
    then show ?thesis using none unfolding first_bit_def
      by (intro disjI2 exI [of _ "i + 8"]) (auto simp: bit_of_Cons [of c v])
  qed
qed

lemma bitpos_first:
  "on \<in> {0, 1} \<Longrightarrow> first_bit (on = 1) b v (bitpos_loop on sb eb 0 7 (int b) v)"
proof (induction v arbitrary: b)
  case Nil
  then show ?case by (simp add: first_bit_def)
next
  case (Cons c v)
  have step: "bitpos_loop on sb eb 0 7 (int b) (c # v) = (case find_bit on c 0 7 of
      Some j \<Rightarrow> int b * 8 + j | None \<Rightarrow> bitpos_loop on sb eb 0 7 (int (b + 1)) v)"
    by (simp add: add.commute split: option.split)
  show ?case
  proof (cases "find_bit on c 0 7")
    case None
    then show ?thesis unfolding step
      using first_bit_later [of c "on = 1" b v] Cons by (simp add: find_bit_byte del: of_nat_add of_nat_Suc)
  next
    case (Some j)
    then show ?thesis unfolding step
      using first_bit_here [of c "on = 1"] Cons.prems by (simp add: find_bit_byte)
  qed
qed

lemma BitPos_byte:
  assumes "key_ok k" "kv_of db k = Some v" "s \<le> e" "e < length v" "on \<in> {0, 1}"
  shows "\<exists>r. BitPos db k on (int s) (int e) ''BYTE'' = Inr r \<and>
     first_bit (on = 1) s (slice (int s) (int (e + 1)) v) r"
proof -
  have "BitPos db k on (int s) (int e) ''BYTE''
      = Inr (bitpos_loop on (int s) (int e) 0 7 (int s) (slice (int s) (int (e + 1)) v))"
    using assms by (auto simp: BitPos_def Let_def kv_of_def getRange_def add.commute)
  then show ?thesis using bitpos_first [OF assms(5)] by blast
qed

end
