(* ===== verification/CmdStrings.thy ===== *)
theory CmdStrings
  imports CmdBase PopCount "HOL-Library.Multiset"
begin

text \<open>
  The string commands (\<open>strings.go\<close>): one definition per handler, in the order of the file.
\<close>

section \<open>Handlers\<close>

definition handleExpiration :: "machine \<Rightarrow> bytes \<Rightarrow> int \<Rightarrow> ledisdb \<Rightarrow> reply result \<times> ledisdb" where
  "handleExpiration m key timestamp db =
     (if timestamp < wall m then reply_with (\<lambda>_. SimpleInt 1) (Del [key] db)
      else reply_with SimpleInt (ExpireAt (wall m) key timestamp db))"

definition cmdEXPIREAT :: handler where
  "cmdEXPIREAT m args db =
     (if length args \<noteq> 3 then wrong_args db
      else case StrInt64 (Some (args ! 2)) of
             Inl e \<Rightarrow> (Inl (ErrText ''ERR invalid timestamp''), db)
           | Inr timestamp \<Rightarrow> handleExpiration m (args ! 1) timestamp db)"

definition cmdEXPIRE :: handler where
  "cmdEXPIRE m args db =
     (if length args \<noteq> 3 then wrong_args db
      else case StrInt64 (Some (args ! 2)) of
             Inl e \<Rightarrow> (Inl (ErrText ''ERR invalid duration''), db)
           | Inr duration \<Rightarrow> handleExpiration m (args ! 1) (wrap64 (m_Now m + duration)) db)"

text \<open>When the key is missing or \<open>Exists\<close> fails, \<open>STRLEN\<close> returns 0 together with the error.\<close>

definition cmdSTRLEN :: handler where
  "cmdSTRLEN m args db =
     (if length args \<noteq> 2 then wrong_args db
      else case Exists db (args ! 1) of
             Inl e \<Rightarrow> (Inl e, db)
           | Inr exists \<Rightarrow>
               if exists = 0 then (Inr (SimpleInt 0), db)
               else answer (StrLen db (args ! 1)) SimpleInt db)"

definition cmdSETRANGE :: handler where
  "cmdSETRANGE m args db =
     (if length args \<noteq> 4 then wrong_args db
      else sbind (lift_r (Atoi (args ! 2)) db) (\<lambda>offset db.
             reply_with SimpleInt (SetRange (args ! 1) offset (args ! 3) db)))"

definition cmdINCRBY :: handler where
  "cmdINCRBY m args db =
     (if length args \<noteq> 3 then wrong_args db
      else sbind (lift_r (StrInt64 (Some (args ! 2))) db) (\<lambda>delta db.
             reply_with SimpleInt (IncrBy (args ! 1) delta db)))"

definition cmdINCR :: handler where
  "cmdINCR m args db =
     (if length args \<noteq> 2 then wrong_args db else reply_with SimpleInt (Incr (args ! 1) db))"

definition cmdGETSET :: handler where
  "cmdGETSET m args db =
     (if length args \<noteq> 3 then wrong_args db
      else reply_with Bytes (GetSet (args ! 1) (args ! 2) db))"

definition cmdGETRANGE :: handler where
  "cmdGETRANGE m args db =
     (if length args \<noteq> 4 then wrong_args db
      else sbind (lift_r (Atoi (args ! 2)) db) (\<lambda>start db.
           sbind (lift_r (Atoi (args ! 3)) db) (\<lambda>end db.
             answer (GetRange db (args ! 1) start end)
               (\<lambda>v. case v of None \<Rightarrow> GoString '''' | Some b \<Rightarrow> Bytes (Some b)) db)))"

definition cmdSETBIT :: handler where
  "cmdSETBIT m args db =
     (if length args \<noteq> 4 then wrong_args db
      else sbind (lift_r (Atoi (args ! 2)) db) (\<lambda>offset db.
        if offset < 0 then (Inl (ErrText ''offset must be a non-negative integer''), db)
        else sbind (lift_r (Atoi (args ! 3)) db) (\<lambda>value db.
          if value \<noteq> 0 \<and> value \<noteq> 1 then (Inl (ErrText ''value must be 0 or 1''), db)
          else reply_with SimpleInt (SetBit (args ! 1) offset value db))))"

definition cmdGETBIT :: handler where
  "cmdGETBIT m args db =
     (if length args \<noteq> 3 then wrong_args db
      else case Atoi (args ! 2) of
             Inl e \<Rightarrow> (Inl (ErrText ''offset must be a non-negative integer''), db)
           | Inr offset \<Rightarrow>
               if offset < 0 then (Inl (ErrText ''offset must be a non-negative integer''), db)
               else answer (GetBit db (args ! 1) offset) SimpleInt db)"

text \<open>
  \<open>EXISTS\<close> starts one goroutine per key. \<open>sched\<close> gives the order in which they finish; in that
  order each one either sends its answer on the channel or, if it fails and is the first to
  fail, records its error. \<open>exists_collect\<close> is the recorded error and the count of the answers.
\<close>

definition existsKey :: "ledisdb \<Rightarrow> string \<Rightarrow> bool result" where
  "existsKey db key = rbind (Exists db key) (\<lambda>n. Inr (n > 0))"

fun exists_collect :: "ledisdb \<Rightarrow> string list \<Rightarrow> gerr option \<Rightarrow> int \<Rightarrow> gerr option \<times> int" where
  "exists_collect db [] errret counter = (errret, counter)"
| "exists_collect db (key # keys) errret counter =
     (case existsKey db key of
        Inl e \<Rightarrow> exists_collect db keys (case errret of None \<Rightarrow> Some e | Some e' \<Rightarrow> Some e') counter
      | Inr res \<Rightarrow> exists_collect db keys errret (if res then counter + 1 else counter))"

definition cmdEXISTS :: "(string list \<Rightarrow> string list) \<Rightarrow> handler" where
  "cmdEXISTS sched m args db =
     (if length args < 2 then wrong_args db
      else case exists_collect db (sched (tl args)) None 0 of
             (Some e, counter) \<Rightarrow> (Inl e, db)
           | (None, counter) \<Rightarrow> (Inr (SimpleInt counter), db))"

definition cmdDECRBY :: handler where
  "cmdDECRBY m args db =
     (if length args \<noteq> 3 then wrong_args db
      else case StrInt64 (Some (args ! 2)) of
             Inl e \<Rightarrow> (Inl (ErrText ''ERR value is not an integer or out of range''), db)
           | Inr decrement \<Rightarrow>
               sbind (lift_r (Exists db (args ! 1)) db) (\<lambda>exists db.
               sbind (if exists = 0 then Set_kv (args ! 1) ''0'' db else (Inr (), db)) (\<lambda>_ db.
                 case DecrBy (args ! 1) decrement db of
                   (Inl e, db) \<Rightarrow> (Inl (ErrText ''ERR value is not an integer or out of range''), db)
                 | (Inr n, db) \<Rightarrow> (Inr (SimpleInt n), db))))"

definition cmdDECR :: handler where
  "cmdDECR m args db =
     (if length args \<noteq> 2 then wrong_args db
      else sbind (lift_r (Exists db (args ! 1)) db) (\<lambda>exists db.
           sbind (if exists = 0 then Set_kv (args ! 1) ''0'' db else (Inr (), db)) (\<lambda>_ db.
             reply_with SimpleInt (Decr (args ! 1) db))))"

definition cmdBITPOS :: handler where
  "cmdBITPOS m args db =
     (if length args < 3 \<or> length args > 6 then wrong_args db
      else sbind (lift_r (Atoi (args ! 2)) db) (\<lambda>bit db.
           sbind (lift_r (if length args \<ge> 4 then Atoi (args ! 3) else Inr 0) db) (\<lambda>start db.
           sbind (lift_r (if length args \<ge> 5 then Atoi (args ! 4) else Inr (-1)) db) (\<lambda>end db.
             let bitMode = (if length args = 6 then ToUpper (args ! 5) else ''BYTE'') in
             if bitMode \<noteq> ''BYTE'' \<and> bitMode \<noteq> ''BIT''
               then (Inl (ErrText (''invalid bit mode: '' @ bitMode)), db)
             else answer (BitPos db (args ! 1) bit start end bitMode) SimpleInt db))))"

definition cmdBITOP :: handler where
  "cmdBITOP m args db =
     (if length args < 4 then wrong_args db
      else let op = ToUpper (args ! 1) in
        if op \<noteq> ''AND'' \<and> op \<noteq> ''OR'' \<and> op \<noteq> ''XOR'' \<and> op \<noteq> ''NOT''
          then (Inl (ErrText (''ERR syntax error, invalid operation: '' @ op)), db)
        else if op = ''NOT'' then
          (if length args \<noteq> 3 then wrong_args db
           else reply_with SimpleInt (BitOP op (args ! 2) [args ! 2] db))
        else if length args < 4 then wrong_args db
        else reply_with SimpleInt (BitOP op (args ! 2) (drop 3 args) db))"

definition cmdAPPEND :: handler where
  "cmdAPPEND m args db =
     (if length args \<noteq> 3 then wrong_args db
      else reply_with SimpleInt (Append (args ! 1) (args ! 2) db))"

definition parseBitRange :: "string list \<Rightarrow> (int \<times> int \<times> string) result" where
  "parseBitRange args =
     rbind (if length args > 0 then Atoi (args ! 0) else Inr 0) (\<lambda>start.
     rbind (if length args > 1 then Atoi (args ! 1) else Inr (-1)) (\<lambda>end.
     let bitMode = (if length args = 3 then ToUpper (args ! 2) else ''BYTE'') in
     if bitMode \<noteq> ''BYTE'' \<and> bitMode \<noteq> ''BIT'' then Inl (ErrText ''ERR syntax error'')
     else if length args > 3 then Inl ErrWrongNumArgs
     else Inr (start, end, bitMode)))"

definition cmdBITCOUNT :: handler where
  "cmdBITCOUNT m args db =
     (if length args < 2 \<or> length args > 5 then wrong_args db
      else sbind (lift_r (parseBitRange (drop 2 args)) db) (\<lambda>(start, end, bitMode) db.
             answer (BitCount db (args ! 1) start end bitMode) SimpleInt db))"

definition cmdSET :: handler where
  "cmdSET m args db =
     (if length args \<noteq> 3 then wrong_args db
      else reply_with (\<lambda>_. SimpleString ''OK'') (Set_kv (args ! 1) (args ! 2) db))"

text \<open>\<open>SETEX\<close> and \<open>SETEXAT\<close> after the time stamp is known.\<close>

definition setex_at :: "machine \<Rightarrow> bytes \<Rightarrow> int \<Rightarrow> bytes \<Rightarrow> ledisdb \<Rightarrow> reply result \<times> ledisdb" where
  "setex_at m key timestamp value db =
     (if timestamp < wall m then reply_with (\<lambda>_. SimpleString ''OK'') (Del [key] db)
      else reply_with (\<lambda>_. SimpleString ''OK'') (SetEXAT (wall m) key timestamp value db))"

definition cmdSETEX :: handler where
  "cmdSETEX m args db =
     (if length args \<noteq> 4 then wrong_args db
      else sbind (lift_r (StrInt64 (Some (args ! 2))) db) (\<lambda>duration db.
             setex_at m (args ! 1) (wrap64 (m_Now m + duration)) (args ! 3) db))"

definition cmdSETEXAT :: handler where
  "cmdSETEXAT m args db =
     (if length args < 4 then wrong_args db
      else sbind (lift_r (StrInt64 (Some (args ! 2))) db) (\<lambda>timestamp db.
             setex_at m (args ! 1) timestamp (args ! 3) db))"

definition cmdSETNX :: handler where
  "cmdSETNX m args db =
     (if length args \<noteq> 3 then wrong_args db
      else reply_with SimpleInt (SetNX (args ! 1) (args ! 2) db))"

definition cmdGET :: handler where
  "cmdGET m args db =
     (if length args \<noteq> 2 then wrong_args db
      else answer (Get db (args ! 1))
             (\<lambda>val. case val of None \<Rightarrow> NilReply | Some v \<Rightarrow> Bytes (Some v)) db)"

definition cmdDEL :: handler where
  "cmdDEL m args db =
     (if length args < 2 then wrong_args db else reply_with SimpleInt (Del (tl args) db))"

fun kv_pairs :: "'a list \<Rightarrow> ('a \<times> 'a) list" where
  "kv_pairs (k # v # rest) = (k, v) # kv_pairs rest"
| "kv_pairs _ = []"

definition cmdMSET :: handler where
  "cmdMSET m args db =
     (if length args < 3 \<or> (length args - 1) mod 2 \<noteq> 0 then wrong_args db
      else reply_with (\<lambda>_. SimpleString ''OK'') (MSet (kv_pairs (tl args)) db))"

definition cmdMGET :: handler where
  "cmdMGET m args db =
     (if length args < 2 then wrong_args db
      else answer (MGet db (tl args))
             (\<lambda>values. AnyList (map (\<lambda>v. case v of None \<Rightarrow> NilReply | Some b \<Rightarrow> Bytes (Some b)) values)) db)"

definition cmdTTL :: handler where
  "cmdTTL m args db =
     (if length args \<noteq> 2 then wrong_args db
      else sbind (lift_r (Exists db (args ! 1)) db) (\<lambda>exists db.
        if exists = 0 then (Inr (SimpleInt (-2)), db)
        else sbind (lift_r (TTL db (wall m) (args ! 1)) db) (\<lambda>ttl db.
          if ttl = -1 then (Inr (SimpleInt (-1)), db) else (Inr (SimpleInt ttl), db))))"

lemma cmdINCRBY_ok:
  assumes "\<not> readonly db" "key_ok k" "kv_int db k n" "is_int64 d"
  shows "\<exists>db'. cmdINCRBY m [c, k, FormatInt d] db = (Inr (SimpleInt (wrap64 (n + d))), db') \<and>
     kv_of db' = (kv_of db)(k \<mapsto> FormatInt (wrap64 (n + d))) \<and> kv_int db' k (wrap64 (n + d)) \<and>
     expiry_of db' KVType = expiry_of db KVType \<and> readonly db' = readonly db"
  using incr_ok [OF assms(1-3), of d] assms(4)
  by (auto simp: cmdINCRBY_def IncrBy_def lift_r_def kv_int_def)

lemma incrby_fold:
  assumes "\<not> readonly db" "key_ok k" "kv_int db k n" "is_int64 n" "\<forall>d \<in> set ds. is_int64 d"
  shows "let db' = fold (\<lambda>d db. snd (cmdINCRBY m [c, k, FormatInt d] db)) ds db
         in kv_int db' k (wrap64 (n + sum_list ds)) \<and> (\<forall>k'. k' \<noteq> k \<longrightarrow> kv_of db' k' = kv_of db k') \<and>
            expiry_of db' KVType = expiry_of db KVType \<and> readonly db' = readonly db"
  using assms
proof (induction ds arbitrary: db n)
  case (Cons d ds)
  obtain db' where *: "cmdINCRBY m [c, k, FormatInt d] db = (Inr (SimpleInt (wrap64 (n + d))), db')"
    "kv_of db' = (kv_of db)(k \<mapsto> FormatInt (wrap64 (n + d)))" "kv_int db' k (wrap64 (n + d))"
    "expiry_of db' KVType = expiry_of db KVType" "readonly db' = readonly db"
    using cmdINCRBY_ok [of db k n d m c] Cons.prems by auto
  have "wrap64 (wrap64 (n + d) + sum_list ds) = wrap64 (n + sum_list (d # ds))"
    using wrap64_add_wrap64 [of "n + d" "sum_list ds"] by (simp add: algebra_simps)
  then show ?case using Cons.IH [of db' "wrap64 (n + d)"] Cons.prems * by (simp add: Let_def)
qed simp

text \<open>A database with one string, for examples.\<close>

definition db_string :: "bytes \<Rightarrow> bytes \<Rightarrow> ledisdb" where
  "db_string k v = newDB 0 [(encodeKVKey db0 k, v)]"

lemma kv_of_newDB [simp]: "kv_of (newDB i []) k = None" "kv_value (newDB i []) k = []"
  by (simp_all add: kv_of_def kv_value_def)

lemma db_string_sel [simp]:
  "\<not> readonly (db_string k v)" "kv_of (db_string k v) k = Some v" "kv_value (db_string k v) k = v"
  by (simp_all add: db_string_def kv_of_def kv_value_def sget_def encodeKVKey_def)

lemma ttl_ok_db_string [simp]: "ttl_ok (db_string k v)"
  by (simp add: ttl_ok_def db_string_def sget_def encodeKVKey_def expEncodeMetaKey_def)

section \<open>Properties\<close>

text \<open>
  C17: After \<open>SET k v\<close> answers OK, \<open>GET\<close> of \<open>k\<close> is \<open>v\<close> and of any other key what it was,
  \<open>TTL k\<close> is -1 (an earlier expiry is gone) and of any other key what it was, and no record of
  another data type has changed.
\<close>

theorem set_get:
  assumes "\<not> readonly db" "ttl_ok db" "key_ok k" "length v \<le> MaxValueSize"
  shows "\<exists>db'. cmdSET m [c, k, v] db = (Inr (SimpleString ''OK''), db') \<and>
     (\<forall>k'. fst (cmdGET m [c, k'] db') =
        (if k' = k then Inr (Bytes (Some v)) else fst (cmdGET m [c, k'] db))) \<and>
     (\<forall>k'. fst (cmdTTL m [c, k'] db') =
        (if k' = k then Inr (SimpleInt (-1)) else fst (cmdTTL m [c, k'] db))) \<and>
     keeps KVType db db'"
proof -
  obtain db' where s: "Set_kv k v db = (Inr (), db')" and kv: "kv_of db' = (kv_of db)(k \<mapsto> v)"
    and ex: "expiry_of db' KVType = (expiry_of db KVType)(k := None)" and ok: "ttl_ok db'"
    using Set_kv_ok [OF assms] by blast
  have "cmdSET m [c, k, v] db = (Inr (SimpleString ''OK''), db')"
    by (simp add: cmdSET_def s)
  moreover have "fst (cmdGET m [c, k'] db') =
        (if k' = k then Inr (Bytes (Some v)) else fst (cmdGET m [c, k'] db))" for k'
    using assms(3) by (simp add: cmdGET_def Get_eq kv)
  moreover have "fst (cmdTTL m [c, k'] db') =
        (if k' = k then Inr (SimpleInt (-1)) else fst (cmdTTL m [c, k'] db))" for k'
    using assms(2,3) ok by (simp add: cmdTTL_def Exists_eq TTL_eq kv ttl_expiry ex lift_r_def)
  moreover have "keeps KVType db db'" using keeps_Set_kv [of db k v] by (simp add: s)
  ultimately show ?thesis by blast
qed

theorem set_get_witness:
  "\<exists>db'. cmdSET node [''SET'', ''a'', ''1''] db0 = (Inr (SimpleString ''OK''), db') \<and>
     fst (cmdGET node [''SET'', ''a''] db') = Inr (Bytes (Some ''1''))"
  using set_get [of db0 "''a''" "''1''" node "''SET''"] by (auto simp: key_ok_def)

text \<open>
  C18: A sequence of \<open>INCRBY k\<close> on an integer value (a missing key is 0) leaves the sum, reduced
  to 64 bits, in decimal, whatever the order; the reply to the last one is that number, and
  neither another string key nor an expiry changes.
\<close>

theorem incrby_sum:
  assumes "\<not> readonly db" "key_ok k" "kv_int db k n" "is_int64 n"
    and "\<forall>d \<in> set ds. is_int64 d" "is_int64 d"
  shows "let db1 = fold (\<lambda>d db. snd (cmdINCRBY m [c, k, FormatInt d] db)) ds db;
             (r, db2) = cmdINCRBY m [c, k, FormatInt d] db1;
             total = wrap64 (n + sum_list ds + d)
         in r = Inr (SimpleInt total) \<and>
            kv_of db2 = (kv_of db)(k \<mapsto> FormatInt total) \<and>
            expiry_of db2 KVType = expiry_of db KVType"
proof -
  let ?db1 = "fold (\<lambda>d db. snd (cmdINCRBY m [c, k, FormatInt d] db)) ds db"
  have 1: "kv_int ?db1 k (wrap64 (n + sum_list ds))" "\<forall>k'. k' \<noteq> k \<longrightarrow> kv_of ?db1 k' = kv_of db k'"
    "expiry_of ?db1 KVType = expiry_of db KVType" "\<not> readonly ?db1"
    using incrby_fold [OF assms(1-5), of m c] assms(1) by (simp_all add: Let_def)
  obtain db2 where "cmdINCRBY m [c, k, FormatInt d] ?db1
      = (Inr (SimpleInt (wrap64 (wrap64 (n + sum_list ds) + d))), db2)"
    "kv_of db2 = (kv_of ?db1)(k \<mapsto> FormatInt (wrap64 (wrap64 (n + sum_list ds) + d)))"
    "expiry_of db2 KVType = expiry_of ?db1 KVType"
    using cmdINCRBY_ok [OF 1(4) assms(2) 1(1) assms(6)] by blast
  then show ?thesis using 1 by (auto simp: Let_def wrap64_add_wrap64 fun_eq_iff)
qed

theorem incrby_sum_witness:
  "kv_of (snd (cmdINCRBY node [''INCRBY'', ''n'', FormatInt 1]
      (snd (cmdINCRBY node [''INCRBY'', ''n'', FormatInt 9223372036854775807] db0)))) ''n''
     = Some (FormatInt (- 9223372036854775808))"
  using incrby_sum [of db0 "''n''" 0 "[9223372036854775807]" 1 node "''INCRBY''"]
  by (auto simp: key_ok_def kv_int_def is_int64_def wrap64_def Let_def split: prod.splits)

lemma Atoi_FormatInt [simp]: "is_int64 i \<Longrightarrow> Atoi (FormatInt i) = Inr i"
  by (simp add: Atoi_def ParseInt_FormatInt)

text \<open>
  C19: \<open>SETRANGE k off v\<close> pads the value with zero bytes up to the offset and overwrites it from
  there, answers the new length, and \<open>GETRANGE\<close> over the bytes written returns \<open>v\<close>.
\<close>

theorem setrange_getrange:
  assumes "\<not> readonly db" "key_ok k" "v \<noteq> []" "off + length v \<le> MaxValueSize"
    and "length (kv_value db k) \<le> MaxValueSize"
  shows "\<exists>db'. cmdSETRANGE m [c, k, FormatInt (int off), v] db
       = (Inr (SimpleInt (int (max (length (kv_value db k)) (off + length v)))), db') \<and>
     kv_of db' = (kv_of db)(k \<mapsto> overwrite off v (kv_value db k)) \<and>
     fst (cmdGETRANGE m [c, k, FormatInt (int off), FormatInt (int (off + length v - 1))] db')
       = Inr (Bytes (Some v))"
proof -
  obtain db' where s: "SetRange k (int off) v db = (Inr (int (max (length (kv_value db k)) (off + length v))), db')"
    and kv: "kv_of db' = (kv_of db)(k \<mapsto> overwrite off v (kv_value db k))"
    using SetRange_ok [OF assms] by blast
  have i: "is_int64 (int off)" "is_int64 (int (off + length v - 1))"
    using assms(4) by (simp_all add: is_int64_def)
  have "cmdSETRANGE m [c, k, FormatInt (int off), v] db
       = (Inr (SimpleInt (int (max (length (kv_value db k)) (off + length v)))), db')"
    using i by (simp add: cmdSETRANGE_def lift_r_def s)
  moreover have "kv_value db' k = overwrite off v (kv_value db k)"
    by (simp add: kv_value_def kv)
  then have "GetRange db' k (int off) (int (off + length v - 1)) = Inr (Some v)"
    using GetRange_inside [OF assms(2), of off "off + length v - 1" db'] assms(3)
      slice_overwrite [of v off "kv_value db k"]
    by (cases v) (simp_all add: length_overwrite)
  then have "fst (cmdGETRANGE m [c, k, FormatInt (int off), FormatInt (int (off + length v - 1))] db')
       = Inr (Bytes (Some v))"
    using i by (simp add: cmdGETRANGE_def lift_r_def)
  ultimately show ?thesis using kv by blast
qed

theorem setrange_getrange_witness:
  "\<exists>db'. cmdSETRANGE node [''SETRANGE'', ''a'', FormatInt 2, ''xy''] (db_string ''a'' ''12345'')
       = (Inr (SimpleInt 5), db') \<and> kv_of db' ''a'' = Some ''12xy5''"
  using setrange_getrange [of "db_string ''a'' ''12345''" "''a''" "''xy''" 2 node "''SETRANGE''"]
  by (auto simp: key_ok_def overwrite_def)

text \<open>
  C20: \<open>SETBIT k i b\<close> answers what \<open>GETBIT k i\<close> answered before; afterwards \<open>GETBIT\<close> of \<open>i\<close> is
  \<open>b\<close> and of every other position what it was. Positions are taken modulo 2^32.
\<close>

theorem setbit_getbit:
  assumes "\<not> readonly db" "key_ok k" "i < 4294967296" "on \<in> {0, 1}"
  shows "\<exists>db'. cmdSETBIT m [c, k, FormatInt (int i), FormatInt on] db
       = (fst (cmdGETBIT m [c, k, FormatInt (int i)] db), db') \<and>
     (\<forall>j < 4294967296. fst (cmdGETBIT m [c, k, FormatInt (int j)] db') =
        (if j = i then Inr (SimpleInt on) else fst (cmdGETBIT m [c, k, FormatInt (int j)] db)))"
proof -
  have get: "fst (cmdGETBIT m [c, k, FormatInt (int j)] d) = Inr (SimpleInt (of_bool (bit_of (kv_value d k) j)))"
    if "j < 4294967296" for j d
    using that assms(2) by (simp add: cmdGETBIT_def GetBit_eq is_int64_def)
  have "i = nat (int i mod 4294967296)" using assms(3) by simp
  then obtain v' db' where s: "SetBit k (int i) on db = (Inr (of_bool (bit_of (kv_value db k) i)), db')"
    and kv: "kv_of db' = (kv_of db)(k \<mapsto> v')"
    and b: "\<forall>j. bit_of v' j = (if j = i then on = 1 else bit_of (kv_value db k) j)"
    using SetBit_ok [OF assms(1,2,4)] by blast
  have "cmdSETBIT m [c, k, FormatInt (int i), FormatInt on] db
      = (Inr (SimpleInt (of_bool (bit_of (kv_value db k) i))), db')"
  proof -
    have "is_int64 (int i)" "is_int64 on" "on = 0 \<or> on = 1"
      using assms(3,4) by (auto simp: is_int64_def)
    then show ?thesis by (simp add: cmdSETBIT_def lift_r_def s)
  qed
  moreover have "kv_value db' k = v'" by (simp add: kv_value_def kv)
  ultimately show ?thesis using assms(3,4) b by (auto simp: get)
qed

theorem setbit_getbit_witness:
  "\<exists>db'. cmdSETBIT node [''SETBIT'', ''a'', FormatInt 7, FormatInt 1] db0
      = (fst (cmdGETBIT node [''SETBIT'', ''a'', FormatInt 7] db0), db') \<and>
     fst (cmdGETBIT node [''SETBIT'', ''a'', FormatInt 7] db') = Inr (SimpleInt 1)"
  using setbit_getbit [of db0 "''a''" 7 1 node "''SETBIT''"]
  by (auto simp: key_ok_def dest: spec [of _ 7])

text \<open>
  C21: \<open>BITCOUNT k s e BIT\<close> is the number of bits set at the positions from \<open>s\<close> to \<open>e\<close>, and
  \<open>BITCOUNT k s e\<close> the number of bits set in the bytes from \<open>s\<close> to \<open>e\<close>.
\<close>

theorem bitcount_counts:
  assumes "key_ok k" "kv_of db k = Some v" "s \<le> e" "8 * length v \<le> 9223372036854775807"
  shows "(e < 8 * length v \<longrightarrow>
      cmdBITCOUNT m [c, k, FormatInt (int s), FormatInt (int e), ''BIT''] db
        = (Inr (SimpleInt (int (card {i. s \<le> i \<and> i \<le> e \<and> bit_of v i}))), db)) \<and>
    (e < length v \<longrightarrow>
      cmdBITCOUNT m [c, k, FormatInt (int s), FormatInt (int e)] db
        = (Inr (SimpleInt (int (card {i. 8 * s \<le> i \<and> i < 8 * (e + 1) \<and> bit_of v i}))), db))"
proof -
  have u: "ToUpper ''BIT'' = ''BIT''" by (simp add: upper_char_def)
  have i: "e < 8 * length v \<Longrightarrow> is_int64 (int s) \<and> is_int64 (int e)"
    using assms(3,4) by (auto simp: is_int64_def)
  show ?thesis
    using i BitCount_bit [OF assms(1-3)] BitCount_byte [OF assms(1-3)] u
    by (auto simp: cmdBITCOUNT_def parseBitRange_def lift_r_def numeral_eq_Suc)
qed

theorem bitcount_counts_witness:
  "cmdBITCOUNT node [''BITCOUNT'', ''a'', FormatInt 1, FormatInt 9, ''BIT''] (db_string ''a'' ''1234'')
     = (Inr (SimpleInt (int (card {i. 1 \<le> i \<and> i \<le> 9 \<and> bit_of ''1234'' i}))), db_string ''a'' ''1234'')"
  using bitcount_counts [of "''a''" "db_string ''a'' ''1234''" "''1234''" 1 9 node "''BITCOUNT''"]
  by (simp add: key_ok_def)

text \<open>
  C22: \<open>BITPOS k b s e\<close> answers the first position in the bytes from \<open>s\<close> to \<open>e\<close> that holds \<open>b\<close>,
  counted from the start of the value, or -1 if there is none.
\<close>

theorem bitpos_finds:
  assumes "key_ok k" "kv_of db k = Some v" "s \<le> e" "e < length v" "on \<in> {0, 1}"
    and "length v \<le> 9223372036854775807"
  shows "\<exists>r. cmdBITPOS m [c, k, FormatInt on, FormatInt (int s), FormatInt (int e)] db = (Inr (SimpleInt r), db) \<and>
     first_bit (on = 1) s (slice (int s) (int (e + 1)) v) r"
proof -
  obtain r where "BitPos db k on (int s) (int e) ''BYTE'' = Inr r"
    "first_bit (on = 1) s (slice (int s) (int (e + 1)) v) r"
    using BitPos_byte [OF assms(1-5)] by blast
  moreover have "is_int64 on" "is_int64 (int s)" "is_int64 (int e)"
    using assms(3-6) by (auto simp: is_int64_def)
  ultimately show ?thesis by (auto simp: cmdBITPOS_def lift_r_def)
qed

theorem bitpos_finds_witness:
  "\<exists>r. cmdBITPOS node [''BITPOS'', ''a'', FormatInt 1, FormatInt 0, FormatInt 2] (db_string ''a'' ''1234'')
      = (Inr (SimpleInt r), db_string ''a'' ''1234'') \<and> first_bit True 0 (slice 0 3 ''1234'') r"
  using bitpos_finds [of "''a''" "db_string ''a'' ''1234''" "''1234''" 0 2 1 node "''BITPOS''"]
  by (simp add: key_ok_def)

text \<open>
  C23: \<open>BITOP\<close> with \<open>AND\<close>, \<open>OR\<close> or \<open>XOR\<close> stores, and answers the length of, the longest
  source's length of bytes, each the operation applied to the sources' bytes at its place (zero
  where a source has ended).
\<close>

theorem bitop_bytewise:
  assumes "\<not> readonly db" "key_ok dest" "\<forall>k \<in> set ks. key_ok k" "ks \<noteq> []"
    and "ToUpper op \<in> {''AND'', ''OR'', ''XOR''}"
  shows "\<exists>w db'. cmdBITOP m (c # op # dest # k # ks) db = (Inr (SimpleInt (int (length w))), db') \<and>
     kv_of db' = (kv_of db)(dest \<mapsto> w) \<and>
     length w = fold max (map (\<lambda>k. length (kv_value db k)) ks) (length (kv_value db k)) \<and>
     (\<forall>i. byte_at w i = foldl (bitop_fun (ToLower (ToUpper op))) (byte_at (kv_value db k) i)
        (map (\<lambda>k. byte_at (kv_value db k) i) ks))"
proof -
  have "ToLower ''AND'' = ''and''" "ToLower ''OR'' = ''or''" "ToLower ''XOR'' = ''xor''"
    by code_simp+
  then have "ToLower (ToUpper op) \<in> {''and'', ''or'', ''xor''}" using assms(5) by auto
  then obtain w db' where "BitOP (ToUpper op) dest (k # ks) db = (Inr (int (length w)), db')"
    "kv_of db' = (kv_of db)(dest \<mapsto> w)"
    "length w = fold max (map (\<lambda>k. length (kv_value db k)) ks) (length (kv_value db k))"
    "\<forall>i. byte_at w i = foldl (bitop_fun (ToLower (ToUpper op))) (byte_at (kv_value db k) i)
        (map (\<lambda>k. byte_at (kv_value db k) i) ks)"
    using BitOP_ok [OF assms(1-4)] by blast
  then show ?thesis using assms(4,5)
    by (intro exI [of _ w] exI [of _ db']) (auto simp: cmdBITOP_def Let_def Suc_le_eq)
qed

theorem bitop_bytewise_witness:
  "\<exists>w db'. cmdBITOP node [''BITOP'', ''or'', ''d'', ''a'', ''b''] (db_string ''a'' ''12'')
      = (Inr (SimpleInt (int (length w))), db') \<and> kv_of db' ''d'' = Some w \<and> length w = 2"
proof -
  have "kv_value (db_string ''a'' ''12'') ''b'' = []"
    by (simp add: db_string_def kv_value_def kv_of_def sget_def encodeKVKey_def)
  moreover have "ToUpper ''or'' = ''OR''" by code_simp
  ultimately show ?thesis
    using bitop_bytewise [of "db_string ''a'' ''12''" "''d''" "[''b'']" "''or''" node "''BITOP''" "''a''"]
    by (auto simp: key_ok_def)
qed

text \<open>
  \<open>BITOP NOT\<close> is never carried out: with one source it is a wrong number of arguments, and
  so it is with more.
\<close>

theorem bitop_not_refused:
  "ToUpper op = ''NOT'' \<Longrightarrow> cmdBITOP m (c # op # args) db = (Inl ErrWrongNumArgs, db)"
  by (simp add: cmdBITOP_def)

theorem bitop_not_refused_witness:
  "cmdBITOP node [''BITOP'', ''not'', ''d'', ''a''] (db_string ''a'' ''12'')
     = (Inl ErrWrongNumArgs, db_string ''a'' ''12'')"
proof -
  have "ToUpper ''not'' = ''NOT''" by code_simp
  then show ?thesis by (rule bitop_not_refused)
qed

lemma exists_collect_eq:
  "exists_collect db keys err n =
     (case err of None \<Rightarrow> if \<forall>k \<in> set keys. key_ok k then None else Some errKeySize | Some e \<Rightarrow> Some e,
      n + int (length (filter (\<lambda>k. key_ok k \<and> kv_of db k \<noteq> None) keys)))"
  by (induction db keys err n rule: exists_collect.induct)
    (auto simp: existsKey_def Exists_eq split: option.splits)

text \<open>
  Whatever order the goroutines of \<open>EXISTS\<close> finish in, the answer is the number of words
  that name a string key, a word given twice counting twice, or a key-size error if some word
  is not a valid key.
\<close>

theorem exists_any_order:
  assumes "mset (sched keys) = mset keys" "keys \<noteq> []"
  shows "cmdEXISTS sched m (c # keys) db =
    (if \<forall>k \<in> set keys. key_ok k
     then Inr (SimpleInt (int (length (filter (\<lambda>k. kv_of db k \<noteq> None) keys))))
     else Inl errKeySize, db)"
proof -
  have "set (sched keys) = set keys" using assms(1) by (metis set_mset_mset)
  moreover have "length (filter P (sched keys)) = length (filter P keys)" for P
    using assms(1) by (metis mset_filter size_mset)
  moreover have "filter (\<lambda>k. key_ok k \<and> kv_of db k \<noteq> None) keys = filter (\<lambda>k. kv_of db k \<noteq> None) keys"
    if "\<forall>k \<in> set keys. key_ok k" using that by (auto intro: filter_cong)
  ultimately show ?thesis using assms(2)
    by (auto simp: cmdEXISTS_def exists_collect_eq Suc_le_eq)
qed

theorem exists_any_order_witness:
  "cmdEXISTS rev node [''EXISTS'', ''a'', ''a''] (db_string ''a'' ''12'')
     = (Inr (SimpleInt 2), db_string ''a'' ''12'')"
  using exists_any_order [of rev "[''a'', ''a'']" node "''EXISTS''" "db_string ''a'' ''12''"]
  by (simp add: key_ok_def)

lemma kv_pairs_concat: "kv_pairs (concat (map (\<lambda>(k, v). [k, v]) kvs)) = kvs"
  by (induction kvs) auto

lemma length_kv_concat: "length (concat (map (\<lambda>(k, v). [k, v]) kvs)) = 2 * length kvs"
  by (induction kvs) auto

text \<open>
  \<open>MSET\<close> is all or nothing: if every key and value has an allowed size it answers OK and
  every pair is stored (the last one of a key given twice); otherwise it fails and changes
  nothing. Expiries stay as they were.
\<close>

theorem mset_atomic:
  assumes "\<not> readonly db" "kvs \<noteq> []"
  shows "let (r, db') = cmdMSET m (c # concat (map (\<lambda>(k, v). [k, v]) kvs)) db in
    if \<forall>(k, v) \<in> set kvs. key_ok k \<and> length v \<le> MaxValueSize
    then r = Inr (SimpleString ''OK'') \<and> kv_of db' = kv_of db ++ map_of (rev kvs) \<and>
         expiry_of db' = expiry_of db
    else r \<in> {Inl errKeySize, Inl errValueSize} \<and> db' = db"
proof -
  have cmd: "cmdMSET m (c # concat (map (\<lambda>(k, v). [k, v]) kvs)) db
      = reply_with (\<lambda>_. SimpleString ''OK'') (MSet kvs db)"
    using assms(2) by (cases kvs) (auto simp: cmdMSET_def kv_pairs_concat length_kv_concat simp del: length_concat)
  show ?thesis
  proof (cases "\<forall>(k, v) \<in> set kvs. key_ok k \<and> length v \<le> MaxValueSize")
    case True
    then show ?thesis unfolding cmd using assms
      by (simp add: MSet_def lift_r_def mset_ops_ok kv_of_puts expiry_of_puts)
  next
    case False
    then show ?thesis unfolding cmd if_not_P [OF False] using assms(2) mset_ops_error [OF False, of db]
      by (elim disjE) (simp_all add: MSet_def lift_r_def)
  qed
qed

theorem mset_atomic_witness:
  "kv_of (snd (cmdMSET node [''MSET'', ''a'', ''1'', ''a'', ''2''] db0)) ''a'' = Some ''2''"
  using mset_atomic [of db0 "[(''a'', ''1''), (''a'', ''2'')]" node "''MSET''"]
  by (simp add: key_ok_def Let_def split: prod.splits)

text \<open>
  C24: \<open>EXPIRE k d\<close> by its branches, with \<open>t\<close> the log entry's time plus \<open>d\<close>: if \<open>t\<close> is past,
  the key and its expiry are deleted and the answer is 1, key or no key; if \<open>t\<close> is this very
  second, it is an error; otherwise the expiry of an existing key becomes \<open>t\<close> (answer 1) and
  nothing happens to a missing one (answer 0). No value changes but in the first case.
\<close>

theorem expire_branches:
  assumes "\<not> readonly db" "ttl_ok db" "key_ok k" "is_int64 d" "is_int64 (m_Now m + d)"
  defines "t \<equiv> m_Now m + d"
  shows "\<exists>r db'. cmdEXPIRE m [c, k, FormatInt d] db = (r, db') \<and>
    (t < wall m \<longrightarrow> r = Inr (SimpleInt 1) \<and> kv_of db' = (kv_of db)(k := None) \<and>
       expiry_of db' KVType = (expiry_of db KVType)(k := None)) \<and>
    (t = wall m \<longrightarrow> r = Inl errExpireValue) \<and>
    (t > wall m \<longrightarrow> r = Inr (SimpleInt (if kv_of db k = None then 0 else 1))) \<and>
    (t \<ge> wall m \<longrightarrow> kv_of db' = kv_of db \<and>
       expiry_of db' KVType = (if t = wall m \<or> kv_of db k = None then expiry_of db KVType
                               else (expiry_of db KVType)(k \<mapsto> t)))"
proof -
  have e: "cmdEXPIRE m [c, k, FormatInt d] db = handleExpiration m k t db"
    using assms(4,5) by (simp add: cmdEXPIRE_def t_def)
  obtain db1 where d: "Del [k] db = (Inr 1, db1)" "kv_of db1 = (kv_of db)(k := None)"
    "expiry_of db1 KVType = (expiry_of db KVType)(k := None)"
    using Del_one [OF assms(1,2)] by blast
  obtain db2 where x: "ExpireAt (wall m) k t db =
      (if t \<le> wall m then Inl errExpireValue else Inr (if kv_of db k = None then 0 else 1), db2)"
    "kv_of db2 = kv_of db" "expiry_of db2 KVType =
      (if wall m < t \<and> kv_of db k \<noteq> None then (expiry_of db KVType)(k \<mapsto> t) else expiry_of db KVType)"
    using ExpireAt_eq [OF assms(1,3), of t "wall m"] assms(5) by (auto simp: t_def)
  show ?thesis
  proof (cases "t < wall m")
    case True
    then show ?thesis by (simp add: e handleExpiration_def d)
  next
    case False
    then show ?thesis by (auto simp: e handleExpiration_def x)
  qed
qed

theorem expire_branches_witness:
  "\<exists>db'. cmdEXPIRE node [''EXPIRE'', ''a'', FormatInt 10] (db_string ''a'' ''12'') = (Inr (SimpleInt 1), db') \<and>
     expiry_of db' KVType ''a'' = Some 110"
  using expire_branches [of "db_string ''a'' ''12''" "''a''" 10 node "''EXPIRE''"]
  by (auto simp: key_ok_def is_int64_def)

lemma reads_change_nothing:
  "snd (cmdSTRLEN m args db) = db" "snd (cmdGETRANGE m args db) = db" "snd (cmdGETBIT m args db) = db"
  "snd (cmdEXISTS sched m args db) = db" "snd (cmdBITPOS m args db) = db"
  "snd (cmdBITCOUNT m args db) = db" "snd (cmdGET m args db) = db" "snd (cmdMGET m args db) = db"
  "snd (cmdTTL m args db) = db"
  by (auto simp: cmdSTRLEN_def cmdGETRANGE_def cmdGETBIT_def cmdEXISTS_def cmdBITPOS_def
      cmdBITCOUNT_def cmdGET_def cmdMGET_def cmdTTL_def Let_def
      intro!: sbind_snd_same split: sum.splits option.splits prod.splits)

lemma keeps_handleExpiration: "keeps KVType db (snd (handleExpiration m k t db))"
  by (simp add: handleExpiration_def kv_keeps)

lemma keeps_setex_at: "keeps KVType db (snd (setex_at m k t v db))"
  by (simp add: setex_at_def kv_keeps)

lemma keeps_init_then:
  assumes "\<And>db. keeps KVType db (snd (f db))"
  shows "keeps KVType db (snd (sbind (if b then Set_kv k v db else (Inr (), db)) (\<lambda>_ db. f db)))"
  using assms by (intro keeps_sbind) (simp_all add: kv_keeps)

lemma writes_keep:
  "keeps KVType db (snd (cmdEXPIREAT m args db))" "keeps KVType db (snd (cmdEXPIRE m args db))"
  "keeps KVType db (snd (cmdSETRANGE m args db))" "keeps KVType db (snd (cmdINCRBY m args db))"
  "keeps KVType db (snd (cmdINCR m args db))" "keeps KVType db (snd (cmdGETSET m args db))"
  "keeps KVType db (snd (cmdSETBIT m args db))" "keeps KVType db (snd (cmdDECRBY m args db))"
  "keeps KVType db (snd (cmdDECR m args db))" "keeps KVType db (snd (cmdBITOP m args db))"
  "keeps KVType db (snd (cmdAPPEND m args db))" "keeps KVType db (snd (cmdSET m args db))"
  "keeps KVType db (snd (cmdSETEX m args db))" "keeps KVType db (snd (cmdSETEXAT m args db))"
  "keeps KVType db (snd (cmdSETNX m args db))" "keeps KVType db (snd (cmdDEL m args db))"
  "keeps KVType db (snd (cmdMSET m args db))"
  by (auto simp: cmdEXPIREAT_def cmdEXPIRE_def cmdSETRANGE_def cmdINCRBY_def cmdINCR_def cmdGETSET_def
      cmdSETBIT_def cmdDECRBY_def cmdDECR_def cmdBITOP_def cmdAPPEND_def cmdSET_def cmdSETEX_def
      cmdSETEXAT_def cmdSETNX_def cmdDEL_def cmdMSET_def IncrBy_def Incr_def DecrBy_def Decr_def Let_def
      intro!: keeps_checked keeps_init_then kv_keeps keeps_handleExpiration keeps_setex_at
      split: sum.split)

text \<open>
  No string command, whatever its arguments, touches a record of another data type.
\<close>

theorem string_isolation:
  "list_all (\<lambda>h. keeps KVType db (snd (h m args db)))
     [cmdEXPIREAT, cmdEXPIRE, cmdSTRLEN, cmdSETRANGE, cmdINCRBY, cmdINCR, cmdGETSET,
      cmdGETRANGE, cmdSETBIT, cmdGETBIT, cmdEXISTS sched, cmdDECRBY, cmdDECR, cmdBITPOS, cmdBITOP,
      cmdAPPEND, cmdBITCOUNT, cmdSET, cmdSETEX, cmdSETEXAT, cmdSETNX, cmdGET, cmdDEL, cmdMSET,
      cmdMGET, cmdTTL]"
  by (simp add: reads_change_nothing writes_keep)

end
