(* ===== verification/LedisList.thy ===== *)
theory LedisList
  imports LedisCore
begin

text \<open>
  Lists of the data-type layer (\<open>ledis/t_list.go\<close>). A list is stored as one record per element,
  under a 32-bit sequence number, and a meta record with the sequence numbers of its head and
  its tail. \<open>list_of\<close> reads a list back; \<open>lists_ok\<close> is the invariant of the representation, and
  the lemmas show that each operation is the corresponding operation on lists.
\<close>

section \<open>Operations\<close>

abbreviation (input) listHeadSeq :: int where "listHeadSeq \<equiv> 1"
abbreviation (input) listTailSeq :: int where "listTailSeq \<equiv> 2"
abbreviation (input) listMinSeq :: int where "listMinSeq \<equiv> 1000"
abbreviation (input) listMaxSeq :: int where "listMaxSeq \<equiv> 2147482648"
abbreviation (input) listInitialSeq :: int where "listInitialSeq \<equiv> 1073741824"

definition lDecodeListKey :: "ledisdb \<Rightarrow> bytes \<Rightarrow> (bytes \<times> int) result" where
  "lDecodeListKey db ek =
     rbind (checkKeyIndex db ek) (\<lambda>pos.
       if pos + 1 > length ek \<or> ek ! pos \<noteq> ListType then Inl errListKey
       else if pos + 3 > length ek then Inl errListKey
       else let keyLen = be_nat (take 2 (drop (pos + 1) ek))
            in if keyLen + (pos + 3) + 4 \<noteq> length ek then Inl errListKey
               else Inr (take keyLen (drop (pos + 3) ek),
                         wrap32 (int (be_nat (take 4 (drop (pos + 3 + keyLen) ek))))))"

text \<open>
  \<open>lGetMeta\<close> reads through an iterator (\<open>it\<close>) or directly; a record shorter than eight bytes is
  a slice out of range. \<open>lSetMeta\<close> returns what it adds to the batch. An impossible range is only
  logged: \<open>Fatalf\<close> of the package \<open>siddontang/go/log\<close> writes a line at its fatal level and
  returns, so the batch gets nothing and the caller goes on to commit it.
\<close>

definition lGetMeta :: "ledisdb \<Rightarrow> bool \<Rightarrow> bytes \<Rightarrow> (int \<times> int \<times> int) result" where
  "lGetMeta db it ek =
     (case (if it then it_Find (bucket db) ek else db_get db ek) of
        None \<Rightarrow> Inr (listInitialSeq, listInitialSeq, 0)
      | Some v \<Rightarrow>
          if length v < 8 then Inl Panic
          else let headSeq = wrap32 (int (le_nat (take 4 v)));
                   tailSeq = wrap32 (int (le_nat (take 4 (drop 4 v))))
               in Inr (headSeq, tailSeq, wrap32 (tailSeq - headSeq + 1)))"

definition lSetMeta :: "bytes \<Rightarrow> int \<Rightarrow> int \<Rightarrow> (int \<times> bop list) result" where
  "lSetMeta ek headSeq tailSeq =
     (let size = wrap32 (tailSeq - headSeq + 1)
      in if size < 0 then Inr (size, [])
         else if size = 0 then Inr (size, [BDel ek])
         else Inr (size, [BPut ek (le_bytes 4 (uint32 headSeq) @ le_bytes 4 (uint32 tailSeq))]))"

definition lpush :: "bytes \<Rightarrow> int \<Rightarrow> bytes list \<Rightarrow> ledisdb \<Rightarrow> int result \<times> ledisdb" where
  "lpush key whereSeq args db =
     sbind (lift_r (checkKeySize key) db) (\<lambda>_ db.
       let metaKey = lEncodeMetaKey db key in
       sbind (lift_r (lGetMeta db False metaKey) db) (\<lambda>(headSeq, tailSeq, size) db.
         let pushCnt = int (length args) in
         if pushCnt = 0 then (Inr size, db)
         else
           let seq = (if whereSeq = listTailSeq then tailSeq else headSeq);
               delta = (if whereSeq = listTailSeq then 1 else -1);
               seq = (if size > 0 then wrap32 (seq + delta) else seq);
               puts = map (\<lambda>i. BPut (lEncodeListKey db key (wrap32 (seq + int i * delta))) (args ! i))
                        [0..<length args];
               seq = wrap32 (seq + wrap32 ((pushCnt - 1) * delta))
           in if seq \<le> listMinSeq \<or> seq \<ge> listMaxSeq then (Inl errListSeq, db)
              else
                let headSeq = (if whereSeq = listHeadSeq then seq else headSeq);
                    tailSeq = (if whereSeq = listHeadSeq then tailSeq else seq)
                in sbind (lift_r (lSetMeta metaKey headSeq tailSeq) db) (\<lambda>(_, meta) db.
                   sbind (Commit (puts @ meta) db) (\<lambda>_ db. (Inr (size + pushCnt), db)))))"

definition lpop :: "bytes \<Rightarrow> int \<Rightarrow> ledisdb \<Rightarrow> bytes option result \<times> ledisdb" where
  "lpop key whereSeq db =
     sbind (lift_r (checkKeySize key) db) (\<lambda>_ db.
       let metaKey = lEncodeMetaKey db key in
       sbind (lift_r (lGetMeta db False metaKey) db) (\<lambda>(headSeq, tailSeq, size) db.
         if size = 0 then (Inr None, db)
         else
           let seq = (if whereSeq = listTailSeq then tailSeq else headSeq);
               itemKey = lEncodeListKey db key seq;
               val = db_get db itemKey;
               (headSeq, tailSeq) = (if whereSeq = listHeadSeq then (wrap32 (headSeq + 1), tailSeq)
                                     else (headSeq, wrap32 (tailSeq - 1)))
           in sbind (lift_r (lSetMeta metaKey headSeq tailSeq) db) (\<lambda>(size, meta) db.
              sbind (Commit (BDel itemKey # meta @
                       (if size = 0 then rmExpire_ops db ListType key else [])) db)
                (\<lambda>_ db. (Inr val, db)))))"

text \<open>\<open>lDelete\<close>: what it adds to the batch, and its count.\<close>

definition lDelete :: "ledisdb \<Rightarrow> bytes \<Rightarrow> (int \<times> bop list) result" where
  "lDelete db key =
     (let mk = lEncodeMetaKey db key
      in case lGetMeta db True mk of
           Inl e \<Rightarrow> if e = Panic then Inl Panic else Inr (0, [])
         | Inr (headSeq, tailSeq, _) \<Rightarrow>
             let startKey = lEncodeListKey db key headSeq;
                 stopKey = lEncodeListKey db key tailSeq;
                 rit = rangeLimitIterator (bucket db) (Some startKey) (Some stopKey) RangeClose 0 (-1) False
             in Inr (int (length rit), map (\<lambda>p. BDel (fst p)) rit @ [BDel mk]))"

definition ltrim2 :: "bytes \<Rightarrow> int \<Rightarrow> int \<Rightarrow> ledisdb \<Rightarrow> unit result \<times> ledisdb" where
  "ltrim2 key startP stopP db =
     sbind (lift_r (checkKeySize key) db) (\<lambda>_ db.
       let start = wrap32 startP; stop = wrap32 stopP; ek = lEncodeMetaKey db key in
       sbind (lift_r (lGetMeta db False ek) db) (\<lambda>(headSeq, _, llen) db.
         let start = (if start < 0 then wrap32 (llen + start) else start);
             stop = (if stop < 0 then wrap32 (llen + stop) else stop)
         in if start \<ge> llen \<or> start > stop then
              sbind (lift_r (lDelete db key) db) (\<lambda>(_, ops) db.
                Commit (ops @ rmExpire_ops db ListType key) db)
            else
              let start = (if start < 0 then 0 else start);
                  stop = (if stop \<ge> llen then wrap32 (llen - 1) else stop);
                  front = map (\<lambda>i. BDel (lEncodeListKey db key (wrap32 (headSeq + i)))) [0..start - 1];
                  back = (if stop < wrap32 (llen - 1)
                          then map (\<lambda>i. BDel (lEncodeListKey db key (wrap32 (headSeq + i)))) [stop + 1..llen - 1]
                          else [])
              in sbind (lift_r (lSetMeta ek (wrap32 (headSeq + start)) (wrap32 (headSeq + stop))) db)
                   (\<lambda>(_, meta) db. Commit (front @ back @ meta) db)))"

definition ltrim :: "bytes \<Rightarrow> int \<Rightarrow> int \<Rightarrow> ledisdb \<Rightarrow> int result \<times> ledisdb" where
  "ltrim key trimSize whereSeq db =
     sbind (lift_r (checkKeySize key) db) (\<lambda>_ db.
       if trimSize = 0 then (Inr 0, db)
       else let metaKey = lEncodeMetaKey db key in
       sbind (lift_r (lGetMeta db False metaKey) db) (\<lambda>(headSeq, tailSeq, size) db.
         if size = 0 then (Inr 0, db)
         else
           let (trimStartSeq, trimEndSeq, headSeq, tailSeq) =
                 (if whereSeq = listHeadSeq then
                    let e = min (wrap32 (wrap32 (headSeq + trimSize) - 1)) tailSeq
                    in (headSeq, e, wrap32 (e + 1), tailSeq)
                  else
                    let s = max (wrap32 (wrap32 (tailSeq - trimSize) + 1)) headSeq
                    in (s, tailSeq, headSeq, wrap32 (s - 1)));
               dels = map (\<lambda>i. BDel (lEncodeListKey db key i)) [trimStartSeq..trimEndSeq]
           in sbind (lift_r (lSetMeta metaKey headSeq tailSeq) db) (\<lambda>(size, meta) db.
              sbind (Commit (dels @ meta @ (if size = 0 then rmExpire_ops db ListType key else [])) db)
                (\<lambda>_ db. (Inr (wrap32 (wrap32 (trimEndSeq - trimStartSeq) + 1)), db)))))"

definition LIndex :: "ledisdb \<Rightarrow> bytes \<Rightarrow> int \<Rightarrow> bytes option result" where
  "LIndex db key index =
     rbind (checkKeySize key) (\<lambda>_.
     rbind (lGetMeta db True (lEncodeMetaKey db key)) (\<lambda>(headSeq, tailSeq, _).
       let seq = (if index \<ge> 0 then wrap32 (headSeq + index) else wrap32 (wrap32 (tailSeq + index) + 1))
       in Inr (it_Find (bucket db) (lEncodeListKey db key seq))))"

definition LLen :: "ledisdb \<Rightarrow> bytes \<Rightarrow> int result" where
  "LLen db key =
     rbind (checkKeySize key) (\<lambda>_.
     rbind (lGetMeta db False (lEncodeMetaKey db key)) (\<lambda>(_, _, size). Inr size))"

definition lExpireAt :: "bytes \<Rightarrow> int \<Rightarrow> ledisdb \<Rightarrow> int result \<times> ledisdb" where
  "lExpireAt key when db =
     sbind (lift_r (LLen db key) db) (\<lambda>llen db.
       if llen = 0 then (Inr 0, db) else commit_expireAt ListType key when db)"

definition LPop :: "bytes \<Rightarrow> ledisdb \<Rightarrow> bytes option result \<times> ledisdb" where
  "LPop key db = lpop key listHeadSeq db"

definition LTrim :: "bytes \<Rightarrow> int \<Rightarrow> int \<Rightarrow> ledisdb \<Rightarrow> unit result \<times> ledisdb" where
  "LTrim key start stop db = ltrim2 key start stop db"

definition LTrimFront :: "bytes \<Rightarrow> int \<Rightarrow> ledisdb \<Rightarrow> int result \<times> ledisdb" where
  "LTrimFront key trimSize db = ltrim key trimSize listHeadSeq db"

definition LTrimBack :: "bytes \<Rightarrow> int \<Rightarrow> ledisdb \<Rightarrow> int result \<times> ledisdb" where
  "LTrimBack key trimSize db = ltrim key trimSize listTailSeq db"

definition LPush :: "bytes \<Rightarrow> bytes list \<Rightarrow> ledisdb \<Rightarrow> int result \<times> ledisdb" where
  "LPush key args db = lpush key listHeadSeq args db"

definition LSet :: "bytes \<Rightarrow> int \<Rightarrow> bytes \<Rightarrow> ledisdb \<Rightarrow> unit result \<times> ledisdb" where
  "LSet key index val db =
     sbind (lift_r (checkKeySize key) db) (\<lambda>_ db.
     sbind (lift_r (lGetMeta db False (lEncodeMetaKey db key)) db) (\<lambda>(headSeq, tailSeq, _) db.
       let seq = (if index \<ge> 0 then wrap32 (headSeq + index) else wrap32 (wrap32 (tailSeq + index) + 1))
       in if seq < headSeq \<or> seq > tailSeq then (Inl errListIndex, db)
          else Commit [BPut (lEncodeListKey db key seq) val] db))"

definition LRange :: "ledisdb \<Rightarrow> bytes \<Rightarrow> int \<Rightarrow> int \<Rightarrow> bytes list result" where
  "LRange db key start stop =
     rbind (checkKeySize key) (\<lambda>_.
     rbind (lGetMeta db True (lEncodeMetaKey db key)) (\<lambda>(headSeq, _, llen).
       let start = (if start < 0 then wrap32 (llen + start) else start);
           stop = (if stop < 0 then wrap32 (llen + stop) else stop);
           start = (if start < 0 then 0 else start)
       in if start > stop \<or> start \<ge> llen then Inr []
          else
            let stop = (if stop \<ge> llen then wrap32 (llen - 1) else stop);
                limit = wrap32 (wrap32 (stop - start) + 1);
                startKey = lEncodeListKey db key (wrap32 (headSeq + start))
            in Inr (map snd (rangeLimitIterator (bucket db) (Some startKey) None RangeClose 0 limit False))))"

definition RPop :: "bytes \<Rightarrow> ledisdb \<Rightarrow> bytes option result \<times> ledisdb" where
  "RPop key db = lpop key listTailSeq db"

definition RPush :: "bytes \<Rightarrow> bytes list \<Rightarrow> ledisdb \<Rightarrow> int result \<times> ledisdb" where
  "RPush key args db = lpush key listTailSeq args db"

definition LClear :: "bytes \<Rightarrow> ledisdb \<Rightarrow> int result \<times> ledisdb" where
  "LClear key db =
     sbind (lift_r (checkKeySize key) db) (\<lambda>_ db.
     sbind (lift_r (lDelete db key) db) (\<lambda>(num, ops) db.
     sbind (Commit (ops @ rmExpire_ops db ListType key) db) (\<lambda>_ db. (Inr num, db))))"

fun lmclear_ops :: "ledisdb \<Rightarrow> bytes list \<Rightarrow> bop list result" where
  "lmclear_ops db [] = Inr []"
| "lmclear_ops db (key # keys) =
     rbind (checkKeySize key) (\<lambda>_.
     rbind (lDelete db key) (\<lambda>(_, ops).
     rbind (lmclear_ops db keys) (\<lambda>rest. Inr (ops @ rmExpire_ops db ListType key @ rest))))"

definition LMclear :: "bytes list \<Rightarrow> ledisdb \<Rightarrow> int result \<times> ledisdb" where
  "LMclear keys db =
     sbind (lift_r (lmclear_ops db keys) db) (\<lambda>ops db.
     sbind (Commit ops db) (\<lambda>_ db. (Inr (int (length keys)), db)))"

definition LExpire :: "int \<Rightarrow> bytes \<Rightarrow> int \<Rightarrow> ledisdb \<Rightarrow> int result \<times> ledisdb" where
  "LExpire now key duration db =
     (if duration \<le> 0 then (Inl errExpireValue, db) else lExpireAt key (wrap64 (now + duration)) db)"

definition LExpireAt :: "int \<Rightarrow> bytes \<Rightarrow> int \<Rightarrow> ledisdb \<Rightarrow> int result \<times> ledisdb" where
  "LExpireAt now key when db =
     (if when \<le> now then (Inl errExpireValue, db) else lExpireAt key when db)"

definition LTTL :: "ledisdb \<Rightarrow> int \<Rightarrow> bytes \<Rightarrow> int result" where
  "LTTL db now key = rbind (checkKeySize key) (\<lambda>_. ttl db now ListType key)"

definition LPersist :: "bytes \<Rightarrow> ledisdb \<Rightarrow> int result \<times> ledisdb" where
  "LPersist key db = commit_persist ListType key db"

definition LKeyExists :: "ledisdb \<Rightarrow> bytes \<Rightarrow> int result" where
  "LKeyExists db key =
     rbind (checkKeySize key) (\<lambda>_.
       case db_get db (lEncodeMetaKey db key) of None \<Rightarrow> Inr 0 | Some v \<Rightarrow> Inr 1)"

section \<open>Representation\<close>

text \<open>
  \<open>list_rep db k h vs\<close>: the element records of \<open>k\<close> are \<open>vs\<close> at the sequence numbers from \<open>h\<close> on,
  there is no other, and the meta record says so (it is absent for the empty list).
\<close>

abbreviation l_elem :: "ledisdb \<Rightarrow> bytes \<Rightarrow> int \<Rightarrow> bytes option" where
  "l_elem db k s \<equiv> db_get db (lEncodeListKey db k s)"

definition meta_bytes :: "int \<Rightarrow> int \<Rightarrow> bytes" where
  "meta_bytes h t = le_bytes 4 (uint32 h) @ le_bytes 4 (uint32 t)"

definition list_rep :: "ledisdb \<Rightarrow> bytes \<Rightarrow> int \<Rightarrow> bytes list \<Rightarrow> bool" where
  "list_rep db k h vs \<longleftrightarrow>
     (\<forall>s. is_int32 s \<longrightarrow> l_elem db k s =
        (if h \<le> s \<and> s < h + int (length vs) then Some (vs ! nat (s - h)) else None)) \<and>
     db_get db (lEncodeMetaKey db k) =
        (if vs = [] then None else Some (meta_bytes h (h + int (length vs) - 1))) \<and>
     (vs \<noteq> [] \<longrightarrow> listMinSeq < h \<and> h + int (length vs) - 1 < listMaxSeq)"

text \<open>Every stored key that carries the list tag is the key of a list element.\<close>

definition list_keys_ok :: "ledisdb \<Rightarrow> bool" where
  "list_keys_ok db \<longleftrightarrow>
     (\<forall>r. db_get db (indexVarBuf db @ ListType # r) \<noteq> None \<longrightarrow>
        (\<exists>k s. key_ok k \<and> is_int32 s \<and> indexVarBuf db @ ListType # r = lEncodeListKey db k s))"

definition lists_ok :: "ledisdb \<Rightarrow> bool" where
  "lists_ok db \<longleftrightarrow> store_ok (bucket db) \<and> list_keys_ok db \<and> (\<forall>k. key_ok k \<longrightarrow> (\<exists>h vs. list_rep db k h vs))"

text \<open>The list a key holds; a word that is no key holds none.\<close>

definition list_of :: "ledisdb \<Rightarrow> bytes \<Rightarrow> bytes list" where
  "list_of db k =
     (if key_ok k then
        case lGetMeta db False (lEncodeMetaKey db k) of
          Inl e \<Rightarrow> []
        | Inr (h, t, n) \<Rightarrow> if n = 0 then [] else map (\<lambda>s. the (l_elem db k s)) [h..t]
      else [])"

lemma meta_bytes_decode:
  assumes "is_int32 h" "is_int32 t"
  shows "length (meta_bytes h t) = 8"
    "wrap32 (int (le_nat (take 4 (meta_bytes h t)))) = h"
    "wrap32 (int (le_nat (take 4 (drop 4 (meta_bytes h t))))) = t"
  using assms uint32_less [of h] uint32_less [of t] by (simp_all add: meta_bytes_def le_nat_le_bytes)

lemma lGetMeta_rep:
  assumes "list_rep db k h vs" "it \<longrightarrow> store_ok (bucket db)"
  shows "lGetMeta db it (lEncodeMetaKey db k) =
    Inr (if vs = [] then (listInitialSeq, listInitialSeq, 0)
         else (h, h + int (length vs) - 1, int (length vs)))"
proof -
  have v: "(if it then it_Find (bucket db) (lEncodeMetaKey db k) else db_get db (lEncodeMetaKey db k))
      = db_get db (lEncodeMetaKey db k)"
    using assms(2) by (simp add: it_Find_eq_sget)
  show ?thesis
  proof (cases "vs = []")
    case True
    then show ?thesis using assms(1) unfolding lGetMeta_def v by (simp add: list_rep_def)
  next
    case False
    let ?t = "h + int (length vs) - 1"
    have b: "listMinSeq < h" "?t < listMaxSeq" "1 \<le> int (length vs)"
      using assms(1) False by (auto simp: list_rep_def Suc_le_eq)
    then have i: "is_int32 h" "is_int32 ?t" "is_int32 (int (length vs))" by (auto simp: is_int32_def)
    show ?thesis using False assms(1) meta_bytes_decode [OF i(1,2)] i(3) unfolding lGetMeta_def v
      by (simp add: list_rep_def)
  qed
qed

lemma list_of_rep: "list_rep db k h vs \<Longrightarrow> key_ok k \<Longrightarrow> list_of db k = vs"
proof -
  assume r: "list_rep db k h vs" and k: "key_ok k"
  have "map (\<lambda>s. the (l_elem db k s)) [h..h + int (length vs) - 1] = vs" if "vs \<noteq> []"
  proof (rule nth_equalityI)
    fix i assume "i < length (map (\<lambda>s. the (l_elem db k s)) [h..h + int (length vs) - 1])"
    then have i: "i < length vs" by simp
    moreover have "is_int32 (h + int i)" using r i that by (auto simp: list_rep_def is_int32_def)
    ultimately show "map (\<lambda>s. the (l_elem db k s)) [h..h + int (length vs) - 1] ! i = vs ! i"
      using r by (simp add: list_rep_def)
  qed simp
  then show ?thesis using lGetMeta_rep [OF r, of False] k by (simp add: list_of_def)
qed

lemma lists_okE:
  assumes "lists_ok db" "key_ok k"
  obtains h where "list_rep db k h (list_of db k)"
  using assms list_of_rep unfolding lists_ok_def by metis

text \<open>The batches of list operations: they touch records of one key only.\<close>

definition list_op :: "ledisdb \<Rightarrow> bytes \<Rightarrow> bop \<Rightarrow> bool" where
  "list_op db k op \<longleftrightarrow>
     (\<exists>s. is_int32 s \<and> op_key op = lEncodeListKey db k s) \<or> op_key op = lEncodeMetaKey db k \<or>
     (\<exists>w. op_key op = expEncodeTimeKey db ListType k w) \<or> op_key op = expEncodeMetaKey db ListType k"

lemma list_op_simps [simp]:
  "is_int32 s \<Longrightarrow> list_op db k (BPut (lEncodeListKey db k s) v)"
  "is_int32 s \<Longrightarrow> list_op db k (BDel (lEncodeListKey db k s))"
  "list_op db k (BPut (lEncodeMetaKey db k) v)" "list_op db k (BDel (lEncodeMetaKey db k))"
  by (auto simp: list_op_def)

lemma list_op_rmExpire: "op \<in> set (rmExpire_ops db ListType k) \<Longrightarrow> list_op db k op"
  using rmExpire_op_keys [of op db ListType k] by (auto simp: list_op_def)

lemma list_op_other:
  assumes "\<forall>op \<in> set ops. list_op db k op" "key_ok k" "key_ok k'" "k' \<noteq> k"
  shows "is_int32 s \<Longrightarrow> sget (apply_batch ops st) (lEncodeListKey db k' s) = sget st (lEncodeListKey db k' s)"
    "sget (apply_batch ops st) (lEncodeMetaKey db k') = sget st (lEncodeMetaKey db k')"
  using assms by (auto intro!: sget_apply_batch_other simp: list_op_def codec key_ok_length; force simp: codec key_ok_length)+

lemma list_rep_frame:
  assumes "\<forall>op \<in> set ops. list_op db k op" "key_ok k" "key_ok k'" "k' \<noteq> k"
  shows "list_rep (db\<lparr>bucket := apply_batch ops (bucket db)\<rparr>) k' h vs \<longleftrightarrow> list_rep db k' h vs"
  using list_op_other [OF assms] by (simp add: list_rep_def)

lemma list_keys_ok_commit:
  assumes "list_keys_ok db" "\<forall>op \<in> set ops. list_op db k op" "key_ok k"
  shows "list_keys_ok (db\<lparr>bucket := apply_batch ops (bucket db)\<rparr>)"
proof -
  have tag: "indexVarBuf db @ ListType # r = op_key op \<Longrightarrow> op \<in> set ops \<Longrightarrow>
      \<exists>s. is_int32 s \<and> op_key op = lEncodeListKey db k s" for r op
    using assms(2) by (force simp: list_op_def size_key_defs exp_key_defs)
  show ?thesis unfolding list_keys_ok_def
  proof (intro allI impI)
    fix r
    let ?db = "db\<lparr>bucket := apply_batch ops (bucket db)\<rparr>"
    assume "db_get ?db (indexVarBuf ?db @ ListType # r) \<noteq> None"
    then have "db_get db (indexVarBuf db @ ListType # r) \<noteq> None \<or>
        indexVarBuf db @ ListType # r \<in> op_key ` set ops"
      using sget_apply_batch_cases by fastforce
    then show "\<exists>k s. key_ok k \<and> is_int32 s \<and> indexVarBuf ?db @ ListType # r = lEncodeListKey ?db k s"
      using assms(1,3) tag [of r] by (fastforce simp: list_keys_ok_def)
  qed
qed

text \<open>A batch on one key that leaves that key with \<open>vs\<close> updates the map of lists at that key.\<close>

lemma lists_commit:
  assumes "lists_ok db" "key_ok k" "\<forall>op \<in> set ops. list_op db k op"
    and "list_rep (db\<lparr>bucket := apply_batch ops (bucket db)\<rparr>) k h vs"
  shows "lists_ok (db\<lparr>bucket := apply_batch ops (bucket db)\<rparr>) \<and>
    list_of (db\<lparr>bucket := apply_batch ops (bucket db)\<rparr>) = (list_of db)(k := vs)"
proof -
  let ?db = "db\<lparr>bucket := apply_batch ops (bucket db)\<rparr>"
  have "\<exists>h vs. list_rep ?db k' h vs" if "key_ok k'" for k'
    using assms that list_rep_frame [OF assms(3,2) that] by (cases "k' = k") (auto simp: lists_ok_def)
  then have ok: "lists_ok ?db"
    using assms(1-3) list_keys_ok_commit by (auto simp: lists_ok_def)
  have "list_of ?db k' = ((list_of db)(k := vs)) k'" for k'
  proof (cases "key_ok k' \<and> k' \<noteq> k")
    case True
    then obtain h' where "list_rep db k' h' (list_of db k')" using lists_okE [OF assms(1)] by blast
    then have "list_rep ?db k' h' (list_of db k')" using True list_rep_frame [OF assms(3,2)] by blast
    then have "list_of ?db k' = list_of db k'" using True by (blast intro: list_of_rep)
    then show ?thesis using True by simp
  next
    case False
    then consider "k' = k" | "k' \<noteq> k" "\<not> key_ok k'" by blast
    then show ?thesis
    proof cases
      case 1
      then show ?thesis using list_of_rep [OF assms(4,2)] by simp
    qed (simp add: list_of_def)
  qed
  then show ?thesis using ok by blast
qed

lemma list_rep_Nil: "list_rep db k h [] \<Longrightarrow> list_rep db k h' []"
  by (auto simp: list_rep_def)

lemma list_rep_bounds:
  "list_rep db k h vs \<Longrightarrow> vs \<noteq> [] \<Longrightarrow> listMinSeq < h \<and> h + int (length vs) - 1 < listMaxSeq \<and> 0 < length vs"
  by (simp add: list_rep_def)

text \<open>How many more elements fit before the sequence numbers run out at one end.\<close>

definition list_room :: "ledisdb \<Rightarrow> int \<Rightarrow> bytes \<Rightarrow> int" where
  "list_room db whereSeq k =
     (case lGetMeta db False (lEncodeMetaKey db k) of
        Inl e \<Rightarrow> 0
      | Inr (h, t, n) \<Rightarrow>
          if whereSeq = listTailSeq then listMaxSeq - 1 - (if n = 0 then t - 1 else t)
          else (if n = 0 then h + 1 else h) - 1 - listMinSeq)"

lemma push_rep_tail:
  assumes "list_rep db k h vs" "key_ok k" "xs \<noteq> []" "listMinSeq < h"
    and "h + int (length vs) + int (length xs) - 1 < listMaxSeq"
  shows "list_rep (db\<lparr>bucket := apply_batch
      (map (\<lambda>i. BPut (lEncodeListKey db k (h + int (length vs) + int i)) (xs ! i)) [0..<length xs] @
       [BPut (lEncodeMetaKey db k) (meta_bytes h (h + int (length vs) + int (length xs) - 1))]) (bucket db)\<rparr>)
    k h (vs @ xs)"
proof -
  let ?q = "h + int (length vs)" and ?n = "length xs"
  let ?f = "\<lambda>i. lEncodeListKey db k (?q + int i)"
  have i32: "i < ?n \<Longrightarrow> is_int32 (?q + int i)" for i using assms(4,5) by (auto simp: is_int32_def)
  then have inj: "inj_on ?f {..<?n}" using assms(2) by (auto simp: inj_on_def codec key_ok_length)
  have "sget (apply_batch (map (\<lambda>i. BPut (?f i) (xs ! i)) [0..<?n]) (bucket db)) (lEncodeListKey db k s)
      = (if h \<le> s \<and> s < h + int (length (vs @ xs)) then Some ((vs @ xs) ! nat (s - h)) else None)"
    if s: "is_int32 s" for s
  proof (cases "?q \<le> s \<and> s < ?q + int ?n")
    case True
    define i where "i = nat (s - ?q)"
    have i: "i < ?n" "s = ?q + int i" "nat (s - h) = length vs + i" using True by (auto simp: i_def)
    show ?thesis using sget_puts_hit [OF inj i(1), of "(!) xs" "bucket db"] i by (simp add: nth_append)
  next
    case False
    then have "\<forall>i < ?n. ?f i \<noteq> lEncodeListKey db k s" using s i32 assms(2) by (auto simp: codec key_ok_length)
    then show ?thesis using assms(1) s False
      by (subst sget_puts_miss) (auto simp: list_rep_def nth_append nat_less_iff)
  qed
  then show ?thesis using assms(3-5) by (simp add: list_rep_def store_simps add.assoc)
qed

lemma push_rep_head:
  assumes "list_rep db k h vs" "key_ok k" "xs \<noteq> []" "listMinSeq < h - int (length xs)"
    and "h + int (length vs) - 1 < listMaxSeq"
  shows "list_rep (db\<lparr>bucket := apply_batch
      (map (\<lambda>i. BPut (lEncodeListKey db k (h - 1 - int i)) (xs ! i)) [0..<length xs] @
       [BPut (lEncodeMetaKey db k) (meta_bytes (h - int (length xs)) (h + int (length vs) - 1))]) (bucket db)\<rparr>)
    k (h - int (length xs)) (rev xs @ vs)"
proof -
  let ?n = "length xs" and ?h = "h - int (length xs)"
  let ?f = "\<lambda>i. lEncodeListKey db k (h - 1 - int i)"
  have i32: "i < ?n \<Longrightarrow> is_int32 (h - 1 - int i)" for i using assms(4,5) by (auto simp: is_int32_def)
  then have inj: "inj_on ?f {..<?n}" using assms(2) by (auto simp: inj_on_def codec key_ok_length)
  have "sget (apply_batch (map (\<lambda>i. BPut (?f i) (xs ! i)) [0..<?n]) (bucket db)) (lEncodeListKey db k s)
      = (if ?h \<le> s \<and> s < ?h + int (length (rev xs @ vs)) then Some ((rev xs @ vs) ! nat (s - ?h)) else None)"
    if s: "is_int32 s" for s
  proof (cases "?h \<le> s \<and> s < h")
    case True
    define i where "i = nat (h - 1 - s)"
    have i: "i < ?n" "s = h - 1 - int i" "nat (s - ?h) = ?n - Suc i" "?n - Suc i < ?n"
      using True by (auto simp: i_def)
    show ?thesis using sget_puts_hit [OF inj i(1), of "(!) xs" "bucket db"] i by (simp add: nth_append rev_nth)
  next
    case False
    then have "\<forall>i < ?n. ?f i \<noteq> lEncodeListKey db k s" using s i32 assms(2) by (auto simp: codec key_ok_length)
    moreover have "h \<le> s \<Longrightarrow> nat (s - ?h) = ?n + nat (s - h)" by simp
    ultimately show ?thesis using assms(1) s False
      by (subst sget_puts_miss) (auto simp: list_rep_def nth_append nat_less_iff)
  qed
  moreover have "?h + int (length (rev xs @ vs)) = h + int (length vs)" by simp
  ultimately show ?thesis using assms(3-5) by (simp add: list_rep_def store_simps)
qed

lemma lSetMeta_eq:
  assumes "listMinSeq < h" "h \<le> t" "t < listMaxSeq"
  shows "lSetMeta ek h t = Inr (t - h + 1, [BPut ek (meta_bytes h t)])"
  using assms by (simp add: lSetMeta_def meta_bytes_def is_int32_def)

lemma push_seq_up:
  assumes "listMinSeq < q" "q \<le> listMaxSeq" "0 < n" "n < 2147483648"
  shows "\<not> (wrap32 (q + wrap32 (n - 1)) \<le> listMinSeq \<or> wrap32 (q + wrap32 (n - 1)) \<ge> listMaxSeq)
      \<longleftrightarrow> n \<le> listMaxSeq - q"
    "n \<le> listMaxSeq - q \<Longrightarrow> wrap32 (q + wrap32 (n - 1)) = q + n - 1"
proof -
  have n: "wrap32 (n - 1) = n - 1" using assms by (simp add: wrap32_if_small)
  show "n \<le> listMaxSeq - q \<Longrightarrow> wrap32 (q + wrap32 (n - 1)) = q + n - 1"
    unfolding n using assms by (simp add: wrap32_if_small)
  show "\<not> (wrap32 (q + wrap32 (n - 1)) \<le> listMinSeq \<or> wrap32 (q + wrap32 (n - 1)) \<ge> listMaxSeq)
      \<longleftrightarrow> n \<le> listMaxSeq - q"
    unfolding n using assms wrap32_beyond [of "q + n - 1"] wrap32_if_small [of "q + n - 1"]
    by (cases "q + n - 1 < 2147483648") (auto simp: algebra_simps)
qed

lemma RPush_ok:
  assumes "lists_ok db" "\<not> readonly db" "key_ok k" "xs \<noteq> []" "length xs < 2147483648"
  shows "if int (length xs) \<le> list_room db listTailSeq k
    then \<exists>db'. RPush k xs db = (Inr (int (length (list_of db k @ xs))), db') \<and> lists_ok db' \<and>
           list_of db' = (list_of db)(k := list_of db k @ xs)
    else RPush k xs db = (Inl errListSeq, db)"
proof -
  obtain h0 where r0: "list_rep db k h0 (list_of db k)" using lists_okE [OF assms(1,3)] .
  define vs where "vs = list_of db k"
  define h where "h = (if vs = [] then listInitialSeq else h0)"
  have r: "list_rep db k h vs" using r0 list_rep_Nil by (auto simp: h_def vs_def)
  have b: "listMinSeq < h" "h + int (length vs) - 1 < listMaxSeq"
    using list_rep_bounds [OF r] by (auto simp: h_def)
  have meta: "lGetMeta db False (lEncodeMetaKey db k)
      = Inr (h, (if vs = [] then h else h + int (length vs) - 1), int (length vs))"
    using lGetMeta_rep [OF r, of False] by (simp add: h_def)
  let ?q = "h + int (length vs)" and ?n = "int (length xs)"
  have room: "list_room db listTailSeq k = listMaxSeq - ?q"
    unfolding list_room_def meta by simp
  define seq where "seq = wrap32 (?q + wrap32 (?n - 1))"
  have seq: "\<not> (seq \<le> listMinSeq \<or> seq \<ge> listMaxSeq) \<longleftrightarrow> ?n \<le> listMaxSeq - ?q" "?n \<le> listMaxSeq - ?q \<Longrightarrow> seq = ?q + ?n - 1"
    using b assms(4,5) push_seq_up [of ?q ?n] by (auto simp: seq_def)
  have push: "RPush k xs db =
    (if seq \<le> listMinSeq \<or> seq \<ge> listMaxSeq then (Inl errListSeq, db)
     else sbind (lift_r (lSetMeta (lEncodeMetaKey db k) h seq) db) (\<lambda>(_, meta) d.
       sbind (Commit (map (\<lambda>i. BPut (lEncodeListKey db k (wrap32 (?q + int i))) (xs ! i)) [0..<length xs] @ meta) d)
         (\<lambda>_ db. (Inr (int (length vs) + ?n), db))))"
    using assms(3,4) b unfolding RPush_def lpush_def lift_r_def checkKeySize_ok [OF assms(3)] sbind_simps Let_def meta
    by (auto simp: seq_def wrap32_if_small)
  show ?thesis
  proof (cases "?n \<le> listMaxSeq - ?q")
    case True
    let ?ops = "map (\<lambda>i. BPut (lEncodeListKey db k (?q + int i)) (xs ! i)) [0..<length xs] @
       [BPut (lEncodeMetaKey db k) (meta_bytes h (?q + ?n - 1))]"
    let ?db = "db\<lparr>bucket := apply_batch ?ops (bucket db)\<rparr>"
    have puts: "map (\<lambda>i. BPut (lEncodeListKey db k (wrap32 (?q + int i))) (xs ! i)) [0..<length xs]
        = map (\<lambda>i. BPut (lEncodeListKey db k (?q + int i)) (xs ! i)) [0..<length xs]"
      using b True by (auto simp: wrap32_if_small)
    have "0 < ?n" using assms(4) by simp
    then have set: "lSetMeta (lEncodeMetaKey db k) h (?q + ?n - 1)
        = Inr (?q + ?n - 1 - h + 1, [BPut (lEncodeMetaKey db k) (meta_bytes h (?q + ?n - 1))])"
      using b True by (intro lSetMeta_eq; linarith)
    have "RPush k xs db = (Inr (int (length vs) + ?n), ?db)"
      unfolding push puts seq(2) [OF True] set lift_r_def using assms(2) seq True by simp
    moreover have "\<forall>op \<in> set ?ops. list_op db k op" using b True by (auto simp: is_int32_def)
    then have "lists_ok ?db \<and> list_of ?db = (list_of db)(k := vs @ xs)"
      using push_rep_tail [OF r assms(3,4) b(1)] True by (intro lists_commit [OF assms(1,3)]) auto
    ultimately show ?thesis using True by (simp add: room flip: vs_def)
  next
    case False
    then show ?thesis using seq(1) by (simp add: push room)
  qed
qed

lemma push_seq_down:
  assumes "listMinSeq \<le> q" "q < listMaxSeq" "0 < n" "n < 2147483648"
  shows "\<not> (wrap32 (q + wrap32 ((n - 1) * - 1)) \<le> listMinSeq \<or> wrap32 (q + wrap32 ((n - 1) * - 1)) \<ge> listMaxSeq)
      \<longleftrightarrow> n \<le> q - listMinSeq"
    "wrap32 (q + wrap32 ((n - 1) * - 1)) = q - n + 1"
  using assms by (auto simp: wrap32_if_small)

lemma LPush_ok:
  assumes "lists_ok db" "\<not> readonly db" "key_ok k" "xs \<noteq> []" "length xs < 2147483648"
  shows "if int (length xs) \<le> list_room db listHeadSeq k
    then \<exists>db'. LPush k xs db = (Inr (int (length (rev xs @ list_of db k))), db') \<and> lists_ok db' \<and>
           list_of db' = (list_of db)(k := rev xs @ list_of db k)
    else LPush k xs db = (Inl errListSeq, db)"
proof -
  obtain h0 where r0: "list_rep db k h0 (list_of db k)" using lists_okE [OF assms(1,3)] .
  define vs where "vs = list_of db k"
  define h where "h = (if vs = [] then listInitialSeq + 1 else h0)"
  have r: "list_rep db k h vs" using r0 list_rep_Nil by (auto simp: h_def vs_def)
  have b: "listMinSeq < h" "h \<le> listMaxSeq" "h + int (length vs) - 1 < listMaxSeq"
    using list_rep_bounds [OF r] by (auto simp: h_def)
  have meta: "lGetMeta db False (lEncodeMetaKey db k)
      = Inr ((if vs = [] then h - 1 else h), h + int (length vs) - 1, int (length vs))"
    using lGetMeta_rep [OF r, of False] by (simp add: h_def)
  let ?n = "int (length xs)"
  have room: "list_room db listHeadSeq k = h - 1 - listMinSeq"
    unfolding list_room_def meta by simp
  define seq where "seq = wrap32 (h - 1 + wrap32 ((?n - 1) * - 1))"
  have n0: "0 < ?n" "?n < 2147483648" using assms(4,5) by simp_all
  have seq: "\<not> (seq \<le> listMinSeq \<or> seq \<ge> listMaxSeq) \<longleftrightarrow> ?n \<le> h - 1 - listMinSeq" "seq = h - ?n"
    using b push_seq_down [of "h - 1" ?n] n0 by (auto simp: seq_def)
  have push: "LPush k xs db =
    (if seq \<le> listMinSeq \<or> seq \<ge> listMaxSeq then (Inl errListSeq, db)
     else sbind (lift_r (lSetMeta (lEncodeMetaKey db k) seq (h + int (length vs) - 1)) db) (\<lambda>(_, meta) d.
       sbind (Commit (map (\<lambda>i. BPut (lEncodeListKey db k (wrap32 (h - 1 - int i))) (xs ! i)) [0..<length xs] @ meta) d)
         (\<lambda>_ db. (Inr (int (length vs) + ?n), db))))"
    using assms(3,4) b unfolding LPush_def lpush_def lift_r_def checkKeySize_ok [OF assms(3)] sbind_simps Let_def meta
    by (auto simp: seq_def wrap32_if_small)
  show ?thesis
  proof (cases "?n \<le> h - 1 - listMinSeq")
    case True
    let ?ops = "map (\<lambda>i. BPut (lEncodeListKey db k (h - 1 - int i)) (xs ! i)) [0..<length xs] @
       [BPut (lEncodeMetaKey db k) (meta_bytes (h - ?n) (h + int (length vs) - 1))]"
    let ?db = "db\<lparr>bucket := apply_batch ?ops (bucket db)\<rparr>"
    have puts: "map (\<lambda>i. BPut (lEncodeListKey db k (wrap32 (h - 1 - int i))) (xs ! i)) [0..<length xs]
        = map (\<lambda>i. BPut (lEncodeListKey db k (h - 1 - int i)) (xs ! i)) [0..<length xs]"
      using b True by (auto simp: wrap32_if_small)
    have set: "lSetMeta (lEncodeMetaKey db k) (h - ?n) (h + int (length vs) - 1)
        = Inr (h + int (length vs) - 1 - (h - ?n) + 1,
               [BPut (lEncodeMetaKey db k) (meta_bytes (h - ?n) (h + int (length vs) - 1))])"
      using b True n0 by (intro lSetMeta_eq; linarith)
    have "LPush k xs db = (Inr (int (length vs) + ?n), ?db)"
      unfolding push puts seq(2) set lift_r_def using assms(2) seq True by simp
    moreover have "\<forall>op \<in> set ?ops. list_op db k op" using b True by (auto simp: is_int32_def)
    then have "lists_ok ?db \<and> list_of ?db = (list_of db)(k := rev xs @ vs)"
      using push_rep_head [OF r assms(3,4) _ b(3)] True by (intro lists_commit [OF assms(1,3)]) auto
    ultimately show ?thesis using True by (simp add: room flip: vs_def)
  next
    case False
    then show ?thesis using seq(1) by (simp add: push room)
  qed
qed

section \<open>Popping\<close>

lemma lSetMeta_size:
  assumes "vs \<noteq> [] \<longrightarrow> listMinSeq < h \<and> h + int (length vs) - 1 < listMaxSeq" "is_int32 h"
  shows "lSetMeta ek h (h + int (length vs) - 1) = Inr (int (length vs),
     if vs = [] then [BDel ek] else [BPut ek (meta_bytes h (h + int (length vs) - 1))])"
proof (cases "vs = []")
  case True
  then show ?thesis using assms(2) by (simp add: lSetMeta_def wrap32_if_small)
next
  case False
  then have "0 < int (length vs)" by simp
  then show ?thesis using assms False by (subst lSetMeta_eq) auto
qed

text \<open>What the batch of a pop, of a trim or of a removal leaves.\<close>

lemma list_rep_dels:
  assumes "key_ok k" "ek = lEncodeMetaKey db k"
    and dels: "\<And>s. is_int32 s \<Longrightarrow> l_elem db k s \<noteq> None \<Longrightarrow> s \<notin> set ds \<longleftrightarrow> h \<le> s \<and> s < h + int (length vs)"
    and ds: "\<forall>s \<in> set ds. is_int32 s"
    and sub: "\<And>i. i < length vs \<Longrightarrow> is_int32 (h + int i) \<and> l_elem db k (h + int i) = Some (vs ! i)"
    and "vs \<noteq> [] \<longrightarrow> listMinSeq < h \<and> h + int (length vs) - 1 < listMaxSeq"
    and rest: "rest = [] \<or> rest = rmExpire_ops db ListType k"
  shows "list_rep (db\<lparr>bucket := apply_batch (map (\<lambda>s. BDel (lEncodeListKey db k s)) ds @
      (if vs = [] then [BDel ek] else [BPut ek (meta_bytes h (h + int (length vs) - 1))]) @ rest) (bucket db)\<rparr>) k h vs"
proof -
  let ?st = "apply_batch (map (\<lambda>s. BDel (lEncodeListKey db k s)) ds) (bucket db)"
  have e: "map (\<lambda>s. BDel (lEncodeListKey db k s)) ds = map BDel (map (lEncodeListKey db k) ds)" by simp
  have st: "sget ?st (lEncodeListKey db k s)
      = (if h \<le> s \<and> s < h + int (length vs) then Some (vs ! nat (s - h)) else None)" if s: "is_int32 s" for s
  proof -
    have 1: "sget ?st (lEncodeListKey db k s) = (if s \<in> set ds then None else l_elem db k s)"
      unfolding e sget_apply_batch_deletes using s ds assms(1) by (auto simp: codec key_ok_length)
    show ?thesis
    proof (cases "h \<le> s \<and> s < h + int (length vs)")
      case True
      then have "nat (s - h) < length vs" "h + int (nat (s - h)) = s" by auto
      then have "l_elem db k s = Some (vs ! nat (s - h))" using sub [of "nat (s - h)"] by simp
      then show ?thesis using 1 True dels [OF s] by simp
    next
      case False
      then show ?thesis using 1 dels [OF s] by (cases "l_elem db k s") auto
    qed
  qed
  show ?thesis using rest
    by (auto simp: list_rep_def store_simps st assms(2,6))
qed

lemma list_data_op_no_exp:
  "op_key op = lEncodeListKey db k s \<or> op_key op = lEncodeMetaKey db k \<Longrightarrow> op_key op \<noteq> expEncodeMetaKey db dt k'"
  by auto

text \<open>The common step: delete some elements, write the new meta record, forget an empty list's expiry.\<close>

lemma list_shrink:
  assumes "lists_ok db" "ttl_ok db" "key_ok k"
    and dels: "\<And>s. is_int32 s \<Longrightarrow> l_elem db k s \<noteq> None \<Longrightarrow> s \<notin> set ds \<longleftrightarrow> h \<le> s \<and> s < h + int (length vs)"
    and ds: "\<forall>s \<in> set ds. is_int32 s"
    and sub: "\<And>i. i < length vs \<Longrightarrow> is_int32 (h + int i) \<and> l_elem db k (h + int i) = Some (vs ! i)"
    and bnd: "vs \<noteq> [] \<longrightarrow> listMinSeq < h \<and> h + int (length vs) - 1 < listMaxSeq"
    and db': "db' = db\<lparr>bucket := apply_batch (map (\<lambda>s. BDel (lEncodeListKey db k s)) ds @
      (if vs = [] then [BDel (lEncodeMetaKey db k)]
       else [BPut (lEncodeMetaKey db k) (meta_bytes h (h + int (length vs) - 1))]) @
      (if vs = [] then rmExpire_ops db ListType k else [])) (bucket db)\<rparr>"
  shows "lists_ok db' \<and> ttl_ok db' \<and> list_of db' = (list_of db)(k := vs) \<and>
    expiry_of db' ListType = (if vs = [] then (expiry_of db ListType)(k := None) else expiry_of db ListType)"
proof -
  let ?d = "map (\<lambda>s. BDel (lEncodeListKey db k s)) ds"
  let ?m = "if vs = [] then [BDel (lEncodeMetaKey db k)]
       else [BPut (lEncodeMetaKey db k) (meta_bytes h (h + int (length vs) - 1))]"
  let ?r = "if vs = [] then rmExpire_ops db ListType k else []"
  have "list_rep db' k h vs" unfolding db'
    by (rule list_rep_dels [OF assms(3) refl dels ds sub bnd]) auto
  moreover have "\<forall>op \<in> set (?d @ ?m @ ?r). list_op db k op"
    using ds by (auto dest: list_op_rmExpire)
  ultimately have "lists_ok db' \<and> list_of db' = (list_of db)(k := vs)"
    unfolding db' using assms(1,3) lists_commit by blast
  moreover have n: "\<forall>op \<in> set (?d @ ?m). \<forall>dt k'. op_key op \<noteq> expEncodeMetaKey db dt k'" by auto
  then have "ttl_ok db' \<and> expiry_of db' ListType
      = (if vs = [] then (expiry_of db ListType)(k := None) else expiry_of db ListType)"
  proof (cases "vs = []")
    case True
    then show ?thesis using ttl_ok_Commit_rmExpire [OF assms(2) n, of ListType k] by (simp add: db')
  next
    case False
    have "exp_same db db'" using False no_meta_op [OF n, of "bucket db"] by (simp add: db' exp_same_def)
    then show ?thesis using exp_sameD assms(2) False by simp
  qed
  ultimately show ?thesis by blast
qed

lemma list_rep_elem:
  "list_rep db k h vs \<Longrightarrow> i < length vs \<Longrightarrow> is_int32 (h + int i) \<and> l_elem db k (h + int i) = Some (vs ! i)"
  by (auto simp: list_rep_def is_int32_def)

lemma list_rep_elem_iff:
  "list_rep db k h vs \<Longrightarrow> is_int32 s \<Longrightarrow> l_elem db k s \<noteq> None \<longleftrightarrow> h \<le> s \<and> s < h + int (length vs)"
  by (simp add: list_rep_def)

definition list_popped :: "ledisdb \<Rightarrow> bytes \<Rightarrow> bytes list \<Rightarrow> ledisdb \<Rightarrow> bool" where
  "list_popped db k vs db' \<longleftrightarrow> lists_ok db' \<and> ttl_ok db' \<and> readonly db' = readonly db \<and>
     list_of db' = (list_of db)(k := vs) \<and>
     expiry_of db' ListType = (if vs = [] \<and> list_of db k \<noteq> [] then (expiry_of db ListType)(k := None)
                               else expiry_of db ListType)"

lemma LPop_ok:
  assumes "lists_ok db" "ttl_ok db" "\<not> readonly db" "key_ok k"
  shows "\<exists>db'. LPop k db = (Inr (if list_of db k = [] then None else Some (hd (list_of db k))), db') \<and>
    list_popped db k (tl (list_of db k)) db'"
proof -
  obtain h where r: "list_rep db k h (list_of db k)" using lists_okE [OF assms(1,4)] .
  note meta = lGetMeta_rep [OF r, of False, simplified]
  show ?thesis
  proof (cases "list_of db k")
    case Nil
    then have "LPop k db = (Inr None, db)"
      using meta assms(4) by (simp add: LPop_def lpop_def lift_r_def)
    then show ?thesis using Nil assms by (auto simp: list_popped_def fun_upd_idem)
  next
    case (Cons v vs)
    let ?ds = "[h]" and ?h = "h + 1"
    have b: "listMinSeq < h" "h + int (length vs) < listMaxSeq"
      using list_rep_bounds [OF r] Cons by auto
    let ?m = "if vs = [] then [BDel (lEncodeMetaKey db k)]
       else [BPut (lEncodeMetaKey db k) (meta_bytes ?h (?h + int (length vs) - 1))]"
    let ?db = "db\<lparr>bucket := apply_batch (map (\<lambda>s. BDel (lEncodeListKey db k s)) ?ds @ ?m @
      (if vs = [] then rmExpire_ops db ListType k else [])) (bucket db)\<rparr>"
    have "l_elem db k h = Some v" using list_rep_elem [OF r, of 0] Cons by simp
    moreover have "lSetMeta (lEncodeMetaKey db k) (wrap32 ?h) (h + int (length vs)) = Inr (int (length vs), ?m)"
      using lSetMeta_size [of vs ?h "lEncodeMetaKey db k"] b by (simp add: wrap32_if_small is_int32_def)
    ultimately have "LPop k db = (Inr (Some v), ?db)"
      using meta assms(3,4) Cons by (simp add: LPop_def lpop_def lift_r_def Let_def)
    moreover have "lists_ok ?db \<and> ttl_ok ?db \<and> list_of ?db = (list_of db)(k := vs) \<and>
        expiry_of ?db ListType = (if vs = [] then (expiry_of db ListType)(k := None) else expiry_of db ListType)"
    proof (rule list_shrink [OF assms(1,2,4) _ _ _ _ refl])
      fix i assume "i < length vs"
      then show "is_int32 (?h + int i) \<and> l_elem db k (?h + int i) = Some (vs ! i)"
        using list_rep_elem [OF r, of "Suc i"] Cons by (simp add: algebra_simps)
    next
      fix s assume "is_int32 s" "l_elem db k s \<noteq> None"
      then show "s \<notin> set ?ds \<longleftrightarrow> ?h \<le> s \<and> s < ?h + int (length vs)"
        using list_rep_elem_iff [OF r] Cons by auto
    qed (use b in \<open>auto simp: is_int32_def\<close>)
    ultimately show ?thesis using Cons by (simp add: list_popped_def)
  qed
qed

lemma RPop_ok:
  assumes "lists_ok db" "ttl_ok db" "\<not> readonly db" "key_ok k"
  shows "\<exists>db'. RPop k db = (Inr (if list_of db k = [] then None else Some (last (list_of db k))), db') \<and>
    list_popped db k (butlast (list_of db k)) db'"
proof -
  obtain h where r: "list_rep db k h (list_of db k)" using lists_okE [OF assms(1,4)] .
  note meta = lGetMeta_rep [OF r, of False, simplified]
  show ?thesis
  proof (cases "list_of db k" rule: rev_cases)
    case Nil
    then have "RPop k db = (Inr None, db)"
      using meta assms(4) by (simp add: RPop_def lpop_def lift_r_def)
    then show ?thesis using Nil assms by (auto simp: list_popped_def fun_upd_idem)
  next
    case (snoc vs v)
    let ?ds = "[h + int (length vs)]"
    have b: "listMinSeq < h" "h + int (length vs) < listMaxSeq"
      using list_rep_bounds [OF r] snoc by auto
    let ?m = "if vs = [] then [BDel (lEncodeMetaKey db k)]
       else [BPut (lEncodeMetaKey db k) (meta_bytes h (h + int (length vs) - 1))]"
    let ?db = "db\<lparr>bucket := apply_batch (map (\<lambda>s. BDel (lEncodeListKey db k s)) ?ds @ ?m @
      (if vs = [] then rmExpire_ops db ListType k else [])) (bucket db)\<rparr>"
    have "l_elem db k (h + int (length vs)) = Some v" using list_rep_elem [OF r, of "length vs"] snoc by simp
    moreover have "lSetMeta (lEncodeMetaKey db k) h (wrap32 (h + int (length vs) - 1)) = Inr (int (length vs), ?m)"
      using lSetMeta_size [of vs h "lEncodeMetaKey db k"] b by (simp add: wrap32_if_small is_int32_def)
    ultimately have "RPop k db = (Inr (Some v), ?db)"
      using meta assms(3,4) snoc by (simp add: RPop_def lpop_def lift_r_def Let_def)
    moreover have "lists_ok ?db \<and> ttl_ok ?db \<and> list_of ?db = (list_of db)(k := vs) \<and>
        expiry_of ?db ListType = (if vs = [] then (expiry_of db ListType)(k := None) else expiry_of db ListType)"
    proof (rule list_shrink [OF assms(1,2,4) _ _ _ _ refl])
      fix i assume "i < length vs"
      then show "is_int32 (h + int i) \<and> l_elem db k (h + int i) = Some (vs ! i)"
        using list_rep_elem [OF r, of i] snoc by (simp add: nth_append)
    next
      fix s assume "is_int32 s" "l_elem db k s \<noteq> None"
      then show "s \<notin> set ?ds \<longleftrightarrow> h \<le> s \<and> s < h + int (length vs)"
        using list_rep_elem_iff [OF r] snoc by auto
    qed (use b in \<open>auto simp: is_int32_def\<close>)
    ultimately show ?thesis using snoc by (simp add: list_popped_def)
  qed
qed

section \<open>Reading\<close>

lemma LLen_ok: "lists_ok db \<Longrightarrow> key_ok k \<Longrightarrow> LLen db k = Inr (int (length (list_of db k)))"
  using lGetMeta_rep by (auto elim!: lists_okE simp: LLen_def)

definition index_seq :: "int \<Rightarrow> int \<Rightarrow> int \<Rightarrow> int" where
  "index_seq h t i = (if i \<ge> 0 then wrap32 (h + i) else wrap32 (wrap32 (t + i) + 1))"

text \<open>An index counts from the head, or from the tail if it is negative.\<close>

definition norm_index :: "nat \<Rightarrow> int \<Rightarrow> int" where
  "norm_index n i = (if i < 0 then int n + i else i)"

lemma index_seq_eq:
  assumes "listMinSeq < h" "h + int n - 1 < listMaxSeq" "0 < n" "is_int32 i"
  shows "norm_index n i < int n \<Longrightarrow> index_seq h (h + int n - 1) i = h + norm_index n i"
    and "\<not> norm_index n i < int n \<Longrightarrow>
      index_seq h (h + int n - 1) i < h \<or> index_seq h (h + int n - 1) i \<ge> h + int n"
proof -
  show "norm_index n i < int n \<Longrightarrow> index_seq h (h + int n - 1) i = h + norm_index n i"
    using assms by (auto simp: index_seq_def norm_index_def wrap32_if_small is_int32_def)
  assume "\<not> norm_index n i < int n"
  then have i: "i \<ge> int n" "i < 2147483648" using assms(4) by (auto simp: norm_index_def is_int32_def split: if_splits)
  show "index_seq h (h + int n - 1) i < h \<or> index_seq h (h + int n - 1) i \<ge> h + int n"
  proof (cases "h + i < 2147483648")
    case True
    then show ?thesis using i assms(1) by (simp add: index_seq_def wrap32_if_small)
  next
    case False
    then show ?thesis using i assms wrap32_beyond [of "h + i"] by (simp add: index_seq_def)
  qed
qed

lemma LIndex_ok:
  assumes "lists_ok db" "key_ok k" "is_int32 i"
  shows "LIndex db k i = Inr (let n = length (list_of db k); j = norm_index n i
    in if 0 \<le> j \<and> j < int n then Some (list_of db k ! nat j) else None)"
proof -
  obtain h where r: "list_rep db k h (list_of db k)" using lists_okE [OF assms(1,2)] .
  let ?n = "length (list_of db k)"
  have ok: "store_ok (bucket db)" using assms(1) by (simp add: lists_ok_def)
  note meta = lGetMeta_rep [OF r, of True, simplified ok, simplified]
  show ?thesis
  proof (cases "list_of db k = []")
    case True
    have "l_elem db k s = None" if "is_int32 s" for s using r True that by (simp add: list_rep_def)
    then show ?thesis using True meta assms(2) ok
      by (auto simp: LIndex_def it_Find_eq_sget Let_def norm_index_def)
  next
    case False
    have b: "listMinSeq < h" "h + int ?n - 1 < listMaxSeq" "0 < ?n" using list_rep_bounds [OF r False] by auto
    let ?s = "index_seq h (h + int ?n - 1) i"
    have "LIndex db k i = Inr (l_elem db k ?s)"
      using False meta assms(2) ok by (simp add: LIndex_def it_Find_eq_sget index_seq_def Let_def)
    moreover have "is_int32 ?s" by (simp add: index_seq_def)
    then have "l_elem db k ?s = (if h \<le> ?s \<and> ?s < h + int ?n then Some (list_of db k ! nat (?s - h)) else None)"
      using r by (simp add: list_rep_def)
    moreover have "norm_index ?n i < int ?n \<Longrightarrow> ?s = h + norm_index ?n i"
      "\<not> norm_index ?n i < int ?n \<Longrightarrow> ?s < h \<or> ?s \<ge> h + int ?n"
      using index_seq_eq [OF b assms(3)] by blast+
    ultimately show ?thesis
      by (cases "norm_index ?n i < int ?n") (auto simp: Let_def)
  qed
qed

lemma LSet_ok:
  assumes "lists_ok db" "\<not> readonly db" "key_ok k" "is_int32 i" "list_of db k \<noteq> []"
  shows "let n = length (list_of db k); j = norm_index n i in
    if 0 \<le> j \<and> j < int n
    then \<exists>db'. LSet k i v db = (Inr (), db') \<and> lists_ok db' \<and>
      list_of db' = (list_of db)(k := (list_of db k)[nat j := v])
    else LSet k i v db = (Inl errListIndex, db)"
proof -
  obtain h where r: "list_rep db k h (list_of db k)" using lists_okE [OF assms(1,3)] .
  let ?n = "length (list_of db k)"
  note meta = lGetMeta_rep [OF r, of False, simplified]
  have b: "listMinSeq < h" "h + int ?n - 1 < listMaxSeq" "0 < ?n" using list_rep_bounds [OF r assms(5)] by auto
  let ?s = "index_seq h (h + int ?n - 1) i" and ?j = "norm_index ?n i"
  have set: "LSet k i v db = (if ?s < h \<or> ?s > h + int ?n - 1 then (Inl errListIndex, db)
      else Commit [BPut (lEncodeListKey db k ?s) v] db)"
    using meta assms(3,5) by (simp add: LSet_def lift_r_def index_seq_def Let_def)
  show ?thesis
  proof (cases "0 \<le> ?j \<and> ?j < int ?n")
    case True
    then have s: "?s = h + ?j" using index_seq_eq [OF b assms(4)] by blast
    let ?ops = "[BPut (lEncodeListKey db k ?s) v]"
    let ?db = "db\<lparr>bucket := apply_batch ?ops (bucket db)\<rparr>"
    have i32: "is_int32 ?s" using s True b by (simp add: is_int32_def)
    have "list_rep ?db k h ((list_of db k)[nat ?j := v])"
      unfolding list_rep_def using r i32 s True assms(3)
      by (auto simp: list_rep_def store_simps codec key_ok_length nth_list_update nat_eq_iff)
    then have "lists_ok ?db \<and> list_of ?db = (list_of db)(k := (list_of db k)[nat ?j := v])"
      using i32 by (intro lists_commit [OF assms(1,3)]) auto
    moreover have "LSet k i v db = (Inr (), ?db)" unfolding set using True s assms(2) by simp
    ultimately show ?thesis using True by (simp add: Let_def)
  next
    case False
    then have "?s < h \<or> ?s \<ge> h + int ?n" using index_seq_eq [OF b assms(4)] by fastforce
    then show ?thesis unfolding set Let_def if_not_P [OF False] by auto
  qed
qed

section \<open>The records of a list in store order\<close>

definition list_prefix :: "ledisdb \<Rightarrow> bytes \<Rightarrow> bytes" where
  "list_prefix db k = indexVarBuf db @ ListType # be_bytes 2 (length k) @ k"

lemma lEncodeListKey_prefix: "lEncodeListKey db k s = list_prefix db k @ be_bytes 4 (uint32 s)"
  by (simp add: lEncodeListKey_def list_prefix_def elem_key_def)

lemma uint32_nonneg: "0 \<le> s \<Longrightarrow> s < 4294967296 \<Longrightarrow> uint32 s = nat s"
  by (simp add: uint32_def)

lemma lEncodeListKey_less_iff:
  "0 \<le> s \<Longrightarrow> s < 2147483648 \<Longrightarrow> 0 \<le> t \<Longrightarrow> t < 2147483648 \<Longrightarrow>
     lEncodeListKey db k s < lEncodeListKey db k t \<longleftrightarrow> s < t"
  using be_bytes_less_iff [of "nat s" 4 "nat t"]
  by (auto simp: lEncodeListKey_prefix uint32_nonneg nat_less_iff)

lemma lEncodeListKey_le_iff:
  "0 \<le> s \<Longrightarrow> s < 2147483648 \<Longrightarrow> 0 \<le> t \<Longrightarrow> t < 2147483648 \<Longrightarrow>
     lEncodeListKey db k s \<le> lEncodeListKey db k t \<longleftrightarrow> s \<le> t"
  using lEncodeListKey_less_iff [of t s db k] by (simp add: not_less [symmetric])

lemma stored_list_key:
  assumes "list_keys_ok db" "key_ok k" "db_get db (list_prefix db k @ y) \<noteq> None"
  shows "\<exists>s. is_int32 s \<and> list_prefix db k @ y = lEncodeListKey db k s"
proof -
  have "list_prefix db k @ y = indexVarBuf db @ ListType # (be_bytes 2 (length k) @ k @ y)"
    by (simp add: list_prefix_def)
  then obtain k' s where *: "key_ok k'" "is_int32 s" "list_prefix db k @ y = lEncodeListKey db k' s"
    using assms(1,3) unfolding list_keys_ok_def by metis
  then have "elem_key db ListType k y = elem_key db ListType k' (be_bytes 4 (uint32 s))"
    by (simp add: lEncodeListKey_def elem_key_def list_prefix_def)
  then have "k' = k" using assms(2) *(1) by (simp add: elem_key_inj key_ok_length)
  then show ?thesis using * by blast
qed

lemma list_records:
  assumes "lists_ok db" "key_ok k" "list_rep db k h vs"
  shows "filter (\<lambda>p. \<exists>y. fst p = list_prefix db k @ y) (bucket db)
    = map (\<lambda>i. (lEncodeListKey db k (h + int i), vs ! i)) [0..<length vs]"
proof -
  let ?ks = "map (\<lambda>i. lEncodeListKey db k (h + int i)) [0..<length vs]"
  have b: "i < length vs \<Longrightarrow> 0 \<le> h + int i \<and> h + int i < 2147483648" for i
    using list_rep_bounds [OF assms(3)] by fastforce
  have "sorted_wrt (<) ?ks"
    by (auto simp: sorted_wrt_iff_nth_less lEncodeListKey_less_iff b)
  moreover have "x \<in> set ?ks \<longleftrightarrow> (\<exists>y. x = list_prefix db k @ y) \<and> db_get db x \<noteq> None" for x
  proof
    assume "x \<in> set ?ks"
    then show "(\<exists>y. x = list_prefix db k @ y) \<and> db_get db x \<noteq> None"
      using list_rep_elem [OF assms(3)] by (auto simp: lEncodeListKey_prefix)
  next
    assume x: "(\<exists>y. x = list_prefix db k @ y) \<and> db_get db x \<noteq> None"
    then obtain s where s: "is_int32 s" "x = lEncodeListKey db k s"
      using stored_list_key [of db k] assms(1,2) by (auto simp: lists_ok_def)
    then have "h \<le> s \<and> s < h + int (length vs)" using list_rep_elem_iff [OF assms(3)] x by simp
    then show "x \<in> set ?ks" using s(2) by (auto simp: image_iff intro!: bexI [of _ "nat (s - h)"])
  qed
  ultimately have "filter (\<lambda>p. \<exists>y. fst p = list_prefix db k @ y) (bucket db)
      = map (\<lambda>x. (x, the (db_get db x))) ?ks"
    using assms(1) by (intro filter_store_eq) (auto simp: lists_ok_def)
  then show ?thesis using list_rep_elem [OF assms(3)] by simp
qed

lemma filter_from:
  assumes "store_ok s" "start = p @ a"
  shows "filter (\<lambda>q. start \<le> fst q) s =
    filter (\<lambda>q. start \<le> fst q) (filter (\<lambda>q. \<exists>y. fst q = p @ y) s) @
    filter (\<lambda>q. start \<le> fst q \<and> \<not> (\<exists>y. fst q = p @ y)) s"
proof -
  let ?S = "filter (\<lambda>q. start \<le> fst q) s" and ?P = "\<lambda>q. \<exists>y. fst q = p @ y"
  have "?S = filter ?P ?S @ filter (\<lambda>q. \<not> ?P q) ?S"
    using assms above_without_prefix [of p a]
    by (intro filter_partition_sorted [where f = fst]) (auto simp: store_ok_def sorted_wrt_map_filter)
  then show ?thesis by (simp add: conj_commute)
qed

lemma filter_ge_upt: "filter (\<lambda>i. a \<le> i) [0..<n] = [a..<n]"
  by (induction n) auto

lemma list_records_from:
  assumes "lists_ok db" "key_ok k" "list_rep db k h vs" "a < length vs" "m \<le> length vs - a"
  shows "map snd (take m (filter (\<lambda>q. lEncodeListKey db k (h + int a) \<le> fst q) (bucket db)))
    = take m (drop a vs)"
proof -
  let ?start = "lEncodeListKey db k (h + int a)" and ?rec = "\<lambda>i. (lEncodeListKey db k (h + int i), vs ! i)"
  have ok: "store_ok (bucket db)" using assms(1) by (simp add: lists_ok_def)
  have b: "i < length vs \<Longrightarrow> 0 \<le> h + int i \<and> h + int i < 2147483648" for i
    using list_rep_bounds [OF assms(3)] by fastforce
  have "filter (\<lambda>q. ?start \<le> fst q) (map ?rec [0..<length vs]) = map ?rec (filter (\<lambda>i. a \<le> i) [0..<length vs])"
    unfolding filter_map o_def using b assms(4)
    by (intro arg_cong [where f = "map ?rec"] filter_cong) (auto simp: lEncodeListKey_le_iff)
  then have "filter (\<lambda>q. ?start \<le> fst q) (bucket db) = map ?rec [a..<length vs] @
      filter (\<lambda>q. ?start \<le> fst q \<and> \<not> (\<exists>y. fst q = list_prefix db k @ y)) (bucket db)"
    using filter_from [OF ok, of ?start "list_prefix db k" "be_bytes 4 (uint32 (h + int a))"]
    by (simp add: lEncodeListKey_prefix [symmetric] list_records [OF assms(1-3)] filter_ge_upt)
  then have "map snd (take m (filter (\<lambda>q. ?start \<le> fst q) (bucket db))) = take m (map ((!) vs) [a..<length vs])"
    using assms(5) by (simp add: take_map [symmetric] o_def)
  also have "map ((!) vs) [a..<length vs] = drop a vs"
    by (rule nth_equalityI) simp_all
  finally show ?thesis .
qed

lemma LRange_ok:
  assumes "lists_ok db" "key_ok k" "is_int32 start" "is_int32 stop"
  shows "LRange db k start stop = Inr (let vs = list_of db k; n = length vs;
      a = max 0 (norm_index n start); b = min (norm_index n stop) (int n - 1)
    in if a \<le> b then take (nat (b - a + 1)) (drop (nat a) vs) else [])"
proof -
  obtain h where r: "list_rep db k h (list_of db k)" using lists_okE [OF assms(1,2)] .
  define vs where "vs = list_of db k"
  let ?n = "length vs"
  have ok: "store_ok (bucket db)" using assms(1) by (simp add: lists_ok_def)
  let ?h = "if vs = [] then listInitialSeq else h"
  have meta: "lGetMeta db True (lEncodeMetaKey db k)
      = Inr (?h, if vs = [] then ?h else h + int ?n - 1, int ?n)"
    using lGetMeta_rep [OF r, of True] ok by (simp add: vs_def)
  have b: "vs \<noteq> [] \<Longrightarrow> listMinSeq < h" "h + int ?n - 1 < listMaxSeq \<or> vs = []" "int ?n < 2147483648"
    using list_rep_bounds [OF r] by (cases "vs = []"; fastforce simp: vs_def)+
  define a b' where "a = max 0 (norm_index ?n start)" and "b' = min (norm_index ?n stop) (int ?n - 1)"
  have w: "(if start < 0 then wrap32 (int ?n + start) else start) = norm_index ?n start"
    "(if stop < 0 then wrap32 (int ?n + stop) else stop) = norm_index ?n stop"
    using assms(3,4) b by (auto simp: norm_index_def wrap32_if_small is_int32_def)
  have range: "LRange db k start stop = (if a > norm_index ?n stop \<or> a \<ge> int ?n then Inr []
     else Inr (map snd (rangeLimitIterator (bucket db) (Some (lEncodeListKey db k (wrap32 (?h + a)))) None
       RangeClose 0 (wrap32 (wrap32 (b' - a) + 1)) False)))"
    unfolding LRange_def checkKeySize_ok [OF assms(2)] rbind_simps meta prod.case Let_def w
    using b(3) by (auto simp: a_def b'_def wrap32_if_small)
  show ?thesis
  proof (cases "a \<le> b'")
    case False
    then show ?thesis by (auto simp: range Let_def vs_def [symmetric] a_def b'_def)
  next
    case True
    then have ne: "vs \<noteq> []" and a: "0 \<le> a" "a < int ?n" "b' < int ?n" by (auto simp: a_def b'_def)
    have "LRange db k start stop = Inr (map snd (rangeLimitIterator (bucket db)
        (Some (lEncodeListKey db k (h + int (nat a)))) None RangeClose 0 (b' - a + 1) False))"
      using range True a b ne by (simp add: wrap32_if_small) (auto simp: b'_def)
    also have "\<dots> = Inr (take (nat (b' - a + 1)) (drop (nat a) vs))"
      using list_records_from [OF assms(1,2) r [folded vs_def], of "nat a" "nat (b' - a + 1)"] True a
      by (simp add: rangeLimitIterator_forward [OF ok] limit_def in_range_def nat_le_iff nat_less_iff)
    finally show ?thesis using True by (simp add: Let_def vs_def [symmetric] a_def b'_def)
  qed
qed

section \<open>Removing and trimming\<close>

lemma lDelete_ok:
  assumes "lists_ok db" "key_ok k" "list_rep db k h vs"
  shows "lDelete db k = Inr (int (length vs),
    map (\<lambda>s. BDel (lEncodeListKey db k s)) (map (\<lambda>i. h + int i) [0..<length vs]) @ [BDel (lEncodeMetaKey db k)])"
proof -
  let ?rec = "\<lambda>i. (lEncodeListKey db k (h + int i), vs ! i)" and ?n = "length vs"
  have ok: "store_ok (bucket db)" using assms(1) by (simp add: lists_ok_def)
  define a z where "a = (if vs = [] then listInitialSeq else h)" and "z = (if vs = [] then listInitialSeq else h + int ?n - 1)"
  have meta: "lGetMeta db True (lEncodeMetaKey db k) = Inr (a, z, int ?n)"
    using lGetMeta_rep [OF assms(3), of True] ok by (simp add: a_def z_def)
  let ?start = "lEncodeListKey db k a" and ?stop = "lEncodeListKey db k z"
  have "filter (\<lambda>q. ?start \<le> fst q \<and> fst q \<le> ?stop) (bucket db)
      = filter (\<lambda>q. ?start \<le> fst q \<and> fst q \<le> ?stop)
          (filter (\<lambda>q. \<exists>y. fst q = list_prefix db k @ y) (bucket db))"
    using between_has_prefix [of "list_prefix db k"]
    by (auto simp: lEncodeListKey_prefix filter_filter intro!: filter_cong)
  also have "\<dots> = map ?rec [0..<?n]"
  proof -
    have "?start \<le> lEncodeListKey db k (h + int i) \<and> lEncodeListKey db k (h + int i) \<le> ?stop" if "i < ?n" for i
      using that list_rep_bounds [OF assms(3)] by (auto simp: a_def z_def lEncodeListKey_le_iff)
    then show ?thesis unfolding list_records [OF assms] by (simp add: filter_id_conv)
  qed
  finally have "rangeLimitIterator (bucket db) (Some ?start) (Some ?stop) RangeClose 0 (- 1) False = map ?rec [0..<?n]"
    by (simp add: rangeLimitIterator_forward [OF ok] in_range_def)
  then show ?thesis by (simp add: lDelete_def Let_def meta)
qed

lemma list_emptied:
  assumes "lists_ok db" "ttl_ok db" "key_ok k"
  shows "\<exists>ops. lDelete db k = Inr (int (length (list_of db k)), ops) \<and>
    (let db' = db\<lparr>bucket := apply_batch (ops @ rmExpire_ops db ListType k) (bucket db)\<rparr>
     in lists_ok db' \<and> ttl_ok db' \<and> list_of db' = (list_of db)(k := []) \<and>
        expiry_of db' ListType = (expiry_of db ListType)(k := None))"
proof -
  obtain h where r: "list_rep db k h (list_of db k)" using lists_okE [OF assms(1,3)] .
  let ?ds = "map (\<lambda>i. h + int i) [0..<length (list_of db k)]"
  let ?ops = "map (\<lambda>s. BDel (lEncodeListKey db k s)) ?ds @ [BDel (lEncodeMetaKey db k)]"
  let ?db = "db\<lparr>bucket := apply_batch (?ops @ rmExpire_ops db ListType k) (bucket db)\<rparr>"
  have ds: "s \<in> set ?ds \<longleftrightarrow> h \<le> s \<and> s < h + int (length (list_of db k))" for s
    by (auto simp: image_iff intro!: bexI [of _ "nat (s - h)"])
  have d1: "s \<notin> set ?ds \<longleftrightarrow> h \<le> s \<and> s < h + int (length ([] :: bytes list))"
    if "is_int32 s" "l_elem db k s \<noteq> None" for s
    using list_rep_elem_iff [OF r that(1)] that(2) by (simp only: ds) simp
  have d2: "\<forall>s \<in> set ?ds. is_int32 s" using list_rep_elem [OF r] by auto
  have "lists_ok ?db \<and> ttl_ok ?db \<and> list_of ?db = (list_of db)(k := []) \<and>
      expiry_of ?db ListType = (if ([] :: bytes list) = [] then (expiry_of db ListType)(k := None) else expiry_of db ListType)"
    by (rule list_shrink [OF assms d1 d2]) simp_all
  then show ?thesis using lDelete_ok [OF assms(1,3) r] by (intro exI [of _ ?ops]) (simp only: Let_def if_P refl simp_thms)
qed

lemma LClear_ok:
  assumes "lists_ok db" "ttl_ok db" "\<not> readonly db" "key_ok k"
  shows "\<exists>db'. LClear k db = (Inr (int (length (list_of db k))), db') \<and> lists_ok db' \<and> ttl_ok db' \<and>
    list_of db' = (list_of db)(k := []) \<and> expiry_of db' ListType = (expiry_of db ListType)(k := None)"
  using list_emptied [OF assms(1,2,4)] assms(3,4) by (auto simp: LClear_def lift_r_def Let_def)

lemma length_cut:
  "0 \<le> a \<Longrightarrow> a \<le> b + 1 \<Longrightarrow> b < int (length vs) \<Longrightarrow>
     int (length (take (nat (b - a + 1)) (drop (nat a) vs))) = b - a + 1"
  by simp

lemma list_trim_rep:
  assumes "lists_ok db" "key_ok k" "list_rep db k h vs" "0 \<le> a" "a \<le> b + 1" "b < int (length vs)"
    and vs': "vs' = take (nat (b - a + 1)) (drop (nat a) vs)"
    and ops: "ops = map (\<lambda>s. BDel (lEncodeListKey db k s)) (map (\<lambda>i. h + i) ([0..a - 1] @ [b + 1..int (length vs) - 1])) @
      (if vs' = [] then [BDel (lEncodeMetaKey db k)]
       else [BPut (lEncodeMetaKey db k) (meta_bytes (h + a) (h + a + int (length vs') - 1))])"
    and db': "db' = db\<lparr>bucket := apply_batch ops (bucket db)\<rparr>"
  shows "lists_ok db' \<and> list_of db' = (list_of db)(k := vs') \<and> exp_same db db'"
proof -
  let ?ds = "map (\<lambda>i. h + i) ([0..a - 1] @ [b + 1..int (length vs) - 1])"
  have len: "int (length vs') = b - a + 1" unfolding vs' by (rule length_cut [OF assms(4-6)])
  have in_ds: "s \<in> set ?ds \<longleftrightarrow> (h \<le> s \<and> s < h + a) \<or> (h + b < s \<and> s < h + int (length vs))" for s
    by (auto simp: image_iff intro!: bexI [of _ "s - h"])
  have ds: "\<forall>s \<in> set ?ds. is_int32 s"
  proof
    fix s assume "s \<in> set ?ds"
    then have "h \<le> s \<and> s < h + int (length vs)" using assms(4-6) by (simp only: in_ds) linarith
    then show "is_int32 s" using list_rep_bounds [OF assms(3)] by (cases "vs = []") (auto simp: is_int32_def)
  qed
  have "list_rep (db\<lparr>bucket := apply_batch (map (\<lambda>s. BDel (lEncodeListKey db k s)) ?ds @
      (if vs' = [] then [BDel (lEncodeMetaKey db k)]
       else [BPut (lEncodeMetaKey db k) (meta_bytes (h + a) (h + a + int (length vs') - 1))]) @ []) (bucket db)\<rparr>)
     k (h + a) vs'"
  proof (rule list_rep_dels [OF assms(2) refl _ ds])
    fix s assume "is_int32 s" "l_elem db k s \<noteq> None"
    then have "h \<le> s \<and> s < h + int (length vs)" using list_rep_elem_iff [OF assms(3)] by blast
    then show "s \<notin> set ?ds \<longleftrightarrow> h + a \<le> s \<and> s < h + a + int (length vs')"
      unfolding in_ds using assms(4-6) len by auto
  next
    fix i assume i: "i < length vs'"
    then have "nat a + i < length vs" "h + int (nat a + i) = h + a + int i" "vs' ! i = vs ! (nat a + i)"
      using assms(4) by (auto simp: vs')
    then show "is_int32 (h + a + int i) \<and> l_elem db k (h + a + int i) = Some (vs' ! i)"
      using list_rep_elem [OF assms(3), of "nat a + i"] by (simp add: add.assoc)
  next
    show "vs' \<noteq> [] \<longrightarrow> 1000 < h + a \<and> h + a + int (length vs') - 1 < 2147482648"
    proof
      assume "vs' \<noteq> []"
      then have "vs \<noteq> []" by (auto simp: vs')
      then show "1000 < h + a \<and> h + a + int (length vs') - 1 < 2147482648"
        using list_rep_bounds [OF assms(3)] len assms(4-6) by simp
    qed
  qed simp
  then have "list_rep db' k (h + a) vs'" by (simp only: db' ops append_Nil2)
  moreover have "\<forall>op \<in> set ops. list_op db k op" using ds unfolding ops by auto
  ultimately have "lists_ok db' \<and> list_of db' = (list_of db)(k := vs')"
    using lists_commit [OF assms(1,2)] unfolding db' by blast
  moreover have "\<forall>op \<in> set ops. \<forall>dt k'. op_key op \<noteq> expEncodeMetaKey db dt k'" unfolding ops by auto
  then have "exp_same db db'" unfolding exp_same_def db' by (simp add: no_meta_op)
  ultimately show ?thesis by blast
qed

text \<open>
  A trim whose range ends before the head deletes every element and no meta record. What it
  leaves of a list that was not empty is outside the invariant: \<open>list_gutted\<close>.
\<close>

definition list_gutted :: "ledisdb \<Rightarrow> bytes \<Rightarrow> ledisdb \<Rightarrow> bool" where
  "list_gutted db k db' \<longleftrightarrow> store_ok (bucket db') \<and> exp_same db db' \<and>
     db_get db' (lEncodeMetaKey db' k) = db_get db (lEncodeMetaKey db k) \<and>
     (\<forall>s. is_int32 s \<longrightarrow> l_elem db' k s = None) \<and>
     (\<forall>k'. k' \<noteq> k \<longrightarrow> list_of db' k' = list_of db k') \<and>
     (list_of db k = [] \<longrightarrow> lists_ok db' \<and> list_of db' = list_of db)"

lemma list_gut_rep:
  assumes "lists_ok db" "key_ok k" "list_rep db k h (list_of db k)" "\<forall>s \<in> set ds. is_int32 s"
    and cover: "\<And>s. h \<le> s \<Longrightarrow> s < h + int (length (list_of db k)) \<Longrightarrow> s \<in> set ds"
    and ops: "ops = map (\<lambda>s. BDel (lEncodeListKey db k s)) ds"
    and db': "db' = db\<lparr>bucket := apply_batch ops (bucket db)\<rparr>"
  shows "list_gutted db k db'"
proof -
  have ok: "store_ok (bucket db)" using assms(1) by (simp add: lists_ok_def)
  have touch: "\<forall>op \<in> set ops. list_op db k op" using assms(4) by (auto simp: ops)
  have meta: "db_get db' (lEncodeMetaKey db' k) = db_get db (lEncodeMetaKey db k)"
    unfolding db' by (auto intro!: sget_apply_batch_other simp: ops)
  have gone: "l_elem db' k s = None" if "is_int32 s" for s
  proof (cases "s \<in> set ds")
    case True
    then show ?thesis using sget_apply_batch_deletes [of "map (lEncodeListKey db k) ds" "bucket db"] ok
      by (auto simp: db' ops comp_def)
  next
    case False
    then have "l_elem db k s = None" using cover list_rep_elem_iff [OF assms(3) that] by auto
    moreover have "lEncodeListKey db k s \<notin> op_key ` set ops"
      using False assms(2,4) that by (auto simp: ops codec key_ok_length)
    ultimately show ?thesis using sget_apply_batch_other by (fastforce simp: db')
  qed
  have others: "list_of db' k' = list_of db k'" if "k' \<noteq> k" for k'
  proof (cases "key_ok k'")
    case True
    then obtain h' where "list_rep db k' h' (list_of db k')" using lists_okE [OF assms(1)] by blast
    then have "list_rep db' k' h' (list_of db k')"
      unfolding db' using list_rep_frame [OF touch assms(2) True that] by blast
    then show ?thesis using True by (blast intro: list_of_rep)
  qed (simp add: list_of_def)
  have "lists_ok db' \<and> list_of db' = list_of db" if "list_of db k = []"
  proof -
    have "list_rep db' k h []" using assms(3) gone meta ok unfolding that
      by (auto simp: list_rep_def db' intro: store_ok_apply_batch)
    then show ?thesis using lists_commit [OF assms(1,2) touch] that unfolding db'
      by (metis fun_upd_triv)
  qed
  moreover have "\<forall>op \<in> set ops. \<forall>dt k'. op_key op \<noteq> expEncodeMetaKey db dt k'" unfolding ops by auto
  then have "exp_same db db'" unfolding exp_same_def db' by (simp add: no_meta_op)
  moreover have "store_ok (bucket db')" using ok by (simp add: db' store_ok_apply_batch)
  ultimately show ?thesis using meta gone others by (simp add: list_gutted_def)
qed

lemma list_gutted_reads:
  assumes "list_gutted db k db'" "lists_ok db" "key_ok k"
  shows "LLen db' k = Inr (int (length (list_of db k)))" "LIndex db' k i = Inr None"
proof -
  have ok: "store_ok (bucket db)" "store_ok (bucket db')" using assms(1,2) by (auto simp: list_gutted_def lists_ok_def)
  have meta: "lGetMeta db' it (lEncodeMetaKey db' k) = lGetMeta db it (lEncodeMetaKey db k)" for it
    using assms(1) ok by (simp add: list_gutted_def lGetMeta_def it_Find_eq_sget)
  show "LLen db' k = Inr (int (length (list_of db k)))"
    using LLen_ok [OF assms(2,3)] meta by (simp add: LLen_def)
  obtain h where "list_rep db k h (list_of db k)" using lists_okE [OF assms(2,3)] .
  then obtain r where "lGetMeta db True (lEncodeMetaKey db k) = Inr r" using lGetMeta_rep ok(1) by metis
  moreover have "l_elem db' k (wrap32 s) = None" for s using assms(1) by (simp add: list_gutted_def)
  ultimately show "LIndex db' k i = Inr None"
    using meta assms(3) ok(2) by (cases r) (simp add: LIndex_def it_Find_eq_sget Let_def)
qed

lemma LTrim_ok:
  assumes "lists_ok db" "ttl_ok db" "\<not> readonly db" "key_ok k" "is_int32 start" "is_int32 stop"
  shows "let vs = list_of db k; n = length vs; a = norm_index n start; b = norm_index n stop in
    if a \<ge> int n \<or> a > b then
      \<exists>db'. LTrim k start stop db = (Inr (), db') \<and> lists_ok db' \<and> ttl_ok db' \<and>
        list_of db' = (list_of db)(k := []) \<and> expiry_of db' ListType = (expiry_of db ListType)(k := None)
    else if b < -1 then \<exists>db'. LTrim k start stop db = (Inr (), db') \<and> list_gutted db k db'
    else
      \<exists>db'. LTrim k start stop db = (Inr (), db') \<and> lists_ok db' \<and> exp_same db db' \<and>
        list_of db' = (list_of db)(k :=
          take (nat (min b (int n - 1) - max 0 a + 1)) (drop (nat (max 0 a)) vs))"
proof -
  obtain h0 where r0: "list_rep db k h0 (list_of db k)" using lists_okE [OF assms(1,4)] .
  define vs where "vs = list_of db k"
  define h where "h = (if vs = [] then listInitialSeq else h0)"
  let ?n = "int (length vs)"
  have r: "list_rep db k h vs" using r0 list_rep_Nil by (auto simp: h_def vs_def)
  have bnd: "listMinSeq < h" "h + ?n - 1 < listMaxSeq" "?n < 2147483648"
    using list_rep_bounds [OF r] by (cases "vs = []"; fastforce simp: h_def)+
  have meta: "lGetMeta db False (lEncodeMetaKey db k) = Inr (h, if vs = [] then h else h + ?n - 1, ?n)"
    using lGetMeta_rep [OF r, of False] by (simp add: h_def)
  define a b where "a = norm_index (length vs) start" and "b = norm_index (length vs) stop"
  have w: "(if wrap32 start < 0 then wrap32 (?n + wrap32 start) else wrap32 start) = a"
    "(if wrap32 stop < 0 then wrap32 (?n + wrap32 stop) else wrap32 stop) = b"
    using assms(5,6) bnd(3) by (auto simp: a_def b_def norm_index_def wrap32_if_small is_int32_def)
  let ?a = "max 0 a" and ?b = "min b (?n - 1)"
  have ab: "a \<ge> -2147483648" "b \<ge> -2147483648" "b < 2147483648"
    using assms(5,6) bnd(3) by (auto simp: a_def b_def norm_index_def is_int32_def)
  have trim: "LTrim k start stop db =
    (if a \<ge> ?n \<or> a > b then sbind (lift_r (lDelete db k) db) (\<lambda>(_, ops) d.
       Commit (ops @ rmExpire_ops d ListType k) d)
     else sbind (lift_r (lSetMeta (lEncodeMetaKey db k) (wrap32 (h + ?a)) (wrap32 (h + ?b))) db) (\<lambda>(_, meta) d.
       Commit (map (\<lambda>i. BDel (lEncodeListKey db k (wrap32 (h + i)))) [0..?a - 1] @
         (if ?b < wrap32 (?n - 1)
          then map (\<lambda>i. BDel (lEncodeListKey db k (wrap32 (h + i)))) [?b + 1..?n - 1] else []) @ meta) d))"
    unfolding LTrim_def ltrim2_def lift_r_def checkKeySize_ok [OF assms(4)] sbind_simps Let_def meta prod.case w
    using bnd(3) by (auto simp: wrap32_if_small max_def min_def)
  consider "a \<ge> ?n \<or> a > b" | "\<not> (a \<ge> ?n \<or> a > b)" "b < -1" | "\<not> (a \<ge> ?n \<or> a > b)" "b \<ge> -1" by linarith
  then show ?thesis
  proof cases
    case 1
    then show ?thesis using list_emptied [OF assms(1,2,4)] assms(3) unfolding trim Let_def
      by (auto simp: lift_r_def a_def b_def vs_def)
  next
    case 2
    let ?ds = "map (\<lambda>i. h + i) [b + 1..?n - 1]"
    let ?ops = "map (\<lambda>s. BDel (lEncodeListKey db k s)) ?ds"
    let ?db = "db\<lparr>bucket := apply_batch ?ops (bucket db)\<rparr>"
    have ab2: "?a = 0" "?b = b" using 2 by auto
    have meta2: "lSetMeta (lEncodeMetaKey db k) (wrap32 (h + 0)) (wrap32 (h + b)) = Inr (b + 1, [])"
      using 2 bnd ab by (simp add: lSetMeta_def wrap32_if_small)
    have dels2: "map (\<lambda>i. BDel (lEncodeListKey db k (wrap32 (h + i)))) [b + 1..?n - 1] = ?ops"
      using bnd ab by (auto simp: wrap32_if_small)
    have back2: "b < wrap32 (?n - 1)" using 2 bnd by (simp add: wrap32_if_small)
    have "LTrim k start stop db = (Inr (), ?db)"
      unfolding trim if_not_P [OF 2(1)] ab2 meta2 if_P [OF back2] dels2 lift_r_def using assms(3) by simp
    moreover have "list_gutted db k ?db"
    proof (rule list_gut_rep [OF assms(1,4) r [unfolded vs_def] _ _ refl refl])
      show "\<forall>s \<in> set ?ds. is_int32 s" using bnd ab by (auto simp: is_int32_def)
      show "s \<in> set ?ds" if "h \<le> s" "s < h + int (length (list_of db k))" for s
        using that 2(2) by (auto simp: image_iff vs_def intro!: bexI [of _ "s - h"])
    qed
    ultimately show ?thesis using 2 by (simp add: Let_def a_def b_def flip: vs_def)
  next
    case 3
    define vs' where "vs' = take (nat (?b - ?a + 1)) (drop (nat ?a) vs)"
    let ?m = "if vs' = [] then [BDel (lEncodeMetaKey db k)]
       else [BPut (lEncodeMetaKey db k) (meta_bytes (h + ?a) (h + ?a + int (length vs') - 1))]"
    let ?ops = "map (\<lambda>s. BDel (lEncodeListKey db k s)) (map (\<lambda>i. h + i) ([0..?a - 1] @ [?b + 1..?n - 1])) @ ?m"
    let ?db = "db\<lparr>bucket := apply_batch ?ops (bucket db)\<rparr>"
    have r3: "0 \<le> ?a" "?a \<le> ?b + 1" "?b < ?n" "?a \<le> ?n" "-1 \<le> ?b" using 3 by auto
    have len: "int (length vs') = ?b - ?a + 1" unfolding vs'_def by (rule length_cut [OF r3(1-3)])
    have dels: "map (\<lambda>i. BDel (lEncodeListKey db k (wrap32 (h + i)))) [0..?a - 1] @
         (if ?b < wrap32 (?n - 1)
          then map (\<lambda>i. BDel (lEncodeListKey db k (wrap32 (h + i)))) [?b + 1..?n - 1] else [])
       = map (\<lambda>s. BDel (lEncodeListKey db k s)) (map (\<lambda>i. h + i) ([0..?a - 1] @ [?b + 1..?n - 1]))"
    proof -
      have "map (\<lambda>i. BDel (lEncodeListKey db k (wrap32 (h + i)))) xs = map (\<lambda>s. BDel (lEncodeListKey db k s)) (map (\<lambda>i. h + i) xs)"
        if "set xs \<subseteq> {0..<?n}" for xs using that bnd by (auto simp: wrap32_if_small)
      moreover have "set [0..?a - 1] \<subseteq> {0..<?n}" "set [?b + 1..?n - 1] \<subseteq> {0..<?n}" using r3 by auto
      moreover have "wrap32 (?n - 1) = ?n - 1" using bnd by (simp add: wrap32_if_small)
      moreover have "\<not> ?b < ?n - 1 \<Longrightarrow> [?b + 1..?n - 1] = []" by simp
      ultimately show ?thesis by (simp only: map_append) simp
    qed
    have "lSetMeta (lEncodeMetaKey db k) (wrap32 (h + ?a)) (wrap32 (h + ?b)) = Inr (int (length vs'), ?m)"
    proof -
      have "wrap32 (h + ?a) = h + ?a" "wrap32 (h + ?b) = h + ?a + int (length vs') - 1"
        using bnd r3 len by (simp_all add: wrap32_if_small)
      moreover have "is_int32 (h + ?a)" "vs' \<noteq> [] \<longrightarrow> 1000 < h + ?a \<and> h + ?a + int (length vs') - 1 < 2147482648"
        using bnd r3 len by (auto simp: is_int32_def)
      ultimately show ?thesis using lSetMeta_size [of vs' "h + ?a"] by simp
    qed
    then have "LTrim k start stop db = (Inr (), ?db)"
      unfolding trim if_not_P [OF 3(1)] append_assoc [symmetric] dels lift_r_def using assms(3) by simp
    moreover have "lists_ok ?db \<and> list_of ?db = (list_of db)(k := vs') \<and> exp_same db ?db"
      by (rule list_trim_rep [OF assms(1,4) r r3(1-3) vs'_def refl refl])
    ultimately show ?thesis using 3 by (simp add: Let_def a_def b_def vs'_def flip: vs_def)
  qed
qed

section \<open>List operations touch list records only, and pushes no expiry\<close>

lemma lSetMeta_op: "lSetMeta ek h t = Inr (n, ops) \<Longrightarrow> \<forall>op \<in> set ops. op_key op = ek"
  by (auto simp: lSetMeta_def Let_def split: if_splits)

lemma exp_same_lpush: "exp_same db (snd (lpush k w xs db))"
  by (auto simp: lpush_def Let_def intro!: exp_same_checked exp_same_Commit dest!: lSetMeta_op)

lemma exp_same_LSet: "exp_same db (snd (LSet k i v db))"
  by (auto simp: LSet_def Let_def intro!: exp_same_checked exp_same_Commit)

lemma keeps_lpush: "keeps ListType db (snd (lpush k w xs db))"
  by (auto simp: lpush_def Let_def intro!: keeps_checked keeps_Commit dest!: lSetMeta_op)

lemma keeps_lpop: "keeps ListType db (snd (lpop k w db))"
  by (auto simp: lpop_def Let_def intro!: keeps_checked keeps_Commit dest!: lSetMeta_op split: prod.splits)

lemma keeps_LSet: "keeps ListType db (snd (LSet k i v db))"
  by (auto simp: LSet_def Let_def intro!: keeps_checked keeps_Commit)

lemma owner_list_prefix: "owner db (list_prefix db k @ y) = Some ListType"
  by (simp add: owner_def owner_tail_def type_of_tag_def list_prefix_def)

lemma owner_lDelete:
  assumes "lDelete db k = Inr (n, ops)" "store_ok (bucket db)"
  shows "\<forall>op \<in> set ops. owner db (op_key op) = Some ListType"
proof -
  have "owner db x = Some ListType" if "lEncodeListKey db k a \<le> x" "x \<le> lEncodeListKey db k z" for x a z
    using between_has_prefix [of "list_prefix db k"] that owner_list_prefix by (metis lEncodeListKey_prefix)
  then show ?thesis using assms(1)
    by (auto simp: lDelete_def Let_def rangeLimitIterator_forward [OF assms(2)] in_range_def
        split: sum.splits if_splits prod.splits)
qed

lemma ball_set_if: "\<forall>x \<in> set xs. P x \<Longrightarrow> \<forall>x \<in> set ys. P x \<Longrightarrow> \<forall>x \<in> set (if b then xs else ys). P x"
  by simp

lemma keeps_ltrim2: "store_ok (bucket db) \<Longrightarrow> keeps ListType db (snd (ltrim2 k a b db))"
  by (auto simp: ltrim2_def Let_def ball_Un simp del: Un_iff intro!: keeps_checked keeps_if keeps_Commit ball_set_if
      dest!: lSetMeta_op owner_lDelete split del: if_split)

lemma keeps_LClear: "store_ok (bucket db) \<Longrightarrow> keeps ListType db (snd (LClear k db))"
  by (auto simp: LClear_def Let_def intro!: keeps_checked keeps_Commit dest!: owner_lDelete)

lemma owner_lmclear:
  "lmclear_ops db ks = Inr ops \<Longrightarrow> store_ok (bucket db) \<Longrightarrow> \<forall>op \<in> set ops. owner db (op_key op) = Some ListType"
  by (induction db ks arbitrary: ops rule: lmclear_ops.induct) (auto simp: rbind_eq_Inr dest!: owner_lDelete)

lemma keeps_LMclear: "store_ok (bucket db) \<Longrightarrow> keeps ListType db (snd (LMclear ks db))"
  by (auto simp: LMclear_def intro!: keeps_checked keeps_Commit dest!: owner_lmclear)

lemma keeps_lExpireAt: "keeps ListType db (snd (lExpireAt k w db))"
  by (auto simp: lExpireAt_def intro!: keeps_checked keeps_commit_expireAt)

lemmas list_keeps = keeps_lpush keeps_lpop keeps_LSet keeps_ltrim2 keeps_LClear keeps_LMclear keeps_lExpireAt

text \<open>What other data types do does not change a list.\<close>

lemma lists_of_keeps:
  assumes "keeps T db db'" "T \<noteq> ListType" "lists_ok db"
  shows "lists_ok db' \<and> list_of db' = list_of db"
proof -
  have i: "indexVarBuf db' = indexVarBuf db" using assms(1) by (simp add: keeps_def)
  have e: "lEncodeListKey db' = lEncodeListKey db" "lEncodeMetaKey db' = lEncodeMetaKey db"
    by (simp_all add: fun_eq_iff lEncodeListKey_def lEncodeMetaKey_def elem_key_def i)
  have g: "db_get db' (lEncodeListKey db k s) = db_get db (lEncodeListKey db k s)"
    "db_get db' (lEncodeMetaKey db k) = db_get db (lEncodeMetaKey db k)"
    "db_get db' (indexVarBuf db @ ListType # r) = db_get db (indexVarBuf db @ ListType # r)" for k s r
    using assms(1,2) by (auto simp: keeps_def owner_def owner_tail_def type_of_tag_def
        lEncodeListKey_def lEncodeMetaKey_def elem_key_def)
  have "list_rep db' k h vs = list_rep db k h vs" for k h vs by (simp add: list_rep_def e g)
  moreover have "list_keys_ok db' = list_keys_ok db" by (simp add: list_keys_ok_def e g i)
  moreover have "list_of db' k = list_of db k" for k
    unfolding list_of_def lGetMeta_def if_False e g ..
  ultimately show ?thesis using assms(1,3) by (auto simp: lists_ok_def keeps_def fun_eq_iff)
qed

section \<open>Expiry of lists, and the invariant under every operation\<close>

lemma lists_ok_nc [simp]: "lists_ok (setNextCheckTime w f db) \<longleftrightarrow> lists_ok db"
  "list_of (setNextCheckTime w f db) = list_of db"
proof -
  have "list_of (setNextCheckTime w f db) k = list_of db k" for k
    unfolding list_of_def lGetMeta_def by (simp cong: sum.case_cong prod.case_cong split: sum.split prod.split)
  then show "list_of (setNextCheckTime w f db) = list_of db" by blast
  show "lists_ok (setNextCheckTime w f db) \<longleftrightarrow> lists_ok db"
    by (simp add: lists_ok_def list_keys_ok_def list_rep_def)
qed

lemma lists_commit_exp:
  assumes "lists_ok db" "key_ok k"
    and "\<forall>op \<in> set ops. (\<exists>w. op_key op = expEncodeTimeKey db ListType k w) \<or> op_key op = expEncodeMetaKey db ListType k"
  shows "lists_ok (db\<lparr>bucket := apply_batch ops (bucket db)\<rparr>) \<and>
    list_of (db\<lparr>bucket := apply_batch ops (bucket db)\<rparr>) = list_of db"
proof -
  obtain h where r: "list_rep db k h (list_of db k)" using lists_okE [OF assms(1,2)] .
  have "sget (apply_batch ops (bucket db)) x = db_get db x"
    if "\<And>w. x \<noteq> expEncodeTimeKey db ListType k w" "x \<noteq> expEncodeMetaKey db ListType k" for x
    using assms(3) that by (intro sget_apply_batch_other) fastforce
  then have "list_rep (db\<lparr>bucket := apply_batch ops (bucket db)\<rparr>) k h (list_of db k)"
    using r by (simp add: list_rep_def)
  moreover have "\<forall>op \<in> set ops. list_op db k op" using assms(3) by (auto simp: list_op_def)
  ultimately show ?thesis using lists_commit [OF assms(1,2)] by fastforce
qed

lemma lists_commit_expireAt:
  assumes "lists_ok db" "key_ok k"
  shows "lists_ok (snd (commit_expireAt ListType k w db)) \<and> list_of (snd (commit_expireAt ListType k w db)) = list_of db"
proof (cases "readonly db")
  case True
  then show ?thesis using assms by (simp add: commit_expireAt_def)
next
  case False
  have "lists_ok (setNextCheckTime w False db)" using assms(1) by simp
  then have "lists_ok ((setNextCheckTime w False db)\<lparr>bucket := apply_batch (expireAt_ops db ListType k w)
      (bucket (setNextCheckTime w False db))\<rparr>) \<and>
    list_of ((setNextCheckTime w False db)\<lparr>bucket := apply_batch (expireAt_ops db ListType k w)
      (bucket (setNextCheckTime w False db))\<rparr>) = list_of (setNextCheckTime w False db)"
    using assms(2) by (rule lists_commit_exp) (auto simp: expireAt_ops_def Let_def)
  then show ?thesis using False by (simp add: commit_expireAt_def)
qed

definition list_inv :: "ledisdb \<Rightarrow> bool" where
  "list_inv db \<longleftrightarrow> lists_ok db \<and> ttl_ok db"

lemma key_size_error:
  "\<not> key_ok k \<Longrightarrow> lpush k w xs db = (Inl errKeySize, db)" "\<not> key_ok k \<Longrightarrow> lpop k w db = (Inl errKeySize, db)"
  "\<not> key_ok k \<Longrightarrow> ltrim2 k a b db = (Inl errKeySize, db)" "\<not> key_ok k \<Longrightarrow> LClear k db = (Inl errKeySize, db)"
  "\<not> key_ok k \<Longrightarrow> lExpireAt k w db = (Inl errKeySize, db)"
  by (simp_all add: lpush_def lpop_def ltrim2_def LClear_def lExpireAt_def LLen_def checkKeySize_eq lift_r_def)

lemma list_readonly:
  "readonly db \<Longrightarrow> snd (lpush k w xs db) = db" "readonly db \<Longrightarrow> snd (lpop k w db) = db"
  "readonly db \<Longrightarrow> snd (ltrim2 k a b db) = db" "readonly db \<Longrightarrow> snd (LClear k db) = db"
  "readonly db \<Longrightarrow> snd (LMclear ks db) = db"
  by (auto simp: lpush_def lpop_def ltrim2_def LClear_def LMclear_def Let_def split del: if_split
      intro!: readonly_checked readonly_if split: prod.splits)

lemma list_inv_push:
  assumes "list_inv db" "length xs < 2147483648" "w \<in> {listHeadSeq, listTailSeq}"
  shows "list_inv (snd (lpush k w xs db))"
proof (cases "key_ok k \<and> \<not> readonly db \<and> xs \<noteq> []")
  case True
  then have "lists_ok (snd (RPush k xs db)) \<and> lists_ok (snd (LPush k xs db))"
    using RPush_ok [of db k xs] LPush_ok [of db k xs] assms(1,2) by (auto simp: list_inv_def split: if_splits)
  then show ?thesis using assms(1,3) exp_sameD(2) [OF exp_same_lpush]
    by (auto simp: list_inv_def RPush_def LPush_def)
next
  case False
  moreover have "snd (lpush k w [] db) = db" by (auto simp: lpush_def Let_def intro!: readonly_checked)
  ultimately have "snd (lpush k w xs db) = db" using list_readonly key_size_error by auto
  then show ?thesis using assms(1) by simp
qed

lemma list_inv_pop:
  assumes "list_inv db" "w \<in> {listHeadSeq, listTailSeq}"
  shows "list_inv (snd (lpop k w db))"
proof (cases "key_ok k \<and> \<not> readonly db")
  case True
  then show ?thesis using assms LPop_ok [of db k] RPop_ok [of db k]
    by (auto simp: list_inv_def list_popped_def LPop_def RPop_def)
next
  case False
  then have "snd (lpop k w db) = db" using list_readonly key_size_error by auto
  then show ?thesis using assms(1) by simp
qed

text \<open>The trims that leave a meta record without elements: both ends before the head of a list.\<close>

definition trims_off :: "ledisdb \<Rightarrow> bytes \<Rightarrow> int \<Rightarrow> int \<Rightarrow> bool" where
  "trims_off db k start stop \<longleftrightarrow>
     (let n = length (list_of db k); a = norm_index n (wrap32 start); b = norm_index n (wrap32 stop)
      in 0 < n \<and> a \<le> b \<and> b < -1)"

lemma list_inv_trim:
  assumes "list_inv db" "\<not> trims_off db k a b"
  shows "list_inv (snd (LTrim k a b db))"
proof (cases "key_ok k \<and> \<not> readonly db")
  case True
  have "LTrim k a b db = LTrim k (wrap32 a) (wrap32 b) db" by (simp add: LTrim_def ltrim2_def)
  moreover have "list_inv (snd (LTrim k (wrap32 a) (wrap32 b) db))"
    using True assms LTrim_ok [of db k "wrap32 a" "wrap32 b"] exp_sameD(2)
    by (auto simp: list_inv_def list_gutted_def trims_off_def Let_def split: if_splits)
  ultimately show ?thesis by simp
next
  case False
  then have "snd (LTrim k a b db) = db" using list_readonly key_size_error by (auto simp: LTrim_def)
  then show ?thesis using assms by simp
qed

lemma list_inv_clear:
  assumes "list_inv db"
  shows "list_inv (snd (LClear k db))"
proof (cases "key_ok k \<and> \<not> readonly db")
  case True
  then show ?thesis using assms LClear_ok [of db k] by (auto simp: list_inv_def)
next
  case False
  then have "snd (LClear k db) = db" using list_readonly key_size_error by auto
  then show ?thesis using assms by simp
qed

lemma list_inv_expire:
  assumes "list_inv db"
  shows "list_inv (snd (lExpireAt k w db))"
proof (cases "key_ok k")
  case True
  then show ?thesis using assms lists_commit_expireAt [of db k w] ttl_ok_commit_expireAt [of db ListType k w]
    by (auto simp: list_inv_def lExpireAt_def LLen_ok lift_r_def)
next
  case False
  then show ?thesis using assms key_size_error by simp
qed

lemma lmclear_deletes:
  assumes "lists_ok db" "lmclear_ops db ks = Inr ops"
  shows "\<exists>xs. ops = map BDel xs \<and>
    (\<forall>k \<in> set ks. key_ok k \<and> lEncodeMetaKey db k \<in> set xs \<and>
       (\<forall>s. is_int32 s \<and> l_elem db k s \<noteq> None \<longrightarrow> lEncodeListKey db k s \<in> set xs)) \<and>
    (\<forall>x \<in> set xs. \<exists>k \<in> set ks. list_op db k (BDel x))"
  using assms(2)
proof (induction ks arbitrary: ops)
  case (Cons k ks)
  then have k: "key_ok k" by (auto simp: rbind_eq_Inr checkKeySize_eq split: if_splits)
  then obtain h where r: "list_rep db k h (list_of db k)" using lists_okE [OF assms(1)] by blast
  obtain es where es: "rmExpire_ops db ListType k = map BDel es"
    "\<forall>x \<in> set es. (\<exists>w. x = expEncodeTimeKey db ListType k w) \<or> x = expEncodeMetaKey db ListType k"
    using rmExpire_deletes by blast
  define ds where "ds = map (lEncodeListKey db k) (map (\<lambda>i. h + int i) [0..<length (list_of db k)]) @ [lEncodeMetaKey db k]"
  have elems: "lEncodeListKey db k s \<in> set ds" if "is_int32 s" "l_elem db k s \<noteq> None" for s
  proof -
    have "h \<le> s" "s < h + int (length (list_of db k))" using r that by (auto simp: list_rep_def split: if_splits)
    then show ?thesis by (auto simp: ds_def intro!: image_eqI [of _ _ "nat (s - h)"])
  qed
  have "is_int32 (h + int i)" if "i < length (list_of db k)" for i
    using that list_rep_bounds [OF r] by (cases "list_of db k = []") (auto simp: is_int32_def)
  then have "list_op db k (BDel x)" if "x \<in> set ds" for x using that by (auto simp: ds_def)
  moreover have "list_op db k (BDel x)" if "x \<in> set es" for x
    using that es(2) unfolding list_op_def op_key.simps by blast
  ultimately have own: "\<forall>x \<in> set (ds @ es). list_op db k (BDel x)" by auto
  obtain rest where rest: "lmclear_ops db ks = Inr rest" "ops = map BDel (ds @ es) @ rest"
    using Cons.prems lDelete_ok [OF assms(1) k r] es(1) by (auto simp: rbind_eq_Inr ds_def)
  obtain xs where "rest = map BDel xs"
    "\<forall>k \<in> set ks. key_ok k \<and> lEncodeMetaKey db k \<in> set xs \<and>
       (\<forall>s. is_int32 s \<and> l_elem db k s \<noteq> None \<longrightarrow> lEncodeListKey db k s \<in> set xs)"
    "\<forall>x \<in> set xs. \<exists>k \<in> set ks. list_op db k (BDel x)"
    using Cons.IH [OF rest(1)] by auto
  moreover have "lEncodeMetaKey db k \<in> set ds" by (simp add: ds_def)
  ultimately show ?case using k rest(2) own elems
    by (intro exI [of _ "(ds @ es) @ xs"]) auto
qed simp

lemma list_op_disjoint:
  assumes "list_op db k' (BDel x)" "key_ok k" "key_ok k'" "k \<noteq> k'"
  shows "is_int32 s \<Longrightarrow> x \<noteq> lEncodeListKey db k s" "x \<noteq> lEncodeMetaKey db k"
  using assms by (auto simp: list_op_def codec key_ok_length; force simp: codec key_ok_length)+

lemma LMclear_ok:
  assumes "lists_ok db" "LMclear ks db = (Inr n, db')"
  shows "lists_ok db' \<and> list_of db' = (\<lambda>k. if k \<in> set ks then [] else list_of db k)"
proof -
  obtain ops where ops: "lmclear_ops db ks = Inr ops" "db' = db\<lparr>bucket := apply_batch ops (bucket db)\<rparr>"
    using assms(2) by (auto simp: LMclear_def lift_r_def sbind_def Commit_def split: sum.splits if_splits)
  obtain xs where xs: "ops = map BDel xs"
    "\<And>k. k \<in> set ks \<Longrightarrow> key_ok k \<and> lEncodeMetaKey db k \<in> set xs \<and>
       (\<forall>s. is_int32 s \<and> l_elem db k s \<noteq> None \<longrightarrow> lEncodeListKey db k s \<in> set xs)"
    "\<And>x. x \<in> set xs \<Longrightarrow> \<exists>k \<in> set ks. list_op db k (BDel x)"
    using lmclear_deletes [OF assms(1) ops(1)] by auto
  have get: "db_get db' x = (if x \<in> set xs then None else db_get db x)" for x
    using assms(1) by (simp add: ops(2) xs(1) sget_deletes lists_ok_def)
  have idx: "lEncodeListKey db' = lEncodeListKey db" "lEncodeMetaKey db' = lEncodeMetaKey db"
    by (simp_all add: ops(2) fun_eq_iff)
  have rep: "list_rep db' k (if k \<in> set ks then 0 else h) (if k \<in> set ks then [] else list_of db k)"
    if "key_ok k" "list_rep db k h (list_of db k)" for k h
  proof (cases "k \<in> set ks")
    case True
    then show ?thesis using xs(2) [OF True] by (auto simp: list_rep_def get idx)
  next
    case False
    have own: "\<exists>k'. list_op db k' (BDel x) \<and> key_ok k' \<and> k \<noteq> k'" if "x \<in> set xs" for x
      using xs(3) [OF that] xs(2) False by blast
    have "lEncodeListKey db k s \<notin> set xs" if "is_int32 s" for s
      using own list_op_disjoint(1) [OF _ \<open>key_ok k\<close> _ _ that] by blast
    moreover have "lEncodeMetaKey db k \<notin> set xs"
      using own list_op_disjoint(2) [OF _ \<open>key_ok k\<close>] by blast
    ultimately show ?thesis using that False by (auto simp: list_rep_def get idx)
  qed
  have "store_ok (bucket db')" using assms(1) by (simp add: ops(2) lists_ok_def)
  moreover have "list_keys_ok db'"
    using assms(1) ops(2) unfolding lists_ok_def list_keys_ok_def get idx by simp
  moreover have "\<exists>h vs. list_rep db' k h vs" if "key_ok k" for k
    using rep [OF that] lists_okE [OF assms(1) that] by metis
  moreover have "list_of db' k = (if k \<in> set ks then [] else list_of db k)" for k
  proof (cases "key_ok k")
    case True
    then show ?thesis using rep [OF True] lists_okE [OF assms(1) True] list_of_rep [of db' k] by metis
  qed (simp add: list_of_def)
  ultimately show ?thesis by (auto simp: lists_ok_def)
qed

lemma list_inv_mclear:
  assumes "list_inv db"
  shows "list_inv (snd (LMclear ks db))"
proof (cases "readonly db \<or> (\<exists>e. lmclear_ops db ks = Inl e)")
  case True
  then show ?thesis using assms list_readonly(5) by (auto simp: LMclear_def lift_r_def)
next
  case False
  then obtain ops where ops: "lmclear_ops db ks = Inr ops" "\<not> readonly db"
    by (cases "lmclear_ops db ks") auto
  let ?db = "db\<lparr>bucket := apply_batch ops (bucket db)\<rparr>"
  have e: "LMclear ks db = (Inr (int (length ks)), ?db)"
    using ops by (simp add: LMclear_def lift_r_def)
  have "lists_ok ?db" using LMclear_ok [OF _ e] assms by (simp add: list_inv_def)
  moreover have "\<exists>xs. ops = map BDel xs" using lmclear_deletes [OF _ ops(1)] assms by (auto simp: list_inv_def)
  then have "ttl_ok ?db" using assms ttl_ok_deletes [of db] by (auto simp: list_inv_def lists_ok_def)
  ultimately show ?thesis by (simp add: e list_inv_def)
qed

lemma lists_db0: "lists_ok db0" "list_of db0 = (\<lambda>k. [])" "list_inv db0"
proof -
  have "list_rep db0 k 0 []" for k by (auto simp: list_rep_def)
  then show "lists_ok db0" "list_of db0 = (\<lambda>k. [])"
    by (auto simp: lists_ok_def list_keys_ok_def list_of_def lGetMeta_def fun_eq_iff)
  then show "list_inv db0" by (simp add: list_inv_def)
qed

text \<open>A database with one list, for examples.\<close>

abbreviation db_list :: "bytes \<Rightarrow> bytes list \<Rightarrow> ledisdb" where
  "db_list k vs \<equiv> snd (RPush k vs db0)"

lemma lists_db_list:
  assumes "key_ok k" "0 < length vs" "length vs < 1000"
  shows "lists_ok (db_list k vs)" "ttl_ok (db_list k vs)" "\<not> readonly (db_list k vs)"
    "list_of (db_list k vs) = (\<lambda>_. [])(k := vs)"
proof -
  have "int (length vs) \<le> list_room db0 listTailSeq k" using assms(3) by (simp add: list_room_def lGetMeta_def)
  then obtain db' where "RPush k vs db0 = (Inr (int (length vs)), db')" "lists_ok db'" "list_of db' = (\<lambda>_. [])(k := vs)"
    using RPush_ok [OF lists_db0(1) _ assms(1), of vs] assms lists_db0(2) by auto
  then show "lists_ok (db_list k vs)" "list_of (db_list k vs) = (\<lambda>_. [])(k := vs)" by simp_all
  have "list_inv (db_list k vs)" using list_inv_push [OF lists_db0(3), of vs] assms(3) by (simp add: RPush_def)
  then show "ttl_ok (db_list k vs)" by (simp add: list_inv_def)
  show "\<not> readonly (db_list k vs)"
    by (auto simp: RPush_def lpush_def lift_r_def sbind_def Commit_def Let_def split: sum.splits)
qed

lemma RPop_empty:
  assumes "lists_ok db" "key_ok k" "list_of db k = []"
  shows "RPop k db = (Inr None, db)"
proof -
  obtain h where r: "list_rep db k h []" using lists_okE [OF assms(1,2)] assms(3) by metis
  show ?thesis using lGetMeta_rep [OF r, of False] assms(2) by (simp add: RPop_def lpop_def lift_r_def)
qed

lemma readonly_lpush: "readonly (snd (lpush k w xs db)) = readonly db"
  using keeps_lpush [of db k w xs] by (simp add: keeps_def)

lemma lists_LExpire: "lists_ok db \<Longrightarrow> key_ok k \<Longrightarrow> list_of (snd (LExpire now k d db)) = list_of db"
  using lists_commit_expireAt [of db k] by (simp add: LExpire_def lExpireAt_def LLen_ok lift_r_def)

lemma LExpire_ok:
  assumes "lists_ok db" "key_ok k" "0 < d" "\<not> readonly db" "list_of db k \<noteq> []" "is_int64 (now + d)"
  shows "expiry_of (snd (LExpire now k d db)) ListType = (expiry_of db ListType)(k \<mapsto> now + d)"
  using assms expiry_commit_expireAt [of db "now + d" ListType k]
  by (simp add: LExpire_def lExpireAt_def LLen_ok lift_r_def)

lemma list_room_empty:
  assumes "lists_ok db" "key_ok k" "list_of db k = []"
  shows "list_room db listHeadSeq k = 1073740824"
proof -
  obtain h where "list_rep db k h []" using lists_okE [OF assms(1,2)] assms(3) by metis
  then show ?thesis by (simp add: list_room_def lGetMeta_rep [where vs = "[]" and it = False])
qed

lemma key_ok_small: "key_ok ''l''" "key_ok ''k''" by (simp_all add: key_ok_def)

end
