(* ===== verification/CmdLists.thy ===== *)
theory CmdLists
  imports CmdBase LedisList
begin

text \<open>
  The list commands (\<open>lists.go\<close>): one definition per registered handler, in the order of the
  file, and what they do to the lists of a database.
\<close>

section \<open>Handlers\<close>

definition cmdLTRIM :: handler where
  "cmdLTRIM m args db =
     (if length args \<noteq> 4 then wrong_args db
      else sbind (lift_r (StrInt64 (Some (args ! 2))) db) (\<lambda>start db.
           sbind (lift_r (StrInt64 (Some (args ! 3))) db) (\<lambda>stop db.
             reply_with (\<lambda>_. SimpleString ''OK'') (LTrim (args ! 1) start stop db))))"

definition cmdLKEYEXISTS :: handler where
  "cmdLKEYEXISTS m args db =
     (if length args \<noteq> 2 then wrong_args db else answer (LKeyExists db (args ! 1)) SimpleInt db)"

definition cmdLTTL :: handler where
  "cmdLTTL m args db =
     (if length args \<noteq> 2 then wrong_args db else answer (LTTL db (wall m) (args ! 1)) SimpleInt db)"

text \<open>\<open>LEXPIREAT\<close> and \<open>LEXPIRE\<close> after the time stamp is known.\<close>

definition lexpire_at :: "machine \<Rightarrow> bytes \<Rightarrow> int \<Rightarrow> ledisdb \<Rightarrow> reply result \<times> ledisdb" where
  "lexpire_at m key timestamp db =
     (if timestamp < wall m then reply_with (\<lambda>_. SimpleInt 0) (LClear key db)
      else reply_with SimpleInt (LExpireAt (wall m) key timestamp db))"

definition cmdLEXPIREAT :: handler where
  "cmdLEXPIREAT m args db =
     (if length args \<noteq> 3 then wrong_args db
      else sbind (lift_r (StrInt64 (Some (args ! 2))) db) (\<lambda>timestamp db.
             lexpire_at m (args ! 1) timestamp db))"

definition cmdLEXPIRE :: handler where
  "cmdLEXPIRE m args db =
     (if length args \<noteq> 3 then wrong_args db
      else sbind (lift_r (StrInt64 (Some (args ! 2))) db) (\<lambda>duration db.
             lexpire_at m (args ! 1) (wrap64 (m_Now m + duration)) db))"

definition cmdLMCLEAR :: handler where
  "cmdLMCLEAR m args db =
     (if length args < 2 then wrong_args db else reply_with SimpleInt (LMclear (tl args) db))"

definition cmdLCLEAR :: handler where
  "cmdLCLEAR m args db =
     (if length args \<noteq> 2 then wrong_args db else reply_with SimpleInt (LClear (args ! 1) db))"

text \<open>
  \<open>RPOPLPUSH\<close>: when the push fails the element is pushed back and the error returned; the
  results of pushing back and of restoring the expiry are ignored.
\<close>

definition cmdRPOPLPUSH :: handler where
  "cmdRPOPLPUSH m args db =
     (if length args \<noteq> 3 then wrong_args db
      else
        let source = args ! 1; dest = args ! 2 in
        sbind (lift_r (if source = dest then LTTL db (wall m) source else Inr (-1)) db) (\<lambda>ttl db.
        sbind (RPop source db) (\<lambda>data db.
          case data of
            None \<Rightarrow> (Inr NilReply, db)
          | Some d \<Rightarrow>
              (case LPush dest [d] db of
                 (Inl e, db) \<Rightarrow> (Inl e, snd (RPush source [d] db))
               | (Inr _, db) \<Rightarrow>
                   (Inr (Bytes (Some d)), if ttl \<noteq> -1 then snd (LExpire (wall m) source ttl db) else db)))))"

definition cmdLLEN :: handler where
  "cmdLLEN m args db =
     (if length args \<noteq> 2 then wrong_args db else answer (LLen db (args ! 1)) SimpleInt db)"

definition cmdLSET :: handler where
  "cmdLSET m args db =
     (if length args \<noteq> 4 then wrong_args db
      else sbind (lift_r (StrInt64 (Some (args ! 2))) db) (\<lambda>index db.
             reply_with (\<lambda>_. SimpleString ''OK'') (LSet (args ! 1) (wrap32 index) (args ! 3) db)))"

definition cmdLRANGE :: handler where
  "cmdLRANGE m args db =
     (if length args \<noteq> 4 then wrong_args db
      else sbind (lift_r (StrInt64 (Some (args ! 2))) db) (\<lambda>start db.
           sbind (lift_r (StrInt64 (Some (args ! 3))) db) (\<lambda>stop db.
             answer (LRange db (args ! 1) (wrap32 start) (wrap32 stop)) (\<lambda>v. BytesList (map Some v)) db)))"

definition cmdRPOP :: handler where
  "cmdRPOP m args db =
     (if length args \<noteq> 2 then wrong_args db else reply_with Bytes (RPop (args ! 1) db))"

definition cmdLPUSH :: handler where
  "cmdLPUSH m args db =
     (if length args < 3 then wrong_args db else reply_with SimpleInt (LPush (args ! 1) (drop 2 args) db))"

definition cmdLINDEX :: handler where
  "cmdLINDEX m args db =
     (if length args \<noteq> 3 then wrong_args db
      else sbind (lift_r (StrInt64 (Some (args ! 2))) db) (\<lambda>index db.
             answer (LIndex db (args ! 1) (wrap32 index))
               (\<lambda>v. case v of None \<Rightarrow> NilReply | Some b \<Rightarrow> if length b = 0 then NilReply else Bytes (Some b)) db))"

definition cmdLPOP :: handler where
  "cmdLPOP m args db =
     (if length args \<noteq> 2 then wrong_args db else reply_with Bytes (LPop (args ! 1) db))"

definition cmdRPUSH :: handler where
  "cmdRPUSH m args db =
     (if length args < 3 then wrong_args db else reply_with SimpleInt (RPush (args ! 1) (drop 2 args) db))"

section \<open>Properties\<close>

text \<open>
  C5: \<open>RPUSH k xs\<close> appends \<open>xs\<close> to the list at \<open>k\<close> and \<open>LPUSH k xs\<close> puts them in front, the last
  one first; the answer is the new length and no other list changes. When the sequence numbers
  at that end run out it is an error and nothing changes.
\<close>

theorem push_refines:
  assumes "lists_ok db" "\<not> readonly db" "key_ok k" "xs \<noteq> []" "length xs < 2147483648"
  defines "vs \<equiv> list_of db k"
  shows "(if int (length xs) \<le> list_room db listTailSeq k
     then \<exists>db'. cmdRPUSH m (c # k # xs) db = (Inr (SimpleInt (int (length (vs @ xs)))), db') \<and>
            lists_ok db' \<and> list_of db' = (list_of db)(k := vs @ xs)
     else cmdRPUSH m (c # k # xs) db = (Inl errListSeq, db)) \<and>
    (if int (length xs) \<le> list_room db listHeadSeq k
     then \<exists>db'. cmdLPUSH m (c # k # xs) db = (Inr (SimpleInt (int (length (rev xs @ vs)))), db') \<and>
            lists_ok db' \<and> list_of db' = (list_of db)(k := rev xs @ vs)
     else cmdLPUSH m (c # k # xs) db = (Inl errListSeq, db))"
proof -
  have "cmdRPUSH m (c # k # xs) db = reply_with SimpleInt (RPush k xs db)"
    "cmdLPUSH m (c # k # xs) db = reply_with SimpleInt (LPush k xs db)"
    using assms(4) by (simp_all add: cmdRPUSH_def cmdLPUSH_def Suc_le_eq)
  then show ?thesis using RPush_ok [OF assms(1-5)] LPush_ok [OF assms(1-5)]
    by (auto simp: vs_def split: if_splits)
qed

theorem push_refines_witness:
  "list_of (snd (cmdRPUSH node [''RPUSH'', ''l'', ''a'', ''b''] db0)) ''l'' = [''a'', ''b'']"
proof -
  have "int (length [''a'', ''b'']) \<le> list_room db0 listTailSeq ''l''" by (simp add: list_room_def lGetMeta_def)
  then show ?thesis
    using push_refines [of db0 "''l''" "[''a'', ''b'']" node "''RPUSH''"] lists_db0 by (auto simp: key_ok_def)
qed

text \<open>
  C9: \<open>LPOP\<close> and \<open>RPOP\<close> answer and remove the first and the last element, nil on an empty list;
  no other list changes, and the expiry goes away exactly when the last element does.
\<close>

theorem pop_refines:
  assumes "lists_ok db" "ttl_ok db" "\<not> readonly db" "key_ok k"
  defines "vs \<equiv> list_of db k"
  shows "(\<exists>db'. cmdLPOP m [c, k] db = (Inr (Bytes (if vs = [] then None else Some (hd vs))), db') \<and>
      lists_ok db' \<and> list_of db' = (list_of db)(k := tl vs) \<and>
      expiry_of db' ListType = (if length vs = 1 then (expiry_of db ListType)(k := None) else expiry_of db ListType)) \<and>
    (\<exists>db'. cmdRPOP m [c, k] db = (Inr (Bytes (if vs = [] then None else Some (last vs))), db') \<and>
      lists_ok db' \<and> list_of db' = (list_of db)(k := butlast vs) \<and>
      expiry_of db' ListType = (if length vs = 1 then (expiry_of db ListType)(k := None) else expiry_of db ListType))"
proof -
  have "tl vs = [] \<and> vs \<noteq> [] \<longleftrightarrow> length vs = 1" "butlast vs = [] \<and> vs \<noteq> [] \<longleftrightarrow> length vs = 1"
    by (cases vs; simp)+
  then show ?thesis using LPop_ok [OF assms(1-4)] RPop_ok [OF assms(1-4)]
    by (auto simp: cmdLPOP_def cmdRPOP_def list_popped_def vs_def)
qed

theorem pop_refines_witness:
  "fst (cmdLPOP node [''LPOP'', ''l''] (db_list ''l'' [''a'', ''b''])) = Inr (Bytes (Some ''a''))"
  using pop_refines [of "db_list ''l'' [''a'', ''b'']" "''l''" node "''LPOP''"] lists_db_list [of "''l''" "[''a'', ''b'']"]
  by (auto simp: key_ok_def)

text \<open>
  C25: The reading commands: \<open>LLEN\<close> is the length, \<open>LINDEX\<close> the element at an index counted from
  either end (nil outside the list or for an empty element), \<open>LRANGE\<close> the elements from
  \<open>start\<close> to \<open>stop\<close> with negative indices counted from the end. None changes the database.
\<close>

theorem list_reads:
  assumes "lists_ok db" "key_ok k" "is_int32 i" "is_int32 j"
  defines "vs \<equiv> list_of db k" and "n \<equiv> length (list_of db k)"
  shows "cmdLLEN m [c, k] db = (Inr (SimpleInt (int n)), db) \<and>
    cmdLINDEX m [c, k, FormatInt i] db = (Inr (let p = norm_index n i in
       if 0 \<le> p \<and> p < int n \<and> vs ! nat p \<noteq> [] then Bytes (Some (vs ! nat p)) else NilReply), db) \<and>
    cmdLRANGE m [c, k, FormatInt i, FormatInt j] db = (Inr (BytesList (map Some (let
       a = max 0 (norm_index n i); b = min (norm_index n j) (int n - 1)
       in if a \<le> b then take (nat (b - a + 1)) (drop (nat a) vs) else []))), db)"
  using assms(1-4)
  by (simp add: cmdLLEN_def cmdLINDEX_def cmdLRANGE_def LLen_ok LIndex_ok LRange_ok lift_r_def
      vs_def n_def Let_def)

theorem list_reads_witness:
  "fst (cmdLRANGE node [''LRANGE'', ''l'', FormatInt 1, FormatInt (-1)] (db_list ''l'' [''a'', ''b'', ''c'']))
     = Inr (BytesList [Some ''b'', Some ''c''])"
  using list_reads [of "db_list ''l'' [''a'', ''b'', ''c'']" "''l''" 1 "-1" node "''LRANGE''"]
    lists_db_list [of "''l''" "[''a'', ''b'', ''c'']"]
  by (simp add: key_ok_def is_int32_def norm_index_def)

text \<open>
  C26: \<open>LTRIM k start stop\<close> always answers \<open>OK\<close>. It keeps the elements from \<open>start\<close> to \<open>stop\<close> and
  empties the list when \<open>start\<close> is beyond its end or after \<open>stop\<close>. When both indices lie before
  the head, by more than one place, it deletes every element and leaves the meta record: \<open>LLEN\<close>
  still answers the old length while \<open>LINDEX\<close> finds nothing at any index. Other lists keep their
  elements.
\<close>

theorem ltrim_cases:
  assumes "lists_ok db" "ttl_ok db" "\<not> readonly db" "key_ok k" "is_int32 start" "is_int32 stop" "is_int32 i"
  shows "let vs = list_of db k; n = length vs; a = norm_index n start; b = norm_index n stop;
      (r, db') = cmdLTRIM m [c, k, FormatInt start, FormatInt stop] db
    in r = Inr (SimpleString ''OK'') \<and>
       (if a \<le> b \<and> a < int n \<and> b < -1
        then cmdLLEN m [c, k] db' = (Inr (SimpleInt (int n)), db') \<and>
          cmdLINDEX m [c, k, FormatInt i] db' = (Inr NilReply, db') \<and>
          (\<forall>k'. k' \<noteq> k \<longrightarrow> list_of db' k' = list_of db k')
        else lists_ok db' \<and>
          list_of db' = (list_of db)(k := (if a \<ge> int n \<or> a > b then []
            else take (nat (min b (int n - 1) - max 0 a + 1)) (drop (nat (max 0 a)) vs))))"
proof -
  have cmd: "cmdLTRIM m [c, k, FormatInt start, FormatInt stop] db
      = reply_with (\<lambda>_. SimpleString ''OK'') (LTrim k start stop db)"
    using assms(5,6) by (simp add: cmdLTRIM_def lift_r_def)
  have "cmdLLEN m [c, k] db' = (Inr (SimpleInt (int (length (list_of db k)))), db')"
    "cmdLINDEX m [c, k, FormatInt i] db' = (Inr NilReply, db')"
    "\<forall>k'. k' \<noteq> k \<longrightarrow> list_of db' k' = list_of db k'" if "list_gutted db k db'" for db'
    using list_gutted_reads [OF that assms(1,4)] that assms(7)
    by (simp_all add: cmdLLEN_def cmdLINDEX_def lift_r_def list_gutted_def)
  then show ?thesis unfolding cmd using LTrim_ok [OF assms(1-6)] by (auto simp: Let_def split: if_splits)
qed

theorem ltrim_cases_witness:
  "let (r, db') = cmdLTRIM node [''T'', ''l'', FormatInt (-10), FormatInt (-5)] (db_list ''l'' [''a'', ''b'', ''c''])
   in r = Inr (SimpleString ''OK'') \<and> fst (cmdLLEN node [''T'', ''l''] db') = Inr (SimpleInt 3) \<and>
     fst (cmdLINDEX node [''T'', ''l'', FormatInt 0] db') = Inr NilReply"
  using ltrim_cases [of "db_list ''l'' [''a'', ''b'', ''c'']" "''l''" "-10" "-5" 0 node "''T''"]
    lists_db_list [of "''l''" "[''a'', ''b'', ''c'']"]
  by (auto simp: key_ok_def is_int32_def norm_index_def Let_def)

text \<open>
  \<open>LSET k i v\<close> on a list replaces the element at the index, or fails with an index error and
  changes nothing.
\<close>

theorem lset_refines:
  assumes "lists_ok db" "\<not> readonly db" "key_ok k" "is_int32 i" "list_of db k \<noteq> []"
  shows "let n = length (list_of db k); j = norm_index n i;
      (r, db') = cmdLSET m [c, k, FormatInt i, v] db
    in if 0 \<le> j \<and> j < int n
       then r = Inr (SimpleString ''OK'') \<and> lists_ok db' \<and>
         list_of db' = (list_of db)(k := (list_of db k)[nat j := v])
       else r = Inl errListIndex \<and> db' = db"
proof -
  have "cmdLSET m [c, k, FormatInt i, v] db = reply_with (\<lambda>_. SimpleString ''OK'') (LSet k i v db)"
    using assms(4) by (simp add: cmdLSET_def lift_r_def)
  then show ?thesis using LSet_ok [OF assms, of v]
    by (cases "0 \<le> norm_index (length (list_of db k)) i \<and> norm_index (length (list_of db k)) i < int (length (list_of db k))")
      (auto simp: Let_def)
qed

theorem lset_refines_witness:
  "list_of (snd (cmdLSET node [''LSET'', ''l'', FormatInt (-1), ''z''] (db_list ''l'' [''a'', ''b'']))) ''l'' = [''a'', ''z'']"
  using lset_refines [of "db_list ''l'' [''a'', ''b'']" "''l''" "-1" node "''LSET''" "''z''"]
    lists_db_list [of "''l''" "[''a'', ''b'']"]
  by (auto simp: key_ok_def is_int32_def norm_index_def Let_def)

text \<open>
  \<open>LSET k 0 v\<close> on a missing list answers OK and leaves an element without a list: \<open>LLEN\<close> is
  still 0, and \<open>LINDEX k 0\<close> answers \<open>v\<close>.
\<close>

theorem lset_missing:
  assumes "lists_ok db" "\<not> readonly db" "key_ok k" "list_of db k = []" "v \<noteq> []"
  shows "\<exists>db'. cmdLSET m [c, k, FormatInt 0, v] db = (Inr (SimpleString ''OK''), db') \<and>
    fst (cmdLLEN m [c, k] db') = Inr (SimpleInt 0) \<and>
    fst (cmdLINDEX m [c, k, FormatInt 0] db') = Inr (Bytes (Some v))"
proof -
  obtain h where r: "list_rep db k h []" using lists_okE [OF assms(1,3)] assms(4) by metis
  let ?db = "db\<lparr>bucket := sput (lEncodeListKey db k listInitialSeq) v (bucket db)\<rparr>"
  have meta: "db_get db (lEncodeMetaKey db k) = None" using r by (simp add: list_rep_def)
  have ok: "store_ok (bucket db)" using assms(1) by (simp add: lists_ok_def)
  have "LSet k 0 v db = (Inr (), ?db)"
    using assms(2,3) meta by (simp add: LSet_def lift_r_def lGetMeta_def wrap32_if_small)
  moreover have "lGetMeta ?db it (lEncodeMetaKey db k) = Inr (listInitialSeq, listInitialSeq, 0)" for it
    using meta ok by (simp add: lGetMeta_def it_Find_eq_sget store_simps)
  ultimately show ?thesis using assms(3,5) ok
    by (simp add: cmdLSET_def cmdLLEN_def cmdLINDEX_def lift_r_def LLen_def LIndex_def is_int64_def
        wrap32_if_small it_Find_eq_sget store_simps)
qed

theorem lset_missing_witness:
  "fst (cmdLSET node [''LSET'', ''l'', FormatInt 0, ''z''] db0) = Inr (SimpleString ''OK'')"
  using lset_missing [of db0 "''l''" "''z''" node "''LSET''"] lists_db0 by (auto simp: key_ok_def)

text \<open>
  C27: \<open>RPOPLPUSH src dst\<close> answers the last element of \<open>src\<close> and moves it to the front of \<open>dst\<close>,
  nil when \<open>src\<close> is empty; no other list changes. Rotating one list keeps a live expiry, also
  when the list has a single element.
\<close>

theorem rpoplpush_moves:
  assumes "list_inv db" "\<not> readonly db" "key_ok src" "key_ok dst"
    and "1 \<le> list_room (snd (RPop src db)) listHeadSeq dst"
  defines "vs \<equiv> list_of db src"
  shows "if vs = [] then cmdRPOPLPUSH m [c, src, dst] db = (Inr NilReply, db)
    else \<exists>db'. cmdRPOPLPUSH m [c, src, dst] db = (Inr (Bytes (Some (last vs))), db') \<and> list_inv db' \<and>
      list_of db' = (let L = (list_of db)(src := butlast vs) in L(dst := last vs # L dst)) \<and>
      (\<forall>t. src = dst \<and> expiry_of db ListType src = Some t \<and> 0 \<le> wall m \<and> wall m < t \<longrightarrow>
         expiry_of db' ListType src = Some t)"
proof -
  have inv: "lists_ok db" "ttl_ok db" using assms(1) by (simp_all add: list_inv_def)
  define t where "t = (if src = dst then case expiry_of db ListType src of None \<Rightarrow> -1
     | Some t \<Rightarrow> if t = 0 then -1 else if wrap64 (t - wall m) \<le> 0 then -1 else wrap64 (t - wall m) else -1)"
  have ttl: "(if src = dst then LTTL db (wall m) src else Inr (-1)) = Inr t"
    using assms(3,4) ttl_expiry [OF inv(2)] by (simp add: LTTL_def t_def checkKeySize_eq)
  obtain db1 where pop: "RPop src db = (Inr (if vs = [] then None else Some (last vs)), db1)"
      "list_popped db src (butlast vs) db1"
    using RPop_ok [OF inv assms(2,3)] unfolding vs_def by blast
  show ?thesis
  proof (cases "vs = []")
    case True
    then have "db1 = db" using pop(1) inv assms(2,3) RPop_empty [of db src] by (simp add: vs_def)
    then show ?thesis using True pop(1) ttl by (simp add: cmdRPOPLPUSH_def Let_def lift_r_def)
  next
    case False
    have db1: "lists_ok db1" "ttl_ok db1" "\<not> readonly db1" "list_of db1 = (list_of db)(src := butlast vs)"
      using pop(2) assms(2) by (auto simp: list_popped_def)
    obtain n db2 where push: "LPush dst [last vs] db1 = (Inr n, db2)" "lists_ok db2"
        "list_of db2 = (list_of db1)(dst := last vs # list_of db1 dst)"
      using LPush_ok [OF db1(1,3) assms(4), of "[last vs]"] assms(5) pop(1) by auto
    have inv2: "list_inv db2"
      using list_inv_push [of db1 "[last vs]" listHeadSeq dst] push(1) db1 by (simp add: list_inv_def LPush_def)
    let ?db3 = "if t \<noteq> -1 then snd (LExpire (wall m) src t db2) else db2"
    have "cmdRPOPLPUSH m [c, src, dst] db = (Inr (Bytes (Some (last vs))), ?db3)"
      using False pop(1) ttl push(1) by (simp add: cmdRPOPLPUSH_def Let_def lift_r_def)
    moreover have "list_inv ?db3" using inv2 list_inv_expire [OF inv2] by (auto simp: LExpire_def)
    moreover have "list_of ?db3 = list_of db2" using lists_LExpire [OF push(2) assms(3)] by auto
    moreover have "expiry_of ?db3 ListType src = Some u"
      if "src = dst" "expiry_of db ListType src = Some u" "0 \<le> wall m" "wall m < u" for u
    proof -
      have "is_int64 u" using that(2) by (auto simp: expiry_of_def)
      then have t: "t = u - wall m" using that by (simp add: t_def is_int64_def wrap64_id)
      moreover have "list_of db2 src \<noteq> []" using push(3) that(1) by simp
      moreover have "\<not> readonly db2" using push(1) db1(3) readonly_lpush by (metis LPush_def snd_conv)
      ultimately show ?thesis
        using LExpire_ok [OF push(2) assms(3), of t "wall m"] \<open>is_int64 u\<close> that(3,4) by (simp add: t)
    qed
    ultimately show ?thesis using False push(3) db1(4) by (auto simp: Let_def)
  qed
qed

theorem rpoplpush_moves_witness:
  "list_of (snd (cmdRPOPLPUSH node [''RPOPLPUSH'', ''l'', ''k''] (db_list ''l'' [''a'', ''b'']))) = (\<lambda>_. [])(''l'' := [''a''], ''k'' := [''b''])"
proof -
  let ?db = "db_list ''l'' [''a'', ''b'']"
  note ok = lists_db_list [of "''l''" "[''a'', ''b'']", simplified, OF key_ok_small(1)]
  have "list_popped ?db ''l'' [''a''] (snd (RPop ''l'' ?db))" using RPop_ok [OF ok(1-3), of "''l''"] ok(4) by (auto simp: key_ok_small)
  then have "1 \<le> list_room (snd (RPop ''l'' ?db)) listHeadSeq ''k''"
    using list_room_empty [of _ "''k''"] ok(4) by (auto simp: list_popped_def key_ok_small)
  then show ?thesis using rpoplpush_moves [of ?db "''l''" "''k''" node "''RPOPLPUSH''"] ok
    by (auto simp: key_ok_small list_inv_def)
qed

lemma list_inv_lexpire_at: "list_inv db \<Longrightarrow> list_inv (snd (lexpire_at m k t db))"
  by (simp add: lexpire_at_def list_inv_clear list_inv_expire LExpireAt_def)

lemma list_inv_RPOPLPUSH:
  assumes "list_inv db"
  shows "list_inv (snd (cmdRPOPLPUSH m args db))"
proof -
  have "list_inv (snd (case LPush dst [d] db' of (Inl e, db) \<Rightarrow> (Inl e, snd (RPush src [d] db))
      | (Inr _, db) \<Rightarrow> (Inr (Bytes (Some d)), if t \<noteq> -1 then snd (LExpire w src t db) else db)))"
    if "list_inv db'" for dst src d db' t w
    using list_inv_push [OF that, of "[d]" listHeadSeq dst]
    by (auto simp: LPush_def RPush_def LExpire_def list_inv_push list_inv_expire split: prod.split sum.split)
  moreover have "list_inv (snd (RPop src db))" for src
    using list_inv_pop [OF assms, of listTailSeq src] by (simp add: RPop_def)
  ultimately have "list_inv (snd (sbind (RPop src db) (\<lambda>data db. case data of None \<Rightarrow> (Inr NilReply, db)
      | Some d \<Rightarrow> (case LPush dst [d] db of (Inl e, db) \<Rightarrow> (Inl e, snd (RPush src [d] db))
          | (Inr _, db) \<Rightarrow> (Inr (Bytes (Some d)), if t \<noteq> -1 then snd (LExpire w src t db) else db)))))" for src dst t w
    by (intro inv_sbind [where P = list_inv]) (simp_all split: option.split)
  then show ?thesis unfolding cmdRPOPLPUSH_def Let_def
    using assms by (cases "length args \<noteq> 3") (simp_all only: if_True if_False snd_conv simp_thms inv_checked [where P = list_inv])
qed

text \<open>The words of an \<open>LTRIM\<close> that leaves a meta record without elements.\<close>

definition ltrim_off :: "string list \<Rightarrow> ledisdb \<Rightarrow> bool" where
  "ltrim_off args db \<longleftrightarrow> length args = 4 \<and>
     (case (StrInt64 (Some (args ! 2)), StrInt64 (Some (args ! 3))) of
        (Inr start, Inr stop) \<Rightarrow> trims_off db (args ! 1) start stop
      | _ \<Rightarrow> False)"

lemma list_inv_LTRIM: "list_inv db \<Longrightarrow> \<not> ltrim_off args db \<Longrightarrow> list_inv (snd (cmdLTRIM m args db))"
  by (auto simp: cmdLTRIM_def ltrim_off_def lift_r_def list_inv_trim sbind_def [of "(_, db)"] split: sum.splits)

text \<open>
  The list invariant: on any arguments, every list command except \<open>LSET\<close>, and \<open>LTRIM\<close> unless it cuts
  the list off before its head, keeps the records of
  all lists well formed (elements under consecutive sequence numbers that the meta record
  bounds, nothing else under the list tag) and the expiry records readable.
\<close>

theorem list_invariant:
  assumes "list_inv db" "length args < 2147483648"
  shows "(\<not> ltrim_off args db \<longrightarrow> list_inv (snd (cmdLTRIM m args db))) \<and> list_all (\<lambda>h. list_inv (snd (h m args db)))
    [cmdLKEYEXISTS, cmdLTTL, cmdLEXPIREAT, cmdLEXPIRE, cmdLMCLEAR, cmdLCLEAR, cmdRPOPLPUSH,
     cmdLLEN, cmdLRANGE, cmdRPOP, cmdLPUSH, cmdLINDEX, cmdLPOP, cmdRPUSH]"
proof -
  have "list_inv (snd (lpush k w (drop 2 args) db))" if "w \<in> {listHeadSeq, listTailSeq}" for k w
    using list_inv_push [OF assms(1) _ that] assms(2) by simp
  then show ?thesis using assms(1)
    by (simp add: list_inv_LTRIM cmdLKEYEXISTS_def cmdLTTL_def cmdLEXPIREAT_def cmdLEXPIRE_def cmdLMCLEAR_def
        cmdLCLEAR_def cmdLLEN_def cmdLRANGE_def cmdRPOP_def cmdLPUSH_def cmdLINDEX_def cmdLPOP_def cmdRPUSH_def
        inv_checked list_inv_lexpire_at list_inv_mclear list_inv_clear list_inv_RPOPLPUSH
        RPop_def LPop_def list_inv_pop LPush_def RPush_def)
qed

theorem list_invariant_witness:
  "list_inv (snd (cmdRPOPLPUSH node [''RPOPLPUSH'', ''l'', ''k''] db0))"
  using list_invariant [of db0 "[''RPOPLPUSH'', ''l'', ''k'']" node] lists_db0(3) by simp

end
