(* ===== verification/Members.thy ===== *)
theory Members
  imports LedisCore
begin

text \<open>
  What hashes, sets and the member records of sorted sets have in common: one record per
  member under the container's tag, and one record with the number of members. The locale
  \<open>member_layout\<close> is the contract of a key layout; its lemmas say how batches of member records
  act on the map of members, and what a scan over the members of a key visits.
\<close>

section \<open>Operations the containers share\<close>

text \<open>\<open>hIncrSize\<close>, \<open>sIncrSize\<close> and \<open>zIncrSize\<close>: the new size and what they add to the batch.\<close>

definition incr_size :: "char \<Rightarrow> bytes \<Rightarrow> ledisdb \<Rightarrow> bytes \<Rightarrow> int \<Rightarrow> (int \<times> bop list) result" where
  "incr_size dataType sk db key delta =
     rbind (Int64 (db_get db sk)) (\<lambda>size.
       let size = wrap64 (size + delta)
       in if size \<le> 0 then Inr (0, BDel sk # rmExpire_ops db dataType key)
          else Inr (size, [BPut sk (PutInt64 size)]))"

text \<open>The loop over \<open>RangeLimitIterator(start, stop, store.RangeROpen, 0, -1)\<close>.\<close>

definition scan_range :: "ledisdb \<Rightarrow> bytes \<Rightarrow> bytes \<Rightarrow> store" where
  "scan_range db start stop = rangeLimitIterator (bucket db) (Some start) (Some stop) RangeROpen 0 (-1) False"

section \<open>The members of a key\<close>

definition member_key :: "char \<Rightarrow> ledisdb \<Rightarrow> bytes \<Rightarrow> bytes \<Rightarrow> bytes" where
  "member_key T db k m = elem_key db T k (CHR '':'' # m)"

definition mem_of :: "char \<Rightarrow> ledisdb \<Rightarrow> bytes \<Rightarrow> bytes \<Rightarrow> bytes option" where
  "mem_of T db k m = (if key_ok k \<and> key_ok m then db_get db (member_key T db k m) else None)"

definition size_rec :: "nat \<Rightarrow> bytes option" where
  "size_rec n = (if n = 0 then None else Some (PutInt64 (int n)))"

definition mem_ok :: "char \<Rightarrow> char \<Rightarrow> ledisdb \<Rightarrow> bool" where
  "mem_ok T S db \<longleftrightarrow> store_ok (bucket db) \<and>
     (\<forall>r. db_get db (indexVarBuf db @ T # r) \<noteq> None \<longrightarrow>
        (\<exists>k m. key_ok k \<and> key_ok m \<and> indexVarBuf db @ T # r = member_key T db k m)) \<and>
     (\<forall>k. key_ok k \<longrightarrow> db_get db (indexVarBuf db @ S # k) = size_rec (card (dom (mem_of T db k))))"

text \<open>Fewer than \<open>2\<^sup>6\<^sup>3\<close> records, also after \<open>n\<close> more.\<close>

definition room :: "nat \<Rightarrow> ledisdb \<Rightarrow> bool" where
  "room n db \<longleftrightarrow> length (bucket db) + n < 9223372036854775808"

lemma member_key_inj [codec]:
  "key_ok k \<Longrightarrow> key_ok k' \<Longrightarrow> member_key T db k m = member_key T' db k' m' \<longleftrightarrow> T = T' \<and> k = k' \<and> m = m'"
  by (auto simp: member_key_def elem_key_inj key_ok_length)

lemma member_key_update [simp]:
  "member_key T (db\<lparr>bucket := s\<rparr>) = member_key T db"
  "member_key T (setNextCheckTime w f db) = member_key T db"
  by (simp_all add: member_key_def elem_key_def fun_eq_iff)

lemma dom_mem_of_ok: "m \<in> dom (mem_of T db k) \<Longrightarrow> key_ok m"
  by (auto simp: mem_of_def split: if_splits)

lemma finite_dom_mem_of [simp]: "finite (dom (mem_of T db k))"
  and card_dom_mem_of: "card (dom (mem_of T db k)) \<le> length (bucket db)"
proof -
  have inj: "inj_on (member_key T db k) (dom (mem_of T db k))"
    by (auto simp: inj_on_def mem_of_def codec split: if_splits)
  have sub: "member_key T db k ` dom (mem_of T db k) \<subseteq> set (map fst (bucket db))"
  proof
    fix x assume "x \<in> member_key T db k ` dom (mem_of T db k)"
    then obtain v where "map_of (bucket db) x = Some v" by (auto simp: mem_of_def sget_def split: if_splits)
    then show "x \<in> set (map fst (bucket db))" using map_of_SomeD [of "bucket db" x v] by force
  qed
  show "finite (dom (mem_of T db k))"
    using finite_subset [OF sub] finite_imageD [OF _ inj] by blast
  show "card (dom (mem_of T db k)) \<le> length (bucket db)"
    using card_inj_on_le [OF inj sub] card_length [of "map fst (bucket db)"] by simp
qed

definition mem_op :: "char \<Rightarrow> char \<Rightarrow> ledisdb \<Rightarrow> bytes \<Rightarrow> bop \<Rightarrow> bool" where
  "mem_op T S db k op \<longleftrightarrow>
     (\<exists>m. key_ok m \<and> op_key op = member_key T db k m) \<or> op_key op = indexVarBuf db @ S # k \<or>
     (\<exists>w. op_key op = expEncodeTimeKey db T k w) \<or> op_key op = expEncodeMetaKey db T k"

section \<open>The contract of a layout\<close>

locale member_layout =
  fixes enc :: "ledisdb \<Rightarrow> bytes \<Rightarrow> bytes \<Rightarrow> bytes"
    and dec :: "ledisdb \<Rightarrow> bytes \<Rightarrow> (bytes \<times> bytes) result"
    and sk :: "ledisdb \<Rightarrow> bytes \<Rightarrow> bytes"
    and T S :: char
  assumes enc: "enc db k m = member_key T db k m"
    and dec_enc: "length k < 65536 \<Longrightarrow> dec db (enc db k m) = Inr (k, m)"
    and sk: "sk db k = indexVarBuf db @ S # k"
    and tags: "T \<noteq> S" "type_of_tag T = Some T" "type_of_tag S = Some T"
begin

lemma exp_tags: "T \<noteq> ExpMetaType" "T \<noteq> ExpTimeType" "S \<noteq> ExpMetaType" "S \<noteq> ExpTimeType"
  using tags(2,3) by (auto simp: type_of_tag_def)

lemma keys_apart [simp]:
  "member_key T db k m \<noteq> sk db k'" "sk db k' \<noteq> member_key T db k m"
  "member_key T db k m \<noteq> expEncodeMetaKey db dt k'" "member_key T db k m \<noteq> expEncodeTimeKey db dt k' w"
  "expEncodeMetaKey db dt k' \<noteq> member_key T db k m" "expEncodeTimeKey db dt k' w \<noteq> member_key T db k m"
  "sk db k \<noteq> expEncodeMetaKey db dt k'" "sk db k \<noteq> expEncodeTimeKey db dt k' w"
  "expEncodeMetaKey db dt k' \<noteq> sk db k" "expEncodeTimeKey db dt k' w \<noteq> sk db k"
  using tags(1) exp_tags by (auto simp: member_key_def elem_key_def sk exp_key_defs)

lemma sk_inj [codec]: "sk db k = sk db k' \<longleftrightarrow> k = k'"
  by (simp add: sk)

lemma sk_update [simp]:
  "sk (db\<lparr>bucket := s\<rparr>) = sk db" "sk (setNextCheckTime w f db) = sk db"
  by (simp_all add: sk fun_eq_iff)

lemma owner_member [simp]: "owner db (member_key T db k m) = Some T" "owner db (sk db k) = Some T"
  using exp_tags tags by (simp_all add: owner_def owner_tail_def member_key_def elem_key_def sk)

lemma mem_op_iff: "mem_op T S db k op \<longleftrightarrow>
   (\<exists>m. key_ok m \<and> op_key op = member_key T db k m) \<or> op_key op = sk db k \<or>
   (\<exists>w. op_key op = expEncodeTimeKey db T k w) \<or> op_key op = expEncodeMetaKey db T k"
  by (simp add: mem_op_def sk)

lemma mem_op_simps [simp]:
  "key_ok m \<Longrightarrow> mem_op T S db k (BPut (member_key T db k m) v)"
  "key_ok m \<Longrightarrow> mem_op T S db k (BDel (member_key T db k m))"
  "mem_op T S db k (BPut (sk db k) v)" "mem_op T S db k (BDel (sk db k))"
  by (auto simp: mem_op_iff)

lemma mem_op_rmExpire: "op \<in> set (rmExpire_ops db T k) \<Longrightarrow> mem_op T S db k op"
  using rmExpire_op_keys [of op db T k] by (auto simp: mem_op_iff)

lemma mem_op_owner: "mem_op T S db k op \<Longrightarrow> owner db (op_key op) = Some T"
  by (auto simp: mem_op_iff)

lemma mem_ok_size: "mem_ok T S db \<Longrightarrow> key_ok k \<Longrightarrow> db_get db (sk db k) = size_rec (card (dom (mem_of T db k)))"
  by (simp add: mem_ok_def sk)

lemma Int64_size:
  assumes "mem_ok T S db" "key_ok k" "room n db"
  shows "Int64 (db_get db (sk db k)) = Inr (int (card (dom (mem_of T db k))))"
  using card_dom_mem_of [of T db k] assms(3)
  by (simp add: mem_ok_size [OF assms(1,2)] size_rec_def room_def wrap64_id is_int64_def)

text \<open>
  A change to the records of key \<open>k\<close> that leaves the members \<open>M\<close> and the matching size keeps
  the container well formed and updates the map of members at \<open>k\<close>.
\<close>

lemma members_update:
  assumes ok: "mem_ok T S db" and k: "key_ok k"
    and ops: "\<forall>op \<in> set ops. mem_op T S db k op"
    and M: "\<And>m. key_ok m \<Longrightarrow> sget (apply_batch ops (bucket db)) (member_key T db k m) = M m"
    and dom: "\<And>m. \<not> key_ok m \<Longrightarrow> M m = None"
    and size: "sget (apply_batch ops (bucket db)) (sk db k) = size_rec (card (dom M))"
  shows "mem_ok T S (db\<lparr>bucket := apply_batch ops (bucket db)\<rparr>) \<and>
    mem_of T (db\<lparr>bucket := apply_batch ops (bucket db)\<rparr>) = (mem_of T db)(k := M)"
proof -
  let ?db = "db\<lparr>bucket := apply_batch ops (bucket db)\<rparr>"
  have frame: "db_get ?db x = db_get db x" if "\<And>op. mem_op T S db k op \<Longrightarrow> op_key op \<noteq> x" for x
    using ops that by (auto intro!: sget_apply_batch_other)
  have other: "db_get ?db (member_key T db k' m) = db_get db (member_key T db k' m)"
    "db_get ?db (sk db k') = db_get db (sk db k')" if "key_ok k'" "k' \<noteq> k" for k' m
    using that k by (intro frame; auto simp: mem_op_iff codec)+
  have mem: "mem_of T ?db = (mem_of T db)(k := M)"
    using M dom k other by (auto simp: mem_of_def fun_eq_iff)
  have "db_get ?db (sk db k') = size_rec (card (dom (mem_of T ?db k')))" if "key_ok k'" for k'
    using size mem other(2) [OF that] mem_ok_size [OF ok that] by auto
  moreover have "\<exists>k m. key_ok k \<and> key_ok m \<and> indexVarBuf db @ T # r = member_key T db k m"
    if "db_get ?db (indexVarBuf db @ T # r) \<noteq> None" for r
  proof (cases "db_get db (indexVarBuf db @ T # r) = None")
    case True
    have "sget (apply_batch ops (bucket db)) (indexVarBuf db @ T # r) \<noteq> None" using that by simp
    with True have "indexVarBuf db @ T # r \<in> op_key ` set ops" using sget_apply_batch_cases by blast
    then obtain op where "op \<in> set ops" "op_key op = indexVarBuf db @ T # r" by (metis imageE)
    moreover have "indexVarBuf db @ T # r \<noteq> sk db k" "indexVarBuf db @ T # r \<noteq> expEncodeMetaKey db T k"
      "indexVarBuf db @ T # r \<noteq> expEncodeTimeKey db T k w" for w
      using tags(1) exp_tags by (simp_all add: sk exp_key_defs)
    ultimately show ?thesis using ops k by (metis mem_op_iff)
  qed (use ok in \<open>auto simp: mem_ok_def\<close>)
  ultimately show ?thesis using ok mem by (simp add: mem_ok_def sk)
qed

end

definition size_ops :: "char \<Rightarrow> bytes \<Rightarrow> ledisdb \<Rightarrow> bytes \<Rightarrow> int \<Rightarrow> bop list" where
  "size_ops dataType sk db key n =
     (if n \<le> 0 then BDel sk # rmExpire_ops db dataType key else [BPut sk (PutInt64 n)])"

definition member_ops :: "char \<Rightarrow> ledisdb \<Rightarrow> bytes \<Rightarrow> bop list \<Rightarrow> bool" where
  "member_ops T db k ops \<longleftrightarrow> (\<forall>op \<in> set ops. \<exists>m. key_ok m \<and> op_key op = member_key T db k m)"

lemma member_ops_simps [simp]:
  "member_ops T db k []"
  "member_ops T db k (op # ops) \<longleftrightarrow> (\<exists>m. key_ok m \<and> op_key op = member_key T db k m) \<and> member_ops T db k ops"
  "member_ops T db k (xs @ ys) \<longleftrightarrow> member_ops T db k xs \<and> member_ops T db k ys"
  by (auto simp: member_ops_def)

lemma mem_of_nc [simp]:
  "mem_of T (setNextCheckTime w f db) = mem_of T db" "mem_ok T S (setNextCheckTime w f db) = mem_ok T S db"
proof -
  show mem: "mem_of T (setNextCheckTime w f db) = mem_of T db" by (simp add: mem_of_def fun_eq_iff)
  show "mem_ok T S (setNextCheckTime w f db) = mem_ok T S db" by (simp add: mem_ok_def mem)
qed

context member_layout
begin

lemma incr_size_eq:
  assumes "mem_ok T S db" "key_ok k" "room n db" "\<bar>d\<bar> \<le> int n"
  shows "incr_size T (sk db k) db k d = Inr (max 0 (int (card (dom (mem_of T db k))) + d),
    size_ops T (sk db k) db k (int (card (dom (mem_of T db k))) + d))"
proof -
  have "is_int64 (int (card (dom (mem_of T db k))) + d)"
    using card_dom_mem_of [of T db k] assms(3,4) by (auto simp: room_def is_int64_def)
  then show ?thesis using Int64_size [OF assms(1-3)]
    by (simp add: incr_size_def size_ops_def Let_def max_def)
qed

lemma size_ops_key: "op \<in> set (size_ops T (sk db k) db k n) \<Longrightarrow> mem_op T S db k op"
  by (auto simp: size_ops_def mem_op_rmExpire split: if_splits)

lemma size_ops_sget [simp]:
  "sget (apply_batch (size_ops T (sk db k) db k n) st) (member_key T db k' m) = sget st (member_key T db k' m)"
  "sget (apply_batch (size_ops T (sk db k) db k n) st) (sk db k) = size_rec (nat n)"
  by (auto simp: size_ops_def size_rec_def store_simps sget_rmExpire_other)

lemma member_ops_sget [simp]:
  "member_ops T db k ops \<Longrightarrow> sget (apply_batch ops st) (sk db k') = sget st (sk db k')"
  "member_ops T db k ops \<Longrightarrow> sget (apply_batch ops st) (expEncodeMetaKey db dt k') = sget st (expEncodeMetaKey db dt k')"
  by (rule sget_apply_batch_other; force simp: member_ops_def)+

lemma member_ops_mem_op: "member_ops T db k ops \<Longrightarrow> \<forall>op \<in> set ops. mem_op T S db k op"
  by (auto simp: member_ops_def mem_op_iff)

lemma member_commit:
  assumes ok: "mem_ok T S db" and k: "key_ok k" and pre: "member_ops T db k pre" and post: "member_ops T db k post"
    and M: "\<And>m. key_ok m \<Longrightarrow> sget (apply_batch post (apply_batch pre (bucket db))) (member_key T db k m) = M m"
    and dom: "\<And>m. \<not> key_ok m \<Longrightarrow> M m = None"
    and n: "n = int (card (dom M))"
  defines "db' \<equiv> db\<lparr>bucket := apply_batch (pre @ size_ops T (sk db k) db k n @ post) (bucket db)\<rparr>"
  shows "mem_ok T S db'" "mem_of T db' = (mem_of T db)(k := M)"
proof -
  let ?b = "apply_batch (pre @ size_ops T (sk db k) db k n @ post) (bucket db)"
  have swap: "sget ?b (member_key T db k m) = sget (apply_batch post (apply_batch pre (bucket db))) (member_key T db k m)" for m
    by (simp add: sget_apply_batch_cong [where s = "apply_batch (size_ops T (sk db k) db k n) (apply_batch pre (bucket db))"
          and t = "apply_batch pre (bucket db)"])
  have "mem_ok T S db' \<and> mem_of T db' = (mem_of T db)(k := M)" unfolding db'_def
  proof (rule members_update [OF ok k])
    show "\<forall>op \<in> set (pre @ size_ops T (sk db k) db k n @ post). mem_op T S db k op"
      using member_ops_mem_op [OF pre] member_ops_mem_op [OF post] size_ops_key by auto
    show "sget ?b (member_key T db k m) = M m" if "key_ok m" for m using M [OF that] swap by simp
    show "sget ?b (sk db k) = size_rec (card (dom M))" using pre post n by simp
  qed (rule dom)
  then show "mem_ok T S db'" "mem_of T db' = (mem_of T db)(k := M)" by blast+
qed

lemma member_commit_expiry:
  fixes n :: int
  assumes ttl: "ttl_ok db" and pre: "member_ops T db k pre" and post: "member_ops T db k post"
  defines "db' \<equiv> db\<lparr>bucket := apply_batch (pre @ size_ops T (sk db k) db k n @ post) (bucket db)\<rparr>"
  shows "ttl_ok db'" "expiry_of db' T = (if n \<le> 0 then (expiry_of db T)(k := None) else expiry_of db T)"
proof -
  have get: "db_get db' (expEncodeMetaKey db dt k') =
      (if n \<le> 0 \<and> dt = T \<and> k' = k then None else db_get db (expEncodeMetaKey db dt k'))" for dt k'
    using pre post ttl by (simp add: db'_def size_ops_def sget_rmExpire_meta store_simps)
  then show "ttl_ok db'" by (intro ttl_ok_cong [OF ttl]) (simp_all add: db'_def)
  show "expiry_of db' T = (if n \<le> 0 then (expiry_of db T)(k := None) else expiry_of db T)"
    using get by (auto simp: expiry_of_def fun_eq_iff db'_def)
qed

lemma sget_member_puts:
  "key_ok k \<Longrightarrow> \<forall>p \<in> set fvs. key_ok (fst p) \<Longrightarrow> key_ok m \<Longrightarrow>
     sget (apply_batch (map (\<lambda>(f, v). BPut (member_key T db k f) v) fvs) st) (member_key T db k m)
       = (case map_of (rev fvs) m of None \<Rightarrow> sget st (member_key T db k m) | Some v \<Rightarrow> Some v)"
proof (induction fvs arbitrary: st)
  case (Cons p fvs)
  then show ?case
    by (cases p) (auto simp: store_simps codec map_add_def [of _ "map_of (rev fvs)"] map_of_append split: option.splits)
qed simp

text \<open>A scan over the members of a key visits them in order.\<close>

lemma member_prefix: "member_key T db k m = member_key T db k [] @ m"
  by (simp add: member_key_def elem_key_def)

lemma scan_members:
  assumes "mem_ok T S db" "key_ok k"
  shows "scan_range db (member_key T db k []) (butlast (member_key T db k []) @ '';'')
    = map (\<lambda>m. (member_key T db k m, the (mem_of T db k m))) (sorted_list_of_set (dom (mem_of T db k)))"
proof -
  let ?p = "indexVarBuf db @ T # be_bytes 2 (length k) @ k" and ?ms = "sorted_list_of_set (dom (mem_of T db k))"
  have ok: "store_ok (bucket db)" using assms(1) by (simp add: mem_ok_def)
  have p: "member_key T db k m = ?p @ CHR '':'' # m" for m by (simp add: member_key_def elem_key_def)
  have adj: "CHR '':'' < e \<Longrightarrow> CHR '';'' \<le> e" for e :: char by (simp add: less_char_def less_eq_char_def)
  have range: "in_range (Some (member_key T db k [])) (Some (butlast (member_key T db k []) @ '';'')) RangeROpen x
      \<longleftrightarrow> (\<exists>m. x = member_key T db k m)" for x
    using prefix_range [of "CHR '':''" "CHR '';''" ?p x, OF _ adj] by (simp add: in_range_def p butlast_append less_char_def)
  have mem: "x \<in> set (map (member_key T db k) ?ms) \<longleftrightarrow> (\<exists>m. x = member_key T db k m) \<and> db_get db x \<noteq> None" for x
  proof
    assume "(\<exists>m. x = member_key T db k m) \<and> db_get db x \<noteq> None"
    then obtain m where m: "x = member_key T db k m" "db_get db x \<noteq> None" by blast
    then obtain k' m' where "key_ok k'" "key_ok m'" "x = member_key T db k' m'"
      using assms(1) by (auto simp: mem_ok_def p)
    then have "m \<in> dom (mem_of T db k)" using m assms(2) by (auto simp: mem_of_def codec)
    then show "x \<in> set (map (member_key T db k) ?ms)" using m(1) by simp
  qed (auto simp: mem_of_def split: if_splits)
  have "filter (\<lambda>q. \<exists>m. fst q = member_key T db k m) (bucket db)
      = map (\<lambda>x. (x, the (db_get db x))) (map (member_key T db k) ?ms)"
    using mem by (intro filter_store_eq [OF ok]) (simp_all add: p sorted_wrt_map)
  moreover have "\<forall>m \<in> set ?ms. db_get db (member_key T db k m) = mem_of T db k m"
    by (auto simp: mem_of_def split: if_splits)
  ultimately show ?thesis by (simp add: scan_range_def rangeLimitIterator_forward [OF ok] range)
qed

text \<open>Removing all members of several keys at once.\<close>

lemma mem_op_apart:
  assumes "mem_op T S db k' (BDel x)" "key_ok k" "key_ok k'" "k \<noteq> k'"
  shows "x \<noteq> member_key T db k m" "x \<noteq> sk db k"
  using assms by (auto simp: mem_op_iff codec)

lemma members_clear:
  assumes ok: "mem_ok T S db" and ks: "\<forall>k \<in> set ks. key_ok k"
    and all: "\<And>k m. k \<in> set ks \<Longrightarrow> m \<in> dom (mem_of T db k) \<Longrightarrow> member_key T db k m \<in> set xs"
    and sizes: "\<And>k. k \<in> set ks \<Longrightarrow> sk db k \<in> set xs"
    and own: "\<And>x. x \<in> set xs \<Longrightarrow> \<exists>k \<in> set ks. mem_op T S db k (BDel x)"
  defines "db' \<equiv> db\<lparr>bucket := apply_batch (map BDel xs) (bucket db)\<rparr>"
  shows "mem_ok T S db'" "mem_of T db' = (\<lambda>k. if k \<in> set ks then Map.empty else mem_of T db k)"
proof -
  have get: "db_get db' x = (if x \<in> set xs then None else db_get db x)" for x
    by (simp add: db'_def sget_apply_batch_deletes)
  have other: "member_key T db k m \<notin> set xs" "sk db k \<notin> set xs" if "key_ok k" "k \<notin> set ks" for k m
    using own ks that mem_op_apart by metis+
  have gone: "db_get db (member_key T db k m) = None" if "k \<in> set ks" "key_ok m" "member_key T db k m \<notin> set xs" for k m
    using all [OF that(1), of m] that ks by (cases "db_get db (member_key T db k m)") (auto simp: mem_of_def dom_def)
  show mem: "mem_of T db' = (\<lambda>k. if k \<in> set ks then Map.empty else mem_of T db k)"
    using gone other by (auto simp: mem_of_def db'_def get [unfolded db'_def, simplified] fun_eq_iff)
  have "db_get db' (sk db k) = size_rec (card (dom (mem_of T db' k)))" if "key_ok k" for k
    using mem sizes other(2) [OF that] mem_ok_size [OF ok that] by (auto simp: get size_rec_def)
  then show "mem_ok T S db'" using ok by (auto simp: mem_ok_def sk db'_def get [unfolded db'_def, simplified])
qed

text \<open>Expiry and the operations of the other data types.\<close>

lemma members_expireAt:
  assumes "mem_ok T S db" "key_ok k"
  shows "mem_ok T S (snd (commit_expireAt T k w db)) \<and> mem_of T (snd (commit_expireAt T k w db)) = mem_of T db"
proof (cases "readonly db")
  case True
  then show ?thesis using assms by (simp add: commit_expireAt_def)
next
  case False
  let ?d = "setNextCheckTime w False db" and ?ops = "expireAt_ops db T k w"
  have "sget (apply_batch ?ops st) (member_key T db k m) = sget st (member_key T db k m)"
    "sget (apply_batch ?ops st) (sk db k) = sget st (sk db k)" for st m
    by (simp_all add: expireAt_ops_def Let_def store_simps)
  moreover have "\<forall>op \<in> set ?ops. mem_op T S ?d k op"
    by (auto simp: expireAt_ops_def Let_def mem_op_def)
  ultimately show ?thesis
    using members_update [of ?d k ?ops "mem_of T db k"] assms False
    by (simp add: commit_expireAt_def mem_of_def mem_ok_size fun_upd_idem)
qed

lemma members_keeps:
  assumes "keeps T' db db'" "T' \<noteq> T"
  shows "mem_of T db' = mem_of T db" "mem_ok T S db \<Longrightarrow> mem_ok T S db'"
proof -
  have idx: "indexVarBuf db' = indexVarBuf db" "store_ok (bucket db) \<Longrightarrow> store_ok (bucket db')"
    and get: "\<And>x. owner db x = Some T \<Longrightarrow> db_get db' x = db_get db x" using assms by (auto simp: keeps_def)
  have mk: "member_key T db' = member_key T db" by (simp add: member_key_def elem_key_def idx fun_eq_iff)
  then show mem: "mem_of T db' = mem_of T db" by (simp add: mem_of_def get fun_eq_iff)
  have "owner db (indexVarBuf db @ T # r) = Some T" "owner db (indexVarBuf db @ S # r) = Some T" for r
    using exp_tags tags by (simp_all add: owner_def owner_tail_def)
  then show "mem_ok T S db \<Longrightarrow> mem_ok T S db'" by (simp add: mem_ok_def idx get mem mk)
qed

lemma mem_ok_db0: "mem_ok T S db0" "mem_of T db0 k = Map.empty"
  by (simp_all add: mem_ok_def mem_of_def size_rec_def fun_eq_iff)

end

text \<open>What a successful writing operation on one key does.\<close>

definition mem_step :: "char \<Rightarrow> char \<Rightarrow> ledisdb \<Rightarrow> bytes \<Rightarrow> (bytes \<Rightarrow> bytes option) \<Rightarrow> ledisdb \<Rightarrow> bool" where
  "mem_step T S db k M db' \<longleftrightarrow> mem_ok T S db' \<and> ttl_ok db' \<and> readonly db' = readonly db \<and>
     mem_of T db' = (mem_of T db)(k := M) \<and>
     expiry_of db' T = (if M = Map.empty then (expiry_of db T)(k := None) else expiry_of db T)"

context member_layout
begin

lemma member_step:
  assumes "mem_ok T S db" "ttl_ok db" "key_ok k" "member_ops T db k pre" "member_ops T db k post"
    and "\<And>m. key_ok m \<Longrightarrow> sget (apply_batch post (apply_batch pre (bucket db))) (member_key T db k m) = M m"
    and "\<And>m. \<not> key_ok m \<Longrightarrow> M m = None" "n = int (card (dom M))"
  shows "mem_step T S db k M (db\<lparr>bucket := apply_batch (pre @ size_ops T (sk db k) db k n @ post) (bucket db)\<rparr>)"
proof -
  let ?db = "db\<lparr>bucket := apply_batch (pre @ size_ops T (sk db k) db k n @ post) (bucket db)\<rparr>"
  note c = member_commit [OF assms(1,3-8)] member_commit_expiry [OF assms(2,4,5), of n]
  have "mem_of T ?db k = M" using c(2) by simp
  then have "finite (dom M)" using finite_dom_mem_of [of T ?db k] by metis
  then have "n \<le> 0 \<longleftrightarrow> M = Map.empty" using assms(8) by simp
  then show ?thesis using c by (simp add: mem_step_def)
qed

lemma member_overwrite:
  assumes "mem_ok T S db" "ttl_ok db" "key_ok k" "key_ok m" "mem_of T db k m \<noteq> None"
  shows "mem_step T S db k ((mem_of T db k)(m \<mapsto> v)) (db\<lparr>bucket := sput (member_key T db k m) v (bucket db)\<rparr>)"
proof -
  let ?ops = "[BPut (member_key T db k m) v]" and ?M = "(mem_of T db k)(m \<mapsto> v)"
  have "dom ?M = dom (mem_of T db k)" using assms(5) by auto
  then have "mem_ok T S (db\<lparr>bucket := apply_batch ?ops (bucket db)\<rparr>) \<and>
      mem_of T (db\<lparr>bucket := apply_batch ?ops (bucket db)\<rparr>) = (mem_of T db)(k := ?M)"
    using assms(3,4) by (intro members_update [OF assms(1,3)])
      (auto simp: store_simps codec mem_of_def mem_ok_size [OF assms(1,3)])
  moreover have e: "exp_same db (db\<lparr>bucket := sput (member_key T db k m) v (bucket db)\<rparr>)"
    by (simp add: exp_same_def store_simps)
  ultimately show ?thesis using assms(2) by (simp add: mem_step_def exp_sameD [OF e])
qed

end

lemma mem_of_key: "key_ok k \<Longrightarrow> key_ok m \<Longrightarrow> db_get db (member_key T db k m) = mem_of T db k m"
  by (simp add: mem_of_def)

lemma mem_of_not_ok [simp]: "\<not> key_ok m \<Longrightarrow> mem_of T db k m = None" "\<not> key_ok k \<Longrightarrow> mem_of T db k = Map.empty"
  by (simp_all add: mem_of_def fun_eq_iff)

lemma mem_stepD:
  assumes "mem_step T S db k M db'"
  shows "mem_ok T S db'" "ttl_ok db'" "readonly db' = readonly db" "mem_of T db' = (mem_of T db)(k := M)"
    "expiry_of db' T = (if M = Map.empty then (expiry_of db T)(k := None) else expiry_of db T)"
  using assms by (simp_all add: mem_step_def)

lemma card_dom_upd: "finite (dom M) \<Longrightarrow> M m = None \<Longrightarrow> card (dom (M(m \<mapsto> v))) = Suc (card (dom M))"
  by (simp add: card_insert_if domIff)

lemma room_mono: "room n db \<Longrightarrow> m \<le> n \<Longrightarrow> room m db"
  by (simp add: room_def)

text \<open>The keys that clearing a container deletes: its members in order, and its size record.\<close>

definition clear_keys :: "char \<Rightarrow> bytes \<Rightarrow> ledisdb \<Rightarrow> bytes \<Rightarrow> bytes list" where
  "clear_keys T sk db k = map (member_key T db k) (sorted_list_of_set (dom (mem_of T db k))) @ [sk]"

context member_layout
begin

lemma add_step:
  assumes "mem_ok T S db" "ttl_ok db" "key_ok k" "\<forall>p \<in> set fvs. key_ok (fst p)" "distinct (map fst fvs)"
  shows "mem_step T S db k (mem_of T db k ++ map_of fvs) (db\<lparr>bucket := apply_batch
    (map (\<lambda>(f, v). BPut (member_key T db k f) v) fvs @ size_ops T (sk db k) db k
       (int (card (dom (mem_of T db k))) + int (length (filter (\<lambda>p. mem_of T db k (fst p) = None) fvs)))) (bucket db)\<rparr>)"
proof -
  let ?M = "mem_of T db k" and ?pre = "map (\<lambda>(f, v). BPut (member_key T db k f) v) fvs"
  let ?new = "filter (\<lambda>p. ?M (fst p) = None) fvs"
  have rev: "map_of (rev fvs) = map_of fvs" using assms(5) by (subst map_of_inject_set) (simp_all add: rev_map [symmetric])
  have "length ?new = card (fst ` set ?new)"
    using assms(5) distinct_card [of "map fst ?new"] by (simp add: distinct_map_filter)
  moreover have "dom (?M ++ map_of fvs) = dom ?M \<union> fst ` set ?new"
    by (auto simp: dom_map_of_conv_image_fst image_iff domIff)
  moreover have "dom ?M \<inter> fst ` set ?new = {}" by auto
  ultimately have n: "int (card (dom ?M)) + int (length ?new) = int (card (dom (?M ++ map_of fvs)))"
    by (simp add: card_Un_disjoint)
  have "mem_step T S db k (?M ++ map_of fvs) (db\<lparr>bucket := apply_batch
      (?pre @ size_ops T (sk db k) db k (int (card (dom ?M)) + int (length ?new)) @ []) (bucket db)\<rparr>)"
  proof (rule member_step [OF assms(1-3)])
    show "member_ops T db k ?pre" using assms(4) by (auto simp: member_ops_def)
    show "sget (apply_batch [] (apply_batch ?pre (bucket db))) (member_key T db k m) = (?M ++ map_of fvs) m"
      if "key_ok m" for m
      using sget_member_puts [OF assms(3,4) that] that assms(3) rev
      by (simp add: mem_of_key map_add_def split: option.split)
    show "(?M ++ map_of fvs) m = None" if "\<not> key_ok m" for m
      using that assms(4) by (fastforce simp: map_add_None map_of_eq_None_iff)
  qed (simp_all add: n)
  then show ?thesis by simp
qed

lemma remove_step:
  assumes "mem_ok T S db" "ttl_ok db" "key_ok k" "\<forall>f \<in> set fs. key_ok f" "distinct fs"
  shows "mem_step T S db k (mem_of T db k |` (- set fs)) (db\<lparr>bucket := apply_batch
    (map BDel (map (member_key T db k) (filter (\<lambda>f. mem_of T db k f \<noteq> None) fs)) @ size_ops T (sk db k) db k
       (int (card (dom (mem_of T db k))) - int (length (filter (\<lambda>f. mem_of T db k f \<noteq> None) fs)))) (bucket db)\<rparr>)"
proof -
  let ?M = "mem_of T db k" and ?ds = "filter (\<lambda>f. mem_of T db k f \<noteq> None) fs"
  let ?pre = "map BDel (map (member_key T db k) ?ds)"
  have "length ?ds = card (set ?ds)" using assms(5) distinct_card [of ?ds] by simp
  moreover have "dom (?M |` (- set fs)) = dom ?M - set ?ds" by (auto simp: restrict_map_def split: if_splits)
  moreover have "set ?ds \<subseteq> dom ?M" by auto
  ultimately have n: "int (card (dom ?M)) - int (length ?ds) = int (card (dom (?M |` (- set fs))))"
    using card_Diff_subset [of "set ?ds" "dom ?M"] card_mono [of "dom ?M" "set ?ds"] by simp
  have "mem_step T S db k (?M |` (- set fs)) (db\<lparr>bucket := apply_batch
      (?pre @ size_ops T (sk db k) db k (int (card (dom ?M)) - int (length ?ds)) @ []) (bucket db)\<rparr>)"
  proof (rule member_step [OF assms(1-3)])
    show "member_ops T db k ?pre" using assms(4) by (auto simp: member_ops_def)
    show "sget (apply_batch [] (apply_batch ?pre (bucket db))) (member_key T db k m) = (?M |` (- set fs)) m"
      if "key_ok m" for m
      using assms(3) that
      by (auto simp: sget_apply_batch_deletes mem_of_key restrict_map_def image_iff codec simp del: map_map)
    show "(?M |` (- set fs)) m = None" if "\<not> key_ok m" for m using that by (simp add: restrict_map_def)
  qed (simp_all only: n member_ops_simps)
  then show ?thesis by simp
qed

lemma clear_many:
  assumes ok: "mem_ok T S db" and ttl: "ttl_ok db" and ks: "\<forall>k \<in> set ks. key_ok k"
  defines "db' \<equiv> db\<lparr>bucket := apply_batch (concat (map (\<lambda>k. map BDel (clear_keys T (sk db k) db k) @ rmExpire_ops db T k) ks)) (bucket db)\<rparr>"
  shows "mem_ok T S db'" "mem_of T db' = (\<lambda>k. if k \<in> set ks then Map.empty else mem_of T db k)" "ttl_ok db'"
    "expiry_of db' T = (\<lambda>k. if k \<in> set ks then None else expiry_of db T k)"
proof -
  define es where "es k = map op_key (rmExpire_ops db T k)" for k
  have es: "rmExpire_ops db T k = map BDel (es k)" for k
    using rmExpire_deletes [of db T k] by (auto simp: es_def)
  define xs where "xs = concat (map (\<lambda>k. clear_keys T (sk db k) db k @ es k) ks)"
  have db': "db' = db\<lparr>bucket := apply_batch (map BDel xs) (bucket db)\<rparr>"
    by (simp add: db'_def xs_def es map_concat o_def)
  have own: "\<exists>k \<in> set ks. mem_op T S db k (BDel x)" if x: "x \<in> set xs" for x
  proof -
    obtain k where k: "k \<in> set ks" "x \<in> set (clear_keys T (sk db k) db k) \<or> x \<in> set (es k)"
      using x by (auto simp: xs_def)
    have "mem_op T S db k (BDel x)" if "x \<in> set (clear_keys T (sk db k) db k)"
      using that by (auto simp: clear_keys_def intro!: mem_op_simps dest: domI [THEN dom_mem_of_ok])
    moreover have "mem_op T S db k (BDel x)" if "x \<in> set (es k)"
      using that mem_op_rmExpire [of "BDel x" db k] by (simp add: es)
    ultimately show ?thesis using k by blast
  qed
  have all: "member_key T db k m \<in> set xs" if "k \<in> set ks" "m \<in> dom (mem_of T db k)" for k m
    using that by (force simp: xs_def clear_keys_def)
  have "sk db k \<in> set xs" if "k \<in> set ks" for k using that by (auto simp: xs_def clear_keys_def)
  note all = all this
  show "mem_ok T S db'" "mem_of T db' = (\<lambda>k. if k \<in> set ks then Map.empty else mem_of T db k)"
    using members_clear [OF ok ks all own] by (simp_all add: db')
  have get: "db_get db' x = (if x \<in> set xs then None else db_get db x)" for x
    by (simp add: db' sget_apply_batch_deletes)
  show "ttl_ok db'" unfolding db' using ok by (intro ttl_ok_deletes [OF ttl]) (simp add: mem_ok_def)
  have "db_get db' (expEncodeMetaKey db T k) = (if k \<in> set ks then None else db_get db (expEncodeMetaKey db T k))" for k
  proof (cases "k \<in> set ks")
    case True
    then have "db_get db (expEncodeMetaKey db T k) \<noteq> None \<Longrightarrow> expEncodeMetaKey db T k \<in> set xs"
      using rmExpire_ops_present [OF ttl, of T k] by (auto simp: xs_def es)
    then show ?thesis using True unfolding get by metis
  next
    case False
    then have "expEncodeMetaKey db T k \<notin> set xs" using own by (fastforce simp: mem_op_iff codec)
    then show ?thesis using False by (simp add: get)
  qed
  then show "expiry_of db' T = (\<lambda>k. if k \<in> set ks then None else expiry_of db T k)"
    by (auto simp: expiry_of_def db' fun_eq_iff)
qed

end

context member_layout
begin

lemma scan_keys:
  assumes "store_ok (bucket db)" "p \<in> set (scan_range db (member_key T db k []) (butlast (member_key T db k []) @ '';''))"
  shows "\<exists>m. fst p = member_key T db k m"
proof -
  let ?p = "indexVarBuf db @ T # be_bytes 2 (length k) @ k"
  have p: "member_key T db k m = ?p @ CHR '':'' # m" for m by (simp add: member_key_def elem_key_def)
  have "in_range (Some (?p @ '':'')) (Some (?p @ '';'')) RangeROpen (fst p)"
    using assms(2) by (auto simp: scan_range_def rangeLimitIterator_forward [OF assms(1)] p butlast_append)
  then show ?thesis
    using prefix_range [of "CHR '':''" "CHR '';''" ?p "fst p"]
    by (simp add: in_range_def p less_char_def less_eq_char_def)
qed

lemma owner_incr_size:
  "incr_size T (sk db k) db k d = Inr (n, ops) \<Longrightarrow> \<forall>op \<in> set ops. owner db (op_key op) = Some T"
  by (auto simp: incr_size_def rbind_eq_Inr Let_def split: if_splits)

lemma incr_size_total:
  assumes "mem_ok T S db" "key_ok k" "room 0 db"
  shows "\<exists>n ops. incr_size T (sk db k) db k d = Inr (n, ops)"
  using Int64_size [OF assms] by (simp add: incr_size_def Let_def)

end

context member_layout
begin

lemma persist_step:
  assumes "mem_ok T S db" "ttl_ok db" "key_ok k"
  shows "mem_ok T S (snd (commit_persist T k db)) \<and> mem_of T (snd (commit_persist T k db)) = mem_of T db \<and>
    ttl_ok (snd (commit_persist T k db))"
proof (cases "readonly db")
  case True
  obtain n where "rmExpire db T k = Inr (n, rmExpire_ops db T k)" using rmExpire_total [OF assms(2)] by blast
  then show ?thesis using True assms by (simp add: commit_persist_def lift_r_def)
next
  case False
  obtain n where n: "rmExpire db T k = Inr (n, rmExpire_ops db T k)" using rmExpire_total [OF assms(2)] by blast
  have "mem_ok T S (db\<lparr>bucket := apply_batch (rmExpire_ops db T k) (bucket db)\<rparr>) \<and>
      mem_of T (db\<lparr>bucket := apply_batch (rmExpire_ops db T k) (bucket db)\<rparr>) = (mem_of T db)(k := mem_of T db k)"
    using assms(3) mem_op_rmExpire
    by (intro members_update [OF assms(1,3)]) (auto simp: sget_rmExpire_other mem_of_key mem_ok_size [OF assms(1,3)])
  moreover have "ttl_ok (db\<lparr>bucket := apply_batch (rmExpire_ops db T k) (bucket db)\<rparr>)"
    by (rule ttl_ok_rmExpire [OF assms(2)]) simp
  ultimately show ?thesis using False n assms(3) by (simp add: commit_persist_def lift_r_def)
qed

end

lemma card_dom_add:
  assumes "finite (dom M)" "distinct (map fst fvs)"
  shows "card (dom (M ++ map_of fvs)) = card (dom M) + length (filter (\<lambda>p. M (fst p) = None) fvs)"
proof -
  let ?new = "filter (\<lambda>p. M (fst p) = None) fvs"
  have "length ?new = card (fst ` set ?new)"
    using assms(2) distinct_card [of "map fst ?new"] by (simp add: distinct_map_filter)
  moreover have "dom (M ++ map_of fvs) = dom M \<union> fst ` set ?new"
    by (auto simp: dom_map_of_conv_image_fst image_iff domIff)
  moreover have "dom M \<inter> fst ` set ?new = {}" by auto
  ultimately show ?thesis using assms(1) by (simp add: card_Un_disjoint)
qed

lemma card_dom_remove:
  assumes "finite (dom M)" "distinct fs"
  shows "card (dom (M |` (- set fs))) + length (filter (\<lambda>f. M f \<noteq> None) fs) = card (dom M)"
proof -
  let ?ds = "filter (\<lambda>f. M f \<noteq> None) fs"
  have "length ?ds = card (set ?ds)" using assms(2) distinct_card [of ?ds] by simp
  moreover have "dom (M |` (- set fs)) = dom M - set ?ds" by (auto simp: restrict_map_def split: if_splits)
  moreover have "set ?ds \<subseteq> dom M" by auto
  ultimately show ?thesis
    using card_Diff_subset [of "set ?ds" "dom M"] card_mono [of "dom M" "set ?ds"] assms(1) by simp
qed

context member_layout
begin

lemma incr_size_down:
  assumes "mem_ok T S db" "key_ok k" "room 0 db" "n \<le> card (dom (mem_of T db k))"
  shows "incr_size T (sk db k) db k (- int n) = Inr (int (card (dom (mem_of T db k))) - int n,
    size_ops T (sk db k) db k (int (card (dom (mem_of T db k))) - int n))"
proof -
  have "is_int64 (int (card (dom (mem_of T db k))) - int n)"
    using card_dom_mem_of [of T db k] assms(3,4) by (auto simp: room_def is_int64_def)
  then show ?thesis using Int64_size [OF assms(1-3)] assms(4)
    by (simp add: incr_size_def size_ops_def Let_def)
qed

end

context member_layout
begin

text \<open>Scans from a cursor, which it excludes, in either direction.\<close>

lemma cursor_range:
  assumes "mem_ok T S db" "key_ok k"
  defines "ms \<equiv> sorted_list_of_set (dom (mem_of T db k))"
  defines "stop \<equiv> butlast (member_key T db k []) @ '';''"
  shows "filter (\<lambda>p. in_range (Some (member_key T db k c)) (Some stop) RangeOpen (fst p)) (bucket db)
      = map (\<lambda>m. (member_key T db k m, the (mem_of T db k m))) (filter (\<lambda>m. c < m) ms)"
    and "filter (\<lambda>p. in_range (Some (member_key T db k [])) (Some (if c = [] then stop else member_key T db k c)) RangeOpen (fst p)) (bucket db)
      = map (\<lambda>m. (member_key T db k m, the (mem_of T db k m))) (filter (\<lambda>m. c = [] \<or> m < c) ms)"
proof -
  let ?e = "\<lambda>m. (member_key T db k m, the (mem_of T db k m))"
  let ?A = "in_range (Some (member_key T db k [])) (Some stop) RangeROpen"
  have ok: "store_ok (bucket db)" using assms(1) by (simp add: mem_ok_def)
  have all: "filter (\<lambda>p. ?A (fst p)) (bucket db) = map ?e ms"
    using scan_members [OF assms(1,2)] by (simp add: scan_range_def rangeLimitIterator_forward [OF ok] ms_def stop_def)
  have narrow: "filter (\<lambda>p. R (fst p)) (bucket db) = map ?e (filter P ms)"
    if "\<And>x. R x \<Longrightarrow> ?A x" "\<And>m. m \<in> set ms \<Longrightarrow> R (member_key T db k m) \<longleftrightarrow> P m" for R P
  proof -
    have "filter (\<lambda>p. R (fst p)) (bucket db) = filter (\<lambda>p. R (fst p)) (filter (\<lambda>p. ?A (fst p)) (bucket db))"
      using that(1) by (auto simp: filter_filter intro!: filter_cong)
    also have "\<dots> = map ?e (filter P ms)" using that(2) by (simp add: all filter_map o_def cong: filter_cong)
    finally show ?thesis .
  qed
  have lt: "member_key T db k a < member_key T db k b \<longleftrightarrow> a < b" "member_key T db k a \<le> member_key T db k b \<longleftrightarrow> a \<le> b" for a b
    by (simp_all add: member_key_def elem_key_def)
  have bound: "member_key T db k a < stop" for a
    by (simp add: stop_def member_key_def elem_key_def butlast_append less_char_def)
  have ne: "[] < m" if "m \<in> set ms" for m
  proof -
    have "key_ok m" using that dom_mem_of_ok [of m T db k] by (simp add: ms_def)
    then show ?thesis by (simp add: key_ok_def neq_Nil_conv) auto
  qed
  have nil: "[] \<le> m" for m :: bytes by (cases m) auto
  show "filter (\<lambda>p. in_range (Some (member_key T db k c)) (Some stop) RangeOpen (fst p)) (bucket db)
      = map ?e (filter (\<lambda>m. c < m) ms)"
    using order_trans [OF _ less_imp_le, of "member_key T db k []" "member_key T db k c"] nil
    by (intro narrow) (auto simp: in_range_def lt bound)
  show "filter (\<lambda>p. in_range (Some (member_key T db k [])) (Some (if c = [] then stop else member_key T db k c)) RangeOpen (fst p)) (bucket db)
      = map ?e (filter (\<lambda>m. c = [] \<or> m < c) ms)"
    using less_trans [OF _ bound] ne by (intro narrow) (auto simp: in_range_def lt bound split: if_splits)
qed

end

end
