(* ===== verification/LedisHash.thy ===== *)
theory LedisHash
  imports Members
begin

text \<open>
  Hashes (\<open>ledis/t_hash.go\<close>): every method in the order of the file, and the map from fields
  to values that the stored records of a key represent.
\<close>

section \<open>Operations\<close>

type_synonym FVPair = "bytes \<times> bytes"

definition hEncodeStartKey :: "ledisdb \<Rightarrow> bytes \<Rightarrow> bytes" where
  "hEncodeStartKey db key = hEncodeHashKey db key []"

definition hEncodeStopKey :: "ledisdb \<Rightarrow> bytes \<Rightarrow> bytes" where
  "hEncodeStopKey db key = butlast (hEncodeHashKey db key []) @ '';''"

definition hIncrSize :: "ledisdb \<Rightarrow> bytes \<Rightarrow> int \<Rightarrow> (int \<times> bop list) result" where
  "hIncrSize db key delta = incr_size HashType (hEncodeSizeKey db key) db key delta"

definition hSetItem :: "ledisdb \<Rightarrow> bytes \<Rightarrow> bytes \<Rightarrow> bytes \<Rightarrow> (int \<times> bop list) result" where
  "hSetItem db key field v =
     (let ek = hEncodeHashKey db key field
      in case db_get db ek of
           Some _ \<Rightarrow> Inr (0, [BPut ek v])
         | None \<Rightarrow> rbind (hIncrSize db key 1) (\<lambda>(_, ops). Inr (1, ops @ [BPut ek v])))"

definition hDelete :: "ledisdb \<Rightarrow> bytes \<Rightarrow> int \<times> bop list" where
  "hDelete db key =
     (let it = scan_range db (hEncodeStartKey db key) (hEncodeStopKey db key)
      in (int (length it), map (\<lambda>p. BDel (fst p)) it @ [BDel (hEncodeSizeKey db key)]))"

definition HLen :: "ledisdb \<Rightarrow> bytes \<Rightarrow> int result" where
  "HLen db key = rbind (checkKeySize key) (\<lambda>_. Int64 (db_get db (hEncodeSizeKey db key)))"

definition hExpireAt :: "bytes \<Rightarrow> int \<Rightarrow> ledisdb \<Rightarrow> int result \<times> ledisdb" where
  "hExpireAt key when db =
     sbind (lift_r (HLen db key) db) (\<lambda>hlen db.
       if hlen = 0 then (Inr 0, db) else commit_expireAt HashType key when db)"

definition HSet :: "bytes \<Rightarrow> bytes \<Rightarrow> bytes \<Rightarrow> ledisdb \<Rightarrow> int result \<times> ledisdb" where
  "HSet key field v db =
     sbind (lift_r (checkHashKFSize key field) db) (\<lambda>_ db.
     sbind (lift_r (checkValueSize v) db) (\<lambda>_ db.
     sbind (lift_r (hSetItem db key field v) db) (\<lambda>(n, ops) db.
     sbind (Commit ops db) (\<lambda>_ db. (Inr n, db)))))"

definition HGet :: "ledisdb \<Rightarrow> bytes \<Rightarrow> bytes \<Rightarrow> bytes option result" where
  "HGet db key field = rbind (checkHashKFSize key field) (\<lambda>_. Inr (db_get db (hEncodeHashKey db key field)))"

text \<open>The loop of \<open>HMset\<close>: the number of fields not stored yet, and the batch.\<close>

fun hmset_loop :: "ledisdb \<Rightarrow> bytes \<Rightarrow> FVPair list \<Rightarrow> (int \<times> bop list) result" where
  "hmset_loop db key [] = Inr (0, [])"
| "hmset_loop db key ((field, v) # args) =
     rbind (checkHashKFSize key field) (\<lambda>_.
     rbind (checkValueSize v) (\<lambda>_.
     rbind (hmset_loop db key args) (\<lambda>(num, ops).
       let ek = hEncodeHashKey db key field
       in Inr ((if db_get db ek = None then 1 else 0) + num, BPut ek v # ops))))"

definition HMset :: "bytes \<Rightarrow> FVPair list \<Rightarrow> ledisdb \<Rightarrow> unit result \<times> ledisdb" where
  "HMset key args db =
     sbind (lift_r (hmset_loop db key args) db) (\<lambda>(num, ops) db.
     sbind (lift_r (hIncrSize db key num) db) (\<lambda>(_, sops) db.
       Commit (ops @ sops) db))"

fun HMget :: "ledisdb \<Rightarrow> bytes \<Rightarrow> bytes list \<Rightarrow> bytes option list result" where
  "HMget db key [] = Inr []"
| "HMget db key (f # args) =
     rbind (checkHashKFSize key f) (\<lambda>_.
     rbind (HMget db key args) (\<lambda>r. Inr (it_Find (bucket db) (hEncodeHashKey db key f) # r)))"

text \<open>The loop of \<open>HDel\<close>: the number of stored fields met, and the batch.\<close>

fun hdel_loop :: "ledisdb \<Rightarrow> bytes \<Rightarrow> bytes list \<Rightarrow> (int \<times> bop list) result" where
  "hdel_loop db key [] = Inr (0, [])"
| "hdel_loop db key (f # args) =
     rbind (checkHashKFSize key f) (\<lambda>_.
     rbind (hdel_loop db key args) (\<lambda>(num, ops).
       let ek = hEncodeHashKey db key f
       in case it_Find (bucket db) ek of
            None \<Rightarrow> Inr (num, ops)
          | Some v \<Rightarrow> Inr (1 + num, BDel ek # ops)))"

definition HDel :: "bytes \<Rightarrow> bytes list \<Rightarrow> ledisdb \<Rightarrow> int result \<times> ledisdb" where
  "HDel key args db =
     sbind (lift_r (hdel_loop db key args) db) (\<lambda>(num, ops) db.
     sbind (lift_r (hIncrSize db key (- num)) db) (\<lambda>(_, sops) db.
     sbind (Commit (ops @ sops) db) (\<lambda>_ db. (Inr num, db))))"

definition HIncrBy :: "bytes \<Rightarrow> bytes \<Rightarrow> int \<Rightarrow> ledisdb \<Rightarrow> int result \<times> ledisdb" where
  "HIncrBy key field delta db =
     sbind (lift_r (checkHashKFSize key field) db) (\<lambda>_ db.
     sbind (lift_r (StrInt64 (db_get db (hEncodeHashKey db key field))) db) (\<lambda>n db.
       let n = wrap64 (n + delta)
       in sbind (lift_r (hSetItem db key field (FormatInt n)) db) (\<lambda>(_, ops) db.
          sbind (Commit ops db) (\<lambda>_ db. (Inr n, db)))))"

text \<open>The loop over the records of a hash: the decoded fields with the values.\<close>

fun decode_fields :: "ledisdb \<Rightarrow> store \<Rightarrow> FVPair list result" where
  "decode_fields db [] = Inr []"
| "decode_fields db ((ek, v) # it) =
     rbind (hDecodeHashKey db ek) (\<lambda>(_, f). rbind (decode_fields db it) (\<lambda>r. Inr ((f, v) # r)))"

definition HGetAll :: "ledisdb \<Rightarrow> bytes \<Rightarrow> FVPair list result" where
  "HGetAll db key =
     rbind (checkKeySize key) (\<lambda>_.
       decode_fields db (scan_range db (hEncodeStartKey db key) (hEncodeStopKey db key)))"

definition HKeys :: "ledisdb \<Rightarrow> bytes \<Rightarrow> bytes list result" where
  "HKeys db key =
     rbind (checkKeySize key) (\<lambda>_.
     rbind (decode_fields db (scan_range db (hEncodeStartKey db key) (hEncodeStopKey db key))) (\<lambda>v.
       Inr (map fst v)))"

definition HValues :: "ledisdb \<Rightarrow> bytes \<Rightarrow> bytes list result" where
  "HValues db key =
     rbind (checkKeySize key) (\<lambda>_.
     rbind (decode_fields db (scan_range db (hEncodeStartKey db key) (hEncodeStopKey db key))) (\<lambda>v.
       Inr (map snd v)))"

definition HClear :: "bytes \<Rightarrow> ledisdb \<Rightarrow> int result \<times> ledisdb" where
  "HClear key db =
     sbind (lift_r (checkKeySize key) db) (\<lambda>_ db.
       let (num, ops) = hDelete db key
       in sbind (Commit (ops @ rmExpire_ops db HashType key) db) (\<lambda>_ db. (Inr num, db)))"

fun hmclear_ops :: "ledisdb \<Rightarrow> bytes list \<Rightarrow> bop list result" where
  "hmclear_ops db [] = Inr []"
| "hmclear_ops db (key # keys) =
     rbind (checkKeySize key) (\<lambda>_.
     rbind (hmclear_ops db keys) (\<lambda>rest. Inr (snd (hDelete db key) @ rmExpire_ops db HashType key @ rest)))"

definition HMclear :: "bytes list \<Rightarrow> ledisdb \<Rightarrow> int result \<times> ledisdb" where
  "HMclear keys db =
     sbind (lift_r (hmclear_ops db keys) db) (\<lambda>ops db.
     sbind (Commit ops db) (\<lambda>_ db. (Inr (int (length keys)), db)))"

definition HExpire :: "int \<Rightarrow> bytes \<Rightarrow> int \<Rightarrow> ledisdb \<Rightarrow> int result \<times> ledisdb" where
  "HExpire now key duration db =
     (if duration \<le> 0 then (Inl errExpireValue, db) else hExpireAt key (wrap64 (now + duration)) db)"

definition HExpireAt :: "int \<Rightarrow> bytes \<Rightarrow> int \<Rightarrow> ledisdb \<Rightarrow> int result \<times> ledisdb" where
  "HExpireAt now key when db =
     (if when \<le> now then (Inl errExpireValue, db) else hExpireAt key when db)"

definition HTTL :: "ledisdb \<Rightarrow> int \<Rightarrow> bytes \<Rightarrow> int result" where
  "HTTL db now key = rbind (checkKeySize key) (\<lambda>_. ttl db now HashType key)"

definition HPersist :: "bytes \<Rightarrow> ledisdb \<Rightarrow> int result \<times> ledisdb" where
  "HPersist key db = commit_persist HashType key db"

definition HKeyExists :: "ledisdb \<Rightarrow> bytes \<Rightarrow> int result" where
  "HKeyExists db key =
     rbind (checkKeySize key) (\<lambda>_.
       case db_get db (hEncodeSizeKey db key) of None \<Rightarrow> Inr 0 | Some v \<Rightarrow> Inr 1)"

section \<open>The fields of a hash\<close>

interpretation hash: member_layout hEncodeHashKey hDecodeHashKey hEncodeSizeKey HashType HSizeType
  by unfold_locales
    (simp_all add: hEncodeHashKey_def member_key_def hEncodeSizeKey_def type_of_tag_def hDecodeHashKey_encode [unfolded hEncodeHashKey_def])

abbreviation hashes_ok :: "ledisdb \<Rightarrow> bool" where
  "hashes_ok \<equiv> mem_ok HashType HSizeType"

abbreviation hash_of :: "ledisdb \<Rightarrow> bytes \<Rightarrow> bytes \<Rightarrow> bytes option" where
  "hash_of \<equiv> mem_of HashType"

abbreviation hash_step :: "ledisdb \<Rightarrow> bytes \<Rightarrow> (bytes \<Rightarrow> bytes option) \<Rightarrow> ledisdb \<Rightarrow> bool" where
  "hash_step \<equiv> mem_step HashType HSizeType"

lemma HLen_ok: "hashes_ok db \<Longrightarrow> key_ok k \<Longrightarrow> room 0 db \<Longrightarrow> HLen db k = Inr (int (card (dom (hash_of db k))))"
  by (simp add: HLen_def hash.Int64_size)

lemma HGet_ok: "key_ok k \<Longrightarrow> key_ok f \<Longrightarrow> HGet db k f = Inr (hash_of db k f)"
  by (simp add: HGet_def hash.enc mem_of_key)

lemma hSetItem_ok:
  assumes "hashes_ok db" "ttl_ok db" "key_ok k" "key_ok f" "room 1 db"
  shows "\<exists>ops. hSetItem db k f v = Inr (if hash_of db k f = None then 1 else 0, ops) \<and> length ops \<le> 2 \<and>
    hash_step db k ((hash_of db k)(f \<mapsto> v)) (db\<lparr>bucket := apply_batch ops (bucket db)\<rparr>)"
proof (cases "hash_of db k f")
  case (Some u)
  then show ?thesis using hash.member_overwrite [OF assms(1-4), of v] assms(3,4)
    by (simp add: hSetItem_def hash.enc mem_of_key)
next
  case None
  let ?M = "(hash_of db k)(f \<mapsto> v)" and ?post = "[BPut (member_key HashType db k f) v]"
  let ?sops = "size_ops HashType (hEncodeSizeKey db k) db k (int (card (dom (hash_of db k))) + 1)"
  have "hSetItem db k f v = Inr (1, ?sops @ ?post)"
    using None assms hash.incr_size_eq [OF assms(1,3,5), of 1]
    by (simp add: hSetItem_def hash.enc mem_of_key hIncrSize_def)
  moreover have "hash_step db k ?M (db\<lparr>bucket := apply_batch ([] @ ?sops @ ?post) (bucket db)\<rparr>)"
    using assms(3,4) None by (intro hash.member_step [OF assms(1-3)])
      (auto simp: store_simps codec mem_of_key card_insert_if)
  moreover have "length ?sops \<le> 1" by (simp add: size_ops_def)
  ultimately show ?thesis using None by simp
qed

lemma HSet_ok:
  assumes "hashes_ok db" "ttl_ok db" "\<not> readonly db" "key_ok k" "key_ok f" "length v \<le> MaxValueSize" "room 1 db"
  shows "\<exists>db'. HSet k f v db = (Inr (if hash_of db k f = None then 1 else 0), db') \<and>
    hash_step db k ((hash_of db k)(f \<mapsto> v)) db' \<and> length (bucket db') \<le> length (bucket db) + 2"
proof -
  obtain ops where o: "hSetItem db k f v = Inr (if hash_of db k f = None then 1 else 0, ops)" "length ops \<le> 2"
    "hash_step db k ((hash_of db k)(f \<mapsto> v)) (db\<lparr>bucket := apply_batch ops (bucket db)\<rparr>)"
    using hSetItem_ok [OF assms(1,2,4,5,7)] by blast
  then show ?thesis using assms length_apply_batch [of ops "bucket db"]
    by (auto simp: HSet_def lift_r_def checkValueSize_def)
qed

lemma HSet_invalid:
  "\<not> (key_ok k \<and> key_ok f \<and> length v \<le> MaxValueSize) \<Longrightarrow> \<exists>e. HSet k f v db = (Inl e, db)"
  by (auto simp: HSet_def lift_r_def checkHashKFSize_eq checkValueSize_def)

lemma HIncrBy_ok:
  assumes "hashes_ok db" "ttl_ok db" "\<not> readonly db" "key_ok k" "key_ok f" "room 1 db"
    and "StrInt64 (hash_of db k f) = Inr n"
  shows "\<exists>db'. HIncrBy k f d db = (Inr (wrap64 (n + d)), db') \<and>
    hash_step db k ((hash_of db k)(f \<mapsto> FormatInt (wrap64 (n + d)))) db'"
proof -
  obtain m ops where "hSetItem db k f (FormatInt (wrap64 (n + d))) = Inr (m, ops)"
    "hash_step db k ((hash_of db k)(f \<mapsto> FormatInt (wrap64 (n + d)))) (db\<lparr>bucket := apply_batch ops (bucket db)\<rparr>)"
    using hSetItem_ok [OF assms(1,2,4,5,6)] by blast
  then show ?thesis using assms by (simp add: HIncrBy_def lift_r_def Let_def hash.enc mem_of_key)
qed

lemma hmset_loop_ok:
  "key_ok k \<Longrightarrow> \<forall>p \<in> set fvs. key_ok (fst p) \<and> length (snd p) \<le> MaxValueSize \<Longrightarrow>
     hmset_loop db k fvs = Inr (int (length (filter (\<lambda>p. hash_of db k (fst p) = None) fvs)),
       map (\<lambda>(f, v). BPut (member_key HashType db k f) v) fvs)"
  by (induction db k fvs rule: hmset_loop.induct)
    (auto simp: checkValueSize_def hash.enc mem_of_key Let_def)

lemma hdel_loop_ok:
  "store_ok (bucket db) \<Longrightarrow> key_ok k \<Longrightarrow> \<forall>f \<in> set fs. key_ok f \<Longrightarrow>
     hdel_loop db k fs = Inr (int (length (filter (\<lambda>f. hash_of db k f \<noteq> None) fs)),
       map BDel (map (member_key HashType db k) (filter (\<lambda>f. hash_of db k f \<noteq> None) fs)))"
  by (induction db k fs rule: hdel_loop.induct)
    (auto simp: hash.enc mem_of_key Let_def it_Find_eq_sget split: option.splits)

section \<open>Operations on several fields\<close>

lemma HMset_ok:
  assumes "hashes_ok db" "ttl_ok db" "\<not> readonly db" "key_ok k" "room (length fvs) db"
    and "\<forall>p \<in> set fvs. key_ok (fst p) \<and> length (snd p) \<le> MaxValueSize" "distinct (map fst fvs)"
  shows "\<exists>db'. HMset k fvs db = (Inr (), db') \<and> hash_step db k (hash_of db k ++ map_of fvs) db'"
proof -
  let ?d = "int (length (filter (\<lambda>p. hash_of db k (fst p) = None) fvs))"
  have "\<bar>?d\<bar> \<le> int (length fvs)" by simp
  then show ?thesis
    using hash.add_step [OF assms(1,2,4) _ assms(7)] hash.incr_size_eq [OF assms(1,4,5), of ?d] assms(3,4,6)
    by (simp add: HMset_def hmset_loop_ok lift_r_def hIncrSize_def)
qed

lemma HDel_ok:
  assumes "hashes_ok db" "ttl_ok db" "\<not> readonly db" "key_ok k" "room (length fs) db"
    and "\<forall>f \<in> set fs. key_ok f" "distinct fs"
  shows "\<exists>db'. HDel k fs db = (Inr (int (card (dom (hash_of db k) \<inter> set fs))), db') \<and>
    hash_step db k (hash_of db k |` (- set fs)) db'"
proof -
  let ?ds = "filter (\<lambda>f. hash_of db k f \<noteq> None) fs"
  have n: "card (dom (hash_of db k) \<inter> set fs) = length ?ds"
    using distinct_card [of ?ds] assms(7) by (simp add: dom_def Int_def conj_commute)
  have "\<bar>- int (length ?ds)\<bar> \<le> int (length fs)" by simp
  then have "hIncrSize db k (- int (length ?ds)) = Inr (max 0 (int (card (dom (hash_of db k))) - int (length ?ds)),
      size_ops HashType (hEncodeSizeKey db k) db k (int (card (dom (hash_of db k))) - int (length ?ds)))"
    using hash.incr_size_eq [OF assms(1,4,5)] by (simp add: hIncrSize_def)
  moreover have "hdel_loop db k fs = Inr (int (length ?ds), map BDel (map (member_key HashType db k) ?ds))"
    using assms(1,4,6) by (intro hdel_loop_ok) (simp_all add: mem_ok_def)
  ultimately have "HDel k fs db = (Inr (int (length ?ds)), db\<lparr>bucket := apply_batch
      (map BDel (map (member_key HashType db k) ?ds) @ size_ops HashType (hEncodeSizeKey db k) db k
        (int (card (dom (hash_of db k))) - int (length ?ds))) (bucket db)\<rparr>)"
    unfolding HDel_def by (simp only: lift_r_def sbind_simps prod.case Commit_ok [OF assms(3)])
  then show ?thesis using hash.remove_step [OF assms(1,2,4,6,7)] n by auto
qed

lemma HMget_ok:
  "store_ok (bucket db) \<Longrightarrow> key_ok k \<Longrightarrow> \<forall>f \<in> set fs. key_ok f \<Longrightarrow> HMget db k fs = Inr (map (hash_of db k) fs)"
  by (induction db k fs rule: HMget.induct) (simp_all add: it_Find_eq_sget hash.enc mem_of_key)

section \<open>Scans\<close>

lemma hash_range:
  "hEncodeStartKey db k = member_key HashType db k []"
  "hEncodeStopKey db k = butlast (member_key HashType db k []) @ '';''"
  by (simp_all add: hEncodeStartKey_def hEncodeStopKey_def hash.enc)

lemma decode_fields_map:
  "key_ok k \<Longrightarrow> decode_fields db (map (\<lambda>f. (member_key HashType db k f, g f)) fs) = Inr (map (\<lambda>f. (f, g f)) fs)"
  by (induction fs) (simp_all add: hash.dec_enc [unfolded hash.enc] key_ok_length)

lemma hash_scan:
  assumes "hashes_ok db" "key_ok k"
  defines "fs \<equiv> sorted_list_of_set (dom (hash_of db k))"
  shows "HGetAll db k = Inr (map (\<lambda>f. (f, the (hash_of db k f))) fs)" "HKeys db k = Inr fs"
    "HValues db k = Inr (map (\<lambda>f. the (hash_of db k f)) fs)"
  using assms(2) by (simp_all add: HGetAll_def HKeys_def HValues_def hash_range hash.scan_members [OF assms(1,2)]
      decode_fields_map fs_def o_def)

section \<open>Clearing and expiry\<close>

lemma hDelete_ok:
  assumes "hashes_ok db" "key_ok k"
  shows "hDelete db k = (int (card (dom (hash_of db k))), map BDel (clear_keys HashType (hEncodeSizeKey db k) db k))"
  by (simp add: hDelete_def hash_range hash.scan_members [OF assms] clear_keys_def o_def)

lemma HClear_ok:
  assumes "hashes_ok db" "ttl_ok db" "\<not> readonly db" "key_ok k"
  shows "\<exists>db'. HClear k db = (Inr (int (card (dom (hash_of db k)))), db') \<and> hash_step db k Map.empty db'"
proof -
  have "hash_step db k Map.empty (db\<lparr>bucket := apply_batch (map BDel (clear_keys HashType (hEncodeSizeKey db k) db k)
      @ rmExpire_ops db HashType k) (bucket db)\<rparr>)"
    using hash.clear_many [OF assms(1,2), of "[k]"] assms(4) by (auto simp: mem_step_def fun_eq_iff)
  then show ?thesis using assms by (simp add: HClear_def lift_r_def hDelete_ok)
qed

lemma hmclear_ops_ok:
  "hashes_ok db \<Longrightarrow> \<forall>k \<in> set ks. key_ok k \<Longrightarrow> hmclear_ops db ks =
     Inr (concat (map (\<lambda>k. map BDel (clear_keys HashType (hEncodeSizeKey db k) db k) @ rmExpire_ops db HashType k) ks))"
  by (induction ks) (simp_all add: hDelete_ok)

lemma hmclear_ops_error: "\<not> (\<forall>k \<in> set ks. key_ok k) \<Longrightarrow> \<exists>e. hmclear_ops db ks = Inl e"
proof (induction ks)
  case (Cons k ks)
  then show ?case by (cases "key_ok k"; cases "\<forall>k \<in> set ks. key_ok k") (auto simp: checkKeySize_eq)
qed simp

definition hash_inv :: "ledisdb \<Rightarrow> bool" where
  "hash_inv db \<longleftrightarrow> hashes_ok db \<and> ttl_ok db"

lemma hash_step_inv: "hash_step db k M db' \<Longrightarrow> hash_inv db'"
  by (simp add: mem_step_def hash_inv_def)

section \<open>The invariant under every operation\<close>

lemma hash_readonly:
  "readonly db \<Longrightarrow> snd (HSet k f v db) = db" "readonly db \<Longrightarrow> snd (HMset k fvs db) = db"
  "readonly db \<Longrightarrow> snd (HDel k fs db) = db" "readonly db \<Longrightarrow> snd (HIncrBy k f d db) = db"
  "readonly db \<Longrightarrow> snd (HClear k db) = db" "readonly db \<Longrightarrow> snd (HMclear ks db) = db"
  by (auto simp: HSet_def HMset_def HDel_def HIncrBy_def HClear_def HMclear_def Let_def
      intro!: readonly_checked split: prod.splits)

lemma hash_inv_HSet:
  assumes "hash_inv db" "room 1 db"
  shows "hash_inv (snd (HSet k f v db))"
proof (cases "readonly db \<or> \<not> (key_ok k \<and> key_ok f \<and> length v \<le> MaxValueSize)")
  case True
  then have "snd (HSet k f v db) = db" using hash_readonly(1) [of db k f v] HSet_invalid [of k f v db] by auto
  then show ?thesis using assms(1) by simp
next
  case False
  then show ?thesis using HSet_ok [of db k f v] assms hash_step_inv by (fastforce simp: hash_inv_def)
qed

lemma hmset_loop_error:
  "\<not> (key_ok k \<and> (\<forall>p \<in> set fvs. key_ok (fst p) \<and> length (snd p) \<le> MaxValueSize)) \<Longrightarrow> fvs \<noteq> [] \<Longrightarrow>
     \<exists>e. hmset_loop db k fvs = Inl e"
proof (induction fvs)
  case (Cons p fvs)
  obtain f v where p: "p = (f, v)" by force
  show ?case
  proof (cases "key_ok k \<and> key_ok f \<and> length v \<le> MaxValueSize")
    case True
    then have "\<exists>e. hmset_loop db k fvs = Inl e" using Cons p by (cases fvs) auto
    then show ?thesis using True p by (auto simp: checkValueSize_def)
  qed (auto simp: p checkHashKFSize_eq checkValueSize_def)
qed simp

lemma hdel_loop_error:
  "\<not> (key_ok k \<and> (\<forall>f \<in> set fs. key_ok f)) \<Longrightarrow> fs \<noteq> [] \<Longrightarrow> \<exists>e. hdel_loop db k fs = Inl e"
proof (induction fs)
  case (Cons f fs)
  show ?case
  proof (cases "key_ok k \<and> key_ok f")
    case True
    then have "\<exists>e. hdel_loop db k fs = Inl e" using Cons by (cases fs) auto
    then show ?thesis using True by auto
  qed (auto simp: checkHashKFSize_eq)
qed simp

lemma HMset_error: "hmset_loop db k fvs = Inl e \<Longrightarrow> HMset k fvs db = (Inl e, db)"
  by (simp add: HMset_def lift_r_def)

lemma HDel_error: "hdel_loop db k fs = Inl e \<Longrightarrow> HDel k fs db = (Inl e, db)"
  by (simp add: HDel_def lift_r_def)

lemma HMclear_error: "hmclear_ops db ks = Inl e \<Longrightarrow> HMclear ks db = (Inl e, db)"
  by (simp add: HMclear_def lift_r_def)

lemma hash_inv_HMset:
  assumes "hash_inv db" "room (length fvs) db" "distinct (map fst fvs)" "fvs \<noteq> []"
  shows "hash_inv (snd (HMset k fvs db))"
proof (cases "readonly db \<or> \<not> (key_ok k \<and> (\<forall>p \<in> set fvs. key_ok (fst p) \<and> length (snd p) \<le> MaxValueSize))")
  case True
  then have "snd (HMset k fvs db) = db"
    using hash_readonly(2) hmset_loop_error [of k fvs db] assms(4) HMset_error by (metis snd_conv)
  then show ?thesis using assms(1) by simp
next
  case False
  then show ?thesis using HMset_ok [of db k fvs] assms hash_step_inv by (fastforce simp: hash_inv_def)
qed

lemma hash_inv_HDel:
  assumes "hash_inv db" "room (length fs) db" "distinct fs" "fs \<noteq> []"
  shows "hash_inv (snd (HDel k fs db))"
proof (cases "readonly db \<or> \<not> (key_ok k \<and> (\<forall>f \<in> set fs. key_ok f))")
  case True
  then have "snd (HDel k fs db) = db"
    using hash_readonly(3) hdel_loop_error [of k fs db] assms(4) HDel_error by (metis snd_conv)
  then show ?thesis using assms(1) by simp
next
  case False
  then show ?thesis using HDel_ok [of db k fs] assms hash_step_inv by (fastforce simp: hash_inv_def)
qed

lemma hash_inv_HIncrBy:
  assumes "hash_inv db" "room 1 db"
  shows "hash_inv (snd (HIncrBy k f d db))"
proof (cases "readonly db \<or> \<not> (key_ok k \<and> key_ok f) \<or> (\<exists>e. StrInt64 (hash_of db k f) = Inl e)")
  case True
  then have "snd (HIncrBy k f d db) = db"
    using hash_readonly(4) [of db k f d]
    by (cases "readonly db"; cases "key_ok k \<and> key_ok f")
      (auto simp: HIncrBy_def lift_r_def checkHashKFSize_eq hash.enc mem_of_key)
  then show ?thesis using assms(1) by simp
next
  case False
  then obtain n where "StrInt64 (hash_of db k f) = Inr n" by (cases "StrInt64 (hash_of db k f)") auto
  then show ?thesis using False HIncrBy_ok [of db k f n d] assms hash_step_inv by (fastforce simp: hash_inv_def)
qed

lemma hash_inv_HClear:
  assumes "hash_inv db"
  shows "hash_inv (snd (HClear k db))"
proof (cases "readonly db \<or> \<not> key_ok k")
  case True
  then have "snd (HClear k db) = db"
    using hash_readonly(5) [of db k]
    by (cases "readonly db"; cases "key_ok k") (auto simp: HClear_def lift_r_def checkKeySize_eq)
  then show ?thesis using assms by simp
next
  case False
  then show ?thesis using HClear_ok [of db k] assms hash_step_inv by (fastforce simp: hash_inv_def)
qed

lemma HMclear_ok:
  assumes "hash_inv db" "\<not> readonly db" "\<forall>k \<in> set ks. key_ok k"
  shows "\<exists>db'. HMclear ks db = (Inr (int (length ks)), db') \<and> hash_inv db' \<and>
    hash_of db' = (\<lambda>k. if k \<in> set ks then Map.empty else hash_of db k)"
  using hash.clear_many [of db ks] hmclear_ops_ok [of db ks] assms
  by (auto simp: HMclear_def lift_r_def hash_inv_def)

lemma hash_inv_HMclear:
  assumes "hash_inv db"
  shows "hash_inv (snd (HMclear ks db))"
proof (cases "readonly db \<or> \<not> (\<forall>k \<in> set ks. key_ok k)")
  case True
  then have "snd (HMclear ks db) = db"
    using hash_readonly(6) hmclear_ops_error [of ks db] HMclear_error by (metis snd_conv)
  then show ?thesis using assms by simp
next
  case False
  then show ?thesis using HMclear_ok [OF assms, of ks] by auto
qed

lemma hash_inv_hExpireAt:
  assumes "hash_inv db"
  shows "hash_inv (snd (hExpireAt k w db))"
proof (cases "key_ok k")
  case True
  then show ?thesis
    using assms hash.members_expireAt [of db k w] ttl_ok_commit_expireAt [of db HashType k w]
    by (auto simp: hash_inv_def hExpireAt_def lift_r_def sbind_def split: sum.split)
next
  case False
  then show ?thesis using assms by (simp add: hExpireAt_def HLen_def lift_r_def checkKeySize_eq)
qed

section \<open>Only the records of hashes change\<close>

lemma owner_hSetItem: "hSetItem db k f v = Inr (n, ops) \<Longrightarrow> \<forall>op \<in> set ops. owner db (op_key op) = Some HashType"
  by (auto simp: hSetItem_def Let_def rbind_eq_Inr hIncrSize_def dest!: hash.owner_incr_size split: option.splits)

lemma owner_hmset: "hmset_loop db k fvs = Inr (n, ops) \<Longrightarrow> \<forall>op \<in> set ops. owner db (op_key op) = Some HashType"
  by (induction db k fvs arbitrary: n ops rule: hmset_loop.induct) (auto simp: rbind_eq_Inr Let_def)

lemma owner_hdel: "hdel_loop db k fs = Inr (n, ops) \<Longrightarrow> \<forall>op \<in> set ops. owner db (op_key op) = Some HashType"
  by (induction db k fs arbitrary: n ops rule: hdel_loop.induct)
    (auto simp: rbind_eq_Inr Let_def split: option.splits)

lemma owner_hDelete:
  assumes "store_ok (bucket db)"
  shows "\<forall>op \<in> set (snd (hDelete db k)). owner db (op_key op) = Some HashType"
  using hash.scan_keys [OF assms, of _ k] by (fastforce simp: hDelete_def Let_def hash_range)

lemma owner_hmclear:
  "store_ok (bucket db) \<Longrightarrow> hmclear_ops db ks = Inr ops \<Longrightarrow> \<forall>op \<in> set ops. owner db (op_key op) = Some HashType"
  by (induction db ks arbitrary: ops rule: hmclear_ops.induct) (auto simp: rbind_eq_Inr owner_hDelete)

lemma keeps_hash:
  "keeps HashType db (snd (HSet k f v db))"
  "keeps HashType db (snd (HMset k fvs db))"
  "keeps HashType db (snd (HDel k fs db))"
  "keeps HashType db (snd (HIncrBy k f d db))"
  "keeps HashType db (snd (hExpireAt k w db))"
  "store_ok (bucket db) \<Longrightarrow> keeps HashType db (snd (HClear k db))"
  "store_ok (bucket db) \<Longrightarrow> keeps HashType db (snd (HMclear ks db))"
proof -
  show "keeps HashType db (snd (HSet k f v db))"
    by (auto simp: HSet_def intro!: keeps_checked keeps_Commit dest!: owner_hSetItem)
  show "keeps HashType db (snd (HMset k fvs db))"
    by (auto simp: HMset_def hIncrSize_def intro!: keeps_checked keeps_Commit dest!: owner_hmset hash.owner_incr_size)
  show "keeps HashType db (snd (HDel k fs db))"
    by (auto simp: HDel_def hIncrSize_def intro!: keeps_checked keeps_Commit dest!: owner_hdel hash.owner_incr_size)
  show "keeps HashType db (snd (HIncrBy k f d db))"
    by (auto simp: HIncrBy_def Let_def intro!: keeps_checked keeps_Commit dest!: owner_hSetItem)
  show "keeps HashType db (snd (hExpireAt k w db))"
    by (auto simp: hExpireAt_def intro!: keeps_checked keeps_commit_expireAt)
  show "keeps HashType db (snd (HClear k db))" if "store_ok (bucket db)"
    using owner_hDelete [OF that, of k]
    by (auto simp: HClear_def intro!: keeps_checked keeps_Commit split: prod.split)
  show "keeps HashType db (snd (HMclear ks db))" if "store_ok (bucket db)"
    using that by (auto simp: HMclear_def intro!: keeps_checked keeps_Commit dest!: owner_hmclear)
qed

lemma hash_db0: "hash_inv db0" "hash_of db0 = (\<lambda>k. Map.empty)" "hashes_ok db0"
  using hash.mem_ok_db0 by (simp_all add: hash_inv_def fun_eq_iff)

text \<open>A database with one hash of one field, for examples.\<close>

abbreviation db_hash :: "bytes \<Rightarrow> bytes \<Rightarrow> bytes \<Rightarrow> ledisdb" where
  "db_hash k f v \<equiv> snd (HSet k f v db0)"

lemma hash_db_hash:
  assumes "key_ok k" "key_ok f" "length v \<le> MaxValueSize"
  shows "hash_inv (db_hash k f v)" "\<not> readonly (db_hash k f v)" "hash_of (db_hash k f v) = (\<lambda>_. Map.empty)(k := [f \<mapsto> v])"
    "room 1000 (db_hash k f v)"
proof -
  obtain db' where s: "HSet k f v db0 = (Inr 1, db')" "hash_step db0 k [f \<mapsto> v] db'" "length (bucket db') \<le> 2"
    using HSet_ok [OF hash_db0(3), of k f v] assms by (auto simp: hash_db0 room_def)
  then show "hash_inv (db_hash k f v)" "\<not> readonly (db_hash k f v)"
    "hash_of (db_hash k f v) = (\<lambda>_. Map.empty)(k := [f \<mapsto> v])" "room 1000 (db_hash k f v)"
    using mem_stepD [OF s(2)] hash_step_inv [OF s(2)] by (auto simp: hash_db0 room_def)
qed

lemmas db_hash_sample = hash_db_hash [of "''h''" "''a''" "''1''", simplified key_ok_def, simplified]

end
