(* ===== verification/CmdHashes.thy ===== *)
theory CmdHashes
  imports CmdBase LedisHash
begin

text \<open>
  The hash commands (\<open>hashes.go\<close>): one definition per handler, in the order of the file, and
  what they do to the hashes of a database.
\<close>

section \<open>Handlers\<close>

text \<open>The loop of \<open>HSET\<close>: a pair that \<open>HSet\<close> refuses is skipped.\<close>

fun hset_loop :: "bytes \<Rightarrow> string list \<Rightarrow> int \<Rightarrow> ledisdb \<Rightarrow> int \<times> ledisdb" where
  "hset_loop key (f # v # args) n db =
     (case HSet key f v db of
        (Inr r, db) \<Rightarrow> hset_loop key args (wrap64 (n + r)) db
      | (Inl _, db) \<Rightarrow> hset_loop key args n db)"
| "hset_loop key _ n db = (n, db)"

definition cmdHSET :: handler where
  "cmdHSET m args db =
     (if length args < 3 \<or> length args mod 2 \<noteq> 0 then wrong_args db
      else let (n, db) = hset_loop (args ! 1) (drop 2 args) 0 db in (Inr (SimpleInt n), db))"

definition cmdHGET :: handler where
  "cmdHGET m args db =
     (if length args \<noteq> 3 then wrong_args db
      else answer (HGet db (args ! 1) (args ! 2))
        (\<lambda>v. case v of None \<Rightarrow> NilReply | Some b \<Rightarrow> if length b = 0 then NilReply else SimpleString b) db)"

text \<open>\<open>HDEL\<close> answers 0 when \<open>HDel\<close> fails.\<close>

definition cmdHDEL :: handler where
  "cmdHDEL m args db =
     (if length args < 3 then wrong_args db
      else case HDel (args ! 1) (drop 2 args) db of
             (Inr count, db) \<Rightarrow> (Inr (SimpleInt count), db)
           | (Inl _, db) \<Rightarrow> (Inr (SimpleInt 0), db))"

definition cmdHEXISTS :: handler where
  "cmdHEXISTS m args db =
     (if length args \<noteq> 3 then wrong_args db
      else answer (HGet db (args ! 1) (args ! 2)) (\<lambda>v. SimpleInt (if v = None then 0 else 1)) db)"

text \<open>
  \<open>HGETALL\<close> collects the pairs in a Go map, here the list of its entries by increasing key.
\<close>

definition cmdHGETALL :: handler where
  "cmdHGETALL m args db =
     (if length args \<noteq> 2 then wrong_args db
      else answer (HGetAll db (args ! 1)) (\<lambda>v. StrMap (fold (\<lambda>(f, v). sput f v) v [])) db)"

definition cmdHINCRBY :: handler where
  "cmdHINCRBY m args db =
     (if length args \<noteq> 4 then wrong_args db
      else sbind (lift_r (StrInt64 (Some (args ! 3))) db) (\<lambda>delta db.
             reply_with SimpleInt (HIncrBy (args ! 1) (args ! 2) delta db)))"

definition cmdHKEYS :: handler where
  "cmdHKEYS m args db =
     (if length args \<noteq> 2 then wrong_args db
      else answer (HKeys db (args ! 1)) (\<lambda>v. BytesList (map Some v)) db)"

definition cmdHLEN :: handler where
  "cmdHLEN m args db =
     (if length args \<noteq> 2 then wrong_args db else answer (HLen db (args ! 1)) GoInt db)"

definition cmdHMGET :: handler where
  "cmdHMGET m args db =
     (if length args < 3 then wrong_args db
      else answer (HMget db (args ! 1) (drop 2 args)) BytesList db)"

fun fv_pairs :: "string list \<Rightarrow> FVPair list" where
  "fv_pairs (f # v # args) = (f, v) # fv_pairs args"
| "fv_pairs _ = []"

definition cmdHMSET :: handler where
  "cmdHMSET m args db =
     (if length args < 3 then wrong_args db
      else if length (drop 2 args) mod 2 \<noteq> 0 then wrong_args db
      else reply_with (\<lambda>_. SimpleString ''OK'') (HMset (args ! 1) (fv_pairs (drop 2 args)) db))"

definition cmdHSETNX :: handler where
  "cmdHSETNX m args db =
     (if length args \<noteq> 4 then wrong_args db
      else sbind (lift_r (HGet db (args ! 1) (args ! 2)) db) (\<lambda>v db.
             if v \<noteq> None then (Inr (SimpleInt 0), db)
             else reply_with GoInt (HSet (args ! 1) (args ! 2) (args ! 3) db)))"

definition cmdHSTRLEN :: handler where
  "cmdHSTRLEN m args db =
     (if length args \<noteq> 3 then wrong_args db
      else answer (HGet db (args ! 1) (args ! 2))
        (\<lambda>v. SimpleInt (case v of None \<Rightarrow> 0 | Some b \<Rightarrow> int (length b))) db)"

definition cmdHVALS :: handler where
  "cmdHVALS m args db =
     (if length args \<noteq> 2 then wrong_args db
      else answer (HValues db (args ! 1)) (\<lambda>v. BytesList (map Some v)) db)"

definition cmdHCLEAR :: handler where
  "cmdHCLEAR m args db =
     (if length args \<noteq> 2 then wrong_args db else reply_with SimpleInt (HClear (args ! 1) db))"

definition cmdHMCLEAR :: handler where
  "cmdHMCLEAR m args db =
     (if length args < 2 then wrong_args db else reply_with SimpleInt (HMclear (tl args) db))"

text \<open>\<open>HEXPIRE\<close> and \<open>HEXPIREAT\<close> after the time stamp is known.\<close>

definition hexpire_at :: "machine \<Rightarrow> bytes \<Rightarrow> int \<Rightarrow> ledisdb \<Rightarrow> reply result \<times> ledisdb" where
  "hexpire_at m key timestamp db =
     (if timestamp < wall m then reply_with (\<lambda>_. SimpleInt 0) (HClear key db)
      else reply_with SimpleInt (HExpireAt (wall m) key timestamp db))"

definition cmdHEXPIRE :: handler where
  "cmdHEXPIRE m args db =
     (if length args \<noteq> 3 then wrong_args db
      else sbind (lift_r (StrInt64 (Some (args ! 2))) db) (\<lambda>duration db.
             hexpire_at m (args ! 1) (wrap64 (m_Now m + duration)) db))"

definition cmdHEXPIREAT :: handler where
  "cmdHEXPIREAT m args db =
     (if length args \<noteq> 3 then wrong_args db
      else sbind (lift_r (StrInt64 (Some (args ! 2))) db) (\<lambda>timestamp db.
             hexpire_at m (args ! 1) timestamp db))"

definition cmdHTTL :: handler where
  "cmdHTTL m args db =
     (if length args \<noteq> 2 then wrong_args db else answer (HTTL db (wall m) (args ! 1)) SimpleInt db)"

definition cmdHPERSIST :: handler where
  "cmdHPERSIST m args db =
     (if length args \<noteq> 2 then wrong_args db else reply_with SimpleInt (HPersist (args ! 1) db))"

definition cmdHKEYEXISTS :: handler where
  "cmdHKEYEXISTS m args db =
     (if length args \<noteq> 2 then wrong_args db else answer (HKeyExists db (args ! 1)) SimpleInt db)"

section \<open>Properties\<close>

text \<open>The effect of a list of pairs on a hash: pairs with an invalid key, field or value are skipped.\<close>

definition hset_all :: "bytes \<Rightarrow> FVPair list \<Rightarrow> (bytes \<Rightarrow> bytes option) \<Rightarrow> bytes \<Rightarrow> bytes option" where
  "hset_all k fvs M = fold (\<lambda>(f, v) M. if key_ok k \<and> key_ok f \<and> length v \<le> MaxValueSize then M(f \<mapsto> v) else M) fvs M"

lemma hset_all_simps [simp]:
  "hset_all k [] M = M"
  "hset_all k ((f, v) # fvs) M
     = hset_all k fvs (if key_ok k \<and> key_ok f \<and> length v \<le> MaxValueSize then M(f \<mapsto> v) else M)"
  by (simp_all add: hset_all_def)

lemma hset_loop_ok:
  assumes "hash_inv db" "\<not> readonly db" "even (length args)" "room (length args) db"
    and "0 \<le> n" "n + int (length args) < 9223372036854775808"
  shows "\<exists>db'. hset_loop k args n db = (n + int (card (dom (hset_all k (fv_pairs args) (hash_of db k))))
      - int (card (dom (hash_of db k))), db') \<and> hash_inv db' \<and> readonly db' = readonly db \<and>
    hash_of db' = (hash_of db)(k := hset_all k (fv_pairs args) (hash_of db k)) \<and>
    expiry_of db' HashType = expiry_of db HashType"
  using assms
proof (induction k args n db rule: hset_loop.induct)
  case (1 k f v args n db)
  let ?M = "hash_of db k" and ?r = "if hash_of db k f = None then 1 else 0 :: int"
  show ?case
  proof (cases "key_ok k \<and> key_ok f \<and> length v \<le> MaxValueSize")
    case True
    obtain db1 where s: "HSet k f v db = (Inr ?r, db1)" "hash_step db k (?M(f \<mapsto> v)) db1"
      "length (bucket db1) \<le> length (bucket db) + 2"
      using HSet_ok [of db k f v] True "1.prems"(1,2,4) by (auto simp: hash_inv_def room_def)
    note d = mem_stepD [OF s(2)]
    have w: "wrap64 (n + ?r) = n + ?r" using "1.prems"(5,6) by (intro wrap64_id) (auto simp: is_int64_def)
    have c: "int (card (dom (?M(f \<mapsto> v)))) = int (card (dom ?M)) + ?r"
      by (simp add: card_insert_if domIff)
    have "\<exists>db'. hset_loop k args (wrap64 (n + ?r)) db1 =
        (wrap64 (n + ?r) + int (card (dom (hset_all k (fv_pairs args) (hash_of db1 k)))) - int (card (dom (hash_of db1 k))), db') \<and>
        hash_inv db' \<and> readonly db' = readonly db1 \<and> hash_of db' = (hash_of db1)(k := hset_all k (fv_pairs args) (hash_of db1 k)) \<and>
        expiry_of db' HashType = expiry_of db1 HashType"
      using "1.prems" d s(3) w by (intro "1.IH"(2) [OF s(1) [symmetric] refl]) (auto simp: room_def hash_inv_def)
    then show ?thesis using s(1) d True w c by auto
  next
    case False
    then obtain e where e: "HSet k f v db = (Inl e, db)" using HSet_invalid by blast
    then have "\<exists>db'. hset_loop k args n db =
        (n + int (card (dom (hset_all k (fv_pairs args) ?M))) - int (card (dom ?M)), db') \<and>
        hash_inv db' \<and> readonly db' = readonly db \<and> hash_of db' = (hash_of db)(k := hset_all k (fv_pairs args) ?M) \<and>
        expiry_of db' HashType = expiry_of db HashType"
      using "1.prems" by (intro "1.IH"(1) [OF e [symmetric] refl]) (auto simp: room_def)
    moreover have "hset_all k (fv_pairs (f # v # args)) ?M = hset_all k (fv_pairs args) ?M"
      unfolding fv_pairs.simps hset_all_simps if_not_P [OF False] ..
    ultimately show ?thesis by (simp only: hset_loop.simps e prod.case sum.case)
  qed
qed (auto simp: fun_upd_idem)

text \<open>
  C7: \<open>HSET k f1 v1 f2 v2 \<dots>\<close> sets the fields in order and answers how many of them are new;
  pairs with an invalid field or value, and all pairs of an invalid key, are skipped without
  an error. Other hashes and all expiries stay.
\<close>

theorem hset_refines:
  assumes "hash_inv db" "\<not> readonly db" "args \<noteq> []" "even (length args)" "room (length args) db"
  shows "\<exists>db'. cmdHSET m (c # k # args) db =
      (Inr (SimpleInt (int (card (dom (hset_all k (fv_pairs args) (hash_of db k)))) - int (card (dom (hash_of db k))))), db') \<and>
    hash_inv db' \<and> hash_of db' = (hash_of db)(k := hset_all k (fv_pairs args) (hash_of db k)) \<and>
    expiry_of db' HashType = expiry_of db HashType"
proof -
  have "length args \<ge> 2" using assms(3,4) by (cases args; cases "tl args") auto
  then have "cmdHSET m (c # k # args) db = (let (n, db) = hset_loop k args 0 db in (Inr (SimpleInt n), db))"
    using assms(3,4) by (simp add: cmdHSET_def even_iff_mod_2_eq_zero [symmetric])
  then show ?thesis using hset_loop_ok [OF assms(1,2,4,5), of 0 k] assms(5) by (auto simp: room_def)
qed

theorem hset_refines_witness:
  "hash_of (snd (cmdHSET node [''HSET'', ''h'', ''a'', ''1'', ''b'', ''2''] db0)) ''h'' = [''a'' \<mapsto> ''1'', ''b'' \<mapsto> ''2'']"
  using hset_refines [of db0 "[''a'', ''1'', ''b'', ''2'']" node "''HSET''" "''h''"] hash_db0
  by (auto simp: room_def key_ok_def)

text \<open>
  C11: \<open>HDEL k f1 f2 \<dots>\<close> with distinct fields removes them, answers how many there were, and
  drops the expiry with the last field. If one of the fields is invalid it answers 0 and
  changes nothing.
\<close>

theorem hdel_refines:
  assumes "hash_inv db" "\<not> readonly db" "key_ok k" "fs \<noteq> []" "distinct fs" "room (length fs) db"
  shows "if \<forall>f \<in> set fs. key_ok f
    then \<exists>db'. cmdHDEL m (c # k # fs) db = (Inr (SimpleInt (int (card (dom (hash_of db k) \<inter> set fs)))), db') \<and>
      hash_step db k (hash_of db k |` (- set fs)) db'
    else cmdHDEL m (c # k # fs) db = (Inr (SimpleInt 0), db)"
proof -
  have e: "\<exists>e. hdel_loop db k fs = Inl e" if "\<not> (\<forall>f \<in> set fs. key_ok f)"
    using that
  proof (induction fs)
    case (Cons f fs)
    then show ?case using assms(3)
      by (cases "key_ok f"; cases "\<forall>f \<in> set fs. key_ok f") (auto simp: checkHashKFSize_eq)
  qed simp
  have "Suc 0 \<le> length fs" using assms(4) by (cases fs) auto
  then show ?thesis
    using HDel_ok [of db k fs] assms e
    by (cases "\<forall>f \<in> set fs. key_ok f") (auto simp: cmdHDEL_def hash_inv_def HDel_def lift_r_def)
qed

theorem hdel_refines_witness:
  "fst (cmdHDEL node [''HDEL'', ''h'', ''a'', ''b''] (db_hash ''h'' ''a'' ''1'')) = Inr (SimpleInt 1)"
  using hdel_refines [of "db_hash ''h'' ''a'' ''1''" "''h''" "[''a'', ''b'']" node "''HDEL''"] db_hash_sample
  by (auto simp: room_def key_ok_def)

text \<open>
  C28: The reading commands agree with the map of fields: \<open>HGET\<close>, \<open>HEXISTS\<close>, \<open>HSTRLEN\<close>,
  \<open>HMGET\<close>, \<open>HLEN\<close>, and \<open>HKEYS\<close>, \<open>HVALS\<close>, \<open>HGETALL\<close> which list the fields in increasing
  order. \<open>HGET\<close> answers nil for an empty value as for a missing field.
\<close>

theorem hash_reads:
  assumes "hash_inv db" "key_ok k" "key_ok f" "\<forall>f \<in> set fs. key_ok f" "fs \<noteq> []" "room 0 db"
  defines "M \<equiv> hash_of db k" and "l \<equiv> sorted_list_of_set (dom (hash_of db k))"
  shows "cmdHGET m [c, k, f] db = (Inr (case M f of None \<Rightarrow> NilReply | Some b \<Rightarrow> if b = [] then NilReply else SimpleString b), db) \<and>
    cmdHEXISTS m [c, k, f] db = (Inr (SimpleInt (if f \<in> dom M then 1 else 0)), db) \<and>
    cmdHSTRLEN m [c, k, f] db = (Inr (SimpleInt (case M f of None \<Rightarrow> 0 | Some b \<Rightarrow> int (length b))), db) \<and>
    cmdHMGET m (c # k # fs) db = (Inr (BytesList (map M fs)), db) \<and>
    cmdHLEN m [c, k] db = (Inr (GoInt (int (card (dom M)))), db) \<and>
    cmdHKEYS m [c, k] db = (Inr (BytesList (map Some l)), db) \<and>
    cmdHVALS m [c, k] db = (Inr (BytesList (map M l)), db) \<and>
    cmdHGETALL m [c, k] db = (Inr (StrMap (map (\<lambda>f. (f, the (M f))) l)), db)"
proof -
  have ok: "hashes_ok db" "store_ok (bucket db)" using assms(1) by (auto simp: hash_inv_def mem_ok_def)
  have l: "map (\<lambda>f. Some (the (M f))) l = map M l" by (auto simp: l_def M_def)
  have "sorted_wrt (<) (map fst (map (\<lambda>f. (f, the (M f))) l))" by (simp add: o_def l_def)
  then have f: "fold (\<lambda>(k, v). sput k v) (map (\<lambda>f. (f, the (M f))) l) [] = map (\<lambda>f. (f, the (M f))) l"
    by (rule fold_sput_sorted)
  have "Suc 0 \<le> length fs" using assms(5) by (cases fs) auto
  then show ?thesis
    using assms(2-6) HMget_ok [OF ok(2) assms(2,4)] hash_scan [OF ok(1) assms(2)] HLen_ok [OF ok(1) assms(2,6)] l f
    by (simp add: cmdHGET_def cmdHEXISTS_def cmdHSTRLEN_def cmdHMGET_def cmdHLEN_def cmdHKEYS_def cmdHVALS_def
        cmdHGETALL_def HGet_ok M_def l_def domIff o_def)
qed

theorem hash_reads_witness:
  "fst (cmdHGETALL node [''HGETALL'', ''h''] (db_hash ''h'' ''a'' ''1'')) = Inr (StrMap [(''a'', ''1'')])"
  using hash_reads [of "db_hash ''h'' ''a'' ''1''" "''h''" "''a''" "[''a'']" node "''HGETALL''"] db_hash_sample
  by (simp add: room_def key_ok_def)

text \<open>
  \<open>HINCRBY\<close> adds with 64-bit wrap-around to the number the field holds, 0 if it is
  missing, and answers the sum; on a field that is no number it fails and changes nothing.
\<close>

theorem hincrby_adds:
  assumes "hash_inv db" "\<not> readonly db" "key_ok k" "key_ok f" "is_int64 d" "room 1 db"
  shows "case StrInt64 (hash_of db k f) of
      Inl e \<Rightarrow> cmdHINCRBY m [c, k, f, FormatInt d] db = (Inl e, db)
    | Inr n \<Rightarrow> \<exists>db'. cmdHINCRBY m [c, k, f, FormatInt d] db = (Inr (SimpleInt (wrap64 (n + d))), db') \<and>
        hash_step db k ((hash_of db k)(f \<mapsto> FormatInt (wrap64 (n + d)))) db'"
proof -
  have "cmdHINCRBY m [c, k, f, FormatInt d] db = reply_with SimpleInt (HIncrBy k f d db)"
    using assms(5) by (simp add: cmdHINCRBY_def lift_r_def)
  then show ?thesis
    using HIncrBy_ok [of db k f _ d] assms
    by (cases "StrInt64 (hash_of db k f)")
      (auto simp: hash_inv_def HIncrBy_def lift_r_def hash.enc mem_of_key)
qed

theorem hincrby_adds_witness:
  "fst (cmdHINCRBY node [''HINCRBY'', ''h'', ''n'', FormatInt 5] db0) = Inr (SimpleInt 5)"
  using hincrby_adds [of db0 "''h''" "''n''" 5 node "''HINCRBY''"] hash_db0
  by (auto simp: room_def key_ok_def is_int64_def)

text \<open>
  Naming a field twice in one command breaks the count of fields: \<open>HMSET k f v f w\<close> on an
  empty hash makes \<open>HLEN k\<close> 2 though \<open>f\<close> is the only field; and \<open>HDEL k f f\<close> on a hash with
  fields \<open>f\<close> and \<open>g\<close> answers 2 and leaves \<open>HLEN k\<close> at 0 with \<open>g\<close> still there.
\<close>

theorem hash_duplicates:
  assumes "hash_inv db" "\<not> readonly db" "key_ok k" "key_ok f" "room 2 db"
    and "length v \<le> MaxValueSize" "length w \<le> MaxValueSize"
  shows "(hash_of db k = Map.empty \<longrightarrow>
      (\<exists>db'. cmdHMSET m [c, k, f, v, f, w] db = (Inr (SimpleString ''OK''), db') \<and>
        hash_of db' k = [f \<mapsto> w] \<and> cmdHLEN m [c, k] db' = (Inr (GoInt 2), db'))) \<and>
    (hash_of db k = [f \<mapsto> v, g \<mapsto> w] \<and> f \<noteq> g \<longrightarrow>
      (\<exists>db'. cmdHDEL m [c, k, f, f] db = (Inr (SimpleInt 2), db') \<and>
        hash_of db' k = [g \<mapsto> w] \<and> cmdHLEN m [c, k] db' = (Inr (GoInt 0), db')))"
proof -
  have ok: "hashes_ok db" "store_ok (bucket db)" using assms(1) by (auto simp: hash_inv_def mem_ok_def)
  let ?sops = "size_ops HashType (hEncodeSizeKey db k) db k"
  note incr = hash.incr_size_eq [OF ok(1) assms(3,5), folded hIncrSize_def]
  have size: "Int64 (size_rec n) = Inr (int n)" if "n \<le> 2" for n
    using that by (auto simp: size_rec_def wrap64_id is_int64_def)
  have mset: "HMset k [(f, v), (f, w)] db = (Inr (), db\<lparr>bucket := apply_batch
      ([BPut (member_key HashType db k f) v, BPut (member_key HashType db k f) w] @ ?sops 2) (bucket db)\<rparr>)"
    if "hash_of db k = Map.empty"
    using that assms hmset_loop_ok [of k "[(f, v), (f, w)]" db] incr [of 2]
    by (simp add: HMset_def lift_r_def)
  have del: "HDel k [f, f] db = (Inr 2, db\<lparr>bucket := apply_batch
      ([BDel (member_key HashType db k f), BDel (member_key HashType db k f)] @ ?sops 0) (bucket db)\<rparr>)"
    if "hash_of db k = [f \<mapsto> v, g \<mapsto> w]" "f \<noteq> g"
    using that assms hdel_loop_ok [OF ok(2), of k "[f, f]"] incr [of "-2"]
    by (simp add: HDel_def lift_r_def)
  show ?thesis
    using mset del assms(3,4) size [of 0] size [of 2]
    by (auto simp: cmdHMSET_def cmdHDEL_def cmdHLEN_def HLen_def mem_of_def fun_eq_iff store_simps codec)
qed

theorem hash_duplicates_witness:
  "fst (cmdHMSET node [''HMSET'', ''h'', ''a'', ''1'', ''a'', ''2''] db0) = Inr (SimpleString ''OK'')"
  using hash_duplicates [of db0 "''h''" "''a''" "''1''" "''2''" node "''HMSET''" "''b''"] hash_db0
  by (auto simp: room_def key_ok_def)

lemma hset_loop_readonly: "readonly db \<Longrightarrow> snd (hset_loop k args n db) = db"
proof (induction k args n db rule: hset_loop.induct)
  case (1 k f v args n db)
  then show ?case using hash_readonly(1) [of db k f v] by (cases "HSet k f v db"; cases "fst (HSet k f v db)") auto
qed simp_all

lemma hash_inv_cmdHSET:
  assumes "hash_inv db" "room (length args) db"
  shows "hash_inv (snd (cmdHSET m args db))"
proof (cases "length args < 3 \<or> length args mod 2 \<noteq> 0")
  case False
  let ?l = "hset_loop (args ! 1) (drop 2 args) 0 db"
  have "hash_inv (snd ?l)"
  proof (cases "readonly db")
    case False
    moreover have "even (length (drop 2 args))" using \<open>\<not> (length args < 3 \<or> length args mod 2 \<noteq> 0)\<close> by simp presburger
    moreover have "room (length (drop 2 args)) db" using assms(2) by (simp add: room_def)
    ultimately show ?thesis using hset_loop_ok [OF assms(1), of "drop 2 args" 0 "args ! 1"] by (auto simp: room_def)
  qed (simp add: hset_loop_readonly assms(1))
  then show ?thesis using False by (cases ?l) (simp add: cmdHSET_def)
qed (use assms in \<open>auto simp: cmdHSET_def\<close>)

lemma hash_inv_hexpire_at: "hash_inv db \<Longrightarrow> hash_inv (snd (hexpire_at m k t db))"
  by (simp add: hexpire_at_def hash_inv_HClear hash_inv_hExpireAt HExpireAt_def)

text \<open>
  The hash invariant: on any arguments, every hash command keeps the records of all
  hashes well formed (one record per field, the size record equal to their number, nothing
  else under the hash tag) and the expiry records readable; \<open>HDEL\<close> and \<open>HMSET\<close> do when no
  field is named twice.
\<close>

theorem hash_invariant:
  assumes "hash_inv db" "room (length args) db"
  shows "list_all (\<lambda>h. hash_inv (snd (h m args db)))
      [cmdHSET, cmdHGET, cmdHEXISTS, cmdHGETALL, cmdHINCRBY, cmdHKEYS, cmdHLEN, cmdHMGET, cmdHSETNX, cmdHSTRLEN,
       cmdHVALS, cmdHCLEAR, cmdHMCLEAR, cmdHEXPIRE, cmdHEXPIREAT, cmdHTTL, cmdHKEYEXISTS] \<and>
    (distinct (drop 2 args) \<longrightarrow> hash_inv (snd (cmdHDEL m args db))) \<and>
    (distinct (map fst (fv_pairs (drop 2 args))) \<longrightarrow> hash_inv (snd (cmdHMSET m args db)))"
proof -
  have one: "hash_inv (snd (HSet k f v db))" "hash_inv (snd (HIncrBy k f d db))" if "length args = 4" for k f v d
    using assms that by (auto intro!: hash_inv_HSet hash_inv_HIncrBy simp: room_def)
  have "hash_inv (snd (cmdHDEL m args db))" if "distinct (drop 2 args)"
  proof -
    have "hash_inv (snd (HDel (args ! 1) (drop 2 args) db))" if "\<not> length args < 3"
      using that assms \<open>distinct (drop 2 args)\<close> by (intro hash_inv_HDel) (auto simp: room_def)
    then show ?thesis using assms(1) by (simp add: cmdHDEL_def)
  qed
  moreover have "hash_inv (snd (cmdHMSET m args db))" if "distinct (map fst (fv_pairs (drop 2 args)))"
  proof (cases "length args < 3 \<or> length (drop 2 args) mod 2 \<noteq> 0")
    case False
    then obtain f v r where a: "drop 2 args = f # v # r"
      by (cases "drop 2 args"; cases "tl (drop 2 args)") auto
    have "length (fv_pairs xs) \<le> length xs" for xs by (induction xs rule: fv_pairs.induct) auto
    then have "length (fv_pairs (drop 2 args)) \<le> length args" by (metis diff_le_self le_trans length_drop)
    then have "hash_inv (snd (HMset (args ! 1) (fv_pairs (drop 2 args)) db))"
      using assms that a by (intro hash_inv_HMset) (auto simp: room_def)
    then show ?thesis using False by (simp add: cmdHMSET_def)
  qed (use assms in \<open>auto simp: cmdHMSET_def\<close>)
  ultimately show ?thesis using assms one
    by (auto simp: inv_checked [where P = hash_inv] cmdHGET_def cmdHEXISTS_def cmdHGETALL_def cmdHINCRBY_def cmdHKEYS_def cmdHLEN_def cmdHMGET_def
        cmdHSETNX_def cmdHSTRLEN_def cmdHVALS_def cmdHCLEAR_def cmdHMCLEAR_def cmdHEXPIRE_def cmdHEXPIREAT_def
        cmdHTTL_def cmdHKEYEXISTS_def hash_inv_cmdHSET hash_inv_HClear hash_inv_HMclear hash_inv_hexpire_at)
qed

theorem hash_invariant_witness:
  "hash_inv (snd (cmdHDEL node [''HDEL'', ''h'', ''a''] (db_hash ''h'' ''a'' ''1'')))"
  using hash_invariant [of "db_hash ''h'' ''a'' ''1''" "[''HDEL'', ''h'', ''a'']" node] db_hash_sample
  by (simp add: room_def)

end
