(* ===== verification/LedisSet.thy ===== *)
theory LedisSet
  imports Members
begin

text \<open>
  Sets (\<open>ledis/t_set.go\<close>): every method in the order of the file, and the set of members that
  the stored records of a key represent.

  The set operations collect members in a Go map; its keys are a list without repetitions
  here. The order in which \<open>range\<close> visits a map is not specified by the language: it is the
  argument \<open>ord\<close>, a function that rearranges the list of keys.
\<close>

section \<open>Operations\<close>

datatype optype = UnionType | DiffType | InterType

definition sEncodeStartKey :: "ledisdb \<Rightarrow> bytes \<Rightarrow> bytes" where
  "sEncodeStartKey db key = sEncodeSetKey db key []"

definition sEncodeStopKey :: "ledisdb \<Rightarrow> bytes \<Rightarrow> bytes" where
  "sEncodeStopKey db key = butlast (sEncodeSetKey db key []) @ '';''"

definition sDelete :: "ledisdb \<Rightarrow> bytes \<Rightarrow> int \<times> bop list" where
  "sDelete db key =
     (let it = scan_range db (sEncodeStartKey db key) (sEncodeStopKey db key)
      in (int (length it), map (\<lambda>p. BDel (fst p)) it @ [BDel (sEncodeSizeKey db key)]))"

definition sIncrSize :: "ledisdb \<Rightarrow> bytes \<Rightarrow> int \<Rightarrow> (int \<times> bop list) result" where
  "sIncrSize db key delta = incr_size SetType (sEncodeSizeKey db key) db key delta"

definition SCard :: "ledisdb \<Rightarrow> bytes \<Rightarrow> int result" where
  "SCard db key = rbind (checkKeySize key) (\<lambda>_. Int64 (db_get db (sEncodeSizeKey db key)))"

definition sExpireAt :: "bytes \<Rightarrow> int \<Rightarrow> ledisdb \<Rightarrow> int result \<times> ledisdb" where
  "sExpireAt key when db =
     sbind (lift_r (SCard db key) db) (\<lambda>scnt db.
       if scnt = 0 then (Inr 0, db) else commit_expireAt SetType key when db)"

definition sSetItem :: "ledisdb \<Rightarrow> bytes \<Rightarrow> bytes \<Rightarrow> (int \<times> bop list) result" where
  "sSetItem db key member =
     (let ek = sEncodeSetKey db key member
      in case db_get db ek of
           Some _ \<Rightarrow> Inr (0, [BPut ek []])
         | None \<Rightarrow> rbind (sIncrSize db key 1) (\<lambda>(_, ops). Inr (1, ops @ [BPut ek []])))"

text \<open>The loop of \<open>SAdd\<close>: the number of members not stored yet, and the batch.\<close>

fun sadd_loop :: "ledisdb \<Rightarrow> bytes \<Rightarrow> bytes list \<Rightarrow> (int \<times> bop list) result" where
  "sadd_loop db key [] = Inr (0, [])"
| "sadd_loop db key (m # args) =
     rbind (checkSetKMSize key m) (\<lambda>_.
     rbind (sadd_loop db key args) (\<lambda>(num, ops).
       let ek = sEncodeSetKey db key m
       in Inr ((if db_get db ek = None then 1 else 0) + num, BPut ek [] # ops)))"

definition SAdd :: "bytes \<Rightarrow> bytes list \<Rightarrow> ledisdb \<Rightarrow> int result \<times> ledisdb" where
  "SAdd key args db =
     sbind (lift_r (sadd_loop db key args) db) (\<lambda>(num, ops) db.
     sbind (lift_r (sIncrSize db key num) db) (\<lambda>(_, sops) db.
     sbind (Commit (ops @ sops) db) (\<lambda>_ db. (Inr num, db))))"

fun decode_members :: "ledisdb \<Rightarrow> store \<Rightarrow> bytes list result" where
  "decode_members db [] = Inr []"
| "decode_members db ((ek, v) # it) =
     rbind (sDecodeSetKey db ek) (\<lambda>(_, m). rbind (decode_members db it) (\<lambda>r. Inr (m # r)))"

definition SMembers :: "ledisdb \<Rightarrow> bytes \<Rightarrow> bytes list result" where
  "SMembers db key =
     rbind (checkKeySize key) (\<lambda>_.
       decode_members db (scan_range db (sEncodeStartKey db key) (sEncodeStopKey db key)))"

text \<open>The loop of \<open>sDiffGeneric\<close> over the keys after the first.\<close>

fun sdiff_loop :: "ledisdb \<Rightarrow> bytes list \<Rightarrow> bytes list \<Rightarrow> bytes list result" where
  "sdiff_loop db destMap [] = Inr destMap"
| "sdiff_loop db destMap (k # keys) =
     rbind (SMembers db k) (\<lambda>members.
       let destMap = fold removeAll members destMap
       in if destMap = [] then Inr [] else sdiff_loop db destMap keys)"

definition sDiffGeneric :: "(bytes list \<Rightarrow> bytes list) \<Rightarrow> ledisdb \<Rightarrow> bytes list \<Rightarrow> bytes list result" where
  "sDiffGeneric ord db keys =
     (case keys of
        [] \<Rightarrow> Inl Panic
      | k # keys \<Rightarrow> rbind (SMembers db k) (\<lambda>members.
          rbind (sdiff_loop db (remdups members) keys) (\<lambda>destMap. Inr (ord destMap))))"

definition SDiff :: "(bytes list \<Rightarrow> bytes list) \<Rightarrow> ledisdb \<Rightarrow> bytes list \<Rightarrow> bytes list result" where
  "SDiff ord db keys = sDiffGeneric ord db keys"

definition SKeyExists :: "ledisdb \<Rightarrow> bytes \<Rightarrow> int result" where
  "SKeyExists db key =
     rbind (checkKeySize key) (\<lambda>_.
       case db_get db (sEncodeSizeKey db key) of None \<Rightarrow> Inr 0 | Some v \<Rightarrow> Inr 1)"

text \<open>The marking loop of \<open>sInterGeneric\<close> and the loop over the keys after the first.\<close>

fun sinter_mark :: "bytes list \<Rightarrow> bytes list \<Rightarrow> bytes list result" where
  "sinter_mark destMap [] = Inr []"
| "sinter_mark destMap (member # members) =
     rbind (checkKeySize member) (\<lambda>_.
     rbind (sinter_mark destMap members) (\<lambda>tempMap.
       Inr (if member \<in> set destMap then List.insert member tempMap else tempMap)))"

fun sinter_loop :: "ledisdb \<Rightarrow> bytes list \<Rightarrow> bytes list \<Rightarrow> bytes list result" where
  "sinter_loop db destMap [] = Inr destMap"
| "sinter_loop db destMap (key # keys) =
     rbind (checkKeySize key) (\<lambda>_.
     rbind (SMembers db key) (\<lambda>members.
       if length members = 0 then Inr []
       else rbind (sinter_mark destMap members) (\<lambda>tempMap.
              if tempMap = [] then Inr [] else sinter_loop db tempMap keys)))"

definition sInterGeneric :: "(bytes list \<Rightarrow> bytes list) \<Rightarrow> ledisdb \<Rightarrow> bytes list \<Rightarrow> bytes list result" where
  "sInterGeneric ord db keys =
     (case keys of
        [] \<Rightarrow> Inl Panic
      | k # keys \<Rightarrow> rbind (SMembers db k) (\<lambda>members.
          rbind (sinter_loop db (remdups members) keys) (\<lambda>destMap. Inr (ord destMap))))"

definition SInter :: "(bytes list \<Rightarrow> bytes list) \<Rightarrow> ledisdb \<Rightarrow> bytes list \<Rightarrow> bytes list result" where
  "SInter ord db keys = sInterGeneric ord db keys"

definition SIsMember :: "ledisdb \<Rightarrow> bytes \<Rightarrow> bytes \<Rightarrow> int result" where
  "SIsMember db key member =
     (case db_get db (sEncodeSetKey db key member) of None \<Rightarrow> Inr 0 | Some v \<Rightarrow> Inr 1)"

fun srem_loop :: "ledisdb \<Rightarrow> bytes \<Rightarrow> bytes list \<Rightarrow> (int \<times> bop list) result" where
  "srem_loop db key [] = Inr (0, [])"
| "srem_loop db key (m # args) =
     rbind (checkSetKMSize key m) (\<lambda>_.
     rbind (srem_loop db key args) (\<lambda>(num, ops).
       let ek = sEncodeSetKey db key m
       in case it_Find (bucket db) ek of
            None \<Rightarrow> Inr (num, ops)
          | Some v \<Rightarrow> Inr (1 + num, BDel ek # ops)))"

definition SRem :: "bytes \<Rightarrow> bytes list \<Rightarrow> ledisdb \<Rightarrow> int result \<times> ledisdb" where
  "SRem key args db =
     sbind (lift_r (srem_loop db key args) db) (\<lambda>(num, ops) db.
     sbind (lift_r (sIncrSize db key (- num)) db) (\<lambda>(_, sops) db.
     sbind (Commit (ops @ sops) db) (\<lambda>_ db. (Inr num, db))))"

fun sunion_loop :: "ledisdb \<Rightarrow> bytes list \<Rightarrow> bytes list \<Rightarrow> bytes list result" where
  "sunion_loop db dstMap [] = Inr dstMap"
| "sunion_loop db dstMap (key # keys) =
     rbind (checkKeySize key) (\<lambda>_.
     rbind (SMembers db key) (\<lambda>members.
       sunion_loop db (fold List.insert members dstMap) keys))"

definition sUnionGeneric :: "(bytes list \<Rightarrow> bytes list) \<Rightarrow> ledisdb \<Rightarrow> bytes list \<Rightarrow> bytes list result" where
  "sUnionGeneric ord db keys = rbind (sunion_loop db [] keys) (\<lambda>dstMap. Inr (ord dstMap))"

definition SUnion :: "(bytes list \<Rightarrow> bytes list) \<Rightarrow> ledisdb \<Rightarrow> bytes list \<Rightarrow> bytes list result" where
  "SUnion ord db keys = sUnionGeneric ord db keys"

text \<open>The switch over the operation in \<open>sStoreGeneric\<close>.\<close>

definition sopt :: "optype \<Rightarrow> (bytes list \<Rightarrow> bytes list) \<Rightarrow> ledisdb \<Rightarrow> bytes list \<Rightarrow> bytes list result" where
  "sopt op ord db keys =
     (case op of
        UnionType \<Rightarrow> sUnionGeneric ord db keys
      | DiffType \<Rightarrow> sDiffGeneric ord db keys
      | InterType \<Rightarrow> sInterGeneric ord db keys)"

fun sstore_loop :: "ledisdb \<Rightarrow> bytes \<Rightarrow> bytes list \<Rightarrow> bop list result" where
  "sstore_loop db dstKey [] = Inr []"
| "sstore_loop db dstKey (m # v) =
     rbind (checkSetKMSize dstKey m) (\<lambda>_.
     rbind (sstore_loop db dstKey v) (\<lambda>ops. Inr (BPut (sEncodeSetKey db dstKey m) [] # ops)))"

definition sStoreGeneric :: "(bytes list \<Rightarrow> bytes list) \<Rightarrow> bytes \<Rightarrow> optype \<Rightarrow> bytes list \<Rightarrow> ledisdb \<Rightarrow> int result \<times> ledisdb" where
  "sStoreGeneric ord dstKey op keys db =
     sbind (lift_r (checkKeySize dstKey) db) (\<lambda>_ db.
     sbind (lift_r (sopt op ord db keys) db) (\<lambda>v db.
     sbind (lift_r (sstore_loop db dstKey v) db) (\<lambda>ops db.
       let n = int (length v)
       in sbind (Commit (snd (sDelete db dstKey) @ ops @ [BPut (sEncodeSizeKey db dstKey) (PutInt64 n)]) db)
            (\<lambda>_ db. (Inr n, db)))))"

definition SDiffStore :: "(bytes list \<Rightarrow> bytes list) \<Rightarrow> bytes \<Rightarrow> bytes list \<Rightarrow> ledisdb \<Rightarrow> int result \<times> ledisdb" where
  "SDiffStore ord dstKey keys db = sStoreGeneric ord dstKey DiffType keys db"

definition SInterStore :: "(bytes list \<Rightarrow> bytes list) \<Rightarrow> bytes \<Rightarrow> bytes list \<Rightarrow> ledisdb \<Rightarrow> int result \<times> ledisdb" where
  "SInterStore ord dstKey keys db = sStoreGeneric ord dstKey InterType keys db"

definition SUnionStore :: "(bytes list \<Rightarrow> bytes list) \<Rightarrow> bytes \<Rightarrow> bytes list \<Rightarrow> ledisdb \<Rightarrow> int result \<times> ledisdb" where
  "SUnionStore ord dstKey keys db = sStoreGeneric ord dstKey UnionType keys db"

definition SClear :: "bytes \<Rightarrow> ledisdb \<Rightarrow> int result \<times> ledisdb" where
  "SClear key db =
     sbind (lift_r (checkKeySize key) db) (\<lambda>_ db.
       let (num, ops) = sDelete db key
       in sbind (Commit (ops @ rmExpire_ops db SetType key) db) (\<lambda>_ db. (Inr num, db)))"

fun smclear_ops :: "ledisdb \<Rightarrow> bytes list \<Rightarrow> bop list result" where
  "smclear_ops db [] = Inr []"
| "smclear_ops db (key # keys) =
     rbind (checkKeySize key) (\<lambda>_.
     rbind (smclear_ops db keys) (\<lambda>rest. Inr (snd (sDelete db key) @ rmExpire_ops db SetType key @ rest)))"

definition SMclear :: "bytes list \<Rightarrow> ledisdb \<Rightarrow> int result \<times> ledisdb" where
  "SMclear keys db =
     sbind (lift_r (smclear_ops db keys) db) (\<lambda>ops db.
     sbind (Commit ops db) (\<lambda>_ db. (Inr (int (length keys)), db)))"

definition SExpire :: "int \<Rightarrow> bytes \<Rightarrow> int \<Rightarrow> ledisdb \<Rightarrow> int result \<times> ledisdb" where
  "SExpire now key duration db =
     (if duration \<le> 0 then (Inl errExpireValue, db) else sExpireAt key (wrap64 (now + duration)) db)"

definition SExpireAt :: "int \<Rightarrow> bytes \<Rightarrow> int \<Rightarrow> ledisdb \<Rightarrow> int result \<times> ledisdb" where
  "SExpireAt now key when db =
     (if when \<le> now then (Inl errExpireValue, db) else sExpireAt key when db)"

definition STTL :: "ledisdb \<Rightarrow> int \<Rightarrow> bytes \<Rightarrow> int result" where
  "STTL db now key = rbind (checkKeySize key) (\<lambda>_. ttl db now SetType key)"

definition SPersist :: "bytes \<Rightarrow> ledisdb \<Rightarrow> int result \<times> ledisdb" where
  "SPersist key db = commit_persist SetType key db"

section \<open>The members of a set\<close>

interpretation sets: member_layout sEncodeSetKey sDecodeSetKey sEncodeSizeKey SetType SSizeType
  by unfold_locales
    (simp_all add: sEncodeSetKey_def member_key_def sEncodeSizeKey_def type_of_tag_def
      sDecodeSetKey_encode [unfolded sEncodeSetKey_def])

abbreviation sets_ok :: "ledisdb \<Rightarrow> bool" where
  "sets_ok \<equiv> mem_ok SetType SSizeType"

definition set_of :: "ledisdb \<Rightarrow> bytes \<Rightarrow> bytes set" where
  "set_of db k = dom (mem_of SetType db k)"

abbreviation set_step :: "ledisdb \<Rightarrow> bytes \<Rightarrow> (bytes \<Rightarrow> bytes option) \<Rightarrow> ledisdb \<Rightarrow> bool" where
  "set_step \<equiv> mem_step SetType SSizeType"

lemma finite_set_of [simp]: "finite (set_of db k)"
  by (simp add: set_of_def)

lemma SCard_ok: "sets_ok db \<Longrightarrow> key_ok k \<Longrightarrow> room 0 db \<Longrightarrow> SCard db k = Inr (int (card (set_of db k)))"
  by (simp add: SCard_def sets.Int64_size set_of_def)

lemma SIsMember_ok: "key_ok k \<Longrightarrow> key_ok x \<Longrightarrow> SIsMember db k x = Inr (if x \<in> set_of db k then 1 else 0)"
  by (auto simp: SIsMember_def sets.enc mem_of_key set_of_def split: option.split)

lemma sadd_loop_ok:
  "key_ok k \<Longrightarrow> \<forall>x \<in> set xs. key_ok x \<Longrightarrow>
     sadd_loop db k xs = Inr (int (length (filter (\<lambda>x. mem_of SetType db k x = None) xs)),
       map (\<lambda>x. BPut (member_key SetType db k x) []) xs)"
  by (induction db k xs rule: sadd_loop.induct) (auto simp: sets.enc mem_of_key Let_def)

lemma srem_loop_ok:
  "store_ok (bucket db) \<Longrightarrow> key_ok k \<Longrightarrow> \<forall>x \<in> set xs. key_ok x \<Longrightarrow>
     srem_loop db k xs = Inr (int (length (filter (\<lambda>x. mem_of SetType db k x \<noteq> None) xs)),
       map BDel (map (member_key SetType db k) (filter (\<lambda>x. mem_of SetType db k x \<noteq> None) xs)))"
  by (induction db k xs rule: srem_loop.induct)
    (auto simp: sets.enc mem_of_key Let_def it_Find_eq_sget split: option.splits)

lemma SAdd_ok:
  assumes "sets_ok db" "ttl_ok db" "\<not> readonly db" "key_ok k" "room (length xs) db" "\<forall>x \<in> set xs. key_ok x" "distinct xs"
  shows "\<exists>db'. SAdd k xs db = (Inr (int (card (set xs - set_of db k))), db') \<and>
    set_step db k (mem_of SetType db k ++ map_of (map (\<lambda>x. (x, [])) xs)) db'"
proof -
  let ?new = "filter (\<lambda>x. mem_of SetType db k x = None) xs"
  have n: "card (set xs - set_of db k) = length ?new"
    using distinct_card [of ?new] assms(7) by (simp add: set_of_def dom_def set_diff_eq)
  have "\<bar>int (length ?new)\<bar> \<le> int (length xs)" by simp
  note i = sets.incr_size_eq [OF assms(1,4,5) this, folded sIncrSize_def]
  have "set_step db k (mem_of SetType db k ++ map_of (map (\<lambda>x. (x, [])) xs)) (db\<lparr>bucket := apply_batch
      (map (\<lambda>x. BPut (member_key SetType db k x) []) xs @ size_ops SetType (sEncodeSizeKey db k) db k
        (int (card (dom (mem_of SetType db k))) + int (length ?new))) (bucket db)\<rparr>)"
    using sets.add_step [OF assms(1,2,4), of "map (\<lambda>x. (x, [])) xs"] assms(6,7)
    by (simp add: o_def filter_map)
  then show ?thesis using assms(3,4,6) i n by (simp add: SAdd_def sadd_loop_ok lift_r_def)
qed

lemma SRem_ok:
  assumes "sets_ok db" "ttl_ok db" "\<not> readonly db" "key_ok k" "room (length xs) db" "\<forall>x \<in> set xs. key_ok x" "distinct xs"
  shows "\<exists>db'. SRem k xs db = (Inr (int (card (set_of db k \<inter> set xs))), db') \<and>
    set_step db k (mem_of SetType db k |` (- set xs)) db'"
proof -
  let ?ds = "filter (\<lambda>x. mem_of SetType db k x \<noteq> None) xs" and ?M = "mem_of SetType db k"
  have n: "card (set_of db k \<inter> set xs) = length ?ds"
    using distinct_card [of ?ds] assms(7) by (simp add: set_of_def dom_def Int_def conj_commute)
  have "\<bar>- int (length ?ds)\<bar> \<le> int (length xs)" by simp
  then have "sIncrSize db k (- int (length ?ds)) = Inr (max 0 (int (card (dom ?M)) - int (length ?ds)),
      size_ops SetType (sEncodeSizeKey db k) db k (int (card (dom ?M)) - int (length ?ds)))"
    using sets.incr_size_eq [OF assms(1,4,5)] by (simp add: sIncrSize_def)
  moreover have "srem_loop db k xs = Inr (int (length ?ds), map BDel (map (member_key SetType db k) ?ds))"
    using assms(1,4,6) by (intro srem_loop_ok) (simp_all add: mem_ok_def)
  ultimately have "SRem k xs db = (Inr (int (length ?ds)), db\<lparr>bucket := apply_batch
      (map BDel (map (member_key SetType db k) ?ds) @ size_ops SetType (sEncodeSizeKey db k) db k
        (int (card (dom ?M)) - int (length ?ds))) (bucket db)\<rparr>)"
    unfolding SRem_def by (simp only: lift_r_def sbind_simps prod.case Commit_ok [OF assms(3)])
  then show ?thesis using sets.remove_step [OF assms(1,2,4,6,7)] n by auto
qed

section \<open>Scans and the set operations\<close>

lemma set_range:
  "sEncodeStartKey db k = member_key SetType db k []"
  "sEncodeStopKey db k = butlast (member_key SetType db k []) @ '';''"
  by (simp_all add: sEncodeStartKey_def sEncodeStopKey_def sets.enc)

lemma decode_members_map:
  "key_ok k \<Longrightarrow> decode_members db (map (\<lambda>x. (member_key SetType db k x, g x)) xs) = Inr xs"
  by (induction xs) (simp_all add: sets.dec_enc [unfolded sets.enc] key_ok_length)

lemma SMembers_ok:
  "sets_ok db \<Longrightarrow> key_ok k \<Longrightarrow> SMembers db k = Inr (sorted_list_of_set (set_of db k))"
  by (simp add: SMembers_def set_range sets.scan_members decode_members_map set_of_def)

lemma set_of_ok: "x \<in> set_of db k \<Longrightarrow> key_ok x"
  using dom_mem_of_ok by (simp add: set_of_def)

lemma fold_removeAll: "set (fold removeAll ms d) = set d - set ms" "distinct d \<Longrightarrow> distinct (fold removeAll ms d)"
  by (induction ms arbitrary: d) (auto simp: distinct_removeAll)

lemma fold_insert_list: "set (fold List.insert ms d) = set d \<union> set ms" "distinct d \<Longrightarrow> distinct (fold List.insert ms d)"
  by (induction ms arbitrary: d) auto

lemma sdiff_loop_ok:
  "sets_ok db \<Longrightarrow> \<forall>k \<in> set ks. key_ok k \<Longrightarrow> distinct d \<Longrightarrow>
     \<exists>r. sdiff_loop db d ks = Inr r \<and> distinct r \<and> set r = set d - (\<Union>k \<in> set ks. set_of db k)"
proof (induction ks arbitrary: d)
  case (Cons k ks)
  let ?d = "fold removeAll (sorted_list_of_set (set_of db k)) d"
  have d: "set ?d = set d - set_of db k" "distinct ?d" using Cons.prems(3) by (simp_all add: fold_removeAll)
  show ?case
  proof (cases "?d = []")
    case True
    then have "set d - set_of db k = {}" using d(1) by simp
    then show ?thesis using True Cons.prems by (auto simp: SMembers_ok)
  next
    case False
    then show ?thesis using Cons.IH [OF _ _ d(2)] Cons.prems d(1) by (auto simp: SMembers_ok)
  qed
qed simp

lemma sinter_mark_ok:
  "\<forall>x \<in> set ms. key_ok x \<Longrightarrow> \<exists>r. sinter_mark d ms = Inr r \<and> distinct r \<and> set r = set d \<inter> set ms"
  by (induction ms) auto

lemma sinter_loop_ok:
  "sets_ok db \<Longrightarrow> \<forall>k \<in> set ks. key_ok k \<Longrightarrow> distinct d \<Longrightarrow>
     \<exists>r. sinter_loop db d ks = Inr r \<and> distinct r \<and> set r = set d \<inter> (\<Inter>k \<in> set ks. set_of db k)"
proof (induction ks arbitrary: d)
  case (Cons k ks)
  let ?ms = "sorted_list_of_set (set_of db k)"
  obtain r where r: "sinter_mark d ?ms = Inr r" "distinct r" "set r = set d \<inter> set_of db k"
    using sinter_mark_ok [of ?ms d] set_of_ok by auto
  have ms: "?ms = [] \<longleftrightarrow> set_of db k = {}" by simp
  show ?case
  proof (cases "?ms = [] \<or> r = []")
    case True
    then have "set d \<inter> set_of db k = {}" using r(3) ms by auto
    then show ?thesis using True Cons.prems r(1) by (auto simp: SMembers_ok)
  next
    case False
    then show ?thesis using Cons.IH [OF _ _ r(2)] Cons.prems r by (auto simp: SMembers_ok)
  qed
qed simp

lemma sunion_loop_ok:
  "sets_ok db \<Longrightarrow> \<forall>k \<in> set ks. key_ok k \<Longrightarrow> distinct d \<Longrightarrow>
     \<exists>r. sunion_loop db d ks = Inr r \<and> distinct r \<and> set r = set d \<union> (\<Union>k \<in> set ks. set_of db k)"
proof (induction ks arbitrary: d)
  case (Cons k ks)
  let ?d = "fold List.insert (sorted_list_of_set (set_of db k)) d"
  have d: "set ?d = set d \<union> set_of db k" "distinct ?d" using Cons.prems(3) by (simp_all add: fold_insert_list)
  then show ?case using Cons.IH [OF _ _ d(2)] Cons.prems by (auto simp: SMembers_ok)
qed simp

text \<open>The set each operation computes.\<close>

fun sets_result :: "optype \<Rightarrow> ledisdb \<Rightarrow> bytes list \<Rightarrow> bytes set" where
  "sets_result UnionType db ks = (\<Union>k \<in> set ks. set_of db k)"
| "sets_result DiffType db ks = set_of db (hd ks) - (\<Union>k \<in> set (tl ks). set_of db k)"
| "sets_result InterType db ks = (\<Inter>k \<in> set ks. set_of db k)"

lemma sopt_ok:
  assumes "sets_ok db" "any_order ord" "ks \<noteq> []" "\<forall>k \<in> set ks. key_ok k"
  shows "\<exists>v. sopt op ord db ks = Inr v \<and> distinct v \<and> set v = sets_result op db ks"
proof -
  obtain k ks' where ks: "ks = k # ks'" using assms(3) by (cases ks) auto
  have ord: "distinct v \<Longrightarrow> distinct (ord v) \<and> set (ord v) = set v" for v using assms(2) by (simp add: any_order_def)
  have k: "SMembers db k = Inr (sorted_list_of_set (set_of db k))" using assms(1,4) ks by (simp add: SMembers_ok)
  let ?d = "sorted_list_of_set (set_of db k)"
  have rd: "remdups ?d = ?d" by (simp add: distinct_remdups_id)
  have "\<exists>r. sdiff_loop db ?d ks' = Inr r \<and> distinct r \<and> set r = set ?d - (\<Union>k \<in> set ks'. set_of db k)"
    "\<exists>r. sinter_loop db ?d ks' = Inr r \<and> distinct r \<and> set r = set ?d \<inter> (\<Inter>k \<in> set ks'. set_of db k)"
    "\<exists>r. sunion_loop db [] ks = Inr r \<and> distinct r \<and> set r = set [] \<union> (\<Union>k \<in> set ks. set_of db k)"
    using assms(1,4) ks by (intro sdiff_loop_ok sinter_loop_ok sunion_loop_ok; simp)+
  then show ?thesis using k ord
    by (cases op) (auto simp: sopt_def sDiffGeneric_def sInterGeneric_def sUnionGeneric_def ks rd)
qed

lemma sets_result_ok:
  assumes "ks \<noteq> []" "x \<in> sets_result op db ks"
  shows "key_ok x"
  using assms set_of_ok by (cases op; cases ks) auto

lemma sstore_loop_ok:
  "key_ok k \<Longrightarrow> \<forall>x \<in> set v. key_ok x \<Longrightarrow> sstore_loop db k v = Inr (map (\<lambda>x. BPut (member_key SetType db k x) []) v)"
  by (induction v) (auto simp: sets.enc)

lemma sDelete_ok:
  assumes "sets_ok db" "key_ok k"
  shows "sDelete db k = (int (card (set_of db k)), map BDel (clear_keys SetType (sEncodeSizeKey db k) db k))"
  by (simp add: sDelete_def set_range sets.scan_members [OF assms] clear_keys_def o_def set_of_def)

lemma sget_put_all:
  "sget (apply_batch (map (\<lambda>x. BPut (f x) []) v) st) y = (if y \<in> f ` set v then Some [] else sget st y)"
  by (induction v arbitrary: st) (auto simp: store_simps)

text \<open>What \<open>sStoreGeneric\<close> commits; the store it leaves depends on the result only as a set.\<close>

definition sstore_bucket :: "ledisdb \<Rightarrow> bytes \<Rightarrow> bytes list \<Rightarrow> store" where
  "sstore_bucket db k v = apply_batch (map BDel (clear_keys SetType (sEncodeSizeKey db k) db k) @
     map (\<lambda>x. BPut (member_key SetType db k x) []) v @ [BPut (sEncodeSizeKey db k) (PutInt64 (int (length v)))]) (bucket db)"

lemma sget_sstore:
  "sget (sstore_bucket db k v) y = (if y = sEncodeSizeKey db k then Some (PutInt64 (int (length v)))
     else if y \<in> member_key SetType db k ` set v then Some []
     else if y \<in> set (clear_keys SetType (sEncodeSizeKey db k) db k) then None else db_get db y)"
  by (simp add: sstore_bucket_def sget_put_all sget_apply_batch_deletes store_simps)

lemma sstore_bucket_set:
  assumes "store_ok (bucket db)" "distinct v" "distinct v'" "set v = set v'"
  shows "sstore_bucket db k v = sstore_bucket db k v'"
proof (rule mem.entries_determined)
  show "sget (sstore_bucket db k v) = sget (sstore_bucket db k v')"
    using assms(2-4) distinct_card [of v] distinct_card [of v'] by (auto simp: fun_eq_iff sget_sstore)
qed (use assms(1) in \<open>simp_all add: sstore_bucket_def\<close>)

lemma sStore_ok:
  assumes "sets_ok db" "\<not> readonly db" "any_order ord" "key_ok dst" "ks \<noteq> []" "\<forall>k \<in> set ks. key_ok k"
  shows "\<exists>v. distinct v \<and> set v = sets_result op db ks \<and>
    sStoreGeneric ord dst op ks db = (Inr (int (card (sets_result op db ks))), db\<lparr>bucket := sstore_bucket db dst v\<rparr>)"
proof -
  obtain v where v: "sopt op ord db ks = Inr v" "distinct v" "set v = sets_result op db ks"
    using sopt_ok [OF assms(1,3,5,6)] by blast
  have "\<forall>x \<in> set v. key_ok x" using v(3) sets_result_ok [OF assms(5)] by blast
  moreover have "card (sets_result op db ks) = length v" using distinct_card [OF v(2)] v(3) by simp
  ultimately have "sStoreGeneric ord dst op ks db
      = (Inr (int (card (sets_result op db ks))), db\<lparr>bucket := sstore_bucket db dst v\<rparr>)"
    using assms v(1) by (simp add: sStoreGeneric_def lift_r_def sstore_loop_ok sDelete_ok Let_def sstore_bucket_def)
  then show ?thesis using v by blast
qed

text \<open>
  On any database, well formed or not, \<open>sStoreGeneric\<close> does the same for every order of map
  iteration: the loops collect members without repetitions, the only error of the last loop does
  not depend on the order, and the puts commute.
\<close>

lemma sdiff_loop_distinct: "distinct d \<Longrightarrow> sdiff_loop db d ks = Inr v \<Longrightarrow> distinct v"
proof (induction db d ks arbitrary: v rule: sdiff_loop.induct)
  case (2 db d k ks)
  have "distinct (fold removeAll ms d)" if "distinct d" for ms d :: "bytes list"
    using that by (induction ms arbitrary: d) (auto simp: distinct_removeAll)
  then show ?case using 2 by (auto simp: rbind_eq_Inr Let_def split: if_splits)
qed simp

lemma sinter_mark_distinct: "sinter_mark d ms = Inr v \<Longrightarrow> distinct v"
  by (induction d ms arbitrary: v rule: sinter_mark.induct) (auto simp: rbind_eq_Inr)

lemma sinter_loop_distinct: "distinct d \<Longrightarrow> sinter_loop db d ks = Inr v \<Longrightarrow> distinct v"
  by (induction db d ks arbitrary: v rule: sinter_loop.induct)
    (auto simp: rbind_eq_Inr dest: sinter_mark_distinct split: if_splits)

lemma sunion_loop_distinct: "distinct d \<Longrightarrow> sunion_loop db d ks = Inr v \<Longrightarrow> distinct v"
proof (induction db d ks arbitrary: v rule: sunion_loop.induct)
  case (2 db d k ks)
  have "distinct (fold List.insert ms d)" if "distinct d" for ms d :: "bytes list"
    using that by (induction ms arbitrary: d) auto
  then show ?case using 2 by (auto simp: rbind_eq_Inr)
qed simp

lemma sopt_ord: "sopt op ord db ks = rbind (sopt op (\<lambda>v. v) db ks) (\<lambda>v. Inr (ord v))"
  by (simp add: sopt_def sUnionGeneric_def sDiffGeneric_def sInterGeneric_def rbind_def split: optype.split list.split sum.split)

lemma sopt_distinct: "sopt op (\<lambda>v. v) db ks = Inr v \<Longrightarrow> distinct v"
  by (auto simp: sopt_def sUnionGeneric_def sDiffGeneric_def sInterGeneric_def rbind_eq_Inr
      split: optype.splits list.splits dest: sunion_loop_distinct sdiff_loop_distinct sinter_loop_distinct
      intro: sunion_loop_distinct [of "[]"] sdiff_loop_distinct [OF distinct_remdups] sinter_loop_distinct [OF distinct_remdups])

lemma sstore_loop_eq:
  "key_ok k \<Longrightarrow> sstore_loop db k v =
     (if \<forall>x \<in> set v. key_ok x then Inr (map (\<lambda>x. BPut (sEncodeSetKey db k x) []) v) else Inl errSetMemberSize)"
  by (induction v) (auto simp: checkSetKMSize_eq rbind_def)

lemma sStoreGeneric_any_order:
  assumes "any_order ord" "any_order ord'"
  shows "sStoreGeneric ord dst op ks db = sStoreGeneric ord' dst op ks db"
proof (cases "key_ok dst")
  case True
  show ?thesis
  proof (cases "sopt op (\<lambda>v. v) db ks")
    case (Inl e)
    then show ?thesis using True by (simp add: sStoreGeneric_def sopt_ord [of op ord] sopt_ord [of op ord'] lift_r_def)
  next
    case (Inr v)
    note d = any_orderD [OF assms(1) sopt_distinct [OF Inr]] any_orderD [OF assms(2) sopt_distinct [OF Inr]]
    have len: "length (ord v) = length (ord' v)" using d by (metis distinct_card)
    have puts: "apply_batch (map (\<lambda>x. BPut (sEncodeSetKey db dst x) []) (ord v))
        = apply_batch (map (\<lambda>x. BPut (sEncodeSetKey db dst x) []) (ord' v))"
      using d by (intro apply_batch_puts_set) auto
    show ?thesis using True Inr d len
      by (simp add: sStoreGeneric_def sopt_ord [of op ord] sopt_ord [of op ord'] lift_r_def sstore_loop_eq Let_def Commit_def puts)
  qed
qed (simp add: sStoreGeneric_def lift_r_def checkKeySize_eq)

lemma sstore_step:
  assumes "sets_ok db" "ttl_ok db" "key_ok k" "distinct v" "\<forall>x \<in> set v. key_ok x" "v \<noteq> []"
  shows "set_step db k (map_of (map (\<lambda>x. (x, [])) v)) (db\<lparr>bucket := sstore_bucket db k v\<rparr>)"
proof -
  let ?M = "map_of (map (\<lambda>x. (x, [] :: bytes)) v)"
  let ?ops = "map BDel (clear_keys SetType (sEncodeSizeKey db k) db k) @
     map (\<lambda>x. BPut (member_key SetType db k x) []) v @ [BPut (sEncodeSizeKey db k) (PutInt64 (int (length v)))]"
  have M: "?M x = (if x \<in> set v then Some [] else None)" for x by (induction v) auto
  have dom: "dom ?M = set v" unfolding dom_def M by simp
  have "sets_ok (db\<lparr>bucket := sstore_bucket db k v\<rparr>) \<and>
      mem_of SetType (db\<lparr>bucket := sstore_bucket db k v\<rparr>) = (mem_of SetType db)(k := ?M)"
    unfolding sstore_bucket_def
  proof (rule sets.members_update [OF assms(1,3)])
    show "\<forall>op \<in> set ?ops. mem_op SetType SSizeType db k op"
      using assms(5) by (auto simp: clear_keys_def dest: domI [THEN dom_mem_of_ok])
    show "sget (apply_batch ?ops (bucket db)) (member_key SetType db k m) = ?M m" if "key_ok m" for m
      using sget_sstore [of db k v "member_key SetType db k m"] assms(3) that
      by (auto simp: sstore_bucket_def M clear_keys_def codec mem_of_key image_iff split: option.split)
    show "sget (apply_batch ?ops (bucket db)) (sEncodeSizeKey db k) = size_rec (card (dom ?M))"
      using sget_sstore [of db k v "sEncodeSizeKey db k"] distinct_card [OF assms(4)] assms(6) dom
      by (simp add: sstore_bucket_def size_rec_def)
  qed (use assms(5) M in auto)
  moreover have e: "exp_same db (db\<lparr>bucket := sstore_bucket db k v\<rparr>)"
    by (auto simp: exp_same_def sget_sstore clear_keys_def)
  moreover have "?M \<noteq> Map.empty" using M assms(6) by (metis hd_in_set option.distinct(1))
  ultimately show ?thesis using assms(2) by (simp add: mem_step_def exp_sameD [OF e])
qed

section \<open>Clearing, and the invariant under every operation\<close>

lemma SClear_ok:
  assumes "sets_ok db" "ttl_ok db" "\<not> readonly db" "key_ok k"
  shows "\<exists>db'. SClear k db = (Inr (int (card (set_of db k))), db') \<and> set_step db k Map.empty db'"
proof -
  have "set_step db k Map.empty (db\<lparr>bucket := apply_batch (map BDel (clear_keys SetType (sEncodeSizeKey db k) db k)
      @ rmExpire_ops db SetType k) (bucket db)\<rparr>)"
    using sets.clear_many [OF assms(1,2), of "[k]"] assms(4) by (auto simp: mem_step_def fun_eq_iff)
  then show ?thesis using assms by (simp add: SClear_def lift_r_def sDelete_ok)
qed

lemma smclear_ops_ok:
  "sets_ok db \<Longrightarrow> \<forall>k \<in> set ks. key_ok k \<Longrightarrow> smclear_ops db ks =
     Inr (concat (map (\<lambda>k. map BDel (clear_keys SetType (sEncodeSizeKey db k) db k) @ rmExpire_ops db SetType k) ks))"
  by (induction ks) (simp_all add: sDelete_ok)

lemma smclear_ops_error: "\<not> (\<forall>k \<in> set ks. key_ok k) \<Longrightarrow> \<exists>e. smclear_ops db ks = Inl e"
proof (induction ks)
  case (Cons k ks)
  then show ?case by (cases "key_ok k"; cases "\<forall>k \<in> set ks. key_ok k") (auto simp: checkKeySize_eq)
qed simp

definition set_inv :: "ledisdb \<Rightarrow> bool" where
  "set_inv db \<longleftrightarrow> sets_ok db \<and> ttl_ok db"

lemma set_step_inv: "set_step db k M db' \<Longrightarrow> set_inv db'"
  by (simp add: mem_step_def set_inv_def)

lemma set_readonly:
  "readonly db \<Longrightarrow> snd (SAdd k xs db) = db" "readonly db \<Longrightarrow> snd (SRem k xs db) = db"
  "readonly db \<Longrightarrow> snd (sStoreGeneric ord k op ks db) = db"
  "readonly db \<Longrightarrow> snd (SClear k db) = db" "readonly db \<Longrightarrow> snd (SMclear ks db) = db"
  by (auto simp: SAdd_def SRem_def sStoreGeneric_def SClear_def SMclear_def Let_def
      intro!: readonly_checked split: prod.splits)

lemma set_loop_error:
  assumes "\<not> (key_ok k \<and> (\<forall>x \<in> set xs. key_ok x))" "xs \<noteq> []"
  shows "\<exists>e. SAdd k xs db = (Inl e, db)" "\<exists>e. SRem k xs db = (Inl e, db)"
proof -
  have "(\<exists>e. sadd_loop db k xs = Inl e) \<and> (\<exists>e. srem_loop db k xs = Inl e)"
    using assms
  proof (induction xs)
    case (Cons x xs)
    show ?case
    proof (cases "key_ok k \<and> key_ok x")
      case True
      then have "(\<exists>e. sadd_loop db k xs = Inl e) \<and> (\<exists>e. srem_loop db k xs = Inl e)" using Cons by (cases xs) auto
      then show ?thesis using True by auto
    qed (auto simp: checkSetKMSize_eq)
  qed simp
  then show "\<exists>e. SAdd k xs db = (Inl e, db)" "\<exists>e. SRem k xs db = (Inl e, db)"
    by (auto simp: SAdd_def SRem_def lift_r_def)
qed

lemma set_inv_SAdd:
  assumes "set_inv db" "room (length xs) db" "distinct xs" "xs \<noteq> []"
  shows "set_inv (snd (SAdd k xs db))" "set_inv (snd (SRem k xs db))"
proof -
  have "set_inv (snd (SAdd k xs db)) \<and> set_inv (snd (SRem k xs db))"
  proof (cases "readonly db \<or> \<not> (key_ok k \<and> (\<forall>x \<in> set xs. key_ok x))")
    case True
    then have "snd (SAdd k xs db) = db \<and> snd (SRem k xs db) = db"
      using set_readonly(1,2) set_loop_error [of k xs db] assms(4) by (metis snd_conv)
    then show ?thesis using assms(1) by simp
  next
    case False
    then show ?thesis using SAdd_ok [of db k xs] SRem_ok [of db k xs] assms set_step_inv by (fastforce simp: set_inv_def)
  qed
  then show "set_inv (snd (SAdd k xs db))" "set_inv (snd (SRem k xs db))" by auto
qed

lemma set_inv_SClear:
  assumes "set_inv db"
  shows "set_inv (snd (SClear k db))"
proof (cases "readonly db \<or> \<not> key_ok k")
  case True
  then have "snd (SClear k db) = db"
    using set_readonly(4) [of db k]
    by (cases "readonly db"; cases "key_ok k") (auto simp: SClear_def lift_r_def checkKeySize_eq)
  then show ?thesis using assms by simp
next
  case False
  then show ?thesis using SClear_ok [of db k] assms set_step_inv by (fastforce simp: set_inv_def)
qed

lemma set_inv_SMclear:
  assumes "set_inv db"
  shows "set_inv (snd (SMclear ks db))"
proof (cases "readonly db \<or> \<not> (\<forall>k \<in> set ks. key_ok k)")
  case True
  have "smclear_ops db ks = Inl e \<Longrightarrow> SMclear ks db = (Inl e, db)" for e by (simp add: SMclear_def lift_r_def)
  then have "snd (SMclear ks db) = db"
    using True set_readonly(5) smclear_ops_error [of ks db] by (metis snd_conv)
  then show ?thesis using assms by simp
next
  case False
  then show ?thesis using sets.clear_many [of db ks] smclear_ops_ok [of db ks] assms
    by (auto simp: SMclear_def lift_r_def set_inv_def)
qed

lemma set_inv_sExpireAt:
  assumes "set_inv db"
  shows "set_inv (snd (sExpireAt k w db))" "set_inv (snd (SPersist k db))"
proof -
  have "set_inv (snd (sExpireAt k w db)) \<and> set_inv (snd (SPersist k db))"
  proof (cases "key_ok k")
    case True
    then show ?thesis
      using assms sets.members_expireAt [of db k w] ttl_ok_commit_expireAt [of db SetType k w] sets.persist_step [of db k]
      by (auto simp: set_inv_def sExpireAt_def SPersist_def lift_r_def sbind_def split: sum.split)
  next
    case False
    then show ?thesis
      using assms by (simp add: sExpireAt_def SCard_def SPersist_def commit_persist_def lift_r_def checkKeySize_eq)
  qed
  then show "set_inv (snd (sExpireAt k w db))" "set_inv (snd (SPersist k db))" by auto
qed

section \<open>Only the records of sets change\<close>

lemma owner_sadd: "sadd_loop db k xs = Inr (n, ops) \<Longrightarrow> \<forall>op \<in> set ops. owner db (op_key op) = Some SetType"
  by (induction db k xs arbitrary: n ops rule: sadd_loop.induct) (auto simp: rbind_eq_Inr Let_def)

lemma owner_srem: "srem_loop db k xs = Inr (n, ops) \<Longrightarrow> \<forall>op \<in> set ops. owner db (op_key op) = Some SetType"
  by (induction db k xs arbitrary: n ops rule: srem_loop.induct)
    (auto simp: rbind_eq_Inr Let_def split: option.splits)

lemma owner_sstore: "sstore_loop db k v = Inr ops \<Longrightarrow> \<forall>op \<in> set ops. owner db (op_key op) = Some SetType"
  by (induction v arbitrary: ops) (auto simp: rbind_eq_Inr)

lemma owner_sDelete:
  assumes "store_ok (bucket db)"
  shows "\<forall>op \<in> set (snd (sDelete db k)). owner db (op_key op) = Some SetType"
  using sets.scan_keys [OF assms, of _ k] by (fastforce simp: sDelete_def Let_def set_range)

lemma owner_smclear:
  "store_ok (bucket db) \<Longrightarrow> smclear_ops db ks = Inr ops \<Longrightarrow> \<forall>op \<in> set ops. owner db (op_key op) = Some SetType"
  by (induction db ks arbitrary: ops rule: smclear_ops.induct) (auto simp: rbind_eq_Inr owner_sDelete)

lemma keeps_set:
  "keeps SetType db (snd (SAdd k xs db))"
  "keeps SetType db (snd (SRem k xs db))"
  "keeps SetType db (snd (sExpireAt k w db))"
  "keeps SetType db (snd (SPersist k db))"
  "store_ok (bucket db) \<Longrightarrow> keeps SetType db (snd (sStoreGeneric ord k op ks db))"
  "store_ok (bucket db) \<Longrightarrow> keeps SetType db (snd (SClear k db))"
  "store_ok (bucket db) \<Longrightarrow> keeps SetType db (snd (SMclear ks db))"
proof -
  show "keeps SetType db (snd (SAdd k xs db))"
    by (auto simp: SAdd_def sIncrSize_def intro!: keeps_checked keeps_Commit dest!: owner_sadd sets.owner_incr_size)
  show "keeps SetType db (snd (SRem k xs db))"
    by (auto simp: SRem_def sIncrSize_def intro!: keeps_checked keeps_Commit dest!: owner_srem sets.owner_incr_size)
  show "keeps SetType db (snd (sExpireAt k w db))"
    by (auto simp: sExpireAt_def intro!: keeps_checked keeps_commit_expireAt)
  show "keeps SetType db (snd (SPersist k db))"
    by (simp add: SPersist_def keeps_commit_persist)
  show "keeps SetType db (snd (sStoreGeneric ord k op ks db))" if "store_ok (bucket db)"
    using owner_sDelete [OF that, of k]
    by (auto simp: sStoreGeneric_def Let_def intro!: keeps_checked keeps_Commit dest!: owner_sstore)
  show "keeps SetType db (snd (SClear k db))" if "store_ok (bucket db)"
    using owner_sDelete [OF that, of k]
    by (auto simp: SClear_def intro!: keeps_checked keeps_Commit split: prod.split)
  show "keeps SetType db (snd (SMclear ks db))" if "store_ok (bucket db)"
    using that by (auto simp: SMclear_def intro!: keeps_checked keeps_Commit dest!: owner_smclear)
qed

lemma set_db0: "set_inv db0" "set_of db0 = (\<lambda>k. {})" "sets_ok db0" "mem_of SetType db0 k = Map.empty"
  using sets.mem_ok_db0 by (simp_all add: set_inv_def set_of_def fun_eq_iff)

end
