(* ===== verification/CmdSets.thy ===== *)
theory CmdSets
  imports CmdBase LedisSet
begin

text \<open>
  The set commands (\<open>set.go\<close>): one definition per handler, in the order of the file, and what
  they do to the sets of a database. \<open>stringSliceToBytes\<close> is the identity here, strings and
  byte slices being the same.
\<close>

section \<open>Handlers\<close>

definition cmdSADD :: handler where
  "cmdSADD m args db =
     (if length args < 3 then wrong_args db else reply_with SimpleInt (SAdd (args ! 1) (drop 2 args) db))"

definition soptGeneric :: "machine \<Rightarrow> string list \<Rightarrow> optype \<Rightarrow> ledisdb \<Rightarrow> bytes list result" where
  "soptGeneric m args op db =
     (if length args < 2 then Inl ErrWrongNumArgs
      else case op of
             UnionType \<Rightarrow> SUnion (map_order m) db (tl args)
           | DiffType \<Rightarrow> SDiff (map_order m) db (tl args)
           | InterType \<Rightarrow> SInter (map_order m) db (tl args))"

definition soptStoreGeneric :: "machine \<Rightarrow> string list \<Rightarrow> optype \<Rightarrow> ledisdb \<Rightarrow> reply result \<times> ledisdb" where
  "soptStoreGeneric m args op db =
     (if length args < 3 then wrong_args db
      else reply_with SimpleInt (case op of
             UnionType \<Rightarrow> SUnionStore (map_order m) (args ! 1) (drop 2 args) db
           | DiffType \<Rightarrow> SDiffStore (map_order m) (args ! 1) (drop 2 args) db
           | InterType \<Rightarrow> SInterStore (map_order m) (args ! 1) (drop 2 args) db))"

definition cmdSCARD :: handler where
  "cmdSCARD m args db =
     (if length args \<noteq> 2 then wrong_args db else answer (SCard db (args ! 1)) SimpleInt db)"

definition cmdSDIFF :: handler where
  "cmdSDIFF m args db = answer (soptGeneric m args DiffType db) (\<lambda>v. BytesList (map Some v)) db"

definition cmdSDIFFSTORE :: handler where
  "cmdSDIFFSTORE m args db = soptStoreGeneric m args DiffType db"

definition cmdSINTER :: handler where
  "cmdSINTER m args db = answer (soptGeneric m args InterType db) (\<lambda>v. BytesList (map Some v)) db"

definition cmdSINTERSTORE :: handler where
  "cmdSINTERSTORE m args db = soptStoreGeneric m args InterType db"

definition cmdSISMEMBER :: handler where
  "cmdSISMEMBER m args db =
     (if length args \<noteq> 3 then wrong_args db else answer (SIsMember db (args ! 1) (args ! 2)) SimpleInt db)"

definition cmdSMEMBERS :: handler where
  "cmdSMEMBERS m args db =
     (if length args \<noteq> 2 then wrong_args db
      else answer (SMembers db (args ! 1)) (\<lambda>v. BytesList (map Some v)) db)"

definition cmdSREM :: handler where
  "cmdSREM m args db =
     (if length args < 3 then wrong_args db else reply_with SimpleInt (SRem (args ! 1) (drop 2 args) db))"

definition cmdSUNION :: handler where
  "cmdSUNION m args db = answer (soptGeneric m args UnionType db) (\<lambda>v. BytesList (map Some v)) db"

definition cmdSUNIONSTORE :: handler where
  "cmdSUNIONSTORE m args db = soptStoreGeneric m args UnionType db"

definition cmdSCLEAR :: handler where
  "cmdSCLEAR m args db =
     (if length args \<noteq> 2 then wrong_args db else reply_with SimpleInt (SClear (args ! 1) db))"

definition cmdSMCLEAR :: handler where
  "cmdSMCLEAR m args db =
     (if length args < 2 then wrong_args db else reply_with SimpleInt (SMclear (tl args) db))"

text \<open>\<open>SEXPIRE\<close> and \<open>SEXPIREAT\<close> after the time stamp is known; a bad number is \<open>ErrInvalid\<close>.\<close>

definition sexpire_at :: "machine \<Rightarrow> bytes \<Rightarrow> int \<Rightarrow> ledisdb \<Rightarrow> reply result \<times> ledisdb" where
  "sexpire_at m key timestamp db =
     (if timestamp < wall m then reply_with (\<lambda>_. SimpleInt 0) (SClear key db)
      else reply_with SimpleInt (SExpireAt (wall m) key timestamp db))"

definition cmdSEXPIRE :: handler where
  "cmdSEXPIRE m args db =
     (if length args \<noteq> 3 then wrong_args db
      else case StrInt64 (Some (args ! 2)) of
             Inl e \<Rightarrow> (Inl ErrInvalid, db)
           | Inr duration \<Rightarrow> sexpire_at m (args ! 1) (wrap64 (m_Now m + duration)) db)"

definition cmdSEXPIREAT :: handler where
  "cmdSEXPIREAT m args db =
     (if length args \<noteq> 3 then wrong_args db
      else case StrInt64 (Some (args ! 2)) of
             Inl e \<Rightarrow> (Inl ErrInvalid, db)
           | Inr timestamp \<Rightarrow> sexpire_at m (args ! 1) timestamp db)"

definition cmdSTTL :: handler where
  "cmdSTTL m args db =
     (if length args \<noteq> 2 then wrong_args db else answer (STTL db (wall m) (args ! 1)) SimpleInt db)"

definition cmdSPERSIST :: handler where
  "cmdSPERSIST m args db =
     (if length args \<noteq> 2 then wrong_args db else reply_with SimpleInt (SPersist (args ! 1) db))"

definition cmdSKEYEXISTS :: handler where
  "cmdSKEYEXISTS m args db =
     (if length args \<noteq> 2 then wrong_args db else answer (SKeyExists db (args ! 1)) SimpleInt db)"

section \<open>Properties\<close>

lemma set_of_step: "set_step db k M db' \<Longrightarrow> set_of db' = (set_of db)(k := dom M)"
  using mem_stepD(4) [of SetType SSizeType db k M db'] by (auto simp: set_of_def fun_eq_iff)

text \<open>A database with one set, for examples.\<close>

abbreviation db_set :: "bytes \<Rightarrow> bytes list \<Rightarrow> ledisdb" where
  "db_set k xs \<equiv> snd (SAdd k xs db0)"

lemma db_set_sample:
  "set_inv (db_set ''s'' [''a'', ''b''])" "\<not> readonly (db_set ''s'' [''a'', ''b''])"
  "set_of (db_set ''s'' [''a'', ''b'']) = (\<lambda>_. {})(''s'' := {''a'', ''b''})" "sets_ok (db_set ''s'' [''a'', ''b''])"
proof -
  obtain db' where s: "SAdd ''s'' [''a'', ''b''] db0 = (Inr 2, db')"
    "set_step db0 ''s'' (mem_of SetType db0 ''s'' ++ map_of (map (\<lambda>x. (x, [])) [''a'', ''b''])) db'"
    using SAdd_ok [OF set_db0(3), of "''s''" "[''a'', ''b'']"] by (auto simp: room_def key_ok_def set_db0)
  have "mem_of SetType db0 ''s'' ++ map_of (map (\<lambda>x. (x, [] :: bytes)) [''a'', ''b'']) = [''b'' \<mapsto> [], ''a'' \<mapsto> []]"
    by (simp add: set_db0)
  then have "set_of db' = (\<lambda>_. {})(''s'' := {''a'', ''b''})" using set_of_step [OF s(2)] by (simp add: set_db0 insert_commute)
  then show "set_inv (db_set ''s'' [''a'', ''b''])" "\<not> readonly (db_set ''s'' [''a'', ''b''])"
    "set_of (db_set ''s'' [''a'', ''b'']) = (\<lambda>_. {})(''s'' := {''a'', ''b''})" "sets_ok (db_set ''s'' [''a'', ''b''])"
    using s(1) set_step_inv [OF s(2)] mem_stepD(1,3) [OF s(2)] by simp_all
qed

text \<open>
  C6: \<open>SADD k xs\<close> with distinct members adds them and answers how many are new; \<open>SREM k xs\<close>
  removes them and answers how many there were, dropping the expiry with the last one. With
  an invalid member either fails and changes nothing. \<open>SCARD\<close>, \<open>SISMEMBER\<close> and \<open>SMEMBERS\<close> (in
  increasing order) read the set. No other set changes.
\<close>

theorem set_refines:
  assumes "set_inv db" "\<not> readonly db" "key_ok k" "xs \<noteq> []" "distinct xs" "room (length xs) db" "key_ok x"
  shows "(if \<forall>x \<in> set xs. key_ok x
      then (\<exists>db'. cmdSADD m (c # k # xs) db = (Inr (SimpleInt (int (card (set xs - set_of db k)))), db') \<and>
          set_inv db' \<and> set_of db' = (set_of db)(k := set_of db k \<union> set xs) \<and>
          expiry_of db' SetType = expiry_of db SetType) \<and>
        (\<exists>db'. cmdSREM m (c # k # xs) db = (Inr (SimpleInt (int (card (set_of db k \<inter> set xs)))), db') \<and>
          set_inv db' \<and> set_of db' = (set_of db)(k := set_of db k - set xs) \<and>
          expiry_of db' SetType = (if set_of db k \<subseteq> set xs then (expiry_of db SetType)(k := None) else expiry_of db SetType))
      else (\<exists>e. cmdSADD m (c # k # xs) db = (Inl e, db)) \<and> (\<exists>e. cmdSREM m (c # k # xs) db = (Inl e, db))) \<and>
    cmdSCARD m [c, k] db = (Inr (SimpleInt (int (card (set_of db k)))), db) \<and>
    cmdSISMEMBER m [c, k, x] db = (Inr (SimpleInt (if x \<in> set_of db k then 1 else 0)), db) \<and>
    cmdSMEMBERS m [c, k] db = (Inr (BytesList (map Some (sorted_list_of_set (set_of db k)))), db)"
proof -
  have ok: "sets_ok db" "ttl_ok db" "room 0 db" using assms(1,6) by (auto simp: set_inv_def room_def)
  have l: "Suc 0 \<le> length xs" using assms(4) by (cases xs) auto
  have cmd: "cmdSADD m (c # k # xs) db = reply_with SimpleInt (SAdd k xs db)"
    "cmdSREM m (c # k # xs) db = reply_with SimpleInt (SRem k xs db)"
    using l assms(4) by (simp_all add: cmdSADD_def cmdSREM_def)
  have add: "\<exists>db'. SAdd k xs db = (Inr (int (card (set xs - set_of db k))), db') \<and> set_inv db' \<and>
      set_of db' = (set_of db)(k := set_of db k \<union> set xs) \<and> expiry_of db' SetType = expiry_of db SetType"
    if v: "\<forall>x \<in> set xs. key_ok x"
  proof -
    let ?M = "mem_of SetType db k ++ map_of (map (\<lambda>x. (x, [])) xs)"
    obtain db' where s: "SAdd k xs db = (Inr (int (card (set xs - set_of db k))), db')" "set_step db k ?M db'"
      using SAdd_ok [OF ok(1,2) assms(2,3,6) v assms(5)] by blast
    have "dom ?M = set_of db k \<union> set xs" by (auto simp: set_of_def dom_map_of_conv_image_fst image_image)
    moreover from this have "?M \<noteq> Map.empty" using l by (metis assms(4) dom_empty set_empty sup_bot.neutr_eq_iff)
    ultimately show ?thesis
      using s set_step_inv [OF s(2)] set_of_step [OF s(2)] mem_stepD(5) [OF s(2)] assms(4) by simp
  qed
  have rem: "\<exists>db'. SRem k xs db = (Inr (int (card (set_of db k \<inter> set xs))), db') \<and> set_inv db' \<and>
      set_of db' = (set_of db)(k := set_of db k - set xs) \<and>
      expiry_of db' SetType = (if set_of db k \<subseteq> set xs then (expiry_of db SetType)(k := None) else expiry_of db SetType)"
    if v: "\<forall>x \<in> set xs. key_ok x"
  proof -
    let ?M = "mem_of SetType db k |` (- set xs)"
    obtain db' where s: "SRem k xs db = (Inr (int (card (set_of db k \<inter> set xs))), db')" "set_step db k ?M db'"
      using SRem_ok [OF ok(1,2) assms(2,3,6) v assms(5)] by blast
    have "dom ?M = set_of db k - set xs" by (auto simp: set_of_def)
    moreover from this have "?M = Map.empty \<longleftrightarrow> set_of db k \<subseteq> set xs" by (metis Diff_eq_empty_iff dom_eq_empty_conv)
    ultimately show ?thesis using s set_step_inv [OF s(2)] set_of_step [OF s(2)] mem_stepD(5) [OF s(2)] by simp
  qed
  have reads: "cmdSCARD m [c, k] db = (Inr (SimpleInt (int (card (set_of db k)))), db)"
    "cmdSISMEMBER m [c, k, x] db = (Inr (SimpleInt (if x \<in> set_of db k then 1 else 0)), db)"
    "cmdSMEMBERS m [c, k] db = (Inr (BytesList (map Some (sorted_list_of_set (set_of db k)))), db)"
    using assms(3,7) ok by (simp_all add: cmdSCARD_def cmdSISMEMBER_def cmdSMEMBERS_def SCard_ok SIsMember_ok SMembers_ok)
  show ?thesis
  proof (cases "\<forall>x \<in> set xs. key_ok x")
    case True
    then show ?thesis using add [OF True] rem [OF True] unfolding if_P [OF True] cmd reads by fastforce
  next
    case False
    then obtain e e' where "SAdd k xs db = (Inl e, db)" "SRem k xs db = (Inl e', db)"
      using set_loop_error [of k xs db] assms(4) by blast
    then show ?thesis unfolding if_not_P [OF False] cmd reads by simp
  qed
qed

theorem set_refines_witness:
  "fst (cmdSADD node [''SADD'', ''s'', ''a'', ''b''] db0) = Inr (SimpleInt 2)"
proof -
  have ok: "key_ok ''s''" "key_ok ''a''" "\<forall>x \<in> set [''a'', ''b'']. key_ok x" by (simp_all add: key_ok_def)
  have "room (length [''a'', ''b'']) db0" by (simp add: room_def)
  from set_refines [OF set_db0(1) _ ok(1) _ _ this ok(2), of node "''SADD''"]
  obtain db' where "cmdSADD node [''SADD'', ''s'', ''a'', ''b''] db0
      = (Inr (SimpleInt (int (card (set [''a'', ''b''] - set_of db0 ''s'')))), db')"
    unfolding if_P [OF ok(3)] by auto
  then show ?thesis by (simp add: set_db0(2))
qed

text \<open>
  C15: \<open>SUNION\<close>, \<open>SDIFF\<close> and \<open>SINTER\<close> answer a list without repetitions of exactly the union, the
  difference and the intersection of the sets, in whatever order Go maps are visited.
\<close>

theorem set_algebra:
  assumes "sets_ok db" "any_order (map_order m)" "ks \<noteq> []" "\<forall>k \<in> set ks. key_ok k"
  shows "(\<exists>v. cmdSUNION m (c # ks) db = (Inr (BytesList (map Some v)), db) \<and> distinct v \<and>
      set v = (\<Union>k \<in> set ks. set_of db k)) \<and>
    (\<exists>v. cmdSDIFF m (c # ks) db = (Inr (BytesList (map Some v)), db) \<and> distinct v \<and>
      set v = set_of db (hd ks) - (\<Union>k \<in> set (tl ks). set_of db k)) \<and>
    (\<exists>v. cmdSINTER m (c # ks) db = (Inr (BytesList (map Some v)), db) \<and> distinct v \<and>
      set v = (\<Inter>k \<in> set ks. set_of db k))"
proof -
  have "Suc 0 \<le> length ks" using assms(3) by (cases ks) auto
  then show ?thesis
    using sopt_ok [OF assms, of UnionType] sopt_ok [OF assms, of DiffType] sopt_ok [OF assms, of InterType] assms(3)
    by (auto simp: cmdSUNION_def cmdSDIFF_def cmdSINTER_def soptGeneric_def sopt_def SUnion_def SDiff_def SInter_def)
qed

theorem set_algebra_witness:
  "\<exists>v. fst (cmdSDIFF node [''SDIFF'', ''s'', ''t''] (db_set ''s'' [''a'', ''b''])) = Inr (BytesList (map Some v)) \<and>
     set v = {''a'', ''b''}"
proof -
  let ?db = "db_set ''s'' [''a'', ''b'']"
  have "\<forall>k \<in> set [''s'', ''t'']. key_ok k" by (simp add: key_ok_def)
  from set_algebra [OF db_set_sample(4) _ _ this, of node "''SDIFF''"]
  obtain v where "cmdSDIFF node [''SDIFF'', ''s'', ''t''] ?db = (Inr (BytesList (map Some v)), ?db)"
    "set v = set_of ?db (hd [''s'', ''t'']) - (\<Union>k \<in> set (tl [''s'', ''t'']). set_of ?db k)"
    by auto
  then show ?thesis by (intro exI [of _ v]) (simp add: db_set_sample(3))
qed

text \<open>
  C12: \<open>SUNIONSTORE\<close>, \<open>SDIFFSTORE\<close> and \<open>SINTERSTORE\<close> leave exactly the same database on two nodes
  that visit Go maps in different orders, and answer the number of members of the result. A
  result that is not empty becomes the set at the destination, which keeps its expiry; no
  other set changes.
\<close>

theorem set_store:
  assumes "set_inv db" "\<not> readonly db" "any_order (map_order m)" "any_order (map_order m')"
    and "key_ok dst" "ks \<noteq> []" "\<forall>k \<in> set ks. key_ok k"
    and "(h, op) \<in> {(cmdSUNIONSTORE, UnionType), (cmdSDIFFSTORE, DiffType), (cmdSINTERSTORE, InterType)}"
  shows "\<exists>db'. h m (c # dst # ks) db = (Inr (SimpleInt (int (card (sets_result op db ks)))), db') \<and>
    h m' (c # dst # ks) db = h m (c # dst # ks) db \<and>
    (sets_result op db ks \<noteq> {} \<longrightarrow> set_inv db' \<and> set_of db' = (set_of db)(dst := sets_result op db ks) \<and>
       expiry_of db' SetType = expiry_of db SetType)"
proof -
  have ok: "sets_ok db" "ttl_ok db" "store_ok (bucket db)" using assms(1) by (auto simp: set_inv_def mem_ok_def)
  have "Suc 0 \<le> length ks" using assms(6) by (cases ks) auto
  then have cmd: "h n (c # dst # ks) db = reply_with SimpleInt (sStoreGeneric (map_order n) dst op ks db)" for n
    using assms(6,8) by (auto simp: cmdSUNIONSTORE_def cmdSDIFFSTORE_def cmdSINTERSTORE_def soptStoreGeneric_def
        SUnionStore_def SDiffStore_def SInterStore_def)
  obtain v where v: "distinct v" "set v = sets_result op db ks" "sStoreGeneric (map_order m) dst op ks db
      = (Inr (int (card (sets_result op db ks))), db\<lparr>bucket := sstore_bucket db dst v\<rparr>)"
    using sStore_ok [OF ok(1) assms(2,3,5-7)] by blast
  obtain v' where v': "distinct v'" "set v' = sets_result op db ks" "sStoreGeneric (map_order m') dst op ks db
      = (Inr (int (card (sets_result op db ks))), db\<lparr>bucket := sstore_bucket db dst v'\<rparr>)"
    using sStore_ok [OF ok(1) assms(2,4,5-7)] by blast
  have same: "sstore_bucket db dst v' = sstore_bucket db dst v"
    using v(1,2) v'(1,2) by (intro sstore_bucket_set [OF ok(3)]) auto
  have step: "set_step db dst (map_of (map (\<lambda>x. (x, [])) v)) (db\<lparr>bucket := sstore_bucket db dst v\<rparr>)" if "v \<noteq> []"
    using v(1,2) sets_result_ok [OF assms(6)] that by (intro sstore_step [OF ok(1,2) assms(5)]) auto
  have dom: "dom (map_of (map (\<lambda>x. (x, [] :: bytes)) v)) = set v" by (auto simp: dom_map_of_conv_image_fst image_image)
  have "set_inv (db\<lparr>bucket := sstore_bucket db dst v\<rparr>) \<and>
      set_of (db\<lparr>bucket := sstore_bucket db dst v\<rparr>) = (set_of db)(dst := sets_result op db ks) \<and>
      expiry_of (db\<lparr>bucket := sstore_bucket db dst v\<rparr>) SetType = expiry_of db SetType" if "sets_result op db ks \<noteq> {}"
  proof -
    have ne: "v \<noteq> []" using that v(2) by auto
    then have "map_of (map (\<lambda>x. (x, [] :: bytes)) v) \<noteq> Map.empty" by (metis dom dom_empty set_empty)
    then show ?thesis
      using v(2) dom set_of_step [OF step [OF ne]] set_step_inv [OF step [OF ne]] mem_stepD(5) [OF step [OF ne]] ne by auto
  qed
  then show ?thesis
    using same by (intro exI [of _ "db\<lparr>bucket := sstore_bucket db dst v\<rparr>"]) (simp add: cmd v(3) v'(3))
qed

theorem set_store_witness:
  "set_of (snd (cmdSUNIONSTORE node [''SUNIONSTORE'', ''t'', ''s''] (db_set ''s'' [''a'', ''b'']))) ''t'' = {''a'', ''b''}"
proof -
  let ?db = "db_set ''s'' [''a'', ''b'']"
  have "key_ok ''t''" "\<forall>k \<in> set [''s'']. key_ok k" by (simp_all add: key_ok_def)
  from set_store [OF db_set_sample(1,2) _ _ this(1) _ this(2), of node node cmdSUNIONSTORE UnionType "''SUNIONSTORE''"]
  obtain db' where "cmdSUNIONSTORE node [''SUNIONSTORE'', ''t'', ''s''] ?db
      = (Inr (SimpleInt (int (card (sets_result UnionType ?db [''s''])))), db')"
    "sets_result UnionType ?db [''s''] \<noteq> {} \<longrightarrow> set_of db' = (set_of ?db)(''t'' := sets_result UnionType ?db [''s''])"
    by auto
  then show ?thesis by (simp add: db_set_sample(3))
qed

text \<open>
  Two ways the count of a set and the set part: \<open>SADD k x x\<close> on an empty set answers 2 and
  \<open>SCARD k\<close> is 2 though \<open>x\<close> is the only member; and a set operation whose result is empty
  leaves a destination without members that \<open>SCARD\<close> counts as 0 and \<open>SKEYEXISTS\<close> reports to
  exist.
\<close>

theorem set_miscount:
  assumes "set_inv db" "\<not> readonly db" "key_ok k" "key_ok x" "room 2 db" "any_order (map_order m)"
    and "ks \<noteq> []" "\<forall>k \<in> set ks. key_ok k" "sets_result InterType db ks = {}"
  shows "(set_of db k = {} \<longrightarrow> (\<exists>db'. cmdSADD m [c, k, x, x] db = (Inr (SimpleInt 2), db') \<and>
      set_of db' k = {x} \<and> cmdSCARD m [c, k] db' = (Inr (SimpleInt 2), db'))) \<and>
    (\<exists>db'. cmdSINTERSTORE m (c # k # ks) db = (Inr (SimpleInt 0), db') \<and> set_of db' k = {} \<and>
      cmdSCARD m [c, k] db' = (Inr (SimpleInt 0), db') \<and> cmdSKEYEXISTS m [c, k] db' = (Inr (SimpleInt 1), db'))"
proof -
  have ok: "sets_ok db" "ttl_ok db" "store_ok (bucket db)" using assms(1) by (auto simp: set_inv_def mem_ok_def)
  have add: "SAdd k [x, x] db = (Inr 2, db\<lparr>bucket := apply_batch ([BPut (member_key SetType db k x) [],
      BPut (member_key SetType db k x) []] @ size_ops SetType (sEncodeSizeKey db k) db k 2) (bucket db)\<rparr>)"
    if "set_of db k = {}"
    using that assms sadd_loop_ok [of k "[x, x]" db] sets.incr_size_eq [OF ok(1) assms(3,5), of 2, folded sIncrSize_def]
    by (simp add: SAdd_def lift_r_def set_of_def)
  have size: "Int64 (size_rec 2) = Inr 2" "Int64 (Some (PutInt64 0)) = Inr 0"
    by (simp_all add: size_rec_def wrap64_id is_int64_def)
  have "mem_of SetType db k y = None" if "set_of db k = {}" for y using that by (auto simp: set_of_def)
  then have one: "set_of db k = {} \<longrightarrow> (\<exists>db'. cmdSADD m [c, k, x, x] db = (Inr (SimpleInt 2), db') \<and>
      set_of db' k = {x} \<and> cmdSCARD m [c, k] db' = (Inr (SimpleInt 2), db'))"
    using add assms(3,4) size
    by (auto simp: cmdSADD_def cmdSCARD_def SCard_def set_of_def mem_of_def dom_def store_simps codec split: if_splits)
  have "Suc 0 \<le> length ks" using assms(7) by (cases ks) auto
  moreover obtain v where "distinct v" "set v = {}" "sStoreGeneric (map_order m) k InterType ks db
      = (Inr (int (card (sets_result InterType db ks))), db\<lparr>bucket := sstore_bucket db k v\<rparr>)"
    using sStore_ok [OF ok(1) assms(2,6,3,7,8), of InterType] assms(9) by auto
  moreover have "sget (sstore_bucket db k []) (member_key SetType db k y) = None" if "key_ok y" for y
    using that assms(3) mem_of_key [of k y db SetType]
    by (cases "mem_of SetType db k y") (auto simp: sget_sstore clear_keys_def image_iff)
  then have "set_of (db\<lparr>bucket := sstore_bucket db k []\<rparr>) k = {}"
    by (simp add: set_of_def fun_eq_iff mem_of_def)
  ultimately show ?thesis
    using one size assms(3,7,9)
    by (auto simp: cmdSINTERSTORE_def soptStoreGeneric_def SInterStore_def cmdSCARD_def SCard_def cmdSKEYEXISTS_def
        SKeyExists_def sget_sstore)
qed

theorem set_miscount_witness:
  "fst (cmdSADD node [''SADD'', ''s'', ''a'', ''a''] db0) = Inr (SimpleInt 2)"
proof -
  have k: "key_ok ''s''" "key_ok ''a''" "room 2 db0" "\<forall>k \<in> set [''s'']. key_ok k" "sets_result InterType db0 [''s''] = {}"
    by (simp_all add: key_ok_def room_def set_db0(2))
  from set_miscount [OF set_db0(1) _ k(1-3) _ _ k(4,5), of node "''SADD''"]
  obtain db' where "cmdSADD node [''SADD'', ''s'', ''a'', ''a''] db0 = (Inr (SimpleInt 2), db')"
    by (auto simp: set_db0(2))
  then show ?thesis by simp
qed

lemma set_inv_sexpire_at: "set_inv db \<Longrightarrow> set_inv (snd (sexpire_at m k t db))"
  by (simp add: sexpire_at_def set_inv_SClear set_inv_sExpireAt SExpireAt_def)

text \<open>
  The set invariant: on any arguments, the set commands keep the records of all sets well
  formed (one record per member, the size record equal to their number, nothing else under the
  set tag) and the expiry records readable; \<open>SADD\<close> and \<open>SREM\<close> do when no member is named
  twice.
\<close>

theorem set_invariant:
  assumes "set_inv db" "room (length args) db"
  shows "list_all (\<lambda>h. set_inv (snd (h m args db)))
      [cmdSCARD, cmdSDIFF, cmdSINTER, cmdSISMEMBER, cmdSMEMBERS, cmdSUNION, cmdSCLEAR, cmdSMCLEAR, cmdSEXPIRE,
       cmdSEXPIREAT, cmdSTTL, cmdSPERSIST, cmdSKEYEXISTS] \<and>
    (distinct (drop 2 args) \<longrightarrow> set_inv (snd (cmdSADD m args db)) \<and> set_inv (snd (cmdSREM m args db)))"
proof -
  have "set_inv (snd (SAdd (args ! 1) (drop 2 args) db)) \<and> set_inv (snd (SRem (args ! 1) (drop 2 args) db))"
    if "distinct (drop 2 args)" "\<not> length args < 3"
    using that assms by (auto intro!: set_inv_SAdd simp: room_def)
  then show ?thesis using assms(1)
    by (auto simp: cmdSCARD_def cmdSDIFF_def cmdSINTER_def cmdSISMEMBER_def cmdSMEMBERS_def cmdSUNION_def cmdSCLEAR_def
        cmdSMCLEAR_def cmdSEXPIRE_def cmdSEXPIREAT_def cmdSTTL_def cmdSPERSIST_def cmdSKEYEXISTS_def cmdSADD_def cmdSREM_def
        set_inv_SClear set_inv_SMclear set_inv_sexpire_at set_inv_sExpireAt split: sum.split)
qed

theorem set_invariant_witness:
  "set_inv (snd (cmdSADD node [''SADD'', ''s'', ''a'', ''b''] db0))"
  using set_invariant [of db0 "[''SADD'', ''s'', ''a'', ''b'']" node] set_db0(1) by (simp add: room_def)

end
