(* ===== verification/LedisZSet.thy ===== *)
theory LedisZSet
  imports Members "HOL-Library.Product_Lexorder"
begin

text \<open>
  Sorted sets (\<open>ledis/t_zset.go\<close>), the methods that commands call, in the order of the file.
  A sorted set has its members with their scores (a member container), and a second record per
  member whose key sorts by score: the score index, which every ordered read scans.
\<close>

section \<open>Operations\<close>

abbreviation MinScore :: int where "MinScore \<equiv> -9223372036854775807"
abbreviation MaxScore :: int where "MaxScore \<equiv> 9223372036854775807"

type_synonym ScorePair = "int \<times> bytes"

definition zDecodeSetKey :: "ledisdb \<Rightarrow> bytes \<Rightarrow> (bytes \<times> bytes) result" where
  "zDecodeSetKey db ek =
     rbind (checkKeyIndex db ek) (\<lambda>pos.
       if pos + 1 > length ek \<or> ek ! pos \<noteq> ZSetType then Inl errZSetKey
       else if pos + 3 > length ek then Inl errZSetKey
       else let keyLen = be_nat (take 2 (drop (pos + 1) ek))
            in if keyLen + (pos + 1) > length ek then Inl errZSetKey
               else if pos + 3 + keyLen \<ge> length ek then Inl Panic
               else if ek ! (pos + 3 + keyLen) \<noteq> CHR '':'' then Inl errZSetKey
               else Inr (take keyLen (drop (pos + 3) ek), drop (pos + 4 + keyLen) ek))"

definition zEncodeStartScoreKey :: "ledisdb \<Rightarrow> bytes \<Rightarrow> int \<Rightarrow> bytes" where
  "zEncodeStartScoreKey db key score = zEncodeScoreKey db key [] score"

definition zEncodeStopScoreKey :: "ledisdb \<Rightarrow> bytes \<Rightarrow> int \<Rightarrow> bytes" where
  "zEncodeStopScoreKey db key score = butlast (zEncodeScoreKey db key [] score) @ '';''"

definition zDecodeScoreKey :: "ledisdb \<Rightarrow> bytes \<Rightarrow> (bytes \<times> bytes \<times> int) result" where
  "zDecodeScoreKey db ek =
     rbind (elem_split db ZScoreType errZScoreKey ek) (\<lambda>(key, rest).
       if length rest < 10 then Inl errZScoreKey
       else if rest ! 0 \<noteq> CHR ''<'' \<and> rest ! 0 \<noteq> CHR ''='' then Inl errZScoreKey
       else if rest ! 9 \<noteq> CHR '':'' then Inl errZScoreKey
       else Inr (key, drop 10 rest, wrap64 (int (be_nat (take 8 (drop 1 rest))))))"

text \<open>\<open>zSetItem\<close> and \<open>zDelItem\<close> return what they add to the batch.\<close>

definition zSetItem :: "ledisdb \<Rightarrow> bytes \<Rightarrow> int \<Rightarrow> bytes \<Rightarrow> (int \<times> bop list) result" where
  "zSetItem db key score member =
     (if score \<le> MinScore \<or> score \<ge> MaxScore then Inl errScoreOverflow
      else
        let ek = zEncodeSetKey db key member;
            put = [BPut ek (PutInt64 score), BPut (zEncodeScoreKey db key member score) []]
        in case db_get db ek of
             None \<Rightarrow> Inr (0, put)
           | Some v \<Rightarrow> rbind (Int64 (Some v)) (\<lambda>s. Inr (1, BDel (zEncodeScoreKey db key member s) # put)))"

definition zDelItem :: "ledisdb \<Rightarrow> bytes \<Rightarrow> bytes \<Rightarrow> bool \<Rightarrow> (int \<times> bop list) result" where
  "zDelItem db key member skipDelScore =
     (let ek = zEncodeSetKey db key member
      in case db_get db ek of
           None \<Rightarrow> Inr (0, [])
         | Some v \<Rightarrow>
             if skipDelScore then Inr (1, [BDel ek])
             else rbind (Int64 (Some v)) (\<lambda>s. Inr (1, [BDel (zEncodeScoreKey db key member s), BDel ek])))"

definition zIncrSize :: "ledisdb \<Rightarrow> bytes \<Rightarrow> int \<Rightarrow> (int \<times> bop list) result" where
  "zIncrSize db key delta = incr_size ZSetType (zEncodeSizeKey db key) db key delta"

definition ZCard :: "ledisdb \<Rightarrow> bytes \<Rightarrow> int result" where
  "ZCard db key = rbind (checkKeySize key) (\<lambda>_. Int64 (db_get db (zEncodeSizeKey db key)))"

fun zadd_loop :: "ledisdb \<Rightarrow> bytes \<Rightarrow> ScorePair list \<Rightarrow> (int \<times> bop list) result" where
  "zadd_loop db key [] = Inr (0, [])"
| "zadd_loop db key ((score, member) # args) =
     rbind (checkZSetKMSize key member) (\<lambda>_.
     rbind (zSetItem db key score member) (\<lambda>(n, ops).
     rbind (zadd_loop db key args) (\<lambda>(num, rest). Inr ((if n = 0 then 1 else 0) + num, ops @ rest))))"

definition ZAdd :: "bytes \<Rightarrow> ScorePair list \<Rightarrow> ledisdb \<Rightarrow> int result \<times> ledisdb" where
  "ZAdd key args db =
     (if length args = 0 then (Inr 0, db)
      else sbind (lift_r (zadd_loop db key args) db) (\<lambda>(num, ops) db.
           sbind (lift_r (zIncrSize db key num) db) (\<lambda>(_, sops) db.
           sbind (Commit (ops @ sops) db) (\<lambda>_ db. (Inr num, db)))))"

definition ZScore :: "ledisdb \<Rightarrow> bytes \<Rightarrow> bytes \<Rightarrow> int result" where
  "ZScore db key member =
     rbind (checkZSetKMSize key member) (\<lambda>_.
       case db_get db (zEncodeSetKey db key member) of
         None \<Rightarrow> Inl errScoreMiss
       | Some v \<Rightarrow> Int64 (Some v))"

fun zrem_loop :: "ledisdb \<Rightarrow> bytes \<Rightarrow> bytes list \<Rightarrow> (int \<times> bop list) result" where
  "zrem_loop db key [] = Inr (0, [])"
| "zrem_loop db key (member # members) =
     rbind (checkZSetKMSize key member) (\<lambda>_.
     rbind (zDelItem db key member False) (\<lambda>(n, ops).
     rbind (zrem_loop db key members) (\<lambda>(num, rest). Inr ((if n = 1 then 1 else 0) + num, ops @ rest))))"

definition ZRem :: "bytes \<Rightarrow> bytes list \<Rightarrow> ledisdb \<Rightarrow> int result \<times> ledisdb" where
  "ZRem key members db =
     (if length members = 0 then (Inr 0, db)
      else sbind (lift_r (zrem_loop db key members) db) (\<lambda>(num, ops) db.
           sbind (lift_r (zIncrSize db key (- num)) db) (\<lambda>(_, sops) db.
           sbind (Commit (ops @ sops) db) (\<lambda>_ db. (Inr num, db)))))"

text \<open>\<open>ZIncrBy\<close> ignores an error of \<open>zIncrSize\<close>; the old score's record is deleted last.\<close>

definition ZIncrBy :: "bytes \<Rightarrow> int \<Rightarrow> bytes \<Rightarrow> ledisdb \<Rightarrow> int result \<times> ledisdb" where
  "ZIncrBy key delta member db =
     sbind (lift_r (checkZSetKMSize key member) db) (\<lambda>_ db.
       let ek = zEncodeSetKey db key member; v = db_get db ek
       in sbind (lift_r (case v of None \<Rightarrow> Inr 0 | Some b \<Rightarrow> Int64 (Some b)) db) (\<lambda>oldScore db.
          let sops = (case v of
                        None \<Rightarrow> (case zIncrSize db key 1 of Inl e \<Rightarrow> [] | Inr (_, ops) \<Rightarrow> ops)
                      | Some b \<Rightarrow> []);
              newScore = wrap64 (oldScore + delta)
          in if newScore \<ge> MaxScore \<or> newScore \<le> MinScore then (Inl errScoreOverflow, db)
             else
               let put = [BPut (zEncodeScoreKey db key member newScore) [], BPut ek (PutInt64 newScore)];
                   del = (if v \<noteq> None then [BDel (zEncodeScoreKey db key member oldScore)] else [])
               in sbind (Commit (sops @ put @ del) db) (\<lambda>_ db. (Inr newScore, db))))"

definition ZCount :: "ledisdb \<Rightarrow> bytes \<Rightarrow> int \<Rightarrow> int \<Rightarrow> int result" where
  "ZCount db key lo hi =
     rbind (checkKeySize key) (\<lambda>_.
       Inr (int (length (rangeLimitIterator (bucket db) (Some (zEncodeStartScoreKey db key lo))
         (Some (zEncodeStopScoreKey db key hi)) RangeROpen 0 (-1) False))))"

definition zrank :: "ledisdb \<Rightarrow> bytes \<Rightarrow> bytes \<Rightarrow> bool \<Rightarrow> int result" where
  "zrank db key member reverse =
     rbind (checkZSetKMSize key member) (\<lambda>_.
       case it_Find (bucket db) (zEncodeSetKey db key member) of
         None \<Rightarrow> Inr (-1)
       | Some v \<Rightarrow>
           rbind (Int64 (Some v)) (\<lambda>s.
             let sk = zEncodeScoreKey db key member s;
                 rit = (if \<not> reverse
                   then rangeLimitIterator (bucket db) (Some (zEncodeStartScoreKey db key MinScore)) (Some sk) RangeClose 0 (-1) False
                   else rangeLimitIterator (bucket db) (Some sk) (Some (zEncodeStopScoreKey db key MaxScore)) RangeClose 0 (-1) True);
                 lastKey = (if rit = [] then [] else fst (last rit))
             in case zDecodeScoreKey db lastKey of
                  Inr (_, m, _) \<Rightarrow> Inr (if m = member then int (length rit) - 1 else -1)
                | Inl e \<Rightarrow> Inr (-1)))"

definition zIterator :: "ledisdb \<Rightarrow> bytes \<Rightarrow> int \<Rightarrow> int \<Rightarrow> int \<Rightarrow> int \<Rightarrow> bool \<Rightarrow> store" where
  "zIterator db key lo hi offset count reverse =
     rangeLimitIterator (bucket db) (Some (zEncodeStartScoreKey db key lo))
       (Some (zEncodeStopScoreKey db key hi)) RangeClose offset count reverse"

fun zremrange_loop :: "ledisdb \<Rightarrow> bytes \<Rightarrow> store \<Rightarrow> (int \<times> bop list) result" where
  "zremrange_loop db key [] = Inr (0, [])"
| "zremrange_loop db key ((sk, v) # it) =
     (case zDecodeScoreKey db sk of
        Inl e \<Rightarrow> zremrange_loop db key it
      | Inr (_, m, _) \<Rightarrow>
          rbind (zDelItem db key m True) (\<lambda>(n, ops).
          rbind (zremrange_loop db key it) (\<lambda>(num, rest).
            Inr ((if n = 1 then 1 else 0) + num, ops @ BDel sk # rest))))"

definition zRemRange :: "ledisdb \<Rightarrow> bytes \<Rightarrow> int \<Rightarrow> int \<Rightarrow> int \<Rightarrow> int \<Rightarrow> (int \<times> bop list) result" where
  "zRemRange db key lo hi offset count =
     (if length key > MaxKeySize then Inl errKeySize
      else rbind (zremrange_loop db key (zIterator db key lo hi offset count False)) (\<lambda>(num, ops).
           rbind (zIncrSize db key (- num)) (\<lambda>(_, sops). Inr (num, ops @ sops))))"

fun decode_scores :: "ledisdb \<Rightarrow> store \<Rightarrow> ScorePair list" where
  "decode_scores db [] = []"
| "decode_scores db ((ek, v) # it) =
     (case zDecodeScoreKey db ek of
        Inl e \<Rightarrow> decode_scores db it
      | Inr (_, m, s) \<Rightarrow> (s, m) # decode_scores db it)"

definition zRange :: "ledisdb \<Rightarrow> bytes \<Rightarrow> int \<Rightarrow> int \<Rightarrow> int \<Rightarrow> int \<Rightarrow> bool \<Rightarrow> ScorePair list result" where
  "zRange db key lo hi offset count reverse =
     (if length key > MaxKeySize then Inl errKeySize
      else if offset < 0 then Inr []
      else
        let it = (if \<not> reverse \<or> (offset = 0 \<and> count < 0)
                  then zIterator db key lo hi offset count False
                  else zIterator db key lo hi offset count True);
            v = decode_scores db it
        in Inr (if reverse \<and> (offset = 0 \<and> count < 0) then rev v else v))"

text \<open>\<open>zParseLimit\<close>: where it sets only the offset, the count is its zero value.\<close>

definition zParseLimit :: "ledisdb \<Rightarrow> bytes \<Rightarrow> int \<Rightarrow> int \<Rightarrow> (int \<times> int) result" where
  "zParseLimit db key start stop =
     (let finish = (\<lambda>start stop. if start > stop then (-1, 0) else (start, wrap64 (wrap64 (stop - start) + 1)))
      in if start < 0 \<or> stop < 0 then
           rbind (ZCard db key) (\<lambda>llen.
             let start = (if start < 0 then wrap64 (llen + start) else start);
                 stop = (if stop < 0 then wrap64 (llen + stop) else stop);
                 start = (if start < 0 then 0 else start)
             in if start \<ge> llen then Inr (-1, 0) else Inr (finish start stop))
         else Inr (finish start stop))"

definition commit_rem :: "(int \<times> bop list) result \<Rightarrow> ledisdb \<Rightarrow> int result \<times> ledisdb" where
  "commit_rem r db = sbind (lift_r r db) (\<lambda>(rmCnt, ops) db. sbind (Commit ops db) (\<lambda>_ db. (Inr rmCnt, db)))"

definition ZClear :: "bytes \<Rightarrow> ledisdb \<Rightarrow> int result \<times> ledisdb" where
  "ZClear key db = commit_rem (zRemRange db key MinScore MaxScore 0 (-1)) db"

definition ZRangeGeneric :: "ledisdb \<Rightarrow> bytes \<Rightarrow> int \<Rightarrow> int \<Rightarrow> bool \<Rightarrow> ScorePair list result" where
  "ZRangeGeneric db key start stop reverse =
     rbind (zParseLimit db key start stop) (\<lambda>(offset, count).
       zRange db key MinScore MaxScore offset count reverse)"

definition ZRange :: "ledisdb \<Rightarrow> bytes \<Rightarrow> int \<Rightarrow> int \<Rightarrow> ScorePair list result" where
  "ZRange db key start stop = ZRangeGeneric db key start stop False"

definition ZRangeByScoreGeneric ::
  "ledisdb \<Rightarrow> bytes \<Rightarrow> int \<Rightarrow> int \<Rightarrow> int \<Rightarrow> int \<Rightarrow> bool \<Rightarrow> ScorePair list result" where
  "ZRangeByScoreGeneric db key lo hi offset count reverse = zRange db key lo hi offset count reverse"

definition ZRangeByScore :: "ledisdb \<Rightarrow> bytes \<Rightarrow> int \<Rightarrow> int \<Rightarrow> int \<Rightarrow> int \<Rightarrow> ScorePair list result" where
  "ZRangeByScore db key lo hi offset count = ZRangeByScoreGeneric db key lo hi offset count False"

definition ZRank :: "ledisdb \<Rightarrow> bytes \<Rightarrow> bytes \<Rightarrow> int result" where
  "ZRank db key member = zrank db key member False"

definition ZRemRangeByRank :: "bytes \<Rightarrow> int \<Rightarrow> int \<Rightarrow> ledisdb \<Rightarrow> int result \<times> ledisdb" where
  "ZRemRangeByRank key start stop db =
     sbind (lift_r (zParseLimit db key start stop) db) (\<lambda>(offset, count) db.
       commit_rem (zRemRange db key MinScore MaxScore offset count) db)"

definition ZRemRangeByScore :: "bytes \<Rightarrow> int \<Rightarrow> int \<Rightarrow> ledisdb \<Rightarrow> int result \<times> ledisdb" where
  "ZRemRangeByScore key lo hi db = commit_rem (zRemRange db key lo hi 0 (-1)) db"

definition ZRevRange :: "ledisdb \<Rightarrow> bytes \<Rightarrow> int \<Rightarrow> int \<Rightarrow> ScorePair list result" where
  "ZRevRange db key start stop = ZRangeGeneric db key start stop True"

definition ZRevRank :: "ledisdb \<Rightarrow> bytes \<Rightarrow> bytes \<Rightarrow> int result" where
  "ZRevRank db key member = zrank db key member True"

section \<open>The scores of a sorted set\<close>

lemma zDecodeSetKey_encode:
  "length k < 65536 \<Longrightarrow> zDecodeSetKey db (zEncodeSetKey db k m) = Inr (k, m)"
  by (simp add: zDecodeSetKey_def zEncodeSetKey_def elem_key_def checkKeyIndex_def nth_append be_nat_be_bytes Let_def
      drop_Cons')

interpretation zset: member_layout zEncodeSetKey zDecodeSetKey zEncodeSizeKey ZSetType ZSizeType
  by unfold_locales
    (simp_all add: zEncodeSetKey_def member_key_def zEncodeSizeKey_def type_of_tag_def
      zDecodeSetKey_encode [unfolded zEncodeSetKey_def])

text \<open>The score as it stands in the key of an index record, which orders the records by score.\<close>

definition zpfx :: "int \<Rightarrow> bytes" where
  "zpfx s = (if s < 0 then CHR ''<'' else CHR ''='') # be_bytes 8 (uint64 s)"

lemma length_zpfx [simp]: "length (zpfx s) = 9"
  by (simp add: zpfx_def)

lemma zpfx_less:
  assumes "is_int64 s" "is_int64 t"
  shows "zpfx s < zpfx t \<longleftrightarrow> s < t"
proof -
  have neg: "uint64 x = nat (x + 18446744073709551616)" if "x < 0" "is_int64 x" for x
  proof -
    have "x mod 18446744073709551616 = x + 18446744073709551616"
      using that mod_pos_pos_trivial [of "x + 18446744073709551616" "18446744073709551616"]
      by (simp add: is_int64_def)
    then show ?thesis by (simp add: uint64_def)
  qed
  have pos: "uint64 x = nat x" if "0 \<le> x" "is_int64 x" for x
    using that by (simp add: uint64_def is_int64_def)
  have "be_bytes 8 (uint64 s) < be_bytes 8 (uint64 t) \<longleftrightarrow> uint64 s < uint64 t"
    using uint64_less [of s] uint64_less [of t] by (intro be_bytes_less_iff) auto
  then show ?thesis
    using assms by (cases "s < 0"; cases "t < 0") (auto simp: zpfx_def neg pos less_char_def is_int64_def)
qed

lemma zpfx_inj: "is_int64 s \<Longrightarrow> is_int64 t \<Longrightarrow> zpfx s = zpfx t \<longleftrightarrow> s = t"
  using zpfx_less [of s t] zpfx_less [of t s] by (metis less_irrefl not_less_iff_gr_or_eq)

lemma score_key: "zEncodeScoreKey db k m s = elem_key db ZScoreType k [] @ zpfx s @ CHR '':'' # m"
  by (simp add: zEncodeScoreKey_def zpfx_def elem_key_def)

lemma score_key_inj [codec]:
  "key_ok k \<Longrightarrow> key_ok k' \<Longrightarrow> is_int64 s \<Longrightarrow> is_int64 s' \<Longrightarrow>
     zEncodeScoreKey db k m s = zEncodeScoreKey db k' m' s' \<longleftrightarrow> k = k' \<and> m = m' \<and> s = s'"
proof -
  assume "key_ok k" "key_ok k'" "is_int64 s" "is_int64 s'"
  moreover have "zEncodeScoreKey db k m s = elem_key db ZScoreType k (zpfx s @ CHR '':'' # m)" for k m s
    by (simp add: score_key elem_key_def)
  ultimately show ?thesis
    by (auto simp: elem_key_inj key_ok_length append_eq_append_same_length zpfx_inj)
qed

lemma score_key_less:
  "is_int64 s \<Longrightarrow> is_int64 t \<Longrightarrow> zEncodeScoreKey db k m s < zEncodeScoreKey db k m' t \<longleftrightarrow> (s, m) < (t, m')"
  by (auto simp: score_key append_less_same_length zpfx_less zpfx_inj less_prod_def')

lemma zDecodeScoreKey_encode:
  "key_ok k \<Longrightarrow> is_int64 s \<Longrightarrow> zDecodeScoreKey db (zEncodeScoreKey db k m s) = Inr (k, m, s)"
  using uint64_less [of s]
  by (auto simp: zDecodeScoreKey_def zEncodeScoreKey_def elem_split_elem_key key_ok_length nth_append be_nat_be_bytes)

text \<open>Keys of index records against the other keys.\<close>

lemma score_key_apart [simp]:
  "zEncodeScoreKey db k m s \<noteq> member_key ZSetType db k' m'" "member_key ZSetType db k' m' \<noteq> zEncodeScoreKey db k m s"
  "zEncodeScoreKey db k m s \<noteq> zEncodeSizeKey db k'" "zEncodeSizeKey db k' \<noteq> zEncodeScoreKey db k m s"
  "zEncodeScoreKey db k m s \<noteq> expEncodeMetaKey db dt k'" "expEncodeMetaKey db dt k' \<noteq> zEncodeScoreKey db k m s"
  "zEncodeScoreKey db k m s \<noteq> expEncodeTimeKey db dt k' w" "expEncodeTimeKey db dt k' w \<noteq> zEncodeScoreKey db k m s"
  by (simp_all add: zEncodeScoreKey_def member_key_def elem_key_def zEncodeSizeKey_def exp_key_defs)

definition zset_of :: "ledisdb \<Rightarrow> bytes \<Rightarrow> bytes \<Rightarrow> int option" where
  "zset_of db k m = map_option (\<lambda>v. wrap64 (int (le_nat v))) (mem_of ZSetType db k m)"

definition score_ok :: "int \<Rightarrow> bool" where
  "score_ok s \<longleftrightarrow> MinScore < s \<and> s < MaxScore"

lemma score_ok_int64 [simp]: "score_ok s \<Longrightarrow> is_int64 s"
  by (simp add: score_ok_def is_int64_def)

text \<open>
  Well-formed records: the member records are, every score is in range, and there is an index
  record exactly for the score of each member.
\<close>

definition zindex :: "ledisdb \<Rightarrow> bool" where
  "zindex db \<longleftrightarrow> store_ok (bucket db) \<and>
     (\<forall>r. db_get db (indexVarBuf db @ ZSetType # r) \<noteq> None \<longrightarrow>
        (\<exists>k m. key_ok k \<and> key_ok m \<and> indexVarBuf db @ ZSetType # r = member_key ZSetType db k m)) \<and>
     (\<forall>k m v. mem_of ZSetType db k m = Some v \<longrightarrow> (\<exists>s. score_ok s \<and> v = PutInt64 s)) \<and>
     (\<forall>r. db_get db (indexVarBuf db @ ZScoreType # r) \<noteq> None \<longleftrightarrow>
        (\<exists>k m s. zset_of db k m = Some s \<and> indexVarBuf db @ ZScoreType # r = zEncodeScoreKey db k m s))"

definition zsets_ok :: "ledisdb \<Rightarrow> bool" where
  "zsets_ok db \<longleftrightarrow> zindex db \<and>
     (\<forall>k. key_ok k \<longrightarrow> db_get db (zEncodeSizeKey db k) = size_rec (card (dom (zset_of db k))))"

lemma dom_zset_of [simp]: "dom (zset_of db k) = dom (mem_of ZSetType db k)"
  by (auto simp: zset_of_def)

lemma zsets_mem_ok: "zsets_ok db \<longleftrightarrow> zindex db \<and> mem_ok ZSetType ZSizeType db"
  by (auto simp: zsets_ok_def mem_ok_def zindex_def zset.sk)

lemma zset_of_ok: "zset_of db k m = Some s \<Longrightarrow> key_ok k \<and> key_ok m"
  by (auto simp: zset_of_def mem_of_def split: if_splits)

lemma zset_of_value:
  assumes "zindex db" "key_ok k" "key_ok m"
  shows "db_get db (member_key ZSetType db k m) = map_option PutInt64 (zset_of db k m)"
proof (cases "mem_of ZSetType db k m")
  case (Some v)
  then obtain s where "score_ok s" "v = PutInt64 s" using assms(1) unfolding zindex_def by blast
  then show ?thesis using Some assms by (simp add: mem_of_key zset_of_def)
qed (simp add: assms mem_of_key zset_of_def)

lemma zset_of_score_ok: "zindex db \<Longrightarrow> zset_of db k m = Some s \<Longrightarrow> score_ok s"
proof -
  assume "zindex db" "zset_of db k m = Some s"
  then obtain v s' where "s = wrap64 (int (le_nat v))" "score_ok s'" "v = PutInt64 s'"
    unfolding zindex_def zset_of_def by blast
  then show ?thesis by simp
qed

lemma index_record:
  assumes "zindex db"
  shows "db_get db (indexVarBuf db @ ZScoreType # r) \<noteq> None \<longleftrightarrow>
    (\<exists>k m s. zset_of db k m = Some s \<and> indexVarBuf db @ ZScoreType # r = zEncodeScoreKey db k m s)"
  using assms by (simp add: zindex_def)

lemma score_key_tag: "zEncodeScoreKey db k m s = indexVarBuf db @ ZScoreType # be_bytes 2 (length k) @ k @ zpfx s @ CHR '':'' # m"
  by (simp add: score_key elem_key_def)

lemma index_at:
  assumes "zindex db" "key_ok k" "is_int64 s"
  shows "db_get db (zEncodeScoreKey db k m s) \<noteq> None \<longleftrightarrow> zset_of db k m = Some s"
proof -
  have "db_get db (zEncodeScoreKey db k m s) \<noteq> None \<longleftrightarrow>
      (\<exists>k' m' s'. zset_of db k' m' = Some s' \<and> zEncodeScoreKey db k m s = zEncodeScoreKey db k' m' s')"
    using index_record [OF assms(1), of "be_bytes 2 (length k) @ k @ zpfx s @ CHR '':'' # m"]
    by (simp only: score_key_tag)
  also have "\<dots> \<longleftrightarrow> zset_of db k m = Some s"
    using assms zset_of_ok zset_of_score_ok [OF assms(1)] score_ok_int64 by (metis score_key_inj)
  finally show ?thesis .
qed

section \<open>Changing one member\<close>

lemma zindex_set:
  assumes z: "zindex db" and k: "key_ok k" and m: "key_ok m" and b: "store_ok b'"
    and new: "\<And>s. new = Some s \<Longrightarrow> score_ok s"
    and ek: "sget b' (member_key ZSetType db k m) = map_option PutInt64 new"
    and sc: "\<And>s. is_int64 s \<Longrightarrow> sget b' (zEncodeScoreKey db k m s) \<noteq> None \<longleftrightarrow> new = Some s"
    and frame1: "\<And>r. indexVarBuf db @ ZSetType # r \<noteq> member_key ZSetType db k m \<Longrightarrow>
      sget b' (indexVarBuf db @ ZSetType # r) = db_get db (indexVarBuf db @ ZSetType # r)"
    and frame2: "\<And>r. (\<And>s. is_int64 s \<Longrightarrow> indexVarBuf db @ ZScoreType # r \<noteq> zEncodeScoreKey db k m s) \<Longrightarrow>
      sget b' (indexVarBuf db @ ZScoreType # r) = db_get db (indexVarBuf db @ ZScoreType # r)"
  defines "db' \<equiv> db\<lparr>bucket := b'\<rparr>"
  shows "zindex db'" "zset_of db' = (zset_of db)(k := (zset_of db k)(m := new))"
proof -
  have mk: "member_key ZSetType db k' m' = indexVarBuf db @ ZSetType # be_bytes 2 (length k') @ k' @ CHR '':'' # m'" for k' m'
    by (simp add: member_key_def elem_key_def)
  have other: "db_get db' (member_key ZSetType db k' m') = db_get db (member_key ZSetType db k' m')"
    if "key_ok k'" "(k', m') \<noteq> (k, m)" for k' m'
    using frame1 [of "be_bytes 2 (length k') @ k' @ CHR '':'' # m'"] that k
    by (simp add: mk [symmetric] db'_def codec)
  have mem: "mem_of ZSetType db' k' m' = (if k' = k \<and> m' = m then map_option PutInt64 new else mem_of ZSetType db k' m')" for k' m'
    using k m ek other [of k' m'] by (auto simp: mem_of_def db'_def)
  have wnew: "map_option (\<lambda>v. wrap64 (int (le_nat v))) (map_option PutInt64 new) = new"
    using new by (cases new) (auto simp: wrap64_id)
  show zs: "zset_of db' = (zset_of db)(k := (zset_of db k)(m := new))"
    using wnew by (auto simp: zset_of_def fun_eq_iff mem)
  have wf: "\<exists>k m. key_ok k \<and> key_ok m \<and> indexVarBuf db @ ZSetType # r = member_key ZSetType db k m"
    if "db_get db' (indexVarBuf db @ ZSetType # r) \<noteq> None" for r
  proof (cases "indexVarBuf db @ ZSetType # r = member_key ZSetType db k m")
    case False
    then have "db_get db (indexVarBuf db @ ZSetType # r) \<noteq> None" using that frame1 by (simp add: db'_def)
    then show ?thesis using z unfolding zindex_def by blast
  qed (use k m in blast)
  have vals: "\<exists>s. score_ok s \<and> v = PutInt64 s" if "mem_of ZSetType db' k' m' = Some v" for k' m' v
    using that new z unfolding zindex_def by (auto simp: mem split: if_splits)
  have idx: "db_get db' (indexVarBuf db @ ZScoreType # r) \<noteq> None \<longleftrightarrow>
      (\<exists>k' m' s. zset_of db' k' m' = Some s \<and> indexVarBuf db @ ZScoreType # r = zEncodeScoreKey db k' m' s)" for r
  proof (cases "\<exists>s. is_int64 s \<and> indexVarBuf db @ ZScoreType # r = zEncodeScoreKey db k m s")
    case True
    then obtain s where s: "is_int64 s" "indexVarBuf db @ ZScoreType # r = zEncodeScoreKey db k m s" by blast
    have t: "key_ok k'" "is_int64 t" if "zset_of db' k' m' = Some t" for k' m' t
      using that zset_of_ok [OF that] zset_of_score_ok [OF z, of k' m' t] new score_ok_int64
      by (auto simp: zs split: if_splits)
    have "zset_of db' k m = Some s"
      if "zset_of db' k' m' = Some t" "zEncodeScoreKey db k m s = zEncodeScoreKey db k' m' t" for k' m' t
      using that(2) score_key_inj [OF k t(1) [OF that(1)] s(1) t(2) [OF that(1)]] that(1) by simp
    then have "(\<exists>k' m' t. zset_of db' k' m' = Some t \<and> zEncodeScoreKey db k m s = zEncodeScoreKey db k' m' t)
        \<longleftrightarrow> zset_of db' k m = Some s"
      by blast
    then show ?thesis using sc [OF s(1)] by (simp add: s(2) zs [unfolded db'_def] db'_def)
  next
    case False
    then have "db_get db' (indexVarBuf db @ ZScoreType # r) = db_get db (indexVarBuf db @ ZScoreType # r)"
      using frame2 by (auto simp: db'_def)
    moreover have "(zset_of db' k' m' = Some t \<and> indexVarBuf db @ ZScoreType # r = zEncodeScoreKey db k' m' t) \<longleftrightarrow>
        (zset_of db k' m' = Some t \<and> indexVarBuf db @ ZScoreType # r = zEncodeScoreKey db k' m' t)" for k' m' t
    proof (cases "k' = k \<and> m' = m")
      case True
      have "is_int64 t" if "new = Some t \<or> zset_of db k m = Some t"
        using that new zset_of_score_ok [OF z] score_ok_int64 by blast
      then show ?thesis using False True by (auto simp: zs)
    qed (simp add: zs)
    ultimately show ?thesis using index_record [OF z] by simp
  qed
  show "zindex db'" unfolding zindex_def using wf vals idx b by (simp add: db'_def)
qed

lemma zindex_frame:
  assumes "zindex db" "store_ok b'"
    and "\<And>r. sget b' (indexVarBuf db @ ZSetType # r) = db_get db (indexVarBuf db @ ZSetType # r)"
    and "\<And>r. sget b' (indexVarBuf db @ ZScoreType # r) = db_get db (indexVarBuf db @ ZScoreType # r)"
  shows "zindex (db\<lparr>bucket := b'\<rparr>)" "zset_of (db\<lparr>bucket := b'\<rparr>) = zset_of db"
proof -
  have "db_get (db\<lparr>bucket := b'\<rparr>) (member_key ZSetType db k m) = db_get db (member_key ZSetType db k m)" for k m
    using assms(3) by (simp add: member_key_def elem_key_def)
  then have mem: "mem_of ZSetType (db\<lparr>bucket := b'\<rparr>) = mem_of ZSetType db" by (simp add: mem_of_def fun_eq_iff)
  then show z: "zset_of (db\<lparr>bucket := b'\<rparr>) = zset_of db" by (simp add: zset_of_def fun_eq_iff)
  show "zindex (db\<lparr>bucket := b'\<rparr>)"
    unfolding zindex_def z mem using assms by (simp add: zindex_def)
qed

section \<open>Scans of the score index\<close>

definition zlist :: "ledisdb \<Rightarrow> bytes \<Rightarrow> (int \<times> bytes) list" where
  "zlist db k = sorted_list_of_set {(s, m). zset_of db k m = Some s}"

lemma finite_zpairs [simp]: "finite {(s, m). zset_of db k m = Some s}"
proof -
  have "{(s, m). zset_of db k m = Some s} \<subseteq> (\<lambda>m. (the (zset_of db k m), m)) ` dom (zset_of db k)"
    by (auto intro!: rev_image_eqI simp del: dom_zset_of)
  then show ?thesis by (rule finite_subset) simp
qed

lemma set_zlist [simp]: "set (zlist db k) = {(s, m). zset_of db k m = Some s}"
  by (simp add: zlist_def)

lemma sorted_zlist: "sorted_wrt (<) (zlist db k)"
  by (simp add: zlist_def)

lemma distinct_zlist: "distinct (zlist db k)" "distinct (map snd (zlist db k))"
proof -
  show "distinct (zlist db k)" by (simp add: zlist_def)
  then show "distinct (map snd (zlist db k))" by (auto simp: distinct_map inj_on_def)
qed

lemma length_zlist: "length (zlist db k) = card (dom (zset_of db k))"
proof -
  have "set (map snd (zlist db k)) = dom (zset_of db k)" by (auto simp: dom_def image_iff simp del: dom_zset_of)
  then show ?thesis using distinct_card [OF distinct_zlist(2), of db k] by simp
qed

text \<open>The index records of a key, in store order.\<close>

lemma zscan_all:
  assumes "zindex db" "key_ok k"
  shows "filter (\<lambda>p. \<exists>y. fst p = elem_key db ZScoreType k [] @ y) (bucket db)
    = map (\<lambda>(s, m). (zEncodeScoreKey db k m s, the (db_get db (zEncodeScoreKey db k m s)))) (zlist db k)"
proof -
  let ?f = "\<lambda>(s, m). zEncodeScoreKey db k m s"
  have int: "zset_of db k m = Some s \<Longrightarrow> is_int64 s" for s m using zset_of_score_ok [OF assms(1)] score_ok_int64 by blast
  have "sorted_wrt (<) (map ?f (zlist db k))"
    unfolding sorted_wrt_map
    by (intro sorted_wrt_mono_rel [OF _ sorted_zlist]) (auto simp: int score_key_less)
  moreover have "x \<in> set (map ?f (zlist db k)) \<longleftrightarrow> (\<exists>y. x = elem_key db ZScoreType k [] @ y) \<and> db_get db x \<noteq> None" for x
  proof
    assume "x \<in> set (map ?f (zlist db k))"
    then obtain s m where "zset_of db k m = Some s" "x = zEncodeScoreKey db k m s" by auto
    then show "(\<exists>y. x = elem_key db ZScoreType k [] @ y) \<and> db_get db x \<noteq> None"
      using index_at [OF assms] zset_of_score_ok [OF assms(1)] score_ok_int64 by (metis score_key)
  next
    assume "(\<exists>y. x = elem_key db ZScoreType k [] @ y) \<and> db_get db x \<noteq> None"
    then obtain y where y: "x = elem_key db ZScoreType k [] @ y" "db_get db x \<noteq> None" by blast
    then obtain k' m s where s: "zset_of db k' m = Some s" "x = zEncodeScoreKey db k' m s"
      using index_record [OF assms(1), of "be_bytes 2 (length k) @ k @ y"] by (auto simp: elem_key_def)
    have "elem_key db ZScoreType k y = elem_key db ZScoreType k' (zpfx s @ CHR '':'' # m)"
      using y(1) s(2) by (simp add: score_key elem_key_def)
    then have "k' = k" using zset_of_ok [OF s(1)] assms(2) by (auto simp: elem_key_inj key_ok_length)
    then show "x \<in> set (map ?f (zlist db k))" using s by auto
  qed
  ultimately have "filter (\<lambda>p. \<exists>y. fst p = elem_key db ZScoreType k [] @ y) (bucket db)
      = map (\<lambda>x. (x, the (db_get db x))) (map ?f (zlist db k))"
    using assms(1) by (intro filter_store_eq) (auto simp: zindex_def)
  then show ?thesis by (simp add: o_def case_prod_unfold)
qed

definition zbetween :: "ledisdb \<Rightarrow> bytes \<Rightarrow> int \<Rightarrow> int \<Rightarrow> ScorePair list" where
  "zbetween db k lo hi = filter (\<lambda>p. lo \<le> fst p \<and> fst p \<le> hi) (zlist db k)"

abbreviation zentry :: "ledisdb \<Rightarrow> bytes \<Rightarrow> ScorePair \<Rightarrow> bytes \<times> bytes" where
  "zentry db k \<equiv> \<lambda>(s, m). (zEncodeScoreKey db k m s, the (db_get db (zEncodeScoreKey db k m s)))"

lemma zlist_int64: "zindex db \<Longrightarrow> p \<in> set (zlist db k) \<Longrightarrow> is_int64 (fst p)"
  using zset_of_score_ok [of db k] score_ok_int64 by auto

lemma zlist_score_ok: "zindex db \<Longrightarrow> p \<in> set (zlist db k) \<Longrightarrow> MinScore < fst p \<and> fst p < MaxScore"
  using zset_of_score_ok [of db k] by (auto simp: score_ok_def)

text \<open>Scans between two keys with the prefix of the score index of \<open>k\<close>.\<close>

lemma zscan:
  assumes "zindex db" "key_ok k"
    and "\<And>p. p \<in> set (zlist db k) \<Longrightarrow>
      in_range (Some (elem_key db ZScoreType k [] @ a)) (Some (elem_key db ZScoreType k [] @ b)) rt (fst (zentry db k p)) \<longleftrightarrow> P p"
  shows "filter (\<lambda>p. in_range (Some (elem_key db ZScoreType k [] @ a)) (Some (elem_key db ZScoreType k [] @ b)) rt (fst p)) (bucket db)
    = map (zentry db k) (filter P (zlist db k))"
proof -
  let ?E = "elem_key db ZScoreType k []"
  let ?R = "\<lambda>p. in_range (Some (?E @ a)) (Some (?E @ b)) rt (fst p)"
  have "\<exists>y. fst p = ?E @ y" if "?R p" for p
    using that append_between [of ?E a "fst p" b] by (auto simp: in_range_def le_less split: if_splits)
  then have "filter ?R (bucket db) = filter ?R (filter (\<lambda>p. \<exists>y. fst p = ?E @ y) (bucket db))"
    by (auto simp: filter_filter intro!: filter_cong)
  also have "\<dots> = map (zentry db k) (filter (\<lambda>p. ?R (zentry db k p)) (zlist db k))"
    by (simp add: zscan_all [OF assms(1,2)] filter_map o_def)
  also have "\<dots> = map (zentry db k) (filter P (zlist db k))"
    using assms(3) by (auto intro!: filter_cong arg_cong [of _ _ "map _"] simp: case_prod_unfold)
  finally show ?thesis .
qed

lemma score_bounds:
  assumes "is_int64 s" "is_int64 t"
  shows "elem_key db ZScoreType k [] @ zpfx t @ '':'' \<le> zEncodeScoreKey db k m s \<longleftrightarrow> t \<le> s"
    and "zEncodeScoreKey db k m s \<le> elem_key db ZScoreType k [] @ zpfx t @ '';'' \<longleftrightarrow> s \<le> t"
    and "zEncodeScoreKey db k m s < elem_key db ZScoreType k [] @ zpfx t @ '';'' \<longleftrightarrow> s \<le> t"
  using zpfx_less [OF assms] zpfx_less [OF assms(2,1)] zpfx_inj [OF assms]
  by (cases m; auto simp: score_key append_le_same_length append_less_same_length less_char_def le_less)+

lemma start_stop_keys:
  "zEncodeStartScoreKey db k s = elem_key db ZScoreType k [] @ zpfx s @ '':''"
  "zEncodeStopScoreKey db k s = elem_key db ZScoreType k [] @ zpfx s @ '';''"
  by (simp_all add: zEncodeStartScoreKey_def zEncodeStopScoreKey_def score_key butlast_append)

lemma zscan_between:
  assumes "zindex db" "key_ok k" "is_int64 lo" "is_int64 hi" "rt = RangeClose \<or> rt = RangeROpen"
  shows "filter (\<lambda>p. in_range (Some (zEncodeStartScoreKey db k lo)) (Some (zEncodeStopScoreKey db k hi)) rt (fst p)) (bucket db)
    = map (zentry db k) (zbetween db k lo hi)"
  unfolding start_stop_keys zbetween_def
  using assms(3-5) zlist_int64 [OF assms(1)]
  by (intro zscan [OF assms(1,2)]) (auto simp: in_range_def score_bounds)

lemma zIterator_eq:
  assumes "zindex db" "key_ok k" "is_int64 lo" "is_int64 hi"
  shows "zIterator db k lo hi offset count reverse
    = map (zentry db k) (limit offset count (if reverse then rev (zbetween db k lo hi) else zbetween db k lo hi))"
proof -
  have "store_ok (bucket db)" using assms(1) by (simp add: zindex_def)
  moreover have "limit offset count (map f xs) = map f (limit offset count xs)" for f :: "ScorePair \<Rightarrow> bytes \<times> bytes" and xs
    by (simp add: limit_def drop_map take_map Let_def)
  ultimately show ?thesis
    by (cases reverse) (simp_all add: zIterator_def rangeLimitIterator_forward rangeLimitIterator_backward
        zscan_between [OF assms] rev_map)
qed

lemma decode_scores_map:
  "key_ok k \<Longrightarrow> \<forall>p \<in> set xs. is_int64 (fst p) \<Longrightarrow> decode_scores db (map (zentry db k) xs) = xs"
  by (induction xs) (auto simp: zDecodeScoreKey_encode)

lemma set_limit: "set (limit offset count xs) \<subseteq> set xs"
proof
  fix x assume "x \<in> set (limit offset count xs)"
  then show "x \<in> set xs"
    by (auto simp: limit_def Let_def split: if_splits dest!: in_set_takeD in_set_dropD)
qed

lemma zRange_ok:
  assumes "zindex db" "key_ok k" "is_int64 lo" "is_int64 hi"
  shows "zRange db k lo hi offset count reverse =
    Inr (limit offset count (if reverse then rev (zbetween db k lo hi) else zbetween db k lo hi))"
proof -
  have dec: "decode_scores db (map (zentry db k) (limit offset count ys)) = limit offset count ys"
    if "set ys \<subseteq> set (zlist db k)" for ys
  proof (rule decode_scores_map [OF assms(2)], rule ballI)
    fix p assume "p \<in> set (limit offset count ys)"
    then have "p \<in> set (zlist db k)" using that set_limit by fast
    then show "is_int64 (fst p)" by (rule zlist_int64 [OF assms(1)])
  qed
  have sub: "set (zbetween db k lo hi) \<subseteq> set (zlist db k)" "set (rev (zbetween db k lo hi)) \<subseteq> set (zlist db k)"
    by (auto simp: zbetween_def)
  have "\<not> length k > MaxKeySize" using assms(2) by (simp add: key_ok_def)
  moreover have "limit offset count xs = xs" if "offset = 0" "count < 0" for xs :: "ScorePair list"
    using that by (simp add: limit_def)
  moreover have "limit offset count xs = []" if "offset < 0" for xs :: "ScorePair list"
    using that by (simp add: limit_def)
  ultimately show ?thesis
    using dec [OF sub(1)] dec [OF sub(2)] by (cases reverse) (auto simp: zRange_def Let_def zIterator_eq [OF assms])
qed

lemma ZCount_ok:
  assumes "zindex db" "key_ok k" "is_int64 lo" "is_int64 hi"
  shows "ZCount db k lo hi = Inr (int (length (zbetween db k lo hi)))"
proof -
  have "store_ok (bucket db)" using assms(1) by (simp add: zindex_def)
  then show ?thesis using assms(2)
    by (simp add: ZCount_def rangeLimitIterator_forward zscan_between [OF assms])
qed

lemma ZCard_ok: "zsets_ok db \<Longrightarrow> key_ok k \<Longrightarrow> room 0 db \<Longrightarrow> ZCard db k = Inr (int (length (zlist db k)))"
  using zset.Int64_size [of db k 0] by (simp add: ZCard_def zsets_mem_ok length_zlist)

lemma ZScore_ok:
  assumes "zindex db" "key_ok k" "key_ok m"
  shows "ZScore db k m = (case zset_of db k m of None \<Rightarrow> Inl errScoreMiss | Some s \<Rightarrow> Inr s)"
  using assms zset_of_score_ok [OF assms(1)]
  by (auto simp: ZScore_def zset.enc zset_of_value wrap64_id split: option.split)

section \<open>Ranks\<close>

lemma zrank_scan:
  assumes "zindex db" "key_ok k" "zset_of db k m = Some s"
  shows "rangeLimitIterator (bucket db) (Some (zEncodeStartScoreKey db k MinScore)) (Some (zEncodeScoreKey db k m s)) RangeClose 0 (-1) False
      = map (zentry db k) (filter (\<lambda>p. p < (s, m)) (zlist db k) @ [(s, m)])"
    and "rangeLimitIterator (bucket db) (Some (zEncodeScoreKey db k m s)) (Some (zEncodeStopScoreKey db k MaxScore)) RangeClose 0 (-1) True
      = map (zentry db k) (rev (filter (\<lambda>p. (s, m) < p) (zlist db k)) @ [(s, m)])"
proof -
  let ?E = "elem_key db ZScoreType k []"
  have ok: "store_ok (bucket db)" using assms(1) by (simp add: zindex_def)
  have mem: "(s, m) \<in> set (zlist db k)" using assms(3) by simp
  have s: "is_int64 s" using zlist_int64 [OF assms(1) mem] by simp
  have sk: "zEncodeScoreKey db k m s = ?E @ zpfx s @ CHR '':'' # m" by (simp add: score_key)
  have le: "zEncodeScoreKey db k (snd p) (fst p) \<le> zEncodeScoreKey db k m s \<longleftrightarrow> p \<le> (s, m)"
    "zEncodeScoreKey db k m s \<le> zEncodeScoreKey db k (snd p) (fst p) \<longleftrightarrow> (s, m) \<le> p" if "p \<in> set (zlist db k)" for p
    using score_key_less [OF s zlist_int64 [OF assms(1) that], of db k m "snd p"]
      score_key_less [OF zlist_int64 [OF assms(1) that] s, of db k "snd p" m] by (simp_all add: linorder_not_less [symmetric])
  have low: "zEncodeStartScoreKey db k MinScore \<le> zEncodeScoreKey db k (snd p) (fst p)"
    "zEncodeScoreKey db k (snd p) (fst p) \<le> zEncodeStopScoreKey db k MaxScore" if "p \<in> set (zlist db k)" for p
    unfolding start_stop_keys using zlist_score_ok [OF assms(1) that] zlist_int64 [OF assms(1) that]
    by (simp_all add: score_bounds is_int64_def)
  have up: "filter (\<lambda>p. in_range (Some (zEncodeStartScoreKey db k MinScore)) (Some (zEncodeScoreKey db k m s)) RangeClose (fst p)) (bucket db)
      = map (zentry db k) (filter (\<lambda>p. p \<le> (s, m)) (zlist db k))"
    unfolding start_stop_keys sk using low le
    by (intro zscan [OF assms(1,2)]) (simp add: in_range_def start_stop_keys sk case_prod_unfold)
  have down: "filter (\<lambda>p. in_range (Some (zEncodeScoreKey db k m s)) (Some (zEncodeStopScoreKey db k MaxScore)) RangeClose (fst p)) (bucket db)
      = map (zentry db k) (filter (\<lambda>p. (s, m) \<le> p) (zlist db k))"
    unfolding start_stop_keys sk using low le
    by (intro zscan [OF assms(1,2)]) (simp add: in_range_def start_stop_keys sk case_prod_unfold)
  show "rangeLimitIterator (bucket db) (Some (zEncodeStartScoreKey db k MinScore)) (Some (zEncodeScoreKey db k m s)) RangeClose 0 (-1) False
      = map (zentry db k) (filter (\<lambda>p. p < (s, m)) (zlist db k) @ [(s, m)])"
    by (simp only: rangeLimitIterator_forward [OF ok] up filter_upto [OF sorted_zlist mem] limit_all)
  show "rangeLimitIterator (bucket db) (Some (zEncodeScoreKey db k m s)) (Some (zEncodeStopScoreKey db k MaxScore)) RangeClose 0 (-1) True
      = map (zentry db k) (rev (filter (\<lambda>p. (s, m) < p) (zlist db k)) @ [(s, m)])"
    by (simp add: rangeLimitIterator_backward [OF ok] down filter_upto [OF sorted_zlist mem] rev_map)
qed

lemma zrank_ok:
  assumes "zindex db" "key_ok k" "key_ok m"
  shows "zrank db k m reverse = Inr (case zset_of db k m of None \<Rightarrow> -1 | Some s \<Rightarrow>
    int (length (filter (\<lambda>p. if reverse then (s, m) < p else p < (s, m)) (zlist db k))))"
proof -
  have find: "it_Find (bucket db) (zEncodeSetKey db k m) = map_option PutInt64 (zset_of db k m)"
    using assms zset_of_value [OF assms] by (simp add: it_Find_eq_sget zindex_def zset.enc)
  show ?thesis
  proof (cases "zset_of db k m")
    case (Some s)
    have "is_int64 s" using zset_of_score_ok [OF assms(1) Some] score_ok_int64 by blast
    then show ?thesis
      using assms(2,3) zrank_scan [OF assms(1,2) Some] Some find
      by (cases reverse) (simp_all add: zrank_def wrap64_id zDecodeScoreKey_encode Let_def)
  qed (use assms(2,3) find in \<open>simp add: zrank_def\<close>)
qed

section \<open>Ranges by rank\<close>

definition rank_slice :: "int \<Rightarrow> int \<Rightarrow> 'a list \<Rightarrow> 'a list" where
  "rank_slice start stop xs =
     (let n = int (length xs); a = max 0 (if start < 0 then n + start else start);
          b = (if stop < 0 then n + stop else stop)
      in take (nat (b - a + 1)) (drop (nat a) xs))"

lemma zParseLimit_ok:
  fixes xs :: "'a list"
  assumes "zsets_ok db" "key_ok k" "room 0 db" "is_int64 start" "is_int64 stop" "length xs = length (zlist db k)"
  shows "\<exists>offset count. zParseLimit db k start stop = Inr (offset, count) \<and> limit offset count xs = rank_slice start stop xs"
proof -
  let ?n = "int (length (zlist db k))"
  have n: "?n < 9223372036854775808"
    using assms(3) card_dom_mem_of [of ZSetType db k] by (simp add: length_zlist room_def)
  have w: "wrap64 (?n + x) = ?n + x" if "is_int64 x" "x < 0" for x
    using that n by (intro wrap64_id) (simp add: is_int64_def)
  have finish: "limit (fst (if a > b then (-1, 0) else (a, wrap64 (wrap64 (b - a) + 1))))
      (snd (if a > b then (-1, 0) else (a, wrap64 (wrap64 (b - a) + 1)))) xs = take (nat (b - a + 1)) (drop (nat a) xs)"
    if "0 \<le> a" "is_int64 a" "is_int64 b" for a b
  proof (cases "a > b")
    case False
    have d: "wrap64 (b - a) = b - a" using that False by (intro wrap64_id) (simp add: is_int64_def)
    show ?thesis
    proof (cases "b - a = MaxInt64")
      case True
      have "wrap64 (b - a + 1) < 0" by (simp add: True wrap64_def)
      moreover have "length xs \<le> nat (b - a + 1)" using n assms(6) by (simp add: True)
      ultimately show ?thesis using that False d by (simp add: limit_def Let_def)
    next
      case ne: False
      then have "wrap64 (b - a + 1) = b - a + 1" using that False by (intro wrap64_id) (simp add: is_int64_def)
      then show ?thesis using that False d by (simp add: limit_def Let_def)
    qed
  qed (simp add: limit_def)
  show ?thesis
  proof (cases "start < 0 \<or> stop < 0")
    case False
    then show ?thesis using finish [of start stop] assms(4,5)
      by (auto simp: zParseLimit_def rank_slice_def Let_def split: if_splits)
  next
    case True
    let ?a = "max 0 (if start < 0 then ?n + start else start)" and ?b = "if stop < 0 then ?n + stop else stop"
    have a: "(if (if start < 0 then ?n + start else start) < 0 then 0 else (if start < 0 then ?n + start else start)) = ?a" by simp
    have "is_int64 ?a" "is_int64 ?b" using assms(4,5) n by (auto simp: is_int64_def)
    then have f: "limit (fst (if ?a > ?b then (-1, 0) else (?a, wrap64 (wrap64 (?b - ?a) + 1))))
      (snd (if ?a > ?b then (-1, 0) else (?a, wrap64 (wrap64 (?b - ?a) + 1)))) xs = take (nat (?b - ?a + 1)) (drop (nat ?a) xs)"
      by (intro finish) simp_all
    have "zParseLimit db k start stop = (if ?a \<ge> ?n then Inr (-1, 0) else
        Inr (if ?a > ?b then (-1, 0) else (?a, wrap64 (wrap64 (?b - ?a) + 1))))"
      using True ZCard_ok [OF assms(1-3)] w [OF assms(4)] w [OF assms(5)]
      by (simp add: zParseLimit_def Let_def a [symmetric] del: max_less_iff_conj max.bounded_iff)
    moreover have "rank_slice start stop xs = take (nat (?b - ?a + 1)) (drop (nat ?a) xs)"
      by (simp add: rank_slice_def Let_def assms(6))
    moreover have "drop (nat ?a) xs = []" if "?a \<ge> ?n" using that assms(6) by simp
    ultimately show ?thesis using f by (cases "?a \<ge> ?n") (simp_all add: limit_def prod_eq_iff split: prod.splits)
  qed
qed

lemma zbetween_all: "zindex db \<Longrightarrow> zbetween db k MinScore MaxScore = zlist db k"
  unfolding zbetween_def by (rule filter_True) (auto dest!: zset_of_score_ok simp: score_ok_def)

lemma score_limits [simp]: "is_int64 MinScore" "is_int64 MaxScore"
  by (simp_all add: is_int64_def)

lemma ZRangeGeneric_ok:
  assumes "zsets_ok db" "key_ok k" "room 0 db" "is_int64 start" "is_int64 stop"
  shows "ZRangeGeneric db k start stop reverse
    = Inr (rank_slice start stop (if reverse then rev (zlist db k) else zlist db k))"
proof -
  have z: "zindex db" using assms(1) by (simp add: zsets_ok_def)
  let ?xs = "if reverse then rev (zlist db k) else zlist db k"
  have "length ?xs = length (zlist db k)" by simp
  from zParseLimit_ok [OF assms this] obtain offset count
    where "zParseLimit db k start stop = Inr (offset, count)" "limit offset count ?xs = rank_slice start stop ?xs" by blast
  then show ?thesis by (cases reverse) (simp_all add: ZRangeGeneric_def zRange_ok [OF z assms(2)] zbetween_all [OF z])
qed

section \<open>Changing several members\<close>

text \<open>
  \<open>zchange db k m new ops\<close>: whatever else has been written, \<open>ops\<close> moves member \<open>m\<close> of the sorted
  set \<open>k\<close> from its score in \<open>db\<close> to \<open>new\<close> in both kinds of records, and writes nothing else.
\<close>

definition zchange :: "ledisdb \<Rightarrow> bytes \<Rightarrow> bytes \<Rightarrow> int option \<Rightarrow> bop list \<Rightarrow> bool" where
  "zchange db k m new ops \<longleftrightarrow> key_ok m \<and> (\<forall>s. new = Some s \<longrightarrow> score_ok s) \<and>
     (\<forall>op \<in> set ops. op_key op = member_key ZSetType db k m \<or> (\<exists>s. is_int64 s \<and> op_key op = zEncodeScoreKey db k m s)) \<and>
     (\<forall>b. sget b (member_key ZSetType db k m) = map_option PutInt64 (zset_of db k m) \<longrightarrow>
        sget (apply_batch ops b) (member_key ZSetType db k m) = map_option PutInt64 new) \<and>
     (\<forall>b. (\<forall>s. is_int64 s \<longrightarrow> (sget b (zEncodeScoreKey db k m s) \<noteq> None \<longleftrightarrow> zset_of db k m = Some s)) \<longrightarrow>
        (\<forall>s. is_int64 s \<longrightarrow> (sget (apply_batch ops b) (zEncodeScoreKey db k m s) \<noteq> None \<longleftrightarrow> new = Some s)))"

lemma zchange_cong:
  assumes "indexVarBuf db' = indexVarBuf db" "zset_of db' k m = zset_of db k m"
  shows "zchange db' k m new ops \<longleftrightarrow> zchange db k m new ops"
proof -
  have "member_key ZSetType db' k m = member_key ZSetType db k m" "zEncodeScoreKey db' k m s = zEncodeScoreKey db k m s" for s
    using assms(1) by (simp_all add: member_key_def elem_key_def score_key)
  then show ?thesis by (simp add: zchange_def assms(2))
qed

lemma zchange_one:
  assumes z: "zindex db" and k: "key_ok k" and c: "zchange db k m new ops"
  shows "zindex (db\<lparr>bucket := apply_batch ops (bucket db)\<rparr>) \<and>
    zset_of (db\<lparr>bucket := apply_batch ops (bucket db)\<rparr>) = (zset_of db)(k := (zset_of db k)(m := new))"
proof -
  have m: "key_ok m" using c by (simp add: zchange_def)
  have ops: "op_key op = member_key ZSetType db k m \<or> (\<exists>s. is_int64 s \<and> op_key op = zEncodeScoreKey db k m s)"
    if "op \<in> set ops" for op using c that unfolding zchange_def by blast
  have frame: "sget (apply_batch ops (bucket db)) x = db_get db x"
    if "x \<noteq> member_key ZSetType db k m" "\<And>s. is_int64 s \<Longrightarrow> x \<noteq> zEncodeScoreKey db k m s" for x
    using ops that by (intro sget_apply_batch_other) fastforce
  have f1: "sget (apply_batch ops (bucket db)) (indexVarBuf db @ ZSetType # r) = db_get db (indexVarBuf db @ ZSetType # r)"
    if "indexVarBuf db @ ZSetType # r \<noteq> member_key ZSetType db k m" for r
    using that by (intro frame) (simp_all add: score_key_tag)
  have f2: "sget (apply_batch ops (bucket db)) (indexVarBuf db @ ZScoreType # r) = db_get db (indexVarBuf db @ ZScoreType # r)"
    if "\<And>s. is_int64 s \<Longrightarrow> indexVarBuf db @ ZScoreType # r \<noteq> zEncodeScoreKey db k m s" for r
    using that by (intro frame) (simp_all add: member_key_def elem_key_def)
  have ek: "sget (apply_batch ops (bucket db)) (member_key ZSetType db k m) = map_option PutInt64 new"
    using c zset_of_value [OF z k m] unfolding zchange_def by blast
  have sc: "sget (apply_batch ops (bucket db)) (zEncodeScoreKey db k m s) \<noteq> None \<longleftrightarrow> new = Some s" if "is_int64 s" for s
    using c index_at [OF z k] that unfolding zchange_def by blast
  have new: "score_ok s" if "new = Some s" for s using c that unfolding zchange_def by blast
  have st: "store_ok (apply_batch ops (bucket db))" using z by (simp add: zindex_def)
  show ?thesis using zindex_set [OF z k m st new ek sc f1 f2] by blast
qed

text \<open>A change is a member, its new score (none to remove it) and what it writes.\<close>

type_synonym zchg = "bytes \<times> int option \<times> bop list"

definition zresult :: "zchg list \<Rightarrow> (bytes \<Rightarrow> int option) \<Rightarrow> bytes \<Rightarrow> int option" where
  "zresult cs M m = (case map_of (map (\<lambda>(m, new, ops). (m, new)) cs) m of None \<Rightarrow> M m | Some new \<Rightarrow> new)"

lemma zchange_many:
  assumes "zindex db" "key_ok k" "distinct (map fst cs)" "\<forall>(m, new, ops) \<in> set cs. zchange db k m new ops"
  shows "zindex (db\<lparr>bucket := apply_batch (concat (map (snd \<circ> snd) cs)) (bucket db)\<rparr>) \<and>
    zset_of (db\<lparr>bucket := apply_batch (concat (map (snd \<circ> snd) cs)) (bucket db)\<rparr>) = (zset_of db)(k := zresult cs (zset_of db k))"
  using assms
proof (induction cs arbitrary: db)
  case Nil
  have "zresult [] M = M" for M by (simp add: zresult_def fun_eq_iff)
  then show ?case using Nil by simp
next
  case (Cons c cs)
  obtain m new ops where c: "c = (m, new, ops)" by (cases c)
  let ?d = "db\<lparr>bucket := apply_batch ops (bucket db)\<rparr>"
  have "zchange db k m new ops" using Cons.prems(4) c by simp
  note one = zchange_one [OF Cons.prems(1,2) this]
  have "zchange ?d k m' new' ops'" if "(m', new', ops') \<in> set cs" for m' new' ops'
  proof -
    have "m' \<noteq> m" using that Cons.prems(3) c by force
    moreover have "zchange db k m' new' ops'" using Cons.prems(4) that by auto
    ultimately show ?thesis using one zchange_cong [of ?d db k m'] by simp
  qed
  then have IH: "zindex (?d\<lparr>bucket := apply_batch (concat (map (snd \<circ> snd) cs)) (bucket ?d)\<rparr>) \<and>
      zset_of (?d\<lparr>bucket := apply_batch (concat (map (snd \<circ> snd) cs)) (bucket ?d)\<rparr>) = (zset_of ?d)(k := zresult cs (zset_of ?d k))"
    using one Cons.prems by (intro Cons.IH) auto
  have notin: "m \<notin> fst ` set cs" using Cons.prems(3) c by auto
  have "zresult cs ((zset_of db k)(m := new)) m' = zresult (c # cs) (zset_of db k) m'" for m'
  proof (cases "m' = m")
    case True
    have "map_of (map (\<lambda>(m, new, ops). (m, new)) cs) m = None"
      using notin by (auto simp: map_of_eq_None_iff image_iff case_prod_unfold)
    then show ?thesis using True by (simp add: zresult_def c)
  qed (simp add: zresult_def c split: option.split)
  then have "zresult cs ((zset_of db k)(m := new)) = zresult (c # cs) (zset_of db k)" by (simp add: fun_eq_iff)
  then have "(zset_of ?d)(k := zresult cs (zset_of ?d k)) = (zset_of db)(k := zresult (c # cs) (zset_of db k))"
    using one by simp
  moreover have "?d\<lparr>bucket := apply_batch (concat (map (snd \<circ> snd) cs)) (bucket ?d)\<rparr>
      = db\<lparr>bucket := apply_batch (concat (map (snd \<circ> snd) (c # cs))) (bucket db)\<rparr>"
    by (simp add: c)
  ultimately show ?case using IH by (simp only:)
qed

section \<open>Committed changes\<close>

definition zset_inv :: "ledisdb \<Rightarrow> bool" where
  "zset_inv db \<longleftrightarrow> zsets_ok db \<and> ttl_ok db"

definition zstep :: "ledisdb \<Rightarrow> bytes \<Rightarrow> (bytes \<Rightarrow> int option) \<Rightarrow> ledisdb \<Rightarrow> bool" where
  "zstep db k M db' \<longleftrightarrow> zset_inv db' \<and> readonly db' = readonly db \<and> zset_of db' = (zset_of db)(k := M) \<and>
     expiry_of db' ZSetType = (if M = Map.empty then (expiry_of db ZSetType)(k := None) else expiry_of db ZSetType)"

lemma zops_frame:
  assumes "\<forall>(m, new, ops) \<in> set cs. zchange db k m new ops" "set ops' \<subseteq> set (concat (map (snd \<circ> snd) cs))"
  shows "sget (apply_batch ops' b) (zEncodeSizeKey db k') = sget b (zEncodeSizeKey db k')"
    "sget (apply_batch ops' b) (expEncodeMetaKey db dt k') = sget b (expEncodeMetaKey db dt k')"
proof -
  have key: "\<exists>m. op_key op = member_key ZSetType db k m \<or> (\<exists>s. op_key op = zEncodeScoreKey db k m s)"
    if op: "op \<in> set ops'" for op
  proof -
    obtain c where c: "c \<in> set cs" "op \<in> set (snd (snd c))" using assms(2) op by auto
    then have "zchange db k (fst c) (fst (snd c)) (snd (snd c))" using assms(1) by (auto simp: case_prod_unfold)
    then show ?thesis using c(2) unfolding zchange_def by blast
  qed
  have "zEncodeSizeKey db k' \<notin> op_key ` set ops'" "expEncodeMetaKey db dt k' \<notin> op_key ` set ops'"
  proof -
    have "op_key op \<noteq> zEncodeSizeKey db k'" "op_key op \<noteq> expEncodeMetaKey db dt k'" if "op \<in> set ops'" for op
      using key [OF that] by auto
    then show "zEncodeSizeKey db k' \<notin> op_key ` set ops'" "expEncodeMetaKey db dt k' \<notin> op_key ` set ops'"
      by (metis imageE)+
  qed
  then show "sget (apply_batch ops' b) (zEncodeSizeKey db k') = sget b (zEncodeSizeKey db k')"
    "sget (apply_batch ops' b) (expEncodeMetaKey db dt k') = sget b (expEncodeMetaKey db dt k')"
    by (simp_all add: sget_apply_batch_other)
qed

lemma size_ops_tags:
  assumes "x = indexVarBuf db @ ZSetType # r \<or> x = indexVarBuf db @ ZScoreType # r"
  shows "sget (apply_batch (size_ops ZSetType (zEncodeSizeKey db k) db k n) b) x = sget b x"
proof (rule sget_apply_batch_other)
  have "op_key op \<noteq> x" if "op \<in> set (size_ops ZSetType (zEncodeSizeKey db k) db k n)" for op
    using that assms rmExpire_op_keys [of op db ZSetType k]
    by (auto simp: size_ops_def zEncodeSizeKey_def exp_key_defs split: if_splits)
  then show "x \<notin> op_key ` set (size_ops ZSetType (zEncodeSizeKey db k) db k n)" by blast
qed

lemma zcommit:
  assumes inv: "zset_inv db" and k: "key_ok k" and d: "distinct (map fst cs)"
    and cs: "\<forall>(m, new, ops) \<in> set cs. zchange db k m new ops"
    and ops: "pre @ post = concat (map (snd \<circ> snd) cs)"
    and n: "n = int (card (dom (zresult cs (zset_of db k))))"
  shows "zstep db k (zresult cs (zset_of db k))
    (db\<lparr>bucket := apply_batch (pre @ size_ops ZSetType (zEncodeSizeKey db k) db k n @ post) (bucket db)\<rparr>)"
proof -
  let ?S = "size_ops ZSetType (zEncodeSizeKey db k) db k n" and ?M = "zresult cs (zset_of db k)"
  let ?b = "apply_batch (pre @ ?S @ post) (bucket db)" and ?c = "apply_batch (pre @ post) (bucket db)"
  let ?d = "db\<lparr>bucket := ?b\<rparr>" and ?e = "db\<lparr>bucket := ?c\<rparr>"
  have z: "zindex db" and ttl: "ttl_ok db" using inv by (auto simp: zset_inv_def zsets_ok_def)
  have e: "zindex ?e" "zset_of ?e = (zset_of db)(k := ?M)"
    using zchange_many [OF z k d cs] unfolding ops by blast+
  have tags: "sget ?b x = sget ?c x" if "x = indexVarBuf db @ ZSetType # r \<or> x = indexVarBuf db @ ZScoreType # r" for x r
    unfolding apply_batch_append by (rule sget_apply_batch_cong, rule size_ops_tags [OF that])
  have st: "store_ok ?b" using z by (simp add: zindex_def)
  have "sget ?b (indexVarBuf ?e @ ZSetType # r) = db_get ?e (indexVarBuf ?e @ ZSetType # r)"
    "sget ?b (indexVarBuf ?e @ ZScoreType # r) = db_get ?e (indexVarBuf ?e @ ZScoreType # r)" for r
    using tags by simp_all
  note zindex_frame [OF e(1) st this]
  then have zi: "zindex ?d" "zset_of ?d = (zset_of db)(k := ?M)" using e(2) by simp_all
  have sub: "set pre \<subseteq> set (concat (map (snd \<circ> snd) cs))" "set post \<subseteq> set (concat (map (snd \<circ> snd) cs))"
    by (simp_all add: ops [symmetric])
  note fr = zops_frame [OF cs sub(1)] zops_frame [OF cs sub(2)]
  have size: "db_get ?d (zEncodeSizeKey db k') = (if k' = k then size_rec (nat n) else db_get db (zEncodeSizeKey db k'))" for k'
    using fr by (auto simp: size_ops_def size_rec_def store_simps sget_rmExpire_other zset.sk_inj)
  have "zsets_ok ?d"
    using zi size n inv by (auto simp: zsets_ok_def zset_inv_def simp del: dom_zset_of)
  have meta: "db_get ?d (expEncodeMetaKey db dt k') =
      (if n \<le> 0 \<and> dt = ZSetType \<and> k' = k then None else db_get db (expEncodeMetaKey db dt k'))" for dt k'
    using fr ttl by (simp add: size_ops_def sget_rmExpire_meta store_simps)
  then have "ttl_ok ?d" by (intro ttl_ok_cong [OF ttl]) simp_all
  have "dom (zset_of ?d k) = dom ?M" using zi(2) by simp
  then have "finite (dom ?M)" using finite_dom_mem_of [of ZSetType ?d k] by (simp only: dom_zset_of [symmetric])
  then have "n \<le> 0 \<longleftrightarrow> ?M = Map.empty" using n by simp
  then have "expiry_of ?d ZSetType = (if ?M = Map.empty then (expiry_of db ZSetType)(k := None) else expiry_of db ZSetType)"
    using meta by (auto simp: expiry_of_def fun_eq_iff)
  then show ?thesis using \<open>zsets_ok ?d\<close> \<open>ttl_ok ?d\<close> zi(2) by (simp add: zstep_def zset_inv_def)
qed

section \<open>Adding and removing members\<close>

definition zset_ops :: "ledisdb \<Rightarrow> bytes \<Rightarrow> bytes \<Rightarrow> int \<Rightarrow> bop list" where
  "zset_ops db k m s = (case zset_of db k m of None \<Rightarrow> [] | Some s0 \<Rightarrow> [BDel (zEncodeScoreKey db k m s0)]) @
     [BPut (member_key ZSetType db k m) (PutInt64 s), BPut (zEncodeScoreKey db k m s) []]"

definition zdel_ops :: "ledisdb \<Rightarrow> bytes \<Rightarrow> bytes \<Rightarrow> bop list" where
  "zdel_ops db k m = (case zset_of db k m of None \<Rightarrow> []
     | Some s0 \<Rightarrow> [BDel (zEncodeScoreKey db k m s0), BDel (member_key ZSetType db k m)])"

lemma zchange_set:
  assumes "zindex db" "key_ok k" "key_ok m" "score_ok s"
  shows "zchange db k m (Some s) (zset_ops db k m s)"
proof -
  have i: "is_int64 s" "\<And>t. zset_of db k m = Some t \<Longrightarrow> is_int64 t"
    using assms(4) zset_of_score_ok [OF assms(1)] score_ok_int64 by blast+
  then show ?thesis
    using assms(2-4)
    by (auto simp: zchange_def zset_ops_def store_simps score_key_inj intro: exI [of _ s] split: option.splits if_splits)
qed

lemma zchange_del:
  assumes "zindex db" "key_ok k" "key_ok m"
  shows "zchange db k m None (zdel_ops db k m)"
proof -
  have i: "\<And>t. zset_of db k m = Some t \<Longrightarrow> is_int64 t"
    using zset_of_score_ok [OF assms(1)] score_ok_int64 by blast+
  then show ?thesis
    using assms(2,3) by (auto simp: zchange_def zdel_ops_def store_simps score_key_inj split: option.splits if_splits)
qed

lemma zSetItem_ok:
  assumes "zindex db" "key_ok k" "key_ok m"
  shows "zSetItem db k s m = (if score_ok s then Inr (if zset_of db k m = None then 0 else 1, zset_ops db k m s) else Inl errScoreOverflow)"
  using zset_of_value [OF assms] zset_of_score_ok [OF assms(1), of k m]
  by (auto simp: zSetItem_def zset.enc score_ok_def zset_ops_def Let_def wrap64_id is_int64_def split: option.split)

lemma zDelItem_ok:
  assumes "zindex db" "key_ok k" "key_ok m"
  shows "zDelItem db k m False = Inr (if zset_of db k m = None then 0 else 1, zdel_ops db k m)"
  using zset_of_value [OF assms] zset_of_score_ok [OF assms(1), of k m]
  by (auto simp: zDelItem_def zset.enc zdel_ops_def Let_def wrap64_id split: option.split)

lemma zadd_loop_ok:
  assumes "zindex db" "key_ok k" "\<forall>(s, m) \<in> set args. key_ok m \<and> score_ok s"
  shows "zadd_loop db k args = Inr (int (length (filter (\<lambda>(s, m). zset_of db k m = None) args)),
    concat (map (\<lambda>(s, m). zset_ops db k m s) args))"
  using assms(3)
proof (induction args)
  case (Cons p args)
  then show ?case using assms(1,2) by (cases p) (simp add: zSetItem_ok)
qed simp

lemma zrem_loop_ok:
  assumes "zindex db" "key_ok k" "\<forall>m \<in> set ms. key_ok m"
  shows "zrem_loop db k ms = Inr (int (length (filter (\<lambda>m. zset_of db k m \<noteq> None) ms)), concat (map (zdel_ops db k) ms))"
  using assms(3) by (induction ms) (use assms(1,2) in \<open>simp_all add: zDelItem_ok\<close>)

lemma ZAdd_ok:
  assumes inv: "zset_inv db" and ro: "\<not> readonly db" and k: "key_ok k" and r: "room (length args) db"
    and v: "\<forall>(s, m) \<in> set args. key_ok m \<and> score_ok s" and d: "distinct (map snd args)" and ne: "args \<noteq> []"
  shows "\<exists>db'. ZAdd k args db = (Inr (int (length (filter (\<lambda>(s, m). zset_of db k m = None) args))), db') \<and>
    zstep db k (zset_of db k ++ map_of (map (\<lambda>(s, m). (m, s)) args)) db'"
proof -
  let ?cs = "map (\<lambda>(s, m). (m, Some s, zset_ops db k m s)) args" and ?n = "length (filter (\<lambda>(s, m). zset_of db k m = None) args)"
  let ?M = "zset_of db k ++ map_of (map (\<lambda>(s, m). (m, s)) args)"
  have z: "zindex db" and mo: "mem_ok ZSetType ZSizeType db" using inv by (auto simp: zset_inv_def zsets_mem_ok)
  have fst: "map fst ?cs = map snd args" "map fst (map (\<lambda>(s, m). (m, s)) args) = map snd args"
    by (simp_all add: o_def case_prod_unfold)
  have cs: "\<forall>(m, new, ops) \<in> set ?cs. zchange db k m new ops" using v zchange_set [OF z k] by auto
  have "map_of (map (\<lambda>(m, new, ops). (m, new)) ?cs) = map_option Some \<circ> map_of (map (\<lambda>(s, m). (m, s)) args)"
    by (induction args) (auto simp: fun_eq_iff)
  then have M: "zresult ?cs (zset_of db k) = ?M"
    by (auto simp: zresult_def fun_eq_iff map_add_def split: option.split)
  have "card (dom ?M) = card (dom (zset_of db k)) + length (filter (\<lambda>p. zset_of db k (fst p) = None) (map (\<lambda>(s, m). (m, s)) args))"
    using d by (intro card_dom_add) (simp_all only: fst dom_zset_of finite_dom_mem_of)
  then have n: "int (card (dom ?M)) = int (card (dom (mem_of ZSetType db k))) + int ?n"
    by (simp add: filter_map o_def case_prod_unfold)
  have c: "concat (map (\<lambda>(s, m). zset_ops db k m s) args) @ [] = concat (map (snd \<circ> snd) ?cs)"
    by (simp add: o_def case_prod_unfold)
  have step: "zstep db k ?M (db\<lparr>bucket := apply_batch (concat (map (\<lambda>(s, m). zset_ops db k m s) args) @
      size_ops ZSetType (zEncodeSizeKey db k) db k (int (card (dom (mem_of ZSetType db k))) + int ?n) @ []) (bucket db)\<rparr>)"
    using d by (intro zcommit [OF inv k _ cs c, unfolded M]) (simp_all only: n fst)
  have "\<bar>int ?n\<bar> \<le> int (length args)" by (simp add: length_filter_le)
  then have size: "zIncrSize db k (int ?n) = Inr (max 0 (int (card (dom (mem_of ZSetType db k))) + int ?n),
      size_ops ZSetType (zEncodeSizeKey db k) db k (int (card (dom (mem_of ZSetType db k))) + int ?n))"
    using zset.incr_size_eq [OF mo k r] by (simp add: zIncrSize_def)
  show ?thesis
    using step ne by (auto simp: ZAdd_def zadd_loop_ok [OF z k v] lift_r_def size ro simp del: apply_batch_append)
qed

text \<open>Several changes that remove members, and the size record after them.\<close>

lemma zremove:
  assumes inv: "zset_inv db" and k: "key_ok k" and r: "room 0 db" and d: "distinct ms"
    and cs: "\<forall>m \<in> set ms. zchange db k m None (f m)"
  defines "n \<equiv> length (filter (\<lambda>m. zset_of db k m \<noteq> None) ms)"
  shows "\<exists>size sops. zIncrSize db k (- int n) = Inr (size, sops) \<and>
    zstep db k (zset_of db k |` (- set ms)) (db\<lparr>bucket := apply_batch (concat (map f ms) @ sops) (bucket db)\<rparr>)"
proof -
  let ?cs = "map (\<lambda>m. (m, None, f m)) ms" and ?M = "zset_of db k |` (- set ms)" and ?c = "card (dom (mem_of ZSetType db k))"
  have mo: "mem_ok ZSetType ZSizeType db" using inv by (auto simp: zset_inv_def zsets_mem_ok)
  have "map_of (map (\<lambda>m. (m, None :: int option)) ms) m = (if m \<in> set ms then Some None else None)" for m :: bytes
    by (induction ms) auto
  then have M: "zresult ?cs (zset_of db k) = ?M"
    by (auto simp: zresult_def fun_eq_iff o_def restrict_map_def)
  have card: "card (dom ?M) + n = ?c"
    using card_dom_remove [OF _ d, of "zset_of db k"] by (simp add: n_def)
  have c: "concat (map f ms) @ [] = concat (map (snd \<circ> snd) ?cs)" by (simp add: o_def)
  have "zstep db k ?M (db\<lparr>bucket := apply_batch (concat (map f ms) @
      size_ops ZSetType (zEncodeSizeKey db k) db k (int ?c - int n) @ []) (bucket db)\<rparr>)"
    using d cs card by (intro zcommit [OF inv k _ _ c, unfolded M]) (auto simp: o_def)
  moreover have "zIncrSize db k (- int n) = Inr (int ?c - int n, size_ops ZSetType (zEncodeSizeKey db k) db k (int ?c - int n))"
    using zset.incr_size_down [OF mo k r] card by (simp add: zIncrSize_def)
  ultimately show ?thesis by auto
qed

lemma ZRem_ok:
  assumes inv: "zset_inv db" and ro: "\<not> readonly db" and k: "key_ok k" and r: "room 0 db"
    and v: "\<forall>m \<in> set ms. key_ok m" and d: "distinct ms" and ne: "ms \<noteq> []"
  shows "\<exists>db'. ZRem k ms db = (Inr (int (length (filter (\<lambda>m. zset_of db k m \<noteq> None) ms))), db') \<and>
    zstep db k (zset_of db k |` (- set ms)) db'"
proof -
  have z: "zindex db" using inv by (auto simp: zset_inv_def zsets_ok_def)
  have "\<forall>m \<in> set ms. zchange db k m None (zdel_ops db k m)" using v zchange_del [OF z k] by blast
  from zremove [OF inv k r d this] show ?thesis
    using ne ro by (auto simp: ZRem_def zrem_loop_ok [OF z k v] lift_r_def simp del: apply_batch_append)
qed

section \<open>Removing a range\<close>

lemma zchange_range:
  assumes "zindex db" "key_ok k" "zset_of db k m = Some s"
  shows "zchange db k m None [BDel (member_key ZSetType db k m), BDel (zEncodeScoreKey db k m s)]"
proof -
  have "is_int64 s" "key_ok m" using zset_of_score_ok [OF assms(1,3)] zset_of_ok [OF assms(3)] score_ok_int64 by auto
  then show ?thesis
    using assms(2,3) by (auto simp: zchange_def store_simps score_key_inj intro: exI [of _ s] split: if_splits)
qed

lemma zremrange_loop_ok:
  assumes "zindex db" "key_ok k" "set xs \<subseteq> set (zlist db k)"
  shows "zremrange_loop db k (map (zentry db k) xs) = Inr (int (length xs),
    concat (map (\<lambda>(s, m). [BDel (member_key ZSetType db k m), BDel (zEncodeScoreKey db k m s)]) xs))"
  using assms(3)
proof (induction xs)
  case (Cons p xs)
  obtain s m where p: "p = (s, m)" by (cases p)
  have s: "zset_of db k m = Some s" "is_int64 s" "key_ok m"
    using Cons.prems p zset_of_score_ok [OF assms(1), of k m s] zset_of_ok [of db k m s] score_ok_int64 by auto
  then have "zDelItem db k m True = Inr (1, [BDel (member_key ZSetType db k m)])"
    using zset_of_value [OF assms(1,2), of m] by (simp add: zDelItem_def zset.enc)
  then show ?case using Cons s assms(2) by (simp add: p zDecodeScoreKey_encode)
qed simp

lemma distinct_limit: "distinct (map f xs) \<Longrightarrow> distinct (map f (limit offset count xs))"
  by (simp add: limit_def Let_def take_map [symmetric] drop_map [symmetric])

lemma zRemRange_ok:
  fixes offset count :: int
  assumes inv: "zset_inv db" and ro: "\<not> readonly db" and k: "key_ok k" and r: "room 0 db"
    and i: "is_int64 lo" "is_int64 hi"
  defines "xs \<equiv> limit offset count (zbetween db k lo hi)"
  shows "\<exists>db'. commit_rem (zRemRange db k lo hi offset count) db = (Inr (int (length xs)), db') \<and>
    zstep db k (zset_of db k |` (- set (map snd xs))) db'"
proof -
  have z: "zindex db" using inv by (auto simp: zset_inv_def zsets_ok_def)
  have sub: "set xs \<subseteq> set (zlist db k)" using set_limit [of offset count "zbetween db k lo hi"] by (auto simp: xs_def zbetween_def)
  have d: "distinct (map snd xs)"
    unfolding xs_def zbetween_def by (intro distinct_limit distinct_map_filter distinct_zlist)
  define f where "f m = [BDel (member_key ZSetType db k m), BDel (zEncodeScoreKey db k m (the (zset_of db k m)))]" for m
  have mem: "zset_of db k m = Some s" if "(s, m) \<in> set xs" for s m using sub that by auto
  have "\<forall>m \<in> set (map snd xs). zchange db k m None (f m)"
    using zchange_range [OF z k] mem by (auto simp: f_def)
  note rem = zremove [OF inv k r d this]
  have ops: "concat (map (\<lambda>(s, m). [BDel (member_key ZSetType db k m), BDel (zEncodeScoreKey db k m s)]) xs) = concat (map f (map snd xs))"
    using mem by (auto simp: f_def intro!: arg_cong [of _ _ concat])
  have "filter (\<lambda>m. zset_of db k m \<noteq> None) (map snd xs) = map snd xs"
    using mem by (intro filter_True) auto
  then have n: "length (filter (\<lambda>m. zset_of db k m \<noteq> None) (map snd xs)) = length xs" by simp
  have "\<not> length k > MaxKeySize" using k by (simp add: key_ok_def)
  then show ?thesis
    using rem ro unfolding n
    by (auto simp: commit_rem_def zRemRange_def zIterator_eq [OF z k i] zremrange_loop_ok [OF z k sub] ops lift_r_def
        xs_def [symmetric] simp del: apply_batch_append map_map)
qed

section \<open>Incrementing a score\<close>

lemma zoverwrite:
  assumes inv: "zset_inv db" and k: "key_ok k" and c: "zchange db k m (Some t) ops" and m: "zset_of db k m = Some s"
  shows "zstep db k ((zset_of db k)(m \<mapsto> t)) (db\<lparr>bucket := apply_batch ops (bucket db)\<rparr>)"
proof -
  let ?d = "db\<lparr>bucket := apply_batch ops (bucket db)\<rparr>" and ?M = "(zset_of db k)(m \<mapsto> t)"
  have z: "zindex db" and ttl: "ttl_ok db" using inv by (auto simp: zset_inv_def zsets_ok_def)
  note one = zchange_one [OF z k c]
  have cs: "\<forall>(m, new, ops) \<in> set [(m, Some t, ops)]. zchange db k m new ops" using c by simp
  have "set ops \<subseteq> set (concat (map (snd \<circ> snd) [(m, Some t, ops)]))" by simp
  note fr = zops_frame [OF cs this]
  have "dom ?M = dom (zset_of db k)" using m by (auto simp del: dom_zset_of)
  then have "zsets_ok ?d"
    using one inv fr(1) by (auto simp: zsets_ok_def zset_inv_def simp del: dom_zset_of)
  moreover have "ttl_ok ?d" using fr(2) by (intro ttl_ok_cong [OF ttl]) simp_all
  moreover have "expiry_of ?d = expiry_of db" using fr(2) by (simp add: expiry_of_def fun_eq_iff)
  ultimately show ?thesis using one by (simp add: zstep_def zset_inv_def)
qed

lemma ZIncrBy_ok:
  assumes inv: "zset_inv db" and ro: "\<not> readonly db" and k: "key_ok k" and m: "key_ok m" and r: "room 1 db"
    and delta: "is_int64 delta" "zset_of db k m \<noteq> None \<Longrightarrow> delta \<noteq> 0"
  defines "t \<equiv> wrap64 ((case zset_of db k m of None \<Rightarrow> 0 | Some s \<Rightarrow> s) + delta)"
  shows "if score_ok t then \<exists>db'. ZIncrBy k delta m db = (Inr t, db') \<and> zstep db k ((zset_of db k)(m \<mapsto> t)) db'
    else ZIncrBy k delta m db = (Inl errScoreOverflow, db)"
proof -
  have z: "zindex db" and mo: "mem_ok ZSetType ZSizeType db" using inv by (auto simp: zset_inv_def zsets_mem_ok)
  have v: "db_get db (zEncodeSetKey db k m) = map_option PutInt64 (zset_of db k m)"
    using zset_of_value [OF z k m] by (simp add: zset.enc)
  show ?thesis
  proof (cases "zset_of db k m")
    case None
    let ?puts = "[BPut (zEncodeScoreKey db k m t) [], BPut (member_key ZSetType db k m) (PutInt64 t)]"
    let ?S = "size_ops ZSetType (zEncodeSizeKey db k) db k (int (card (dom (mem_of ZSetType db k))) + 1)"
    have size: "zIncrSize db k 1 = Inr (max 0 (int (card (dom (mem_of ZSetType db k))) + 1), ?S)"
      using zset.incr_size_eq [OF mo k r, of 1] by (simp add: zIncrSize_def)
    have eq: "ZIncrBy k delta m db = (if score_ok t
        then (Inr t, db\<lparr>bucket := apply_batch ([] @ ?S @ ?puts) (bucket db)\<rparr>) else (Inl errScoreOverflow, db))"
      using None v k m ro size
      by (auto simp add: ZIncrBy_def lift_r_def score_ok_def zset.enc Let_def t_def)
    have "zstep db k ((zset_of db k)(m \<mapsto> t)) (db\<lparr>bucket := apply_batch ([] @ ?S @ ?puts) (bucket db)\<rparr>)" if ok: "score_ok t"
    proof -
      have i: "is_int64 t" using ok score_ok_int64 by blast
      have M: "zresult [(m, Some t, ?puts)] (zset_of db k) = (zset_of db k)(m \<mapsto> t)" by (simp add: zresult_def fun_eq_iff)
      have "zchange db k m (Some t) ?puts"
        using ok i k m None by (auto simp: zchange_def store_simps score_key_inj intro: exI [of _ t] split: if_splits)
      then have cs: "\<forall>(m, new, ops) \<in> set [(m, Some t, ?puts)]. zchange db k m new ops" by simp
      have "int (card (dom (mem_of ZSetType db k))) + 1 = int (card (dom (zresult [(m, Some t, ?puts)] (zset_of db k))))"
        unfolding M using None card_dom_upd [of "zset_of db k" m t] by (simp del: dom_fun_upd)
      then show ?thesis using zcommit [OF inv k _ cs, of "[]" ?puts] unfolding M by simp
    qed
    then show ?thesis using eq by auto
  next
    case (Some s)
    let ?ops = "[BPut (zEncodeScoreKey db k m t) [], BPut (member_key ZSetType db k m) (PutInt64 t), BDel (zEncodeScoreKey db k m s)]"
    have s: "is_int64 s" using zset_of_score_ok [OF z Some] score_ok_int64 by blast
    have eq: "ZIncrBy k delta m db = (if score_ok t
        then (Inr t, db\<lparr>bucket := apply_batch ?ops (bucket db)\<rparr>) else (Inl errScoreOverflow, db))"
      using Some v k m ro s by (auto simp: ZIncrBy_def lift_r_def score_ok_def zset.enc Let_def wrap64_id t_def)
    have "t \<noteq> s"
    proof
      assume "t = s"
      then have "(s + delta) mod 18446744073709551616 = s mod 18446744073709551616"
        using wrap64_mod [of "s + delta"] by (simp add: t_def Some)
      then have "18446744073709551616 dvd delta" using mod_eq_dvd_iff [of "s + delta" 18446744073709551616 s] by simp
      then show False using delta Some zdvd_imp_le [of 18446744073709551616 "\<bar>delta\<bar>"] by (auto simp: is_int64_def)
    qed
    then have "zchange db k m (Some t) ?ops" if "score_ok t"
      using that score_ok_int64 [OF that] s k m Some
      by (auto simp: zchange_def store_simps score_key_inj intro: exI [of _ t] exI [of _ s] split: if_splits)
    then show ?thesis using eq zoverwrite [OF inv k _ Some, of t ?ops] by auto
  qed
qed

section \<open>Errors, and the invariant\<close>

lemma zadd_loop_error:
  assumes "zindex db" "\<not> (key_ok k \<and> (\<forall>(s, m) \<in> set args. key_ok m \<and> score_ok s))" "args \<noteq> []"
  shows "\<exists>e. zadd_loop db k args = Inl e"
  using assms(2,3)
proof (induction args)
  case (Cons p args)
  obtain s m where p: "p = (s, m)" by (cases p)
  show ?case
  proof (cases "key_ok k \<and> key_ok m \<and> score_ok s")
    case True
    then have "\<exists>e. zadd_loop db k args = Inl e" using Cons p by (cases args) auto
    then show ?thesis using True p assms(1) by (auto simp: zSetItem_ok)
  next
    case False
    then show ?thesis using p assms(1) by (cases "key_ok k \<and> key_ok m") (auto simp: checkZSetKMSize_eq zSetItem_ok)
  qed
qed simp

lemma zrem_loop_error:
  assumes "zindex db" "\<not> (key_ok k \<and> (\<forall>m \<in> set ms. key_ok m))" "ms \<noteq> []"
  shows "\<exists>e. zrem_loop db k ms = Inl e"
  using assms(2,3)
proof (induction ms)
  case (Cons m ms)
  show ?case
  proof (cases "key_ok k \<and> key_ok m")
    case True
    then have "\<exists>e. zrem_loop db k ms = Inl e" using Cons by (cases ms) auto
    then show ?thesis using True assms(1) by (auto simp: zDelItem_ok)
  qed (auto simp: checkZSetKMSize_eq)
qed simp

lemma zset_readonly:
  assumes "readonly db"
  shows "snd (ZAdd k args db) = db" "snd (ZRem k ms db) = db" "snd (ZIncrBy k delta m db) = db" "snd (commit_rem r db) = db"
  using assms
  by (auto simp: ZAdd_def ZRem_def ZIncrBy_def commit_rem_def Let_def intro!: readonly_checked split: prod.splits)

lemma zstep_inv: "zstep db k M db' \<Longrightarrow> zset_inv db'"
  by (simp add: zstep_def)

lemma zset_inv_ZAdd:
  assumes "zset_inv db" "room (length args) db" "\<forall>p \<in> set args. key_ok (snd p) \<Longrightarrow> distinct (map snd args)"
  shows "zset_inv (snd (ZAdd k args db))"
proof (cases "readonly db \<or> args = [] \<or> \<not> (key_ok k \<and> (\<forall>(s, m) \<in> set args. key_ok m \<and> score_ok s))")
  case True
  have z: "zindex db" using assms(1) by (auto simp: zset_inv_def zsets_ok_def)
  have "zadd_loop db k args = Inl e \<Longrightarrow> args \<noteq> [] \<Longrightarrow> ZAdd k args db = (Inl e, db)" for e by (simp add: ZAdd_def lift_r_def)
  moreover have "ZAdd k [] db = (Inr 0, db)" by (simp add: ZAdd_def)
  ultimately have "snd (ZAdd k args db) = db" using True zset_readonly(1) zadd_loop_error [OF z, of k args] by (metis snd_conv)
  then show ?thesis using assms(1) by simp
next
  case False
  then have "\<not> readonly db" "key_ok k" "\<forall>(s, m) \<in> set args. key_ok m \<and> score_ok s" "args \<noteq> []" by blast+
  moreover from this have "distinct (map snd args)" by (intro assms(3)) auto
  ultimately show ?thesis using ZAdd_ok [OF assms(1) _ _ assms(2), of k] by (auto intro: zstep_inv)
qed

lemma zset_inv_ZRem:
  assumes "zset_inv db" "room 0 db" "distinct ms"
  shows "zset_inv (snd (ZRem k ms db))"
proof (cases "readonly db \<or> ms = [] \<or> \<not> (key_ok k \<and> (\<forall>m \<in> set ms. key_ok m))")
  case True
  have z: "zindex db" using assms(1) by (auto simp: zset_inv_def zsets_ok_def)
  have "zrem_loop db k ms = Inl e \<Longrightarrow> ms \<noteq> [] \<Longrightarrow> ZRem k ms db = (Inl e, db)" for e by (simp add: ZRem_def lift_r_def)
  moreover have "ZRem k [] db = (Inr 0, db)" by (simp add: ZRem_def)
  ultimately have "snd (ZRem k ms db) = db" using True zset_readonly(2) zrem_loop_error [OF z, of k ms] by (metis snd_conv)
  then show ?thesis using assms(1) by simp
next
  case False
  then have "\<not> readonly db" "key_ok k" "\<forall>m \<in> set ms. key_ok m" "ms \<noteq> []" by blast+
  from ZRem_ok [OF assms(1) this(1,2) assms(2) this(3) assms(3) this(4)] show ?thesis by (auto intro: zstep_inv)
qed

lemma zset_inv_ZIncrBy:
  assumes "zset_inv db" "room 1 db" "is_int64 delta" "delta \<noteq> 0"
  shows "zset_inv (snd (ZIncrBy k delta m db))"
proof (cases "readonly db \<or> \<not> (key_ok k \<and> key_ok m)")
  case True
  then have "snd (ZIncrBy k delta m db) = db"
    using zset_readonly(3) [of db k delta m]
    by (cases "readonly db") (auto simp: ZIncrBy_def checkZSetKMSize_eq lift_r_def)
  then show ?thesis using assms(1) by simp
next
  case False
  then have "\<not> readonly db" "key_ok k" "key_ok m" by blast+
  from ZIncrBy_ok [OF assms(1) this assms(2,3)] assms(1,4) show ?thesis
    by (auto intro: zstep_inv split: if_splits)
qed

lemma zset_inv_rem:
  assumes "zset_inv db" "room 0 db" "is_int64 lo" "is_int64 hi" "k \<noteq> []"
  shows "zset_inv (snd (commit_rem (zRemRange db k lo hi offset count) db))"
proof (cases "readonly db \<or> \<not> key_ok k")
  case True
  have "zRemRange db k lo hi offset count = Inl errKeySize" if "\<not> key_ok k"
    using that assms(5) by (auto simp: zRemRange_def key_ok_def)
  then have "snd (commit_rem (zRemRange db k lo hi offset count) db) = db"
    using True zset_readonly(4) by (auto simp: commit_rem_def lift_r_def)
  then show ?thesis using assms(1) by simp
next
  case False
  then have "\<not> readonly db" "key_ok k" by blast+
  from zRemRange_ok [OF assms(1) this assms(2-4), of offset count] show ?thesis by (auto intro: zstep_inv)
qed

section \<open>Only the records of sorted sets change\<close>

lemma owner_zadd: "zadd_loop db k args = Inr (n, ops) \<Longrightarrow> \<forall>op \<in> set ops. owner db (op_key op) = Some ZSetType"
  by (induction db k args arbitrary: n ops rule: zadd_loop.induct)
    (auto simp: rbind_eq_Inr zSetItem_def Let_def zset.enc split: option.splits if_splits)

lemma owner_zrem: "zrem_loop db k ms = Inr (n, ops) \<Longrightarrow> \<forall>op \<in> set ops. owner db (op_key op) = Some ZSetType"
  by (induction db k ms arbitrary: n ops rule: zrem_loop.induct)
    (auto simp: rbind_eq_Inr zDelItem_def Let_def zset.enc split: option.splits if_splits)

lemma owner_index:
  assumes "store_ok (bucket db)" "p \<in> set (zIterator db k lo hi offset count False)"
  shows "owner db (fst p) = Some ZSetType"
proof -
  have "in_range (Some (zEncodeStartScoreKey db k lo)) (Some (zEncodeStopScoreKey db k hi)) RangeClose (fst p)"
    using assms(2) set_limit [of offset count] by (fastforce simp: zIterator_def rangeLimitIterator_forward [OF assms(1)])
  then obtain y where "fst p = elem_key db ZScoreType k [] @ y"
    using append_between [of "elem_key db ZScoreType k []" "zpfx lo @ '':''" "fst p" "zpfx hi @ '';''"]
    by (auto simp: in_range_def start_stop_keys)
  then show ?thesis by (simp add: elem_key_def owner_def owner_tail_def type_of_tag_def)
qed

lemma owner_zremrange:
  "\<forall>p \<in> set it. owner db (fst p) = Some ZSetType \<Longrightarrow> zremrange_loop db k it = Inr (n, ops) \<Longrightarrow>
     \<forall>op \<in> set ops. owner db (op_key op) = Some ZSetType"
  by (induction db k it arbitrary: n ops rule: zremrange_loop.induct)
    (auto simp: rbind_eq_Inr zDelItem_def Let_def zset.enc split: option.splits sum.splits if_splits)

lemma keeps_zset:
  "keeps ZSetType db (snd (ZAdd k args db))"
  "keeps ZSetType db (snd (ZRem k ms db))"
  "keeps ZSetType db (snd (ZIncrBy k delta m db))"
  "store_ok (bucket db) \<Longrightarrow> keeps ZSetType db (snd (commit_rem (zRemRange db k lo hi offset count) db))"
proof -
  show "keeps ZSetType db (snd (ZAdd k args db))"
    by (auto simp: ZAdd_def zIncrSize_def intro!: keeps_checked keeps_Commit dest!: owner_zadd zset.owner_incr_size)
  show "keeps ZSetType db (snd (ZRem k ms db))"
    by (auto simp: ZRem_def zIncrSize_def intro!: keeps_checked keeps_Commit dest!: owner_zrem zset.owner_incr_size)
  show "keeps ZSetType db (snd (ZIncrBy k delta m db))"
    by (auto simp: ZIncrBy_def zIncrSize_def Let_def zset.enc intro!: keeps_checked keeps_if keeps_Commit
        dest!: zset.owner_incr_size split: option.splits sum.splits)
  show "keeps ZSetType db (snd (commit_rem (zRemRange db k lo hi offset count) db))" if st: "store_ok (bucket db)"
  proof -
    have "\<forall>op \<in> set ops. owner db (op_key op) = Some ZSetType"
      if r: "zRemRange db k lo hi offset count = Inr (n, ops)" for n ops
    proof -
      obtain num xs size ys where "zremrange_loop db k (zIterator db k lo hi offset count False) = Inr (num, xs)"
        "zIncrSize db k (- num) = Inr (size, ys)" "ops = xs @ ys"
        using r by (auto simp: zRemRange_def rbind_eq_Inr split: if_splits)
      then show ?thesis
        using owner_zremrange owner_index [OF st] zset.owner_incr_size [of db k] unfolding zIncrSize_def
        by (metis (no_types, lifting) Un_iff set_append)
    qed
    then show ?thesis unfolding commit_rem_def by (auto intro!: keeps_checked keeps_Commit)
  qed
qed

lemma zset_db0: "zset_inv db0" "zset_of db0 = (\<lambda>k. Map.empty)"
proof -
  show z: "zset_of db0 = (\<lambda>k. Map.empty)" using zset.mem_ok_db0 by (simp add: zset_of_def fun_eq_iff)
  show "zset_inv db0" using zset.mem_ok_db0 by (simp add: zset_inv_def zsets_mem_ok zindex_def z)
qed

lemma ZIncrBy_zero:
  assumes inv: "zset_inv db" and ro: "\<not> readonly db" and k: "key_ok k" and s: "zset_of db k x = Some s"
    and i: "is_int64 lo" "is_int64 hi" "lo \<le> s" "s \<le> hi"
  shows "\<exists>db'. ZIncrBy k 0 x db = (Inr s, db') \<and> ZScore db' k x = Inr s \<and> ZCard db' k = ZCard db k \<and>
    ZCount db' k lo hi = Inr (int (length (zbetween db k lo hi)) - 1)"
proof -
  let ?sk = "zEncodeScoreKey db k x s" and ?ek = "member_key ZSetType db k x"
  let ?b = "sdel ?sk (sput ?ek (PutInt64 s) (sput ?sk [] (bucket db)))" and ?d = "db\<lparr>bucket := sdel ?sk (sput ?ek (PutInt64 s) (sput ?sk [] (bucket db)))\<rparr>"
  have z: "zindex db" and st: "store_ok (bucket db)" using inv by (auto simp: zset_inv_def zsets_ok_def zindex_def)
  have x: "key_ok x" and sok: "score_ok s" using zset_of_ok [OF s] zset_of_score_ok [OF z s] by auto
  then have s64: "is_int64 s" using score_ok_int64 by blast
  have v: "db_get db ?ek = Some (PutInt64 s)" using zset_of_value [OF z k x] s by simp
  have incr: "ZIncrBy k 0 x db = (Inr s, ?d)"
    using v k x ro s64 sok by (auto simp: ZIncrBy_def lift_r_def zset.enc Let_def wrap64_id score_ok_def)
  have get: "sget ?b y = (if y = ?sk then None else db_get db y)" for y using v by (auto simp: store_simps)
  have score: "ZScore ?d k x = Inr s" using v k x s64 by (simp add: ZScore_def zset.enc get wrap64_id)
  have card: "ZCard ?d k = ZCard db k" by (simp add: ZCard_def get zEncodeSizeKey_def) (simp add: get zEncodeSizeKey_def [symmetric])
  let ?R = "in_range (Some (zEncodeStartScoreKey db k lo)) (Some (zEncodeStopScoreKey db k hi)) RangeROpen"
  let ?ks = "map fst (filter (\<lambda>p. ?R (fst p)) (bucket db))"
  have scan: "?ks = map (\<lambda>(s, m). zEncodeScoreKey db k m s) (zbetween db k lo hi)"
    using zscan_between [OF z k i(1,2), of RangeROpen] by (simp add: o_def case_prod_unfold)
  have sorted: "sorted_wrt (<) ?ks" using st by (simp add: store_ok_def sorted_wrt_map_filter)
  have "filter (\<lambda>p. ?R (fst p)) ?b = map (\<lambda>k. (k, the (sget ?b k))) (filter (\<lambda>y. y \<noteq> ?sk) ?ks)"
  proof (rule filter_store_eq)
    show "store_ok ?b" using st by simp
    show "sorted_wrt (<) (filter (\<lambda>y. y \<noteq> ?sk) ?ks)" using sorted by (rule sorted_wrt_filter)
    show "y \<in> set (filter (\<lambda>y. y \<noteq> ?sk) ?ks) \<longleftrightarrow> ?R y \<and> sget ?b y \<noteq> None" for y
      using st by (force simp: get sget_eq_Some_iff image_iff)
  qed
  then have "ZCount ?d k lo hi = Inr (int (length (filter (\<lambda>y. y \<noteq> ?sk) ?ks)))"
    using st k by (simp add: ZCount_def rangeLimitIterator_forward zEncodeStartScoreKey_def zEncodeStopScoreKey_def score_key elem_key_def)
  moreover have mem: "?sk \<in> set ?ks" unfolding scan using s i by (force simp: zbetween_def)
  have "distinct ?ks" using sorted strict_sorted_iff by blast
  then have "filter (\<lambda>y. y \<noteq> ?sk) ?ks = remove1 ?sk ?ks"
    by (simp add: distinct_remove1_removeAll removeAll_filter_not_eq eq_commute [of ?sk])
  then have "int (length (filter (\<lambda>y. y \<noteq> ?sk) ?ks)) = int (length ?ks) - 1"
    using mem length_pos_if_in_set [OF mem] by (simp only: length_remove1 if_True)
  ultimately have "ZCount ?d k lo hi = Inr (int (length (zbetween db k lo hi)) - 1)"
    unfolding scan by simp
  then show ?thesis using incr score card by blast
qed

lemma zsets_keeps:
  assumes "keeps T db db'" "T \<noteq> ZSetType"
  shows "zset_of db' = zset_of db" "zsets_ok db \<Longrightarrow> zsets_ok db'"
proof -
  have idx: "indexVarBuf db' = indexVarBuf db" "store_ok (bucket db) \<Longrightarrow> store_ok (bucket db')"
    and get: "\<And>x. owner db x = Some ZSetType \<Longrightarrow> db_get db' x = db_get db x" using assms by (auto simp: keeps_def)
  have mem: "mem_of ZSetType db' = mem_of ZSetType db" "mem_ok ZSetType ZSizeType db \<Longrightarrow> mem_ok ZSetType ZSizeType db'"
    using zset.members_keeps [OF assms] by auto
  then show z: "zset_of db' = zset_of db" by (simp add: zset_of_def fun_eq_iff)
  have keys: "member_key ZSetType db' = member_key ZSetType db" "zEncodeScoreKey db' = zEncodeScoreKey db"
    by (simp_all add: member_key_def elem_key_def score_key idx fun_eq_iff)
  have "owner db (indexVarBuf db @ ZScoreType # r) = Some ZSetType" "owner db (indexVarBuf db @ ZSetType # r) = Some ZSetType" for r
    by (simp_all add: owner_def owner_tail_def type_of_tag_def)
  then show "zsets_ok db \<Longrightarrow> zsets_ok db'"
    using mem unfolding zsets_mem_ok zindex_def z keys idx(1) by (simp add: get idx(2))
qed

end
