(* ===== verification/CmdZSets.thy ===== *)
theory CmdZSets
  imports CmdBase LedisZSet
begin

text \<open>
  The sorted-set commands (\<open>sorted_sets.go\<close>): one definition per handler, in the order of the
  file, and what they do to the sorted sets of a database.
\<close>

section \<open>Handlers\<close>

definition zparseRange :: "string \<Rightarrow> string \<Rightarrow> (int \<times> int) result" where
  "zparseRange a1 a2 = rbind (Atoi a1) (\<lambda>start. rbind (Atoi a2) (\<lambda>stop. Inr (start, stop)))"

text \<open>An opening parenthesis of the upper bound is stripped twice.\<close>

definition zparseScoreRange :: "bytes \<Rightarrow> bytes \<Rightarrow> (int \<times> int) result" where
  "zparseScoreRange minBuf maxBuf =
     rbind (if ToLower minBuf = ''-inf'' then Inr MinInt64
            else if length minBuf = 0 then Inl ErrWrongNumArgs
            else
              let opn = (hd minBuf = CHR ''(''); buf = (if opn then tl minBuf else minBuf)
              in case StrInt64 (Some buf) of
                   Inl e \<Rightarrow> Inl ErrInvalid
                 | Inr lo \<Rightarrow> if lo \<le> MinScore \<or> lo \<ge> MaxScore then Inl ErrWrongNumArgs
                           else Inr (if opn then lo + 1 else lo)) (\<lambda>lo.
     rbind (if ToLower maxBuf = ''+inf'' then Inr MaxInt64
            else if length maxBuf = 0 then Inl ErrWrongNumArgs
            else
              let opn = (hd maxBuf = CHR ''(''); buf = (if opn then tl maxBuf else maxBuf)
              in if length buf = 0 then Inl Panic
                 else
                   let opn = (opn \<or> hd buf = CHR ''(''); buf = (if hd buf = CHR ''('' then tl buf else buf)
                   in case StrInt64 (Some buf) of
                        Inl e \<Rightarrow> Inl ErrWrongNumArgs
                      | Inr hi \<Rightarrow> if hi \<le> MinScore \<or> hi \<ge> MaxScore then Inl ErrWrongNumArgs
                                else Inr (if opn then hi - 1 else hi)) (\<lambda>hi.
     Inr (lo, hi)))"

definition cmdZCOUNT :: handler where
  "cmdZCOUNT m args db =
     (if length args \<noteq> 4 then wrong_args db
      else answer (rbind (zparseScoreRange (args ! 2) (args ! 3)) (\<lambda>(lo, hi). ZCount db (args ! 1) lo hi)) GoInt db)"

definition cmdZCARD :: handler where
  "cmdZCARD m args db =
     (if length args < 2 then wrong_args db else answer (ZCard db (args ! 1)) SimpleInt db)"

text \<open>The reply of a range command, and its option \<open>withscores\<close>, looked at after the read.\<close>

definition scores_reply :: "bool \<Rightarrow> ScorePair list \<Rightarrow> reply" where
  "scores_reply withScores v =
     BytesList (map Some (if withScores then concat (map (\<lambda>(s, m). [m, FormatInt s]) v) else map snd v))"

definition withscores_opt :: "string list \<Rightarrow> bool result" where
  "withscores_opt args =
     (if length args > 0 then
        if length args \<noteq> 1 then Inl ErrWrongNumArgs
        else if ToLower (args ! 0) = ''withscores'' then Inr True else Inl ErrSyntax
      else Inr False)"

definition cmdZRANGE :: handler where
  "cmdZRANGE m args db =
     (if length args < 4 then wrong_args db
      else answer (rbind (zparseRange (args ! 2) (args ! 3)) (\<lambda>(lo, hi).
             rbind (ZRange db (args ! 1) lo hi) (\<lambda>v.
             rbind (withscores_opt (drop 4 args)) (\<lambda>ws. Inr (ws, v))))) (\<lambda>(ws, v). scores_reply ws v) db)"

definition cmdZREVRANGE :: handler where
  "cmdZREVRANGE m args db =
     (if length args < 4 then wrong_args db
      else answer (rbind (zparseRange (args ! 2) (args ! 3)) (\<lambda>(lo, hi).
             rbind (ZRevRange db (args ! 1) lo hi) (\<lambda>v.
             rbind (withscores_opt (drop 4 args)) (\<lambda>ws. Inr (ws, v))))) (\<lambda>(ws, v). scores_reply ws v) db)"

definition cmdZRANK :: handler where
  "cmdZRANK m args db =
     (if length args \<noteq> 3 then wrong_args db
      else answer (ZRank db (args ! 1) (args ! 2)) (\<lambda>n. if n = -1 then NilReply else SimpleInt n) db)"

definition cmdZCLEAR :: handler where
  "cmdZCLEAR m args db =
     (if length args < 2 then wrong_args db else reply_with SimpleInt (ZClear (args ! 1) db))"

definition cmdZREM :: handler where
  "cmdZREM m args db =
     (if length args < 3 then wrong_args db else reply_with SimpleInt (ZRem (args ! 1) (drop 2 args) db))"

text \<open>
  \<open>cmdZADD\<close> makes a slice of \<open>(len(args)-2)/2\<close> pairs and fills it from the front, skipping the
  words whose score is not an integer; the slots that remain hold score 0 and no member. A
  score without a member after it indexes out of range.
\<close>

fun zadd_pairs :: "string list \<Rightarrow> ScorePair list result" where
  "zadd_pairs [] = Inr []"
| "zadd_pairs [w] = (case Atoi w of Inl e \<Rightarrow> Inr [] | Inr score \<Rightarrow> Inl Panic)"
| "zadd_pairs (w # member # ws) =
     (case Atoi w of
        Inl e \<Rightarrow> zadd_pairs ws
      | Inr score \<Rightarrow> rbind (zadd_pairs ws) (\<lambda>ps. Inr ((score, member) # ps)))"

definition cmdZADD :: handler where
  "cmdZADD m args db =
     (if length args < 3 then wrong_args db
      else sbind (lift_r (zadd_pairs (drop 2 args)) db) (\<lambda>ps db.
             reply_with SimpleInt (ZAdd (args ! 1)
               (ps @ replicate ((length args - 2) div 2 - length ps) (0, [])) db)))"

definition cmdZSCORE :: handler where
  "cmdZSCORE m args db =
     (if length args \<noteq> 3 then wrong_args db else answer (ZScore db (args ! 1) (args ! 2)) SimpleInt db)"

definition cmdZINCRBY :: handler where
  "cmdZINCRBY m args db =
     (if length args \<noteq> 4 then wrong_args db
      else sbind (lift_r (Atoi (args ! 2)) db) (\<lambda>delta db.
             reply_with SimpleInt (ZIncrBy (args ! 1) delta (args ! 3) db)))"

definition cmdZREVRANK :: handler where
  "cmdZREVRANK m args db =
     (if length args \<noteq> 3 then wrong_args db
      else answer (ZRevRank db (args ! 1) (args ! 2)) (\<lambda>n. if n = -1 then NilReply else SimpleInt n) db)"

text \<open>The options \<open>[withscores] [limit offset count]\<close>.\<close>

definition zrange_opts :: "string list \<Rightarrow> (bool \<times> int \<times> int) result" where
  "zrange_opts args =
     (let ws = (length args > 0 \<and> ToLower (args ! 0) = ''withscores''); args = (if ws then tl args else args)
      in if length args > 0 then
           if length args \<noteq> 3 then Inl ErrWrongNumArgs
           else if ToLower (args ! 0) \<noteq> ''limit'' then Inl ErrWrongNumArgs
           else (case Atoi (args ! 1) of
                   Inl e \<Rightarrow> Inl ErrWrongNumArgs
                 | Inr offset \<Rightarrow>
                     (case Atoi (args ! 2) of
                        Inl e \<Rightarrow> Inl ErrWrongNumArgs
                      | Inr count \<Rightarrow> Inr (ws, offset, count)))
         else Inr (ws, 0, -1))"

definition cmdZRANGEBYSCORE :: handler where
  "cmdZRANGEBYSCORE m args db =
     (if length args < 4 then wrong_args db
      else answer (rbind (zparseScoreRange (args ! 2) (args ! 3)) (\<lambda>(lo, hi).
             rbind (zrange_opts (drop 4 args)) (\<lambda>(ws, offset, count).
               if offset < 0 then Inr (False, [])
               else rbind (ZRangeByScore db (args ! 1) lo hi offset count) (\<lambda>v. Inr (ws, v)))))
           (\<lambda>(ws, v). scores_reply ws v) db)"

definition cmdZREVRANGEBYSCORE :: handler where
  "cmdZREVRANGEBYSCORE m args db =
     (if length args < 4 then wrong_args db
      else answer (rbind (zparseScoreRange (args ! 3) (args ! 2)) (\<lambda>(lo, hi).
             rbind (zrange_opts (drop 4 args)) (\<lambda>(ws, offset, count).
               if offset < 0 then Inr (False, [])
               else rbind (ZRangeByScoreGeneric db (args ! 1) lo hi offset count True) (\<lambda>v. Inr (ws, v)))))
           (\<lambda>(ws, v). scores_reply ws v) db)"

definition cmdZREMRANGEBYSCORE :: handler where
  "cmdZREMRANGEBYSCORE m args db =
     (if length args \<noteq> 4 then wrong_args db
      else sbind (lift_r (zparseScoreRange (args ! 2) (args ! 3)) db) (\<lambda>(lo, hi) db.
             reply_with (\<lambda>n. if n = -1 then NilReply else SimpleInt n) (ZRemRangeByScore (args ! 1) lo hi db)))"

definition cmdZREMRANGEBYRANK :: handler where
  "cmdZREMRANGEBYRANK m args db =
     (if length args \<noteq> 4 then wrong_args db
      else sbind (lift_r (Atoi (args ! 2)) db) (\<lambda>start db.
           sbind (lift_r (Atoi (args ! 3)) db) (\<lambda>stop db.
             reply_with SimpleInt (ZRemRangeByRank (args ! 1) start stop db))))"

section \<open>Properties\<close>

lemma zadd_pairs_printed:
  "\<forall>p \<in> set ps. is_int64 (fst p) \<Longrightarrow> zadd_pairs (concat (map (\<lambda>(s, x). [FormatInt s, x]) ps)) = Inr ps"
  by (induction ps) (auto simp: Atoi_def ParseInt_FormatInt)

lemma ZADD_printed:
  assumes "\<forall>p \<in> set ps. is_int64 (fst p)" "ps \<noteq> []"
  shows "cmdZADD m (c # k # concat (map (\<lambda>(s, x). [FormatInt s, x]) ps)) db = reply_with SimpleInt (ZAdd k ps db)"
proof -
  have "length (concat (map (\<lambda>(s, x). [FormatInt s, x]) ps)) = 2 * length ps" by (induction ps) auto
  then show ?thesis
    using assms zadd_pairs_printed [OF assms(1)] by (cases ps) (auto simp: cmdZADD_def lift_r_def)
qed

text \<open>A database with one sorted set, for examples.\<close>

abbreviation db_zset :: "bytes \<Rightarrow> ScorePair list \<Rightarrow> ledisdb" where
  "db_zset k ps \<equiv> snd (ZAdd k ps db0)"

lemma db_zset_sample:
  defines "db \<equiv> db_zset ''z'' [(2, ''a''), (1, ''b'')]"
  shows "zset_inv db" "\<not> readonly db" "zset_of db = (\<lambda>k. Map.empty)(''z'' := [''a'' \<mapsto> 2, ''b'' \<mapsto> 1])"
    "room 10 db"
proof -
  obtain db' where s: "ZAdd ''z'' [(2, ''a''), (1, ''b'')] db0 = (Inr 2, db')"
    "zstep db0 ''z'' (zset_of db0 ''z'' ++ map_of (map (\<lambda>(s, m). (m, s)) [(2, ''a''), (1, ''b'')])) db'"
    using ZAdd_ok [OF zset_db0(1), of "''z''" "[(2, ''a''), (1, ''b'')]"]
    by (auto simp: room_def key_ok_def score_ok_def zset_db0(2))
  have "zset_of db0 ''z'' ++ map_of (map (\<lambda>(s, m). (m, s)) [(2, ''a''), (1, ''b'')]) = [''a'' \<mapsto> 2, ''b'' \<mapsto> 1]"
    by (auto simp: zset_db0(2))
  then show "zset_inv db" "\<not> readonly db" "zset_of db = (\<lambda>k. Map.empty)(''z'' := [''a'' \<mapsto> 2, ''b'' \<mapsto> 1])"
    using s by (simp_all add: db_def zstep_def zset_db0(2))
  have "length (bucket db) = 5" unfolding db_def by code_simp
  then show "room 10 db" by (simp add: room_def)
qed

lemma zstepD:
  assumes "zstep db k M db'"
  shows "zset_inv db'" "zset_of db' = (zset_of db)(k := M)"
    "expiry_of db' ZSetType = (if M = Map.empty then (expiry_of db ZSetType)(k := None) else expiry_of db ZSetType)"
  using assms by (simp_all add: zstep_def)

text \<open>
  C3: \<open>ZADD\<close> of distinct members sets their scores and answers how many are new; \<open>ZREM\<close> of
  distinct members removes them, answers how many there were and drops the expiry with the
  last one. With an invalid member or a score out of range \<open>ZADD\<close> fails and changes nothing. No
  other sorted set changes, and the score index stays in step with the scores.
\<close>

theorem zset_refines:
  assumes "zset_inv db" "\<not> readonly db" "key_ok k" "ps \<noteq> []" "distinct (map snd ps)" "room (length ps) db"
    and "\<forall>p \<in> set ps. is_int64 (fst p)"
  shows "if \<forall>(s, x) \<in> set ps. key_ok x \<and> score_ok s
    then (\<exists>db'. cmdZADD m (c # k # concat (map (\<lambda>(s, x). [FormatInt s, x]) ps)) db
          = (Inr (SimpleInt (int (card (snd ` set ps - dom (zset_of db k))))), db') \<and> zset_inv db' \<and>
        zset_of db' = (zset_of db)(k := zset_of db k ++ map_of (map (\<lambda>(s, x). (x, s)) ps)) \<and>
        expiry_of db' ZSetType = expiry_of db ZSetType) \<and>
      (\<exists>db'. cmdZREM m (c # k # map snd ps) db
          = (Inr (SimpleInt (int (card (snd ` set ps \<inter> dom (zset_of db k))))), db') \<and> zset_inv db' \<and>
        zset_of db' = (zset_of db)(k := zset_of db k |` (- (snd ` set ps))) \<and>
        expiry_of db' ZSetType = (if dom (zset_of db k) \<subseteq> snd ` set ps then (expiry_of db ZSetType)(k := None)
          else expiry_of db ZSetType))
    else \<exists>e. cmdZADD m (c # k # concat (map (\<lambda>(s, x). [FormatInt s, x]) ps)) db = (Inl e, db)"
proof (cases "\<forall>(s, x) \<in> set ps. key_ok x \<and> score_ok s")
  case True
  let ?M = "zset_of db k ++ map_of (map (\<lambda>(s, x). (x, s)) ps)" and ?R = "zset_of db k |` (- set (map snd ps))"
  have count: "length (filter P (map snd ps)) = card {x \<in> snd ` set ps. P x}" for P :: "bytes \<Rightarrow> bool"
    using distinct_card [OF distinct_filter [OF assms(5)], of P] by simp
  have new: "length (filter (\<lambda>(s, x). zset_of db k x = None) ps) = card (snd ` set ps - dom (zset_of db k))"
    using count [of "\<lambda>x. zset_of db k x = None"]
    by (simp add: filter_map o_def case_prod_unfold set_diff_eq domIff del: dom_zset_of)
  have old: "length (filter (\<lambda>x. zset_of db k x \<noteq> None) (map snd ps)) = card (snd ` set ps \<inter> dom (zset_of db k))"
    unfolding count by (rule arg_cong [of _ _ card]) (auto simp del: dom_zset_of)
  obtain d1 where add: "ZAdd k ps db = (Inr (int (card (snd ` set ps - dom (zset_of db k)))), d1)" "zstep db k ?M d1"
    using ZAdd_ok [OF assms(1-3,6) True assms(5,4)] unfolding new by blast
  have "\<forall>x \<in> set (map snd ps). key_ok x" "map snd ps \<noteq> []" using True assms(4) by auto
  then obtain d2 where rem: "ZRem k (map snd ps) db = (Inr (int (card (snd ` set ps \<inter> dom (zset_of db k)))), d2)" "zstep db k ?R d2"
    using ZRem_ok [OF assms(1-3) room_mono [OF assms(6)] _ assms(5)] unfolding old by blast
  have "length ps \<ge> Suc 0" using assms(4) by (cases ps) auto
  then have "cmdZREM m (c # k # map snd ps) db = reply_with SimpleInt (ZRem k (map snd ps) db)"
    using assms(4) by (simp add: cmdZREM_def)
  moreover have "?M \<noteq> Map.empty" using assms(4) by (cases ps) (auto simp: fun_eq_iff)
  moreover have "?R = Map.empty \<longleftrightarrow> dom (zset_of db k) \<subseteq> snd ` set ps"
    by (auto simp: fun_eq_iff restrict_map_def dom_def simp del: dom_zset_of)
  ultimately show ?thesis
    unfolding if_P [OF True] ZADD_printed [OF assms(7,4)]
    using assms(4) add(1) rem(1) zstepD [OF add(2)] zstepD [OF rem(2)] by (simp del: dom_zset_of)
next
  case False
  have "zindex db" using assms(1) by (auto simp: zset_inv_def zsets_ok_def)
  then obtain e where "zadd_loop db k ps = Inl e" using zadd_loop_error False assms(4) by blast
  then show ?thesis
    unfolding if_not_P [OF False] ZADD_printed [OF assms(7,4)] using assms(4) by (simp add: ZAdd_def lift_r_def)
qed

theorem zset_refines_witness:
  "fst (cmdZADD node [''ZADD'', ''z'', ''2'', ''a''] db0) = Inr (SimpleInt 1)"
proof -
  have v: "\<forall>(s, x) \<in> set [(2, ''a'')]. key_ok x \<and> score_ok s" by (simp add: key_ok_def score_ok_def)
  have p: "concat (map (\<lambda>(s, x). [FormatInt s, x]) [(2, ''a'')]) = [''2'', ''a'']"
    by code_simp
  have "key_ok ''z''" "room (length [(2 :: int, ''a'')]) db0" by (simp_all add: key_ok_def room_def)
  from zset_refines [OF zset_db0(1) _ this(1) _ _ this(2), of node "''ZADD''"]
  obtain db' where "cmdZADD node [''ZADD'', ''z'', ''2'', ''a''] db0
      = (Inr (SimpleInt (int (card (snd ` set [(2 :: int, ''a'')] - dom (zset_of db0 ''z''))))), db')"
    unfolding if_P [OF v] p by (auto simp: is_int64_def)
  then show ?thesis by (simp add: zset_db0(2) del: dom_zset_of)
qed

lemma zparse_int64:
  assumes "zparseScoreRange a b = Inr (lo, hi)"
  shows "is_int64 lo" "is_int64 hi"
  using assms
  by (auto simp: zparseScoreRange_def rbind_eq_Inr Let_def is_int64_def split: if_splits sum.splits)

text \<open>
  C10: What the reading commands answer for a sorted set, listed by score and then by member:
  its length, a member's score, its rank from either end, the number of members between two
  scores, the slices \<open>ZRANGE\<close> and \<open>ZREVRANGE\<close> take by rank (negative ranks count from the end),
  and the members \<open>ZRANGEBYSCORE\<close> and \<open>ZREVRANGEBYSCORE\<close> find between two scores. None of them
  changes anything.
\<close>

theorem zset_reads:
  assumes "zset_inv db" "room 0 db" "key_ok k" "key_ok x" "is_int64 i" "is_int64 j"
    and "zparseScoreRange a b = Inr (lo, hi)"
  defines "L \<equiv> zlist db k"
  shows "cmdZCARD m [c, k] db = (Inr (SimpleInt (int (length L))), db) \<and>
    cmdZSCORE m [c, k, x] db = (case zset_of db k x of None \<Rightarrow> (Inl errScoreMiss, db) | Some s \<Rightarrow> (Inr (SimpleInt s), db)) \<and>
    cmdZRANK m [c, k, x] db = (Inr (case zset_of db k x of None \<Rightarrow> NilReply
      | Some s \<Rightarrow> SimpleInt (int (length (filter (\<lambda>p. p < (s, x)) L)))), db) \<and>
    cmdZREVRANK m [c, k, x] db = (Inr (case zset_of db k x of None \<Rightarrow> NilReply
      | Some s \<Rightarrow> SimpleInt (int (length (filter (\<lambda>p. (s, x) < p) L)))), db) \<and>
    cmdZCOUNT m [c, k, a, b] db = (Inr (GoInt (int (length (filter (\<lambda>p. lo \<le> fst p \<and> fst p \<le> hi) L)))), db) \<and>
    cmdZRANGE m [c, k, FormatInt i, FormatInt j, ''WITHSCORES''] db = (Inr (scores_reply True (rank_slice i j L)), db) \<and>
    cmdZREVRANGE m [c, k, FormatInt i, FormatInt j] db = (Inr (scores_reply False (rank_slice i j (rev L))), db) \<and>
    cmdZRANGEBYSCORE m [c, k, a, b] db = (Inr (scores_reply False (filter (\<lambda>p. lo \<le> fst p \<and> fst p \<le> hi) L)), db) \<and>
    cmdZREVRANGEBYSCORE m [c, k, b, a] db = (Inr (scores_reply False (rev (filter (\<lambda>p. lo \<le> fst p \<and> fst p \<le> hi) L))), db)"
proof -
  have z: "zindex db" "zsets_ok db" using assms(1) by (auto simp: zset_inv_def zsets_ok_def)
  have ij: "zparseRange (FormatInt i) (FormatInt j) = Inr (i, j)"
    using assms(5,6) by (simp add: zparseRange_def Atoi_def ParseInt_FormatInt)
  have ws: "withscores_opt [''WITHSCORES''] = Inr True" "withscores_opt [] = Inr False" by code_simp+
  note i64 = zparse_int64 [OF assms(7)]
  note rd = zRange_ok [OF z(1) assms(3) i64] ZCount_ok [OF z(1) assms(3) i64] ZCard_ok [OF z(2) assms(3,2)]
    ZScore_ok [OF z(1) assms(3,4)] zrank_ok [OF z(1) assms(3,4)] ZRangeGeneric_ok [OF z(2) assms(3,2,5,6)]
  show ?thesis
    by (simp add: cmdZCARD_def cmdZSCORE_def cmdZRANK_def ZRank_def cmdZREVRANK_def ZRevRank_def cmdZCOUNT_def
        cmdZRANGE_def ZRange_def cmdZREVRANGE_def ZRevRange_def cmdZRANGEBYSCORE_def ZRangeByScore_def
        ZRangeByScoreGeneric_def cmdZREVRANGEBYSCORE_def zrange_opts_def rd assms(7) L_def zbetween_def ij ws
        split: option.split)
qed

theorem zset_reads_witness:
  "fst (cmdZRANK node [''ZRANK'', ''z'', ''a''] (db_zset ''z'' [(2, ''a''), (1, ''b'')])) = Inr (SimpleInt 1)"
proof -
  let ?db = "db_zset ''z'' [(2, ''a''), (1, ''b'')]"
  have r: "room 0 ?db" using db_zset_sample(4) by (rule room_mono) simp
  have ok: "key_ok ''z''" "key_ok ''a''" "is_int64 0" by (simp_all add: key_ok_def is_int64_def)
  have p: "zparseScoreRange ''-inf'' ''+inf'' = Inr (MinInt64, MaxInt64)" by code_simp
  have "filter (\<lambda>p. p < (2, ''a'')) (zlist ?db ''z'') = [(1, ''b'')]"
  proof -
    have "{(s, m). zset_of ?db ''z'' m = Some s} = {(1, ''b''), (2, ''a'')}" by (auto simp: db_zset_sample(3) split: if_splits)
    then have "zlist ?db ''z'' = [(1, ''b''), (2, ''a'')]" by (simp add: zlist_def)
    then show ?thesis by simp
  qed
  then show ?thesis
    using zset_reads [OF db_zset_sample(1) r ok(1,2,3,3) p, of node "''ZRANK''"] by (simp add: db_zset_sample(3))
qed

text \<open>
  C29: \<open>ZREMRANGEBYRANK\<close> and \<open>ZREMRANGEBYSCORE\<close> remove exactly the members that \<open>ZRANGE\<close> and
  \<open>ZRANGEBYSCORE\<close> of the same range list, and answer how many; \<open>ZCLEAR\<close> removes all members and
  the expiry. Other sorted sets stay, and the score index stays in step.
\<close>

theorem zset_range_removal:
  assumes "zset_inv db" "\<not> readonly db" "key_ok k" "room 0 db" "is_int64 i" "is_int64 j"
    and "zparseScoreRange a b = Inr (lo, hi)"
  defines "del \<equiv> \<lambda>xs. (zset_of db)(k := zset_of db k |` (- snd ` set xs))"
  shows "(\<exists>db'. cmdZREMRANGEBYRANK m [c, k, FormatInt i, FormatInt j] db
        = (Inr (SimpleInt (int (length (rank_slice i j (zlist db k))))), db') \<and>
      zset_inv db' \<and> zset_of db' = del (rank_slice i j (zlist db k))) \<and>
    (\<exists>db'. cmdZREMRANGEBYSCORE m [c, k, a, b] db = (Inr (SimpleInt (int (length (zbetween db k lo hi)))), db') \<and>
      zset_inv db' \<and> zset_of db' = del (zbetween db k lo hi)) \<and>
    (\<exists>db'. cmdZCLEAR m [c, k] db = (Inr (SimpleInt (int (length (zlist db k)))), db') \<and>
      zset_inv db' \<and> zset_of db' = (zset_of db)(k := Map.empty) \<and>
      expiry_of db' ZSetType = (expiry_of db ZSetType)(k := None))"
proof -
  have z: "zindex db" "zsets_ok db" using assms(1) by (auto simp: zset_inv_def zsets_ok_def)
  have at: "Atoi (FormatInt i) = Inr i" "Atoi (FormatInt j) = Inr j" using assms(5,6) by (simp_all add: Atoi_def ParseInt_FormatInt)
  obtain offset count where l: "zParseLimit db k i j = Inr (offset, count)"
      "limit offset count (zlist db k) = rank_slice i j (zlist db k)"
    using zParseLimit_ok [OF z(2) assms(3,4,5,6) refl] by blast
  note rem = zRemRange_ok [OF assms(1-4)]
  obtain d1 where d1: "commit_rem (zRemRange db k MinScore MaxScore offset count) db
      = (Inr (int (length (rank_slice i j (zlist db k)))), d1)" "zstep db k (zset_of db k |` (- snd ` set (rank_slice i j (zlist db k)))) d1"
    using rem [of MinScore MaxScore offset count] l(2) by (auto simp: zbetween_all [OF z(1)])
  obtain d2 where d2: "commit_rem (zRemRange db k lo hi 0 (-1)) db = (Inr (int (length (zbetween db k lo hi))), d2)"
      "zstep db k (zset_of db k |` (- snd ` set (zbetween db k lo hi))) d2"
    using rem [OF zparse_int64 [OF assms(7)], of 0 "-1"] by auto
  obtain d3 where d3: "commit_rem (zRemRange db k MinScore MaxScore 0 (-1)) db = (Inr (int (length (zlist db k))), d3)"
      "zstep db k (zset_of db k |` (- snd ` set (zlist db k))) d3"
    using rem [of MinScore MaxScore 0 "-1"] by (auto simp: zbetween_all [OF z(1)])
  have "zset_of db k |` (- snd ` set (zlist db k)) = Map.empty"
  proof
    fix x show "(zset_of db k |` (- snd ` set (zlist db k))) x = None"
      using imageI [of "(the (zset_of db k x), x)" "set (zlist db k)" snd]
      by (cases "zset_of db k x") (auto simp: restrict_map_def)
  qed
  then show ?thesis
    using d1(1) d2(1) d3(1) zstepD [OF d1(2)] zstepD [OF d2(2)] zstepD [OF d3(2)]
    by (simp add: cmdZREMRANGEBYRANK_def ZRemRangeByRank_def cmdZREMRANGEBYSCORE_def ZRemRangeByScore_def cmdZCLEAR_def
        ZClear_def at l(1) assms(7) lift_r_def del_def)
qed

theorem zset_range_removal_witness:
  "zset_of (snd (cmdZCLEAR node [''ZCLEAR'', ''z''] (db_zset ''z'' [(2, ''a''), (1, ''b'')]))) ''z'' = Map.empty"
proof -
  let ?db = "db_zset ''z'' [(2, ''a''), (1, ''b'')]"
  have r: "room 0 ?db" using db_zset_sample(4) by (rule room_mono) simp
  have ok: "key_ok ''z''" "is_int64 0" by (simp_all add: key_ok_def is_int64_def)
  have p: "zparseScoreRange ''-inf'' ''+inf'' = Inr (MinInt64, MaxInt64)" by code_simp
  from zset_range_removal [OF db_zset_sample(1,2) ok(1) r ok(2,2) p, of node "''ZCLEAR''"]
  obtain db' where "cmdZCLEAR node [''ZCLEAR'', ''z''] ?db = (Inr (SimpleInt (int (length (zlist ?db ''z'')))), db')"
    "zset_of db' = (zset_of ?db)(''z'' := Map.empty)" by blast
  then show ?thesis by simp
qed

text \<open>
  C30: \<open>ZINCRBY k d x\<close> sets the score of \<open>x\<close> to the 64-bit sum of \<open>d\<close> and its score (0 when it is
  not a member) and answers it, or reports an overflow and changes nothing, except with \<open>d = 0\<close>
  for a member: then the answer is right but the member's record in the score index is gone,
  so that \<open>ZCOUNT\<close> misses the member while \<open>ZSCORE\<close> and \<open>ZCARD\<close> still see it.
\<close>

theorem zincrby_cases:
  assumes "zset_inv db" "\<not> readonly db" "key_ok k" "key_ok x" "room 1 db" "is_int64 d"
  shows "if d = 0 \<and> zset_of db k x \<noteq> None
    then (\<exists>db' s. zset_of db k x = Some s \<and> cmdZINCRBY m [c, k, FormatInt d, x] db = (Inr (SimpleInt s), db') \<and>
      cmdZSCORE m [c, k, x] db' = (Inr (SimpleInt s), db') \<and>
      cmdZCARD m [c, k] db' = (Inr (SimpleInt (int (length (zlist db k)))), db') \<and>
      cmdZCOUNT m [c, k, ''-inf'', ''+inf''] db' = (Inr (GoInt (int (length (zlist db k)) - 1)), db'))
    else (let t = wrap64 ((case zset_of db k x of None \<Rightarrow> 0 | Some s \<Rightarrow> s) + d) in
      if score_ok t
      then \<exists>db'. cmdZINCRBY m [c, k, FormatInt d, x] db = (Inr (SimpleInt t), db') \<and> zset_inv db' \<and>
        zset_of db' = (zset_of db)(k := (zset_of db k)(x \<mapsto> t))
      else cmdZINCRBY m [c, k, FormatInt d, x] db = (Inl errScoreOverflow, db))"
proof -
  have z: "zindex db" "zsets_ok db" using assms(1) by (auto simp: zset_inv_def zsets_ok_def)
  have cmd: "cmdZINCRBY m [c, k, FormatInt d, x] db = reply_with SimpleInt (ZIncrBy k d x db)"
    using assms(6) by (simp add: cmdZINCRBY_def Atoi_def ParseInt_FormatInt lift_r_def)
  show ?thesis
  proof (cases "d = 0 \<and> zset_of db k x \<noteq> None")
    case True
    then obtain s where s: "zset_of db k x = Some s" by blast
    have p: "zparseScoreRange ''-inf'' ''+inf'' = Inr (MinInt64, MaxInt64)" by code_simp
    have m: "is_int64 MinInt64" "is_int64 MaxInt64" by (simp_all add: is_int64_def)
    have "MinInt64 \<le> s" "s \<le> MaxInt64" using zset_of_score_ok [OF z(1) s] by (simp_all add: score_ok_def)
    then obtain db' where db': "ZIncrBy k 0 x db = (Inr s, db')" "ZScore db' k x = Inr s" "ZCard db' k = ZCard db k"
        "ZCount db' k MinInt64 MaxInt64 = Inr (int (length (zbetween db k MinInt64 MaxInt64)) - 1)"
      using ZIncrBy_zero [OF assms(1-3) s m] by blast
    have "zbetween db k MinInt64 MaxInt64 = zlist db k"
      unfolding zbetween_def by (rule filter_True) (use zlist_int64 [OF z(1)] in \<open>simp add: is_int64_def\<close>)
    then show ?thesis
      unfolding if_P [OF True] cmd using True s db' ZCard_ok [OF z(2) assms(3) room_mono [OF assms(5)]]
      by (simp add: cmdZSCORE_def cmdZCARD_def cmdZCOUNT_def p)
  next
    case False
    then have ne: "zset_of db k x \<noteq> None \<Longrightarrow> d \<noteq> 0" by blast
    show ?thesis
      unfolding if_not_P [OF False] cmd Let_def
      using ZIncrBy_ok [OF assms(1-6) ne] zstepD(1,2) by (fastforce split: if_splits)
  qed
qed

theorem zincrby_cases_witness:
  "\<exists>db'. cmdZINCRBY node [''ZINCRBY'', ''z'', FormatInt 0, ''a''] (db_zset ''z'' [(2, ''a''), (1, ''b'')]) = (Inr (SimpleInt 2), db') \<and>
     cmdZCARD node [''ZINCRBY'', ''z''] db' = (Inr (SimpleInt 2), db') \<and>
     cmdZCOUNT node [''ZINCRBY'', ''z'', ''-inf'', ''+inf''] db' = (Inr (GoInt 1), db')"
proof -
  let ?db = "db_zset ''z'' [(2, ''a''), (1, ''b'')]"
  have r: "room 1 ?db" using db_zset_sample(4) by (rule room_mono) simp
  have ok: "key_ok ''z''" "key_ok ''a''" "is_int64 0" by (simp_all add: key_ok_def is_int64_def)
  have c: "(0 :: int) = 0 \<and> zset_of ?db ''z'' ''a'' \<noteq> None" by (simp add: db_zset_sample(3))
  have "length (zlist ?db ''z'') = 2"
  proof -
    have "{(s, m). zset_of ?db ''z'' m = Some s} = {(1, ''b''), (2, ''a'')}" by (auto simp: db_zset_sample(3) split: if_splits)
    then show ?thesis by (simp add: zlist_def)
  qed
  then show ?thesis
    using zincrby_cases [OF db_zset_sample(1,2) ok(1,2) r ok(3), of node "''ZINCRBY''"] unfolding if_P [OF c]
    by (auto simp: db_zset_sample(3))
qed

text \<open>
  Bounds and scores in the words of a command: a bound is a number, a number after one
  parenthesis (which excludes it), or \<open>-inf\<close> and \<open>+inf\<close>. A lone parenthesis as upper bound
  panics, two are accepted as one there and refused in a lower bound. \<open>ZADD\<close> with a score and
  no member panics, and with a score that is no integer fails with a member-size error.
\<close>

theorem zset_arguments:
  assumes "ParseInt a = Inr lo" "score_ok lo" "ParseInt b = Inr hi" "score_ok hi" "key_ok k" "ParseInt w = Inl e"
  shows "zparseScoreRange a b = Inr (lo, hi) \<and>
    zparseScoreRange (CHR ''('' # a) (CHR ''('' # b) = Inr (lo + 1, hi - 1) \<and>
    zparseScoreRange a (CHR ''('' # CHR ''('' # b) = Inr (lo, hi - 1) \<and>
    zparseScoreRange (CHR ''('' # CHR ''('' # a) b = Inl ErrInvalid \<and>
    zparseScoreRange a ''('' = Inl Panic \<and>
    zparseScoreRange ''-inf'' ''+inf'' = Inr (MinInt64, MaxInt64) \<and>
    cmdZADD m [c, k, a] db = (Inl Panic, db) \<and>
    cmdZADD m [c, k, w, x] db = (Inl errZSetMemberSize, db)"
proof -
  note ta = ParseInt_text [OF assms(1)] and tb = ParseInt_text [OF assms(3)]
  have lp: "lower_char (CHR ''('') = CHR ''(''" by (simp add: lower_char_def)
  have inf: "zparseScoreRange ''-inf'' ''+inf'' = Inr (MinInt64, MaxInt64)" by code_simp
  have bad: "ParseInt (CHR ''('' # a) = Inl NumSyntax"
    by (simp add: ParseInt_def ParseUint_def is_digit_def)
  have sc: "\<not> (lo \<le> MinScore \<or> lo \<ge> MaxScore)" "\<not> (hi \<le> MinScore \<or> hi \<ge> MaxScore)" using assms(2,4) by (auto simp: score_ok_def)
  have si: "StrInt64 (Some a) = Inr lo" "StrInt64 (Some b) = Inr hi" "StrInt64 (Some (CHR ''('' # a)) = Inl NumSyntax"
    using assms(1,3) bad by (simp_all add: StrInt64_def)
  have "\<not> key_ok []" by (simp add: key_ok_def)
  then show ?thesis
    using ta tb assms sc si inf
    by (simp add: zparseScoreRange_def lp Let_def cmdZADD_def Atoi_def lift_r_def ZAdd_def checkZSetKMSize_eq)
qed

theorem zset_arguments_witness:
  "zparseScoreRange ''(1'' ''(5'' = Inr (2, 4)"
  using zset_arguments [of "''1''" 1 "''5''" 5 "''k''" "''w''" NumSyntax "\<lparr>m_Now = 0, wall = 0, map_order = (\<lambda>x. x)\<rparr>" "''c''" db0 "''x''"]
  by (simp add: ParseInt_def ParseUint_def is_digit_def digit_val_def score_ok_def key_ok_def)

lemma zadd_pairs_length: "zadd_pairs ws = Inr ps \<Longrightarrow> length ps \<le> length ws div 2"
  by (induction ws arbitrary: ps rule: zadd_pairs.induct) (fastforce simp: rbind_eq_Inr split: sum.splits)+

lemma Atoi_int64: "Atoi s = Inr n \<Longrightarrow> is_int64 n"
  by (simp add: Atoi_def ParseInt_int64)

lemma zset_inv_ZRemRangeByRank:
  assumes "zset_inv db" "room 0 db" "k \<noteq> []"
  shows "zset_inv (snd (ZRemRangeByRank k i j db))"
  unfolding ZRemRangeByRank_def
  by (intro inv_checked [where P = zset_inv]) (use assms in \<open>auto intro!: zset_inv_rem\<close>)

lemma zset_inv_ZADD:
  assumes "zset_inv db" "room (length args) db" "\<And>ps. zadd_pairs (drop 2 args) = Inr ps \<Longrightarrow> distinct (map snd ps)"
  shows "zset_inv (snd (cmdZADD m args db))"
proof -
  let ?n = "(length args - 2) div 2"
  have "zset_inv (snd (ZAdd (args ! 1) (ps @ replicate (?n - length ps) (0, [])) db))" if ps: "zadd_pairs (drop 2 args) = Inr ps" for ps
  proof (rule zset_inv_ZAdd [OF assms(1)])
    have "length ps \<le> ?n" using zadd_pairs_length [OF ps] by simp
    then show "room (length (ps @ replicate (?n - length ps) (0, []))) db" using assms(2) by (auto simp: room_def)
    assume all: "\<forall>p \<in> set (ps @ replicate (?n - length ps) (0, [])). key_ok (snd p)"
    have "?n - length ps = 0"
    proof (rule ccontr)
      assume "?n - length ps \<noteq> 0"
      then have "(0, []) \<in> set (ps @ replicate (?n - length ps) (0, []))" by simp
      from bspec [OF all this] show False by (simp add: key_ok_def)
    qed
    then show "distinct (map snd (ps @ replicate (?n - length ps) (0, [])))" using assms(3) [OF ps] by simp
  qed
  then show ?thesis using assms(1) by (cases "zadd_pairs (drop 2 args)") (auto simp: cmdZADD_def lift_r_def)
qed

text \<open>
  The sorted-set invariant: on any arguments with a key that is not empty, the commands keep
  the records of all sorted sets well formed: one record per member, one index record exactly
  for each score, the size record equal to the number of members, and the expiry records
  readable. \<open>ZADD\<close> and \<open>ZREM\<close> do when no member is named twice, and \<open>ZINCRBY\<close> when the increment
  is not 0.
\<close>

theorem zset_invariant:
  assumes "zset_inv db" "room (Suc (length args)) db" "args ! 1 \<noteq> []"
  shows "list_all (\<lambda>h. zset_inv (snd (h m args db)))
      [cmdZCOUNT, cmdZCARD, cmdZRANGE, cmdZREVRANGE, cmdZRANK, cmdZCLEAR, cmdZSCORE, cmdZREVRANK, cmdZRANGEBYSCORE,
       cmdZREVRANGEBYSCORE, cmdZREMRANGEBYSCORE, cmdZREMRANGEBYRANK] \<and>
    ((\<forall>ps. zadd_pairs (drop 2 args) = Inr ps \<longrightarrow> distinct (map snd ps)) \<longrightarrow> zset_inv (snd (cmdZADD m args db))) \<and>
    (distinct (drop 2 args) \<longrightarrow> zset_inv (snd (cmdZREM m args db))) \<and>
    (Atoi (args ! 2) \<noteq> Inr 0 \<longrightarrow> zset_inv (snd (cmdZINCRBY m args db)))"
proof -
  have r: "room 0 db" "room 1 db" "room (length args) db" using assms(2) by (auto simp: room_def)
  have "zset_inv (snd (cmdZREMRANGEBYSCORE m args db))"
    using assms(1) zset_inv_rem [OF assms(1) r(1) _ _ assms(3)] zparse_int64
    by (auto simp: cmdZREMRANGEBYSCORE_def ZRemRangeByScore_def lift_r_def sbind_def split: sum.split)
  moreover have "zset_inv (snd (cmdZREMRANGEBYRANK m args db))"
    using assms(1) zset_inv_ZRemRangeByRank [OF assms(1) r(1) assms(3)]
    by (auto simp: cmdZREMRANGEBYRANK_def lift_r_def sbind_def [of "(_, db)"] split: sum.split)
  moreover have "zset_inv (snd (cmdZCLEAR m args db))"
    using assms(1) zset_inv_rem [OF assms(1) r(1) _ _ assms(3)] by (simp add: cmdZCLEAR_def ZClear_def)
  moreover have "zset_inv (snd (cmdZINCRBY m args db))" if "Atoi (args ! 2) \<noteq> Inr 0"
    using that assms(1) zset_inv_ZIncrBy [OF assms(1) r(2) Atoi_int64, of "args ! 2"]
    by (auto simp: cmdZINCRBY_def lift_r_def sbind_def [of "(_, db)"] split: sum.split)
  moreover have "zset_inv (snd (cmdZREM m args db))" if "distinct (drop 2 args)"
    using that assms(1) zset_inv_ZRem [OF assms(1) r(1)] by (simp add: cmdZREM_def)
  ultimately show ?thesis
    using assms(1) zset_inv_ZADD [OF assms(1) r(3)]
    by (simp add: cmdZCOUNT_def cmdZCARD_def cmdZRANGE_def cmdZREVRANGE_def cmdZRANK_def cmdZSCORE_def cmdZREVRANK_def
        cmdZRANGEBYSCORE_def cmdZREVRANGEBYSCORE_def)
qed

theorem zset_invariant_witness:
  "zset_inv (snd (cmdZREM node [''ZREM'', ''z'', ''a'', ''b''] db0))"
  using zset_invariant [of db0 "[''ZREM'', ''z'', ''a'', ''b'']" node] zset_db0(1) by (simp add: room_def)

end
