(* ===== verification/LedisScan.thy ===== *)
theory LedisScan
  imports LedisHash LedisSet LedisZSet
begin

text \<open>
  Scans with a cursor (\<open>ledis/scan.go\<close>): over the keys of a data type, and over the members of a
  hash, set or sorted set. Regular expressions are a parameter: \<open>compile\<close> stands for
  \<open>regexp.Compile\<close> and gives the predicate \<open>Match\<close> of the compiled expression or an error.
\<close>

section \<open>Operations\<close>

type_synonym regexp = "string \<Rightarrow> (bytes \<Rightarrow> bool) result"

datatype DataType = KV | LIST | HASH | SET | ZSET

abbreviation defaultScanCount :: int where "defaultScanCount \<equiv> 10"

definition getDataStoreType :: "DataType \<Rightarrow> char result" where
  "getDataStoreType dataType =
     (case dataType of
        KV \<Rightarrow> Inr KVType | LIST \<Rightarrow> Inr LMetaType | HASH \<Rightarrow> Inr HSizeType | SET \<Rightarrow> Inr SSizeType | ZSET \<Rightarrow> Inr ZSizeType)"

definition buildMatchRegexp :: "regexp \<Rightarrow> string \<Rightarrow> (bytes \<Rightarrow> bool) option result" where
  "buildMatchRegexp compile match =
     (if length match > 0 then rbind (compile match) (\<lambda>r. Inr (Some r)) else Inr None)"

definition buildScanIterator :: "ledisdb \<Rightarrow> bytes \<Rightarrow> bytes \<Rightarrow> bool \<Rightarrow> bool \<Rightarrow> store" where
  "buildScanIterator db minKey maxKey inclusive reverse =
     (let tp = (if \<not> reverse then (if inclusive then RangeROpen else RangeOpen)
                else (if inclusive then RangeLOpen else RangeOpen))
      in rangeLimitIterator (bucket db) (Some minKey) (Some maxKey) tp 0 (-1) reverse)"

definition encodeScanKey :: "ledisdb \<Rightarrow> char \<Rightarrow> bytes \<Rightarrow> bytes result" where
  "encodeScanKey db storeDataType key =
     (if storeDataType = KVType then Inr (encodeKVKey db key)
      else if storeDataType = LMetaType then Inr (lEncodeMetaKey db key)
      else if storeDataType = HSizeType then Inr (hEncodeSizeKey db key)
      else if storeDataType = ZSizeType then Inr (zEncodeSizeKey db key)
      else if storeDataType = SSizeType then Inr (sEncodeSizeKey db key)
      else Inl errDataType)"

definition encodeScanMinKey :: "ledisdb \<Rightarrow> char \<Rightarrow> bytes \<Rightarrow> bytes result" where
  "encodeScanMinKey db storeDataType key = encodeScanKey db storeDataType key"

definition next_byte :: "char \<Rightarrow> char" where
  "next_byte c = char_of ((of_char c :: nat) + 1)"

definition encodeScanMaxKey :: "ledisdb \<Rightarrow> char \<Rightarrow> bytes \<Rightarrow> bytes result" where
  "encodeScanMaxKey db storeDataType key =
     (if length key > 0 then encodeScanKey db storeDataType key
      else rbind (encodeScanKey db storeDataType []) (\<lambda>k. Inr (butlast k @ [next_byte storeDataType])))"

definition buildScanKeyRange :: "ledisdb \<Rightarrow> char \<Rightarrow> bytes \<Rightarrow> bool \<Rightarrow> (bytes \<times> bytes) result" where
  "buildScanKeyRange db storeDataType key reverse =
     (if \<not> reverse then
        rbind (encodeScanMinKey db storeDataType key) (\<lambda>minKey.
        rbind (encodeScanMaxKey db storeDataType []) (\<lambda>maxKey. Inr (minKey, maxKey)))
      else
        rbind (encodeScanMinKey db storeDataType []) (\<lambda>minKey.
        rbind (encodeScanMaxKey db storeDataType key) (\<lambda>maxKey. Inr (minKey, maxKey))))"

definition checkScanCount :: "int \<Rightarrow> int" where
  "checkScanCount count = (if count \<le> 0 then defaultScanCount else count)"

lemma checkScanCount_nonneg [simp]: "0 \<le> checkScanCount count"
  by (simp add: checkScanCount_def)

definition decodeScanKey :: "ledisdb \<Rightarrow> char \<Rightarrow> bytes \<Rightarrow> bytes result" where
  "decodeScanKey db storeDataType ek =
     (if storeDataType = KVType then decodeKVKey db ek
      else if storeDataType = LMetaType then lDecodeMetaKey db ek
      else if storeDataType = HSizeType then hDecodeSizeKey db ek
      else if storeDataType = ZSizeType then zDecodeSizeKey db ek
      else if storeDataType = SSizeType then sDecodeSizeKey db ek
      else Inl errDataType)"

text \<open>
  \<open>r != nil \<and> !r.Match(k)\<close> negated, and the loop of \<open>scanGeneric\<close> with \<open>n\<close> keys to go. The result
  slice is made with the capacity \<open>count\<close>, which the client chooses: a \<open>[]byte\<close> takes 24 bytes, an
  \<open>FVPair\<close> 48 and a \<open>ScorePair\<close> 32.
\<close>

definition matches :: "(bytes \<Rightarrow> bool) option \<Rightarrow> bytes \<Rightarrow> bool" where
  "matches r k = (case r of None \<Rightarrow> True | Some p \<Rightarrow> p k)"

fun scan_loop :: "ledisdb \<Rightarrow> char \<Rightarrow> (bytes \<Rightarrow> bool) option \<Rightarrow> store \<Rightarrow> nat \<Rightarrow> bytes list" where
  "scan_loop db t r [] n = []"
| "scan_loop db t r ((ek, v) # it) n =
     (if n = 0 then []
      else case decodeScanKey db t ek of
             Inl e \<Rightarrow> scan_loop db t r it n
           | Inr k \<Rightarrow> if \<not> matches r k then scan_loop db t r it n else k # scan_loop db t r it (n - 1))"

definition scanGeneric :: "regexp \<Rightarrow> ledisdb \<Rightarrow> char \<Rightarrow> bytes \<Rightarrow> int \<Rightarrow> bool \<Rightarrow> string \<Rightarrow> bool \<Rightarrow> bytes list result" where
  "scanGeneric compile db storeDataType key count inclusive match reverse =
     rbind (buildMatchRegexp compile match) (\<lambda>r.
     rbind (buildScanKeyRange db storeDataType key reverse) (\<lambda>(minKey, maxKey).
     rbind (make_slice 24 (checkScanCount count)) (\<lambda>_.
       Inr (scan_loop db storeDataType r (buildScanIterator db minKey maxKey inclusive reverse) (nat (checkScanCount count))))))"

definition Scan :: "regexp \<Rightarrow> ledisdb \<Rightarrow> DataType \<Rightarrow> bytes \<Rightarrow> int \<Rightarrow> bool \<Rightarrow> string \<Rightarrow> bytes list result" where
  "Scan compile db dataType cursor count inclusive match =
     rbind (getDataStoreType dataType) (\<lambda>t. scanGeneric compile db t cursor count inclusive match False)"

definition RevScan :: "regexp \<Rightarrow> ledisdb \<Rightarrow> DataType \<Rightarrow> bytes \<Rightarrow> int \<Rightarrow> bool \<Rightarrow> string \<Rightarrow> bytes list result" where
  "RevScan compile db dataType cursor count inclusive match =
     rbind (getDataStoreType dataType) (\<lambda>t. scanGeneric compile db t cursor count inclusive match True)"

text \<open>Scans over the members of a container.\<close>

definition encodeDataScanKey :: "ledisdb \<Rightarrow> char \<Rightarrow> bytes \<Rightarrow> bytes \<Rightarrow> bytes result" where
  "encodeDataScanKey db storeDataType key cursor =
     (if storeDataType = HashType then Inr (hEncodeHashKey db key cursor)
      else if storeDataType = ZSetType then Inr (zEncodeSetKey db key cursor)
      else if storeDataType = SetType then Inr (sEncodeSetKey db key cursor)
      else Inl errDataType)"

definition encodeDataScanMinKey :: "ledisdb \<Rightarrow> char \<Rightarrow> bytes \<Rightarrow> bytes \<Rightarrow> bytes result" where
  "encodeDataScanMinKey db storeDataType key cursor = encodeDataScanKey db storeDataType key cursor"

definition encodeDataScanMaxKey :: "ledisdb \<Rightarrow> char \<Rightarrow> bytes \<Rightarrow> bytes \<Rightarrow> bytes result" where
  "encodeDataScanMaxKey db storeDataType key cursor =
     (if length cursor > 0 then encodeDataScanKey db storeDataType key cursor
      else rbind (encodeDataScanKey db storeDataType key []) (\<lambda>k. Inr (butlast k @ [next_byte (last k)])))"

definition buildDataScanKeyRange :: "ledisdb \<Rightarrow> char \<Rightarrow> bytes \<Rightarrow> bytes \<Rightarrow> bool \<Rightarrow> (bytes \<times> bytes) result" where
  "buildDataScanKeyRange db storeDataType key cursor reverse =
     (if \<not> reverse then
        rbind (encodeDataScanMinKey db storeDataType key cursor) (\<lambda>minKey.
        rbind (encodeDataScanMaxKey db storeDataType key []) (\<lambda>maxKey. Inr (minKey, maxKey)))
      else
        rbind (encodeDataScanMinKey db storeDataType key []) (\<lambda>minKey.
        rbind (encodeDataScanMaxKey db storeDataType key cursor) (\<lambda>maxKey. Inr (minKey, maxKey))))"

definition buildDataScanIterator :: "ledisdb \<Rightarrow> char \<Rightarrow> bytes \<Rightarrow> bytes \<Rightarrow> bool \<Rightarrow> bool \<Rightarrow> store result" where
  "buildDataScanIterator db storeDataType key cursor inclusive reverse =
     rbind (checkKeySize key) (\<lambda>_.
     rbind (buildDataScanKeyRange db storeDataType key cursor reverse) (\<lambda>(minKey, maxKey).
       Inr (buildScanIterator db minKey maxKey inclusive reverse)))"

fun hscan_loop :: "ledisdb \<Rightarrow> (bytes \<Rightarrow> bool) option \<Rightarrow> store \<Rightarrow> nat \<Rightarrow> FVPair list result" where
  "hscan_loop db r [] n = Inr []"
| "hscan_loop db r ((ek, v) # it) n =
     (if n = 0 then Inr []
      else rbind (hDecodeHashKey db ek) (\<lambda>(_, f).
             if \<not> matches r f then hscan_loop db r it n
             else rbind (hscan_loop db r it (n - 1)) (\<lambda>vs. Inr ((f, v) # vs))))"

definition hScanGeneric :: "regexp \<Rightarrow> ledisdb \<Rightarrow> bytes \<Rightarrow> bytes \<Rightarrow> int \<Rightarrow> bool \<Rightarrow> string \<Rightarrow> bool \<Rightarrow> FVPair list result" where
  "hScanGeneric compile db key cursor count inclusive match reverse =
     rbind (buildMatchRegexp compile match) (\<lambda>r.
     rbind (make_slice 48 (checkScanCount count)) (\<lambda>_.
     rbind (buildDataScanIterator db HashType key cursor inclusive reverse) (\<lambda>it.
       hscan_loop db r it (nat (checkScanCount count)))))"

definition HScan :: "regexp \<Rightarrow> ledisdb \<Rightarrow> bytes \<Rightarrow> bytes \<Rightarrow> int \<Rightarrow> bool \<Rightarrow> string \<Rightarrow> FVPair list result" where
  "HScan compile db key cursor count inclusive match = hScanGeneric compile db key cursor count inclusive match False"

definition HRevScan :: "regexp \<Rightarrow> ledisdb \<Rightarrow> bytes \<Rightarrow> bytes \<Rightarrow> int \<Rightarrow> bool \<Rightarrow> string \<Rightarrow> FVPair list result" where
  "HRevScan compile db key cursor count inclusive match = hScanGeneric compile db key cursor count inclusive match True"

fun sscan_loop :: "ledisdb \<Rightarrow> (bytes \<Rightarrow> bool) option \<Rightarrow> store \<Rightarrow> nat \<Rightarrow> bytes list result" where
  "sscan_loop db r [] n = Inr []"
| "sscan_loop db r ((ek, v) # it) n =
     (if n = 0 then Inr []
      else rbind (sDecodeSetKey db ek) (\<lambda>(_, m).
             if \<not> matches r m then sscan_loop db r it n
             else rbind (sscan_loop db r it (n - 1)) (\<lambda>vs. Inr (m # vs))))"

definition sScanGeneric :: "regexp \<Rightarrow> ledisdb \<Rightarrow> bytes \<Rightarrow> bytes \<Rightarrow> int \<Rightarrow> bool \<Rightarrow> string \<Rightarrow> bool \<Rightarrow> bytes list result" where
  "sScanGeneric compile db key cursor count inclusive match reverse =
     rbind (buildMatchRegexp compile match) (\<lambda>r.
     rbind (make_slice 24 (checkScanCount count)) (\<lambda>_.
     rbind (buildDataScanIterator db SetType key cursor inclusive reverse) (\<lambda>it.
       sscan_loop db r it (nat (checkScanCount count)))))"

definition SScan :: "regexp \<Rightarrow> ledisdb \<Rightarrow> bytes \<Rightarrow> bytes \<Rightarrow> int \<Rightarrow> bool \<Rightarrow> string \<Rightarrow> bytes list result" where
  "SScan compile db key cursor count inclusive match = sScanGeneric compile db key cursor count inclusive match False"

definition SRevScan :: "regexp \<Rightarrow> ledisdb \<Rightarrow> bytes \<Rightarrow> bytes \<Rightarrow> int \<Rightarrow> bool \<Rightarrow> string \<Rightarrow> bytes list result" where
  "SRevScan compile db key cursor count inclusive match = sScanGeneric compile db key cursor count inclusive match True"

fun zscan_loop :: "ledisdb \<Rightarrow> (bytes \<Rightarrow> bool) option \<Rightarrow> store \<Rightarrow> nat \<Rightarrow> ScorePair list result" where
  "zscan_loop db r [] n = Inr []"
| "zscan_loop db r ((ek, v) # it) n =
     (if n = 0 then Inr []
      else rbind (zDecodeSetKey db ek) (\<lambda>(_, m).
             if \<not> matches r m then zscan_loop db r it n
             else rbind (Int64 (Some v)) (\<lambda>score.
                  rbind (zscan_loop db r it (n - 1)) (\<lambda>vs. Inr ((score, m) # vs)))))"

definition zScanGeneric :: "regexp \<Rightarrow> ledisdb \<Rightarrow> bytes \<Rightarrow> bytes \<Rightarrow> int \<Rightarrow> bool \<Rightarrow> string \<Rightarrow> bool \<Rightarrow> ScorePair list result" where
  "zScanGeneric compile db key cursor count inclusive match reverse =
     rbind (buildMatchRegexp compile match) (\<lambda>r.
     rbind (make_slice 32 (checkScanCount count)) (\<lambda>_.
     rbind (buildDataScanIterator db ZSetType key cursor inclusive reverse) (\<lambda>it.
       zscan_loop db r it (nat (checkScanCount count)))))"

definition ZScan :: "regexp \<Rightarrow> ledisdb \<Rightarrow> bytes \<Rightarrow> bytes \<Rightarrow> int \<Rightarrow> bool \<Rightarrow> string \<Rightarrow> ScorePair list result" where
  "ZScan compile db key cursor count inclusive match = zScanGeneric compile db key cursor count inclusive match False"

definition ZRevScan :: "regexp \<Rightarrow> ledisdb \<Rightarrow> bytes \<Rightarrow> bytes \<Rightarrow> int \<Rightarrow> bool \<Rightarrow> string \<Rightarrow> ScorePair list result" where
  "ZRevScan compile db key cursor count inclusive match = zScanGeneric compile db key cursor count inclusive match True"

section \<open>What a scan visits\<close>

lemma next_byte_sep: "next_byte (CHR '':'') = CHR '';''"
  by (simp add: next_byte_def) code_simp

text \<open>The members after the cursor, or before it and last first.\<close>

definition after_cursor :: "bytes \<Rightarrow> bool \<Rightarrow> bytes list \<Rightarrow> bytes list" where
  "after_cursor c reverse xs = (if reverse then rev (filter (\<lambda>m. c = [] \<or> m < c) xs) else filter (\<lambda>m. c < m) xs)"

context member_layout
begin

lemma data_iterator:
  assumes "mem_ok T S db" "key_ok k" "\<And>c. encodeDataScanKey db T k c = Inr (member_key T db k c)"
  shows "buildDataScanIterator db T k c False reverse
    = Inr (map (\<lambda>m. (member_key T db k m, the (mem_of T db k m))) (after_cursor c reverse (sorted_list_of_set (dom (mem_of T db k)))))"
proof -
  have ok: "store_ok (bucket db)" using assms(1) by (simp add: mem_ok_def)
  have "butlast (member_key T db k []) @ [next_byte (last (member_key T db k []))] = butlast (member_key T db k []) @ '';''"
    by (simp add: member_key_def elem_key_def next_byte_sep)
  then have "encodeDataScanMaxKey db T k c = Inr (if c = [] then butlast (member_key T db k []) @ '';'' else member_key T db k c)" for c
    by (simp add: encodeDataScanMaxKey_def assms(3))
  then show ?thesis using assms(2) cursor_range [OF assms(1,2), of c]
    by (cases reverse) (simp_all add: buildDataScanIterator_def buildDataScanKeyRange_def encodeDataScanMinKey_def
        assms(3) buildScanIterator_def rangeLimitIterator_forward [OF ok] rangeLimitIterator_backward [OF ok]
        after_cursor_def rev_map)
qed

end

lemma sscan_loop_ok:
  "key_ok k \<Longrightarrow> sscan_loop db r (map (\<lambda>m. (member_key SetType db k m, g m)) ms) n = Inr (take n (filter (matches r) ms))"
  by (induction ms arbitrary: n)
    (auto simp: sets.dec_enc [unfolded sets.enc] key_ok_length take_Cons' split: if_splits)

lemma hscan_loop_ok:
  "key_ok k \<Longrightarrow> hscan_loop db r (map (\<lambda>m. (member_key HashType db k m, g m)) ms) n
     = Inr (map (\<lambda>m. (m, g m)) (take n (filter (matches r) ms)))"
  by (induction ms arbitrary: n)
    (auto simp: hash.dec_enc [unfolded hash.enc] key_ok_length take_Cons' split: if_splits)

lemma zscan_loop_ok:
  "key_ok k \<Longrightarrow> \<forall>m \<in> set ms. Int64 (Some (g m)) = Inr (s m) \<Longrightarrow>
     zscan_loop db r (map (\<lambda>m. (member_key ZSetType db k m, g m)) ms) n
       = Inr (map (\<lambda>m. (s m, m)) (take n (filter (matches r) ms)))"
  by (induction ms arbitrary: n)
    (auto simp: zset.dec_enc [unfolded zset.enc] key_ok_length take_Cons' split: if_splits)

text \<open>One page of a scan.\<close>

definition page :: "(bytes \<Rightarrow> bool) option \<Rightarrow> int \<Rightarrow> bytes \<Rightarrow> bool \<Rightarrow> bytes list \<Rightarrow> bytes list" where
  "page r count c reverse xs = take (nat (checkScanCount count)) (filter (matches r) (after_cursor c reverse xs))"

lemma sScan_ok:
  assumes "sets_ok db" "key_ok k" "buildMatchRegexp compile match = Inr r"
    and "24 * checkScanCount count \<le> 281474976710656"
  shows "sScanGeneric compile db k c count False match reverse = Inr (page r count c reverse (sorted_list_of_set (set_of db k)))"
proof -
  have "encodeDataScanKey db SetType k c = Inr (member_key SetType db k c)" for c by (simp add: encodeDataScanKey_def sets.enc)
  from sets.data_iterator [OF assms(1,2) this] show ?thesis
    using assms(2-4) by (simp add: sScanGeneric_def sscan_loop_ok page_def set_of_def)
qed

lemma hScan_ok:
  assumes "hashes_ok db" "key_ok k" "buildMatchRegexp compile match = Inr r"
    and "48 * checkScanCount count \<le> 281474976710656"
  shows "hScanGeneric compile db k c count False match reverse
    = Inr (map (\<lambda>f. (f, the (hash_of db k f))) (page r count c reverse (sorted_list_of_set (dom (hash_of db k)))))"
proof -
  have "encodeDataScanKey db HashType k c = Inr (member_key HashType db k c)" for c by (simp add: encodeDataScanKey_def hash.enc)
  from hash.data_iterator [OF assms(1,2) this] show ?thesis
    using assms(2-4) by (simp add: hScanGeneric_def hscan_loop_ok page_def)
qed

lemma zScan_ok:
  assumes "zsets_ok db" "key_ok k" "buildMatchRegexp compile match = Inr r"
    and "32 * checkScanCount count \<le> 281474976710656"
  shows "zScanGeneric compile db k c count False match reverse
    = Inr (map (\<lambda>m. (the (zset_of db k m), m)) (page r count c reverse (sorted_list_of_set (dom (zset_of db k)))))"
proof -
  have z: "zindex db" "mem_ok ZSetType ZSizeType db" using assms(1) by (simp_all add: zsets_mem_ok)
  have e: "encodeDataScanKey db ZSetType k c = Inr (member_key ZSetType db k c)" for c by (simp add: encodeDataScanKey_def zset.enc)
  have v: "Int64 (Some (the (mem_of ZSetType db k m))) = Inr (the (zset_of db k m))"
    if m: "m \<in> set (after_cursor c reverse (sorted_list_of_set (dom (mem_of ZSetType db k))))" for m
  proof -
    have "m \<in> dom (zset_of db k)" using m by (auto simp: after_cursor_def split: if_splits)
    then obtain s where s: "zset_of db k m = Some s" by blast
    then have "mem_of ZSetType db k m = Some (PutInt64 s)"
      using zset_of_value [OF z(1)] zset_of_ok [OF s] by (simp add: mem_of_key)
    moreover have "is_int64 s" using zset_of_score_ok [OF z(1) s] score_ok_int64 by blast
    ultimately show ?thesis using s by (simp add: wrap64_id)
  qed
  show ?thesis using zset.data_iterator [OF z(2) assms(2) e] assms(2-4) v
    by (simp add: zScanGeneric_def zscan_loop_ok [where s = "\<lambda>m. the (zset_of db k m)"] page_def)
qed

section \<open>The keys of a data type\<close>

definition tag_keys :: "ledisdb \<Rightarrow> char \<Rightarrow> bytes set" where
  "tag_keys db t = {x. db_get db (indexVarBuf db @ t # x) \<noteq> None}"

lemma finite_tag_keys [simp]: "finite (tag_keys db t)"
proof -
  let ?f = "\<lambda>x. indexVarBuf db @ t # x"
  have "?f x \<in> set (map fst (bucket db))" if x: "x \<in> tag_keys db t" for x
  proof -
    obtain v where "map_of (bucket db) (?f x) = Some v" using x by (auto simp: tag_keys_def sget_def)
    from map_of_SomeD [OF this] show ?thesis by (metis fst_conv image_eqI list.set_map)
  qed
  then have "finite (?f ` tag_keys db t)" by (intro finite_subset [OF image_subsetI finite_set]) blast
  moreover have "inj_on ?f (tag_keys db t)" by (simp add: inj_on_def)
  ultimately show ?thesis by (rule finite_imageD)
qed

lemma tag_range:
  assumes "store_ok (bucket db)" "t < t'" "\<And>e. t < e \<Longrightarrow> t' \<le> e"
  defines "p \<equiv> indexVarBuf db" and "ks \<equiv> sorted_list_of_set (tag_keys db t)"
  shows "filter (\<lambda>q. in_range (Some (p @ t # c)) (Some (p @ [t'])) RangeOpen (fst q)) (bucket db)
      = map (\<lambda>x. (p @ t # x, the (db_get db (p @ t # x)))) (filter (\<lambda>x. c < x) ks)"
    and "filter (\<lambda>q. in_range (Some (p @ [t])) (Some (if c = [] then p @ [t'] else p @ t # c)) RangeOpen (fst q)) (bucket db)
      = map (\<lambda>x. (p @ t # x, the (db_get db (p @ t # x)))) (filter (\<lambda>x. [] < x \<and> (c = [] \<or> x < c)) ks)"
proof -
  have pr: "(p @ [t] \<le> y \<and> y < p @ [t']) \<longleftrightarrow> (\<exists>x. y = p @ t # x)" for y by (rule prefix_range [OF assms(2,3)])
  have gen: "filter (\<lambda>q. R (fst q)) (bucket db) = map (\<lambda>x. (p @ t # x, the (db_get db (p @ t # x)))) (filter P ks)"
    if "\<And>y. R y \<longleftrightarrow> (\<exists>x. y = p @ t # x \<and> P x)" for R P
  proof -
    have "filter (\<lambda>q. R (fst q)) (bucket db) = map (\<lambda>y. (y, the (sget (bucket db) y))) (map (\<lambda>x. p @ t # x) (filter P ks))"
    proof (rule filter_store_eq [OF assms(1)])
      show "sorted_wrt (<) (map (\<lambda>x. p @ t # x) (filter P ks))"
        by (simp add: sorted_wrt_map ks_def sorted_wrt_filter)
      show "y \<in> set (map (\<lambda>x. p @ t # x) (filter P ks)) \<longleftrightarrow> R y \<and> sget (bucket db) y \<noteq> None" for y
      proof -
        have "set ks = tag_keys db t" by (simp add: ks_def)
        moreover have "x \<in> tag_keys db t \<longleftrightarrow> sget (bucket db) (p @ t # x) \<noteq> None" for x by (simp add: tag_keys_def p_def)
        ultimately show ?thesis unfolding that by (auto simp: image_iff simp del: not_None_eq)
      qed
    qed
    then show ?thesis by simp
  qed
  show "filter (\<lambda>q. in_range (Some (p @ t # c)) (Some (p @ [t'])) RangeOpen (fst q)) (bucket db)
      = map (\<lambda>x. (p @ t # x, the (db_get db (p @ t # x)))) (filter (\<lambda>x. c < x) ks)"
  proof (rule gen)
    fix y
    have "p @ [t] \<le> p @ t # c" by (cases c) auto
    from order_trans [OF this less_imp_le, of y]
    have "in_range (Some (p @ t # c)) (Some (p @ [t'])) RangeOpen y \<longleftrightarrow> p @ t # c < y \<and> p @ [t] \<le> y \<and> y < p @ [t']"
      by (auto simp: in_range_def)
    then show "in_range (Some (p @ t # c)) (Some (p @ [t'])) RangeOpen y \<longleftrightarrow> (\<exists>x. y = p @ t # x \<and> c < x)"
      unfolding pr by auto
  qed
  show "filter (\<lambda>q. in_range (Some (p @ [t])) (Some (if c = [] then p @ [t'] else p @ t # c)) RangeOpen (fst q)) (bucket db)
      = map (\<lambda>x. (p @ t # x, the (db_get db (p @ t # x)))) (filter (\<lambda>x. [] < x \<and> (c = [] \<or> x < c)) ks)"
  proof (rule gen)
    fix y
    let ?u = "if c = [] then p @ [t'] else p @ t # c"
    have "?u \<le> p @ [t']" using assms(2) by simp
    then have "in_range (Some (p @ [t])) (Some ?u) RangeOpen y \<longleftrightarrow> p @ [t] < y \<and> y < ?u \<and> p @ [t] \<le> y \<and> y < p @ [t']"
      using less_le_trans [of y ?u "p @ [t']"] by (simp only: in_range_def option.case lopen.simps ropen.simps if_True) auto
    then show "in_range (Some (p @ [t])) (Some ?u) RangeOpen y \<longleftrightarrow> (\<exists>x. y = p @ t # x \<and> [] < x \<and> (c = [] \<or> x < c))"
      unfolding pr using assms(2) by auto
  qed
qed

lemma scan_loop_ok:
  "\<forall>k \<in> set ks. decodeScanKey db t (e k) = Inr k \<Longrightarrow>
     scan_loop db t r (map (\<lambda>k. (e k, g k)) ks) n = take n (filter (matches r) ks)"
  by (induction ks arbitrary: n) (auto simp: take_Cons' split: if_splits)

lemma scan_tags:
  assumes "getDataStoreType dt = Inr t"
  shows "encodeScanKey db t k = Inr (indexVarBuf db @ t # k)" "decodeScanKey db t (indexVarBuf db @ t # k) = Inr k"
    "t < next_byte t" "\<And>e. t < e \<Longrightarrow> next_byte t \<le> e"
  using assms
  by (auto simp: getDataStoreType_def encodeScanKey_def decodeScanKey_def size_key_defs size_decode_defs codec
      next_byte_def less_char_def less_eq_char_def split: DataType.splits)

text \<open>The keys after the cursor, without the empty key.\<close>

lemma Scan_ok:
  assumes "store_ok (bucket db)" "getDataStoreType dt = Inr t" "buildMatchRegexp compile match = Inr r"
    and "24 * checkScanCount count \<le> 281474976710656"
  shows "Scan compile db dt c count False match = Inr (page r count c False (sorted_list_of_set (tag_keys db t - {[]})))"
    and "RevScan compile db dt c count False match = Inr (page r count c True (sorted_list_of_set (tag_keys db t - {[]})))"
proof -
  let ?p = "indexVarBuf db" and ?ks = "sorted_list_of_set (tag_keys db t)"
  note st = scan_tags [OF assms(2)]
  note tr = tag_range [OF assms(1) st(3,4), of c]
  have mx: "encodeScanMaxKey db t c = Inr (if c = [] then ?p @ [next_byte t] else ?p @ t # c)" for c
    by (simp add: encodeScanMaxKey_def st(1) butlast_append)
  have emp: "sorted_list_of_set (tag_keys db t - {[]}) = filter (\<lambda>x. [] < x) ?ks"
  proof (rule strict_sorted_equal)
    have "x \<noteq> [] \<longleftrightarrow> [] < x" for x :: bytes by (cases x) auto
    then show "set (sorted_list_of_set (tag_keys db t - {[]})) = set (filter (\<lambda>x. [] < x) ?ks)" by auto
  qed (simp_all add: sorted_wrt_filter)
  have f1: "filter (\<lambda>x. c < x) (filter (\<lambda>x. [] < x) ?ks) = filter (\<lambda>x. c < x) ?ks"
  proof -
    have "c < x \<Longrightarrow> [] < x" for x :: bytes by (cases x) auto
    then show ?thesis by (auto simp: filter_filter intro!: filter_cong)
  qed
  show "Scan compile db dt c count False match = Inr (page r count c False (sorted_list_of_set (tag_keys db t - {[]})))"
    by (simp add: Scan_def assms(2) scanGeneric_def assms(3,4) buildScanKeyRange_def encodeScanMinKey_def st(1) mx
        buildScanIterator_def rangeLimitIterator_forward [OF assms(1)] tr(1) scan_loop_ok st(2) page_def after_cursor_def emp f1
        del: filter_filter)
  have "filter (\<lambda>x. [] < x \<and> (c = [] \<or> x < c)) ?ks = filter (\<lambda>x. c = [] \<or> x < c) (filter (\<lambda>x. [] < x) ?ks)"
    by (auto simp: filter_filter intro!: filter_cong)
  then show "RevScan compile db dt c count False match = Inr (page r count c True (sorted_list_of_set (tag_keys db t - {[]})))"
    by (simp add: RevScan_def assms(2) scanGeneric_def assms(3,4) buildScanKeyRange_def encodeScanMinKey_def st(1) mx
        buildScanIterator_def rangeLimitIterator_backward [OF assms(1)] tr(2) rev_map scan_loop_ok st(2) page_def after_cursor_def emp
        del: filter_filter)
qed

lemma card_tag_keys: "card (tag_keys db t) \<le> length (bucket db)"
proof -
  let ?f = "\<lambda>x. indexVarBuf db @ t # x"
  have "?f ` tag_keys db t \<subseteq> set (map fst (bucket db))"
  proof (rule image_subsetI)
    fix x assume "x \<in> tag_keys db t"
    then obtain v where "map_of (bucket db) (?f x) = Some v" by (auto simp: tag_keys_def sget_def)
    from map_of_SomeD [OF this] show "?f x \<in> set (map fst (bucket db))" by (metis fst_conv image_eqI list.set_map)
  qed
  then have "card (tag_keys db t) \<le> card (set (map fst (bucket db)))"
    by (intro card_inj_on_le [of ?f]) (auto simp: inj_on_def)
  then show ?thesis using card_length [of "map fst (bucket db)"] by simp
qed

end
