(* ===== verification/CmdScan.thy ===== *)
theory CmdScan
  imports CmdSets LedisScan
begin

text \<open>
  The scan commands (\<open>scan.go\<close>): the handlers in the order of the file, and what a client that
  follows the cursors sees. \<open>compile\<close> stands for \<open>regexp.Compile\<close>.
\<close>

section \<open>Handlers\<close>

record scanCommandGroup =
  lastCursor :: bytes
  parseArgs :: "string list \<Rightarrow> (bytes \<times> string \<times> int \<times> bool) result"

abbreviation (input) nilCursorLedis :: bytes where "nilCursorLedis \<equiv> ''''"
abbreviation (input) nilCursorRedis :: bytes where "nilCursorRedis \<equiv> ''0''"

text \<open>The loop over the options; its result is \<open>match\<close>, \<open>count\<close> and \<open>desc\<close>.\<close>

fun scan_options :: "string list \<Rightarrow> string \<times> int \<times> bool \<Rightarrow> (string \<times> int \<times> bool) result" where
  "scan_options [] opts = Inr opts"
| "scan_options (a # args) (match, count, desc) =
     (if ToUpper a = ''MATCH'' then
        (case args of [] \<Rightarrow> Inl ErrInvalid | b # rest \<Rightarrow> scan_options rest (b, count, desc))
      else if ToUpper a = ''COUNT'' then
        (case args of
           [] \<Rightarrow> Inl ErrInvalid
         | b # rest \<Rightarrow> (case Atoi b of Inl e \<Rightarrow> Inl ErrInvalid | Inr n \<Rightarrow> scan_options rest (match, n, desc)))
      else if ToUpper a = ''ASC'' then scan_options args (match, count, False)
      else if ToUpper a = ''DESC'' then scan_options args (match, count, True)
      else Inl (ErrText (''invalid argument '' @ a)))"

definition parseXScanArgs :: "string list \<Rightarrow> (bytes \<times> string \<times> int \<times> bool) result" where
  "parseXScanArgs args = rbind (scan_options (tl args) ('''', 10, False)) (\<lambda>opts. Inr (hd args, opts))"

definition parseScanArgs :: "string list \<Rightarrow> (bytes \<times> string \<times> int \<times> bool) result" where
  "parseScanArgs args = rbind (parseXScanArgs args) (\<lambda>(cursor, opts).
     Inr (if cursor = nilCursorRedis then nilCursorLedis else cursor, opts))"

definition xScanGroup :: scanCommandGroup where
  "xScanGroup = \<lparr>lastCursor = nilCursorLedis, parseArgs = parseXScanArgs\<rparr>"

definition scanGroup :: scanCommandGroup where
  "scanGroup = \<lparr>lastCursor = nilCursorRedis, parseArgs = parseScanArgs\<rparr>"

text \<open>The reply: \<open>data[0]\<close> is the next cursor, which indexes the last of no items when \<open>count\<close> is not positive.\<close>

definition scan_reply :: "scanCommandGroup \<Rightarrow> int \<Rightarrow> bytes list \<Rightarrow> bytes list \<Rightarrow> reply result" where
  "scan_reply scg count keys vv =
     (if int (length keys) < count
      then Inr (AnyList [Bytes (Some (lastCursor scg)), BytesList (map Some vv)])
      else if keys = [] then Inl Panic
      else Inr (AnyList [Bytes (Some (last keys)), BytesList (map Some vv)]))"

definition key_type :: "string \<Rightarrow> DataType result" where
  "key_type w =
     (if ToUpper w = ''KV'' then Inr KV
      else if ToUpper w = ''HASH'' then Inr HASH
      else if ToUpper w = ''LIST'' then Inr LIST
      else if ToUpper w = ''SET'' then Inr SET
      else if ToUpper w = ''ZSET'' then Inr ZSET
      else Inl (ErrText (''invalid key type '' @ w)))"

definition cmdXSCAN :: "regexp \<Rightarrow> scanCommandGroup \<Rightarrow> handler" where
  "cmdXSCAN compile scg m args db =
     (if length args < 3 then wrong_args db
      else lift_r (rbind (key_type (args ! 1)) (\<lambda>dataType.
             rbind (parseArgs scg (drop 2 args)) (\<lambda>(cursor, match, count, desc).
             rbind (if \<not> desc then Scan compile db dataType cursor count False match
                    else RevScan compile db dataType cursor count False match) (\<lambda>ay.
             scan_reply scg count ay ay)))) db)"

definition cmdXHSCAN :: "regexp \<Rightarrow> scanCommandGroup \<Rightarrow> handler" where
  "cmdXHSCAN compile scg m args db =
     (if length args < 3 then wrong_args db
      else lift_r (rbind (parseArgs scg (drop 2 args)) (\<lambda>(cursor, match, count, desc).
             rbind (if \<not> desc then HScan compile db (args ! 1) cursor count False match
                    else HRevScan compile db (args ! 1) cursor count False match) (\<lambda>ay.
             scan_reply scg count (map fst ay) (concat (map (\<lambda>(f, v). [f, v]) ay))))) db)"

definition cmdXSSCAN :: "regexp \<Rightarrow> scanCommandGroup \<Rightarrow> handler" where
  "cmdXSSCAN compile scg m args db =
     (if length args < 3 then wrong_args db
      else lift_r (rbind (parseArgs scg (drop 2 args)) (\<lambda>(cursor, match, count, desc).
             rbind (if \<not> desc then SScan compile db (args ! 1) cursor count False match
                    else SRevScan compile db (args ! 1) cursor count False match) (\<lambda>ay.
             scan_reply scg count ay ay))) db)"

definition cmdXZSCAN :: "regexp \<Rightarrow> scanCommandGroup \<Rightarrow> handler" where
  "cmdXZSCAN compile scg m args db =
     (if length args < 3 then wrong_args db
      else lift_r (rbind (parseArgs scg (drop 2 args)) (\<lambda>(cursor, match, count, desc).
             rbind (if \<not> desc then ZScan compile db (args ! 1) cursor count False match
                    else ZRevScan compile db (args ! 1) cursor count False match) (\<lambda>ay.
             scan_reply scg count (map snd ay) (concat (map (\<lambda>(s, x). [x, FormatInt s]) ay))))) db)"

section \<open>Properties\<close>

text \<open>
  A client that starts at the cursor \<open>c\<close>, passes each cursor it is answered to the next call and
  stops at the cursor \<open>fin\<close>: the items it collects, within a number of calls.
\<close>

fun follow :: "(bytes \<Rightarrow> reply result) \<Rightarrow> bytes \<Rightarrow> nat \<Rightarrow> bytes \<Rightarrow> bytes list option" where
  "follow call fin 0 c = None"
| "follow call fin (Suc n) c =
     (case call c of
        Inr (AnyList [Bytes (Some c'), BytesList vs]) \<Rightarrow>
          if c' = fin then Some (map the vs) else map_option ((@) (map the vs)) (follow call fin n c')
      | _ \<Rightarrow> None)"

lemma filter_after_take:
  fixes ys :: "'a::linorder list"
  assumes "sorted_wrt (<) ys" "0 < n" "n \<le> length ys"
  shows "filter (\<lambda>x. last (take n ys) < x) ys = drop n ys"
proof -
  have "ys = take n ys @ drop n ys" by simp
  moreover have "take n ys \<noteq> []" using assms by auto
  ultimately obtain as l where ys: "take n ys = as @ [l]" "ys = as @ [l] @ drop n ys"
    by (metis append_assoc append_butlast_last_id)
  then have "sorted_wrt (<) (as @ [l] @ drop n ys)" using assms(1) by metis
  then have "\<forall>a \<in> set as. \<not> l < a" "\<forall>d \<in> set (drop n ys). l < d"
    by (auto simp: sorted_wrt_append dest: order.asym)
  then have "filter (\<lambda>x. l < x) (as @ [l] @ drop n ys) = drop n ys"
    by (simp add: filter_id_conv filter_empty_conv)
  then show ?thesis using ys by (metis last_snoc)
qed

lemma follow_pages:
  assumes "sorted_wrt (<) xs" "[] \<notin> set xs" "0 < n"
    and call: "\<And>c. call c = (let P = take n (filter (\<lambda>x. c < x) xs) in
      Inr (AnyList [Bytes (Some (if length P < n then [] else last P)), BytesList (map Some (concat (map f P)))]))"
  shows "length (filter (\<lambda>x. c < x) xs) < fuel \<Longrightarrow>
    follow call [] fuel c = Some (concat (map f (filter (\<lambda>x. c < x) xs)))"
proof (induction fuel arbitrary: c)
  case (Suc fuel)
  let ?ys = "filter (\<lambda>x. c < x) xs"
  have the: "map (the \<circ> Some) zs = zs" for zs :: "bytes list" by (induction zs) auto
  show ?case
  proof (cases "length ?ys < n")
    case True
    then show ?thesis by (simp add: call Let_def the)
  next
    case False
    let ?l = "last (take n ?ys)"
    have ne: "take n ?ys \<noteq> []" using False assms(3) by auto
    have l: "?l \<in> set xs" using last_in_set [OF ne] in_set_takeD [of ?l n ?ys] by auto
    have "c < ?l" using last_in_set [OF ne] in_set_takeD [of ?l n ?ys] by auto
    then have "filter (\<lambda>x. ?l < x) xs = filter (\<lambda>x. ?l < x) ?ys"
      by (auto simp: filter_filter intro!: filter_cong dest: less_trans)
    also have "\<dots> = drop n ?ys"
      using False assms(1,3) by (intro filter_after_take) (simp_all add: sorted_wrt_filter)
    finally have rest: "filter (\<lambda>x. ?l < x) xs = drop n ?ys" .
    have "length (filter (\<lambda>x. ?l < x) xs) < fuel" using Suc.prems assms(3) False unfolding rest by simp
    note IH = Suc.IH [OF this, unfolded rest]
    have "?l \<noteq> []" using l assms(2) by metis
    moreover have "concat (map f (take n ?ys)) @ concat (map f (drop n ?ys)) = concat (map f ?ys)"
      by (metis append_take_drop_id concat_append map_append)
    ultimately show ?thesis using False IH by (simp add: call Let_def the)
  qed
qed simp

lemma xscan_options:
  assumes "is_int64 n"
  shows "parseXScanArgs [c, ''MATCH'', p, ''COUNT'', FormatInt n] = Inr (c, p, n, False)"
proof -
  have "ToUpper ''MATCH'' = ''MATCH''" "ToUpper ''COUNT'' = ''COUNT''" by code_simp+
  then show ?thesis using assms by (simp add: parseXScanArgs_def Atoi_def ParseInt_FormatInt)
qed

lemma scan_reply_page:
  assumes "0 < n"
  shows "scan_reply xScanGroup n (page (Some r) n c False xs) vs
    = (let P = take (nat n) (filter (\<lambda>x. c < x) (filter r xs)) in
        Inr (AnyList [Bytes (Some (if length P < nat n then [] else last P)), BytesList (map Some vs)]))"
proof -
  have "page (Some r) n c False xs = take (nat n) (filter (\<lambda>x. c < x) (filter r xs))"
    using assms by (simp add: page_def checkScanCount_def after_cursor_def matches_def conj_commute)
  then show ?thesis using assms by (auto simp: scan_reply_def xScanGroup_def Let_def)
qed

text \<open>
  C8: A client that follows the cursors of \<open>XSCAN\<close>, \<open>XHSCAN\<close>, \<open>XSSCAN\<close> or \<open>XZSCAN\<close> from the empty
  cursor reaches the end after finitely many calls and has then been answered every key or
  member that matches the pattern exactly once, in increasing order, hash fields with their
  values and sorted-set members with their scores, for every page size \<open>n\<close> whose result slice can
  be allocated.
\<close>

theorem scan_complete:
  fixes m :: machine and cmd :: string
  assumes "sets_ok db" "hashes_ok db" "zsets_ok db" "key_ok k" "0 < n" "is_int64 n" "compile p = Inr r" "p \<noteq> []"
    and "getDataStoreType dt = Inr t" "key_type w = Inr dt" "fuel > length (bucket db)"
    and "48 * n \<le> 2 ^ 48"
  defines "query \<equiv> \<lambda>h a c. fst (h compile xScanGroup m [cmd, a, c, ''MATCH'', p, ''COUNT'', FormatInt n] db)"
  shows "follow (query cmdXSCAN w) '''' fuel '''' = Some (filter r (sorted_list_of_set (tag_keys db t - {[]}))) \<and>
    follow (query cmdXSSCAN k) '''' fuel '''' = Some (filter r (sorted_list_of_set (set_of db k))) \<and>
    follow (query cmdXHSCAN k) '''' fuel '''' = Some (concat (map (\<lambda>f. [f, the (hash_of db k f)])
      (filter r (sorted_list_of_set (dom (hash_of db k)))))) \<and>
    follow (query cmdXZSCAN k) '''' fuel '''' = Some (concat (map (\<lambda>x. [x, FormatInt (the (zset_of db k x))])
      (filter r (sorted_list_of_set (dom (zset_of db k))))))"
proof -
  have rx: "buildMatchRegexp compile p = Inr (Some r)" using assms(7,8) by (simp add: buildMatchRegexp_def)
  have st: "store_ok (bucket db)" using assms(1) by (simp add: mem_ok_def)
  have ne: "[] \<notin> dom (mem_of T db k)" for T using dom_mem_of_ok [of "[]" T db k] by (auto simp: key_ok_def)
  have grp: "parseArgs xScanGroup = parseXScanArgs" by (simp add: xScanGroup_def)
  have pages: "follow call '''' fuel '''' = Some (concat (map f (filter r xs)))"
    if s: "sorted_wrt (<) xs" "[] \<notin> set xs" "length xs \<le> length (bucket db)"
      and call: "\<And>c. call c = scan_reply xScanGroup n (page (Some r) n c False xs) (concat (map f (page (Some r) n c False xs)))"
    for call xs and f :: "bytes \<Rightarrow> bytes list"
  proof -
    have pg: "page (Some r) n c False xs = take (nat n) (filter (\<lambda>x. c < x) (filter r xs))" for c
      using assms(5) by (simp add: page_def checkScanCount_def after_cursor_def matches_def conj_commute)
    have all: "filter (\<lambda>x. [] < x) (filter r xs) = filter r xs"
    proof (rule filter_True, rule ballI)
      fix x assume "x \<in> set (filter r xs)"
      then have "x \<noteq> []" using s(2) by auto
      then show "[] < x" by (auto simp: neq_Nil_conv)
    qed
    have "length (filter (\<lambda>x. [] < x) (filter r xs)) < fuel"
      using s(3) assms(11) length_filter_le [of r xs] unfolding all by linarith
    then have "follow call [] fuel [] = Some (concat (map f (filter (\<lambda>x. [] < x) (filter r xs))))"
      using s(1,2) assms(5) call scan_reply_page [OF assms(5), of r _ xs] unfolding pg
      by (intro follow_pages [where n = "nat n"]) (simp_all add: sorted_wrt_filter Let_def)
    then show ?thesis unfolding all .
  qed
  have single: "concat (map (\<lambda>x. [x]) ys) = ys" for ys :: "bytes list" by (induction ys) auto
  have keys: "sorted_wrt (<) (sorted_list_of_set (dom (mem_of T db k)))" "[] \<notin> set (sorted_list_of_set (dom (mem_of T db k)))"
    "length (sorted_list_of_set (dom (mem_of T db k))) \<le> length (bucket db)" for T
    using ne card_dom_mem_of [of T db k] by simp_all
  have tags: "sorted_wrt (<) (sorted_list_of_set (tag_keys db t - {[]}))" "[] \<notin> set (sorted_list_of_set (tag_keys db t - {[]}))"
    "length (sorted_list_of_set (tag_keys db t - {[]})) \<le> length (bucket db)"
    using card_tag_keys [of db t] card_mono [of "tag_keys db t" "tag_keys db t - {[]}"] by simp_all
  note xs = xscan_options [OF assms(6)]
  have fits: "z * checkScanCount n \<le> 281474976710656" if "z \<le> 48" for z
  proof -
    have "z * n \<le> 48 * n" using that assms(5) by (intro mult_right_mono) simp_all
    also have "\<dots> \<le> 281474976710656" using assms(12) by simp
    finally show ?thesis using assms(5) by (simp add: checkScanCount_def)
  qed
  have "follow (query cmdXSCAN w) [] fuel [] = Some (filter r (sorted_list_of_set (tag_keys db t - {[]})))"
    using pages [OF tags, of "query cmdXSCAN w" "\<lambda>x. [x]"]
    by (simp add: query_def cmdXSCAN_def assms(10) grp xs Scan_ok [OF st assms(9) rx fits] single)
  moreover have "follow (query cmdXSSCAN k) [] fuel [] = Some (filter r (sorted_list_of_set (set_of db k)))"
    using pages [OF keys, of "query cmdXSSCAN k" SetType "\<lambda>x. [x]"]
    by (simp add: query_def cmdXSSCAN_def grp xs SScan_def sScan_ok [OF assms(1,4) rx fits] single set_of_def)
  moreover have "follow (query cmdXHSCAN k) [] fuel [] = Some (concat (map (\<lambda>f. [f, the (hash_of db k f)])
      (filter r (sorted_list_of_set (dom (hash_of db k))))))"
    using pages [OF keys, of "query cmdXHSCAN k" HashType "\<lambda>f. [f, the (hash_of db k f)]"]
    by (simp add: query_def cmdXHSCAN_def grp xs HScan_def hScan_ok [OF assms(2,4) rx fits] o_def)
  moreover have "follow (query cmdXZSCAN k) [] fuel [] = Some (concat (map (\<lambda>x. [x, FormatInt (the (zset_of db k x))])
      (filter r (sorted_list_of_set (dom (zset_of db k))))))"
    using pages [OF keys, of "query cmdXZSCAN k" ZSetType "\<lambda>x. [x, FormatInt (the (zset_of db k x))]"]
    by (simp add: query_def cmdXZSCAN_def grp xs ZScan_def zScan_ok [OF assms(3,4) rx fits] o_def)
  ultimately show ?thesis by blast
qed

theorem scan_complete_witness:
  "follow (\<lambda>c. fst (cmdXSSCAN (\<lambda>p. Inr (\<lambda>x. True)) xScanGroup node
     [''XSSCAN'', ''s'', c, ''MATCH'', ''.'', ''COUNT'', FormatInt 1] (db_set ''s'' [''a'', ''b'']))) '''' 9 '''' = Some [''a'', ''b'']"
proof -
  let ?db = "db_set ''s'' [''a'', ''b'']" and ?rx = "\<lambda>p :: string. Inr (\<lambda>x :: bytes. True) :: (bytes \<Rightarrow> bool) result"
  have kp: "keeps SetType db0 ?db" by (rule keeps_set(1))
  have ok: "sets_ok ?db" "hashes_ok ?db" "zsets_ok ?db"
    using db_set_sample(4) hash.members_keeps(2) [OF kp _ hash.mem_ok_db0(1)] zsets_keeps(2) [OF kp] zset_db0(1)
    by (simp_all add: zset_inv_def)
  have len: "9 > length (bucket ?db)" by code_simp
  have t: "getDataStoreType KV = Inr KVType" "key_type ''kv'' = Inr KV" by code_simp+
  have k: "key_ok ''s''" "(0 :: int) < 1" "is_int64 1" "?rx ''.'' = Inr (\<lambda>x. True)" "''.'' \<noteq> []"
    by (simp_all add: key_ok_def is_int64_def)
  from scan_complete [OF ok k t len _, of node "''XSSCAN''"]
  have "follow (\<lambda>c. fst (cmdXSSCAN ?rx xScanGroup node [''XSSCAN'', ''s'', c, ''MATCH'', ''.'', ''COUNT'', FormatInt 1] ?db)) '''' 9 ''''
      = Some (filter (\<lambda>x. True) (sorted_list_of_set (set_of ?db ''s'')))" by simp
  then show ?thesis by (simp add: db_set_sample(3))
qed

text \<open>
  Three ways a scan goes wrong. A client of the Redis-style scans stops at cursor \<open>0\<close>, so that a
  set whose first member is named \<open>0\<close> is answered only up to it. \<open>COUNT 0\<close> on a set without
  members panics. And so does a \<open>COUNT\<close> too large for the result slice, whatever the set holds.
\<close>

theorem scan_faults:
  assumes "sets_ok db" "key_ok k"
  shows "(sorted_list_of_set (set_of db k) = ''0'' # xs \<longrightarrow>
      follow (\<lambda>c. fst (cmdXSSCAN compile scanGroup m [cmd, k, c, ''COUNT'', ''1''] db)) ''0'' (Suc fuel) ''0'' = Some [''0'']) \<and>
    (set_of db k = {} \<longrightarrow> cmdXSSCAN compile scanGroup m [cmd, k, ''0'', ''COUNT'', ''0''] db = (Inl Panic, db)) \<and>
    (is_int64 n \<and> 2 ^ 48 < 24 * n \<longrightarrow>
      cmdXSSCAN compile scanGroup m [cmd, k, ''0'', ''COUNT'', FormatInt n] db = (Inl Panic, db))"
proof -
  have rx: "buildMatchRegexp compile '''' = Inr None" by (simp add: buildMatchRegexp_def)
  have opt: "parseArgs scanGroup [''0'', ''COUNT'', ''1''] = Inr ('''', '''', 1, False)"
    "parseArgs scanGroup [''0'', ''COUNT'', ''0''] = Inr ('''', '''', 0, False)" by code_simp+
  have small: "24 * checkScanCount 1 \<le> 281474976710656" "24 * checkScanCount 0 \<le> 281474976710656"
    by (simp_all add: checkScanCount_def)
  have "cmdXSSCAN compile scanGroup m [cmd, k, ''0'', ''COUNT'', ''1''] db = (scan_reply scanGroup 1 [''0''] [''0''], db)"
    if "sorted_list_of_set (set_of db k) = ''0'' # xs"
    using opt(1) that
    by (simp add: cmdXSSCAN_def SScan_def sScan_ok [OF assms rx small(1)] lift_r_def page_def checkScanCount_def after_cursor_def matches_def)
  moreover have "cmdXSSCAN compile scanGroup m [cmd, k, ''0'', ''COUNT'', ''0''] db = (scan_reply scanGroup 0 [] [], db)"
    if "set_of db k = {}"
    using opt(2) that by (simp add: cmdXSSCAN_def SScan_def sScan_ok [OF assms rx small(2)] lift_r_def page_def after_cursor_def)
  moreover have "cmdXSSCAN compile scanGroup m [cmd, k, ''0'', ''COUNT'', FormatInt n] db = (Inl Panic, db)"
    if n: "is_int64 n" "2 ^ 48 < 24 * n"
  proof -
    have "ToUpper ''COUNT'' = ''COUNT''" "ToUpper ''COUNT'' \<noteq> ''MATCH''" by code_simp+
    then have "parseArgs scanGroup [''0'', ''COUNT'', FormatInt n] = Inr ('''', '''', n, False)"
      using n(1) by (simp add: scanGroup_def parseScanArgs_def parseXScanArgs_def Atoi_def ParseInt_FormatInt)
    moreover have "make_slice 24 (checkScanCount n) = Inl Panic"
      using n(2) by (auto simp: checkScanCount_def intro: make_slice_panic)
    ultimately show ?thesis by (simp add: cmdXSSCAN_def SScan_def sScanGeneric_def rx lift_r_def)
  qed
  ultimately show ?thesis by (simp add: scan_reply_def scanGroup_def)
qed

theorem scan_faults_witness:
  "cmdXSSCAN (\<lambda>p. Inr (\<lambda>x. True)) scanGroup node [''SSCAN'', ''s'', ''0'', ''COUNT'', ''0''] db0 = (Inl Panic, db0)"
  using scan_faults [OF set_db0(3), of "''s''" "[]" "\<lambda>p. Inr (\<lambda>x. True)" node "''SSCAN''"]
  by (simp add: key_ok_def set_db0(2))

end
