(* ===== verification/LedisFlush.thy ===== *)
theory LedisFlush
  imports LedisKV LedisList LedisScan
begin

text \<open>
  \<open>FlushAll\<close> (\<open>ledis/ledis_db.go\<close>): for each data type it scans a page of 1024 keys, deletes them,
  commits, and scans again until a page is empty. A batch keeps its operations over its commits
  until it is unlocked, so every commit of a data type repeats those before it. The loop may
  run forever: it is a partial function, and not to return is \<open>None\<close>.
\<close>

section \<open>Operations\<close>

text \<open>\<open>zDelete\<close> drops the error of \<open>zRemRange\<close>; what the batch holds by then stays in it.\<close>

definition zDelete :: "ledisdb \<Rightarrow> bytes \<Rightarrow> (int \<times> bop list) result" where
  "zDelete db key =
     (if length key > MaxKeySize then Inr (0, [])
      else rbind (zremrange_loop db key (zIterator db key MinScore MaxScore 0 (-1) False)) (\<lambda>(num, ops).
        case zIncrSize db key (- num) of
          Inl e \<Rightarrow> if e = Panic then Inl Panic else Inr (0, ops)
        | Inr (_, sops) \<Rightarrow> Inr (num, ops @ sops)))"

fun dataType_byte :: "DataType \<Rightarrow> char" where
  "dataType_byte KV = KVType"
| "dataType_byte LIST = ListType"
| "dataType_byte HASH = HashType"
| "dataType_byte SET = SetType"
| "dataType_byte ZSET = ZSetType"

fun deleteFunc :: "DataType \<Rightarrow> ledisdb \<Rightarrow> bytes \<Rightarrow> (int \<times> bop list) result" where
  "deleteFunc KV db key = Inr (delete db key)"
| "deleteFunc LIST db key = lDelete db key"
| "deleteFunc HASH db key = Inr (hDelete db key)"
| "deleteFunc SET db key = Inr (sDelete db key)"
| "deleteFunc ZSET db key = zDelete db key"

text \<open>What the loop over the keys of a page adds to the batch.\<close>

fun flush_ops :: "DataType \<Rightarrow> ledisdb \<Rightarrow> bytes list \<Rightarrow> bop list result" where
  "flush_ops dt db [] = Inr []"
| "flush_ops dt db (key # keys) =
     rbind (deleteFunc dt db key) (\<lambda>(_, ops).
     rbind (flush_ops dt db keys) (\<lambda>rest. Inr (ops @ rmExpire_ops db (dataType_byte dt) key @ rest)))"

partial_function (option) flush_loop :: "regexp \<Rightarrow> DataType \<Rightarrow> bop list \<Rightarrow> int \<Rightarrow> ledisdb \<Rightarrow> (int result \<times> ledisdb) option" where
  "flush_loop compile dt t dropped db =
     (case rbind (getDataStoreType dt) (\<lambda>metaDataType. scanGeneric compile db metaDataType [] 1024 False [] False) of
        Inl e \<Rightarrow>
          (case Commit t db of (Inl e, db') \<Rightarrow> Some (Inl e, db') | (Inr _, db') \<Rightarrow> flush_loop compile dt t dropped db')
      | Inr keys \<Rightarrow>
          if keys = [] then Some (Inr dropped, db)
          else (case flush_ops dt db keys of
                  Inl e \<Rightarrow> Some (Inl e, db)
                | Inr ops \<Rightarrow>
                    (case Commit (t @ ops) db of
                       (Inl e, db') \<Rightarrow> Some (Inl e, db')
                     | (Inr _, db') \<Rightarrow> flush_loop compile dt (t @ ops) (wrap64 (dropped + int (length keys))) db')))"

definition flushType :: "regexp \<Rightarrow> DataType \<Rightarrow> ledisdb \<Rightarrow> (int result \<times> ledisdb) option" where
  "flushType compile dt db = flush_loop compile dt [] 0 db"

text \<open>The loop of \<open>FlushAll\<close> over the data types.\<close>

fun flush_types :: "regexp \<Rightarrow> DataType list \<Rightarrow> int \<Rightarrow> ledisdb \<Rightarrow> (int result \<times> ledisdb) option" where
  "flush_types compile [] dropped db = Some (Inr dropped, db)"
| "flush_types compile (dt # dts) dropped db =
     (case flushType compile dt db of
        None \<Rightarrow> None
      | Some (Inl e, db') \<Rightarrow> Some (Inl e, db')
      | Some (Inr n, db') \<Rightarrow> flush_types compile dts (wrap64 (dropped + n)) db')"

definition FlushAll :: "regexp \<Rightarrow> ledisdb \<Rightarrow> (int result \<times> ledisdb) option" where
  "FlushAll compile db = flush_types compile [KV, LIST, HASH, ZSET, SET] 0 db"

section \<open>The loop over one data type\<close>

text \<open>Records are only taken away.\<close>

definition shrinks :: "ledisdb \<Rightarrow> ledisdb \<Rightarrow> bool" where
  "shrinks db db' \<longleftrightarrow> indexVarBuf db' = indexVarBuf db \<and> length (bucket db') \<le> length (bucket db) \<and>
     (\<forall>x. db_get db' x = None \<or> db_get db' x = db_get db x)"

lemma shrinks_refl [simp]: "shrinks db db"
  by (simp add: shrinks_def)

lemma shrinks_trans: "shrinks a b \<Longrightarrow> shrinks b c \<Longrightarrow> shrinks a c"
  unfolding shrinks_def by (metis le_trans)

lemma shrinks_ttl_ok: "shrinks db db' \<Longrightarrow> ttl_ok db \<Longrightarrow> ttl_ok db'"
  unfolding shrinks_def by (elim conjE, rule ttl_ok_cong [of db db']) blast+

lemma length_deletes: "length (apply_batch (map BDel xs) s) \<le> length s"
proof (induction xs arbitrary: s)
  case (Cons x xs)
  have "length (sdel x s) \<le> length s" by (simp add: sdel_def)
  then show ?case using Cons [of "sdel x s"] by simp
qed simp

lemma shrinks_deletes: "shrinks db (db\<lparr>bucket := apply_batch (map BDel xs) (bucket db)\<rparr>)"
  using length_deletes by (simp add: shrinks_def sget_apply_batch_deletes)

lemma deletes_absent: "\<forall>x \<in> set xs. sget s x = None \<Longrightarrow> apply_batch (map BDel xs) s = s"
proof (induction xs)
  case (Cons x xs)
  then have "x \<notin> fst ` set s" by (simp add: sget_def map_of_eq_None_iff)
  then have "sdel x s = s" by (auto simp: sdel_def intro!: filter_True)
  then show ?case using Cons by simp
qed simp

text \<open>The keys of a data type are sizes that the layer accepts.\<close>

definition meta_ok :: "char \<Rightarrow> ledisdb \<Rightarrow> bool" where
  "meta_ok t db \<longleftrightarrow> (\<forall>k \<in> tag_keys db t. key_ok k)"

lemma tag_keys_deletes:
  "tag_keys (db\<lparr>bucket := apply_batch (map BDel xs) (bucket db)\<rparr>) t = {k \<in> tag_keys db t. indexVarBuf db @ t # k \<notin> set xs}"
  by (auto simp: tag_keys_def sget_apply_batch_deletes)

lemma shrinks_meta_ok: "shrinks db db' \<Longrightarrow> meta_ok t db \<Longrightarrow> meta_ok t db'"
  unfolding shrinks_def meta_ok_def tag_keys_def by (metis (mono_tags, lifting) mem_Collect_eq)

lemma first_page:
  assumes "store_ok (bucket db)" "getDataStoreType dt = Inr t" "meta_ok t db"
  shows "scanGeneric compile db t [] 1024 False [] False = Inr (take 1024 (sorted_list_of_set (tag_keys db t)))"
proof -
  have "buildMatchRegexp compile [] = Inr None" by (simp add: buildMatchRegexp_def)
  note s = Scan_ok(1) [OF assms(1,2) this, of 1024 "[]"]
  have "[] \<notin> tag_keys db t" using assms(3) by (auto simp: meta_ok_def key_ok_def)
  moreover have "filter (\<lambda>x. [] < x) (sorted_list_of_set (tag_keys db t)) = sorted_list_of_set (tag_keys db t)"
    if "[] \<notin> tag_keys db t"
  proof (rule filter_True, rule ballI)
    fix x assume "x \<in> set (sorted_list_of_set (tag_keys db t))"
    then have "x \<noteq> []" using that by auto
    then show "[] < x" by (simp add: neq_Nil_conv) auto
  qed
  ultimately show ?thesis
    using s assms(2) by (simp add: checkScanCount_def Scan_def page_def after_cursor_def matches_def [abs_def] checkScanCount_def)
qed

locale flushing =
  fixes dt :: DataType and t :: char and I :: "ledisdb \<Rightarrow> bool"
  assumes tag: "getDataStoreType dt = Inr t"
    and inv: "I db \<Longrightarrow> store_ok (bucket db) \<and> meta_ok t db"
    and page: "I db \<Longrightarrow> \<not> readonly db \<Longrightarrow> room 0 db \<Longrightarrow> \<forall>k \<in> set ks. key_ok k \<Longrightarrow> ks \<noteq> [] \<Longrightarrow>
      \<exists>xs. flush_ops dt db ks = Inr (map BDel xs) \<and> (\<forall>k. indexVarBuf db @ t # k \<in> set xs \<longleftrightarrow> k \<in> set ks) \<and>
        (\<forall>x \<in> set xs. owner db x = Some (dataType_byte dt)) \<and> I (db\<lparr>bucket := apply_batch (map BDel xs) (bucket db)\<rparr>)"
begin

lemma loop_ends:
  assumes "I db" "\<not> readonly db" "room 0 db" "\<forall>x \<in> set ys. db_get db x = None" "is_int64 dropped"
  shows "\<exists>db'. flush_loop compile dt (map BDel ys) dropped db = Some (Inr (wrap64 (dropped + int (card (tag_keys db t)))), db') \<and>
    I db' \<and> tag_keys db' t = {} \<and> keeps (dataType_byte dt) db db' \<and> shrinks db db'"
  using assms
proof (induction "card (tag_keys db t)" arbitrary: db ys dropped rule: less_induct)
  case less
  let ?all = "sorted_list_of_set (tag_keys db t)"
  define ks where "ks = take 1024 ?all"
  have inv: "store_ok (bucket db)" "meta_ok t db" using inv less.prems(1) by auto
  have scan: "rbind (getDataStoreType dt) (\<lambda>m. scanGeneric compile db m [] 1024 False [] False) = Inr ks"
    using first_page [OF inv(1) tag inv(2)] tag by (simp add: ks_def)
  have sub: "set ks \<subseteq> tag_keys db t" using set_take_subset [of 1024 ?all] by (simp add: ks_def)
  show ?case
  proof (cases "ks = []")
    case True
    then have "tag_keys db t = {}" by (simp add: ks_def)
    then show ?thesis using less.prems scan True by (subst flush_loop.simps) simp
  next
    case False
    have "\<forall>k \<in> set ks. key_ok k" using sub inv(2) by (auto simp: meta_ok_def)
    then obtain xs where xs: "flush_ops dt db ks = Inr (map BDel xs)" "\<And>k. indexVarBuf db @ t # k \<in> set xs \<longleftrightarrow> k \<in> set ks"
      "\<forall>x \<in> set xs. owner db x = Some (dataType_byte dt)" "I (db\<lparr>bucket := apply_batch (map BDel xs) (bucket db)\<rparr>)"
      using page [OF less.prems(1-3) _ False] by blast
    let ?db = "db\<lparr>bucket := apply_batch (map BDel xs) (bucket db)\<rparr>"
    have tk: "tag_keys ?db t = tag_keys db t - set ks" by (auto simp: tag_keys_deletes xs(2))
    have "distinct ks" by (simp add: ks_def)
    then have card: "card (tag_keys db t) = card (tag_keys ?db t) + length ks"
      using sub card_mono [OF finite_tag_keys sub] by (simp add: tk card_Diff_subset distinct_card)
    have "Commit (map BDel ys @ map BDel xs) db = (Inr (), ?db)"
      using less.prems(2,4) by (simp add: Commit_def deletes_absent)
    then have step: "flush_loop compile dt (map BDel ys) dropped db
        = flush_loop compile dt (map BDel (ys @ xs)) (wrap64 (dropped + int (length ks))) ?db"
      using scan False xs(1) by (subst flush_loop.simps) simp
    have k1: "keeps (dataType_byte dt) db ?db"
      using keeps_Commit [of "map BDel xs" db "dataType_byte dt"] xs(3) less.prems(2) by (simp add: Commit_def)
    have "\<exists>db'. flush_loop compile dt (map BDel (ys @ xs)) (wrap64 (dropped + int (length ks))) ?db
        = Some (Inr (wrap64 (wrap64 (dropped + int (length ks)) + int (card (tag_keys ?db t)))), db') \<and>
        I db' \<and> tag_keys db' t = {} \<and> keeps (dataType_byte dt) ?db db' \<and> shrinks ?db db'"
    proof (rule less.hyps)
      show "card (tag_keys ?db t) < card (tag_keys db t)" using card False by simp
      show "room 0 ?db" using less.prems(3) length_deletes [of xs "bucket db"] by (simp add: room_def)
      show "\<forall>x \<in> set (ys @ xs). db_get ?db x = None" using less.prems(4) by (auto simp: sget_apply_batch_deletes)
    qed (use less.prems(2) xs(4) in simp_all)
    then show ?thesis
      unfolding step card wrap64_add_wrap64 using keeps_trans [OF k1] shrinks_trans [OF shrinks_deletes]
      by (auto simp: algebra_simps)
  qed
qed

end

section \<open>The data types\<close>

text \<open>The records of an expiry that \<open>rmExpire\<close> deletes.\<close>

definition exp_keys :: "ledisdb \<Rightarrow> char \<Rightarrow> bytes \<Rightarrow> bytes list" where
  "exp_keys db T k = map op_key (rmExpire_ops db T k)"

lemma rmExpire_exp_keys: "rmExpire_ops db T k = map BDel (exp_keys db T k)"
  using rmExpire_deletes [of db T k] by (auto simp: exp_keys_def)

lemma exp_keys_cases:
  "x \<in> set (exp_keys db T k) \<Longrightarrow> (\<exists>w. x = expEncodeTimeKey db T k w) \<or> x = expEncodeMetaKey db T k"
  using rmExpire_op_keys [of "BDel x" db T k] by (simp add: rmExpire_exp_keys)

lemma exp_keys_owner: "x \<in> set (exp_keys db T k) \<Longrightarrow> owner db x = Some T"
  using exp_keys_cases by fastforce

lemma exp_keys_tag: "t \<noteq> ExpMetaType \<Longrightarrow> t \<noteq> ExpTimeType \<Longrightarrow> indexVarBuf db @ t # j \<notin> set (exp_keys db T k)"
  using exp_keys_cases [of _ db T k] by (fastforce simp: exp_key_defs)

lemma flush_ops_deletes:
  "\<forall>k \<in> set ks. \<exists>n. deleteFunc dt db k = Inr (n, map BDel (ds k)) \<Longrightarrow>
     flush_ops dt db ks = Inr (map BDel (concat (map (\<lambda>k. ds k @ exp_keys db (dataType_byte dt) k) ks)))"
  by (induction ks) (auto simp: rmExpire_exp_keys)

lemma page_tags:
  assumes "t \<noteq> ExpMetaType" "t \<noteq> ExpTimeType" "\<forall>k \<in> set ks. \<forall>j. indexVarBuf db @ t # j \<in> set (ds k) \<longleftrightarrow> j = k"
  shows "indexVarBuf db @ t # j \<in> set (concat (map (\<lambda>k. ds k @ exp_keys db T k) ks)) \<longleftrightarrow> j \<in> set ks"
  using assms exp_keys_tag [OF assms(1,2), of db j T] by auto

lemma page_owner:
  "\<forall>k \<in> set ks. \<forall>x \<in> set (ds k). owner db x = Some T \<Longrightarrow>
     \<forall>x \<in> set (concat (map (\<lambda>k. ds k @ exp_keys db T k) ks)). owner db x = Some T"
  using exp_keys_owner by auto

subsection \<open>Strings\<close>

definition kv_inv :: "ledisdb \<Rightarrow> bool" where
  "kv_inv db \<longleftrightarrow> store_ok (bucket db) \<and> meta_ok KVType db"

interpretation kv_flush: flushing KV KVType kv_inv
proof unfold_locales
  fix db and ks :: "bytes list"
  assume "kv_inv db"
  then have i: "store_ok (bucket db)" "meta_ok KVType db" by (simp_all add: kv_inv_def)
  let ?ds = "\<lambda>k. [encodeKVKey db k]"
  let ?xs = "concat (map (\<lambda>k. ?ds k @ exp_keys db KVType k) ks)"
  have "flush_ops KV db ks = Inr (map BDel ?xs)"
    using flush_ops_deletes [of ks KV db ?ds] by (simp add: delete_def)
  moreover have "\<forall>k. indexVarBuf db @ KVType # k \<in> set ?xs \<longleftrightarrow> k \<in> set ks"
    by (intro allI page_tags) (auto simp: encodeKVKey_def)
  moreover have "\<forall>x \<in> set ?xs. owner db x = Some KVType" by (rule page_owner) simp
  moreover have "kv_inv (db\<lparr>bucket := apply_batch (map BDel ?xs) (bucket db)\<rparr>)"
    using i shrinks_meta_ok [OF shrinks_deletes i(2)] by (simp add: kv_inv_def)
  ultimately show "\<exists>xs. flush_ops KV db ks = Inr (map BDel xs) \<and> (\<forall>k. indexVarBuf db @ KVType # k \<in> set xs \<longleftrightarrow> k \<in> set ks) \<and>
      (\<forall>x \<in> set xs. owner db x = Some (dataType_byte KV)) \<and> kv_inv (db\<lparr>bucket := apply_batch (map BDel xs) (bucket db)\<rparr>)"
    by (intro exI [of _ ?xs]) simp
qed (simp_all add: kv_inv_def getDataStoreType_def)

subsection \<open>Lists\<close>

lemma flush_ops_LIST: "\<forall>k \<in> set ks. key_ok k \<Longrightarrow> flush_ops LIST db ks = lmclear_ops db ks"
  by (induction ks) (simp_all add: checkKeySize_eq)

lemma lmclear_ops_total:
  "lists_ok db \<Longrightarrow> \<forall>k \<in> set ks. key_ok k \<Longrightarrow> \<exists>ops. lmclear_ops db ks = Inr ops"
proof (induction ks)
  case (Cons k ks)
  then obtain h where "list_rep db k h (list_of db k)" using lists_okE [of db k] by auto
  from lDelete_ok [OF Cons.prems(1) _ this] show ?case using Cons by (auto simp: checkKeySize_eq)
qed simp

lemma list_op_owner: "list_op db k (BDel x) \<Longrightarrow> owner db x = Some ListType"
  by (auto simp: list_op_def)

lemma list_op_meta: "list_op db k (BDel (indexVarBuf db @ LMetaType # j)) \<Longrightarrow> j = k"
  by (auto simp: list_op_def lEncodeMetaKey_def lEncodeListKey_def elem_key_def exp_key_defs)

interpretation list_flush: flushing LIST LMetaType "\<lambda>db. list_inv db \<and> meta_ok LMetaType db"
proof unfold_locales
  fix db and ks :: "bytes list"
  assume i: "list_inv db \<and> meta_ok LMetaType db" and ro: "\<not> readonly db" and ks: "\<forall>k \<in> set ks. key_ok k"
  have lo: "lists_ok db" using i by (simp add: list_inv_def)
  obtain ops where ops: "lmclear_ops db ks = Inr ops" using lmclear_ops_total [OF lo ks] by blast
  obtain xs where xs: "ops = map BDel xs" "\<forall>k \<in> set ks. lEncodeMetaKey db k \<in> set xs" "\<forall>x \<in> set xs. \<exists>k \<in> set ks. list_op db k (BDel x)"
    using lmclear_deletes [OF lo ops] by auto
  let ?db = "db\<lparr>bucket := apply_batch (map BDel xs) (bucket db)\<rparr>"
  have "\<forall>k. indexVarBuf db @ LMetaType # k \<in> set xs \<longleftrightarrow> k \<in> set ks"
    using xs(2,3) list_op_meta [of db] by (auto simp: lEncodeMetaKey_def)
  moreover have "\<forall>x \<in> set xs. owner db x = Some ListType" using xs(3) list_op_owner by blast
  moreover have "list_inv ?db"
    using list_inv_mclear [of db ks] i ops ro xs(1) by (simp add: LMclear_def lift_r_def)
  ultimately show "\<exists>xs. flush_ops LIST db ks = Inr (map BDel xs) \<and> (\<forall>k. indexVarBuf db @ LMetaType # k \<in> set xs \<longleftrightarrow> k \<in> set ks) \<and>
      (\<forall>x \<in> set xs. owner db x = Some (dataType_byte LIST)) \<and>
      (list_inv (db\<lparr>bucket := apply_batch (map BDel xs) (bucket db)\<rparr>) \<and> meta_ok LMetaType (db\<lparr>bucket := apply_batch (map BDel xs) (bucket db)\<rparr>))"
    using i shrinks_meta_ok [OF shrinks_deletes] by (intro exI [of _ xs]) (simp add: flush_ops_LIST [OF ks] ops xs(1))
qed (auto simp: list_inv_def lists_ok_def getDataStoreType_def)

subsection \<open>Hashes and sets\<close>

lemma clear_keys_tag:
  "T \<noteq> S \<Longrightarrow> indexVarBuf db @ S # j \<in> set (clear_keys T (indexVarBuf db @ S # k) db k) \<longleftrightarrow> j = k"
  by (auto simp: clear_keys_def member_key_def elem_key_def)

lemma clear_keys_owner:
  "type_of_tag T = Some T \<Longrightarrow> type_of_tag S = Some T \<Longrightarrow> T \<noteq> ExpMetaType \<Longrightarrow> T \<noteq> ExpTimeType \<Longrightarrow>
     S \<noteq> ExpMetaType \<Longrightarrow> S \<noteq> ExpTimeType \<Longrightarrow> x \<in> set (clear_keys T (indexVarBuf db @ S # k) db k) \<Longrightarrow> owner db x = Some T"
  by (auto simp: clear_keys_def member_key_def elem_key_def owner_def owner_tail_def)

interpretation hash_flush: flushing HASH HSizeType "\<lambda>db. hash_inv db \<and> meta_ok HSizeType db"
proof unfold_locales
  fix db and ks :: "bytes list"
  assume i: "hash_inv db \<and> meta_ok HSizeType db" and ks: "\<forall>k \<in> set ks. key_ok k"
  have ok: "hashes_ok db" "ttl_ok db" using i by (simp_all add: hash_inv_def)
  let ?ds = "\<lambda>k. clear_keys HashType (hEncodeSizeKey db k) db k"
  let ?xs = "concat (map (\<lambda>k. ?ds k @ exp_keys db HashType k) ks)"
  have "flush_ops HASH db ks = Inr (map BDel ?xs)"
    using flush_ops_deletes [of ks HASH db ?ds] ks hDelete_ok [OF ok(1)] by simp
  moreover have "\<forall>k. indexVarBuf db @ HSizeType # k \<in> set ?xs \<longleftrightarrow> k \<in> set ks"
    by (intro allI page_tags) (simp_all add: hash.sk clear_keys_tag)
  moreover have "\<forall>x \<in> set ?xs. owner db x = Some HashType"
    by (intro page_owner ballI, rule clear_keys_owner [where S = HSizeType]) (simp_all add: hash.sk type_of_tag_def)
  moreover have "hash_inv (db\<lparr>bucket := apply_batch (map BDel ?xs) (bucket db)\<rparr>)"
    using hash.clear_many [OF ok ks] by (simp add: hash_inv_def rmExpire_exp_keys map_concat o_def)
  ultimately show "\<exists>xs. flush_ops HASH db ks = Inr (map BDel xs) \<and> (\<forall>k. indexVarBuf db @ HSizeType # k \<in> set xs \<longleftrightarrow> k \<in> set ks) \<and>
      (\<forall>x \<in> set xs. owner db x = Some (dataType_byte HASH)) \<and>
      (hash_inv (db\<lparr>bucket := apply_batch (map BDel xs) (bucket db)\<rparr>) \<and> meta_ok HSizeType (db\<lparr>bucket := apply_batch (map BDel xs) (bucket db)\<rparr>))"
    using i shrinks_meta_ok [OF shrinks_deletes] by (intro exI [of _ ?xs]) simp
qed (auto simp: hash_inv_def mem_ok_def getDataStoreType_def)

interpretation set_flush: flushing SET SSizeType "\<lambda>db. set_inv db \<and> meta_ok SSizeType db"
proof unfold_locales
  fix db and ks :: "bytes list"
  assume i: "set_inv db \<and> meta_ok SSizeType db" and ks: "\<forall>k \<in> set ks. key_ok k"
  have ok: "sets_ok db" "ttl_ok db" using i by (simp_all add: set_inv_def)
  let ?ds = "\<lambda>k. clear_keys SetType (sEncodeSizeKey db k) db k"
  let ?xs = "concat (map (\<lambda>k. ?ds k @ exp_keys db SetType k) ks)"
  have "flush_ops SET db ks = Inr (map BDel ?xs)"
    using flush_ops_deletes [of ks SET db ?ds] ks sDelete_ok [OF ok(1)] by simp
  moreover have "\<forall>k. indexVarBuf db @ SSizeType # k \<in> set ?xs \<longleftrightarrow> k \<in> set ks"
    by (intro allI page_tags) (simp_all add: sets.sk clear_keys_tag)
  moreover have "\<forall>x \<in> set ?xs. owner db x = Some SetType"
    by (intro page_owner ballI, rule clear_keys_owner [where S = SSizeType]) (simp_all add: sets.sk type_of_tag_def)
  moreover have "set_inv (db\<lparr>bucket := apply_batch (map BDel ?xs) (bucket db)\<rparr>)"
    using sets.clear_many [OF ok ks] by (simp add: set_inv_def rmExpire_exp_keys map_concat o_def)
  ultimately show "\<exists>xs. flush_ops SET db ks = Inr (map BDel xs) \<and> (\<forall>k. indexVarBuf db @ SSizeType # k \<in> set xs \<longleftrightarrow> k \<in> set ks) \<and>
      (\<forall>x \<in> set xs. owner db x = Some (dataType_byte SET)) \<and>
      (set_inv (db\<lparr>bucket := apply_batch (map BDel xs) (bucket db)\<rparr>) \<and> meta_ok SSizeType (db\<lparr>bucket := apply_batch (map BDel xs) (bucket db)\<rparr>))"
    using i shrinks_meta_ok [OF shrinks_deletes] by (intro exI [of _ ?xs]) simp
qed (auto simp: set_inv_def mem_ok_def getDataStoreType_def)

subsection \<open>Sorted sets\<close>

text \<open>The records of a sorted set.\<close>

definition zrecords :: "ledisdb \<Rightarrow> bytes \<Rightarrow> bytes list" where
  "zrecords db k = concat (map (\<lambda>(s, m). [member_key ZSetType db k m, zEncodeScoreKey db k m s]) (zlist db k)) @
     zEncodeSizeKey db k # exp_keys db ZSetType k"

lemma zDelete_ok:
  assumes "zset_inv db" "key_ok k" "room 0 db"
  shows "zDelete db k = Inr (int (length (zlist db k)), map BDel (zrecords db k))"
proof -
  have z: "zindex db" and mo: "mem_ok ZSetType ZSizeType db" using assms(1) by (auto simp: zset_inv_def zsets_mem_ok)
  have n: "length (zlist db k) = card (dom (mem_of ZSetType db k))" by (simp add: length_zlist)
  have "limit 0 (- 1) (zlist db k) = zlist db k" by (simp add: limit_def)
  then have it: "zIterator db k MinScore MaxScore 0 (-1) False = map (zentry db k) (zlist db k)"
    using zIterator_eq [OF z assms(2), of MinScore MaxScore 0 "-1" False] by (simp add: zbetween_all [OF z] is_int64_def)
  have sz: "zIncrSize db k (- int (length (zlist db k))) = Inr (0, BDel (zEncodeSizeKey db k) # map BDel (exp_keys db ZSetType k))"
    using zset.incr_size_down [OF mo assms(2,3), of "length (zlist db k)"]
    by (simp add: n zIncrSize_def size_ops_def rmExpire_exp_keys)
  have "map BDel (zrecords db k) = concat (map (\<lambda>(s, m). [BDel (member_key ZSetType db k m), BDel (zEncodeScoreKey db k m s)]) (zlist db k)) @
      BDel (zEncodeSizeKey db k) # map BDel (exp_keys db ZSetType k)"
    by (simp add: zrecords_def map_concat o_def case_prod_unfold)
  moreover have "\<not> length k > MaxKeySize" using assms(2) by (simp add: key_ok_def)
  ultimately show ?thesis
    using zremrange_loop_ok [OF z assms(2) subset_refl] by (simp add: zDelete_def it sz)
qed

lemma zrecords_iff:
  assumes "zset_inv db" "key_ok k" "key_ok j"
  shows "key_ok m \<Longrightarrow> member_key ZSetType db j m \<in> set (zrecords db k) \<longleftrightarrow> j = k \<and> zset_of db k m \<noteq> None"
    "key_ok m \<Longrightarrow> is_int64 s \<Longrightarrow> zEncodeScoreKey db j m s \<in> set (zrecords db k) \<longleftrightarrow> j = k \<and> zset_of db k m = Some s"
    "zEncodeSizeKey db j \<in> set (zrecords db k) \<longleftrightarrow> j = k"
proof -
  have z: "zindex db" using assms(1) by (auto simp: zset_inv_def zsets_ok_def)
  have i: "is_int64 s" if "zset_of db k m = Some s" for s m using zset_of_score_ok [OF z that] by simp
  have e: "member_key ZSetType db j m \<notin> set (exp_keys db ZSetType k)" "zEncodeScoreKey db j m s \<notin> set (exp_keys db ZSetType k)"
    "zEncodeSizeKey db j \<notin> set (exp_keys db ZSetType k)" for m s
    using exp_keys_tag [of _ db _ ZSetType k] by (auto simp: member_key_def elem_key_def zEncodeScoreKey_def zEncodeSizeKey_def)
  have ne: "member_key ZSetType db j m \<noteq> zEncodeSizeKey db k" for m
    by (simp add: member_key_def elem_key_def zEncodeSizeKey_def)
  show "key_ok m \<Longrightarrow> member_key ZSetType db j m \<in> set (zrecords db k) \<longleftrightarrow> j = k \<and> zset_of db k m \<noteq> None"
    using assms(2,3) e ne by (auto simp: zrecords_def member_key_inj)
  show "key_ok m \<Longrightarrow> is_int64 s \<Longrightarrow> zEncodeScoreKey db j m s \<in> set (zrecords db k) \<longleftrightarrow> j = k \<and> zset_of db k m = Some s"
    using assms(2,3) e i by (auto simp: zrecords_def score_key_inj)
  show "zEncodeSizeKey db j \<in> set (zrecords db k) \<longleftrightarrow> j = k"
    using e by (auto simp: zrecords_def zEncodeSizeKey_def member_key_def elem_key_def zEncodeScoreKey_def)
qed

lemma zclear_many:
  assumes inv: "zset_inv db" and ks: "\<forall>k \<in> set ks. key_ok k"
  defines "db' \<equiv> db\<lparr>bucket := apply_batch (map BDel (concat (map (\<lambda>k. zrecords db k @ exp_keys db ZSetType k) ks))) (bucket db)\<rparr>"
  shows "zset_inv db'" "zset_of db' = (\<lambda>k. if k \<in> set ks then Map.empty else zset_of db k)"
proof -
  define xs where "xs = concat (map (\<lambda>k. zrecords db k @ exp_keys db ZSetType k) ks)"
  have db': "db' = db\<lparr>bucket := apply_batch (map BDel xs) (bucket db)\<rparr>" unfolding db'_def xs_def ..
  have z: "zindex db" using inv by (auto simp: zset_inv_def zsets_ok_def)
  have get: "db_get db' x = (if x \<in> set xs then None else db_get db x)" for x by (simp add: db' sget_apply_batch_deletes)
  have e: "member_key ZSetType db j m \<notin> set (exp_keys db ZSetType k)" "zEncodeScoreKey db j m s \<notin> set (exp_keys db ZSetType k)"
    "zEncodeSizeKey db j \<notin> set (exp_keys db ZSetType k)" for j m s k
    using exp_keys_tag [of _ db _ ZSetType k] by (auto simp: member_key_def elem_key_def zEncodeScoreKey_def zEncodeSizeKey_def)
  have mk: "member_key ZSetType db j m \<in> set xs \<longleftrightarrow> j \<in> set ks \<and> zset_of db j m \<noteq> None" if "key_ok j" "key_ok m" for j m
    using zrecords_iff(1) [OF inv _ that] ks e by (auto simp: xs_def simp del: not_None_eq)
  have sk: "zEncodeScoreKey db j m s \<in> set xs \<longleftrightarrow> j \<in> set ks" if "zset_of db j m = Some s" for j m s
    using zrecords_iff(2) [OF inv, of _ j m s] zset_of_ok [OF that] zset_of_score_ok [OF z that] ks e that by (auto simp: xs_def)
  have nk: "zEncodeSizeKey db j \<in> set xs \<longleftrightarrow> j \<in> set ks" if "key_ok j" for j
    using zrecords_iff(3) [OF inv _ that] ks e by (auto simp: xs_def)
  have ib: "indexVarBuf db' = indexVarBuf db" "zEncodeScoreKey db' = zEncodeScoreKey db" "zEncodeSizeKey db' = zEncodeSizeKey db"
    "member_key ZSetType db' = member_key ZSetType db"
    by (simp_all add: db')
  have mem: "mem_of ZSetType db' j m = (if j \<in> set ks then None else mem_of ZSetType db j m)" for j m
    using mk [of j m] by (auto simp: mem_of_def get zset_of_def ib)
  then show zs: "zset_of db' = (\<lambda>k. if k \<in> set ks then Map.empty else zset_of db k)"
    by (auto simp: zset_of_def fun_eq_iff)
  have ix: "(\<exists>k m s. zset_of db' k m = Some s \<and> x = zEncodeScoreKey db k m s) \<longleftrightarrow>
      x \<notin> set xs \<and> (\<exists>k m s. zset_of db k m = Some s \<and> x = zEncodeScoreKey db k m s)" for x
    using sk by (auto simp: zs split: if_splits)
  have "store_ok (bucket db')" using z by (simp add: db' zindex_def)
  then have "zindex db'"
    using z unfolding zindex_def ib ix get mem by (auto simp del: not_None_eq split: if_splits)
  moreover have none: "size_rec 0 = None" by (simp add: size_rec_def)
  have "\<forall>k. key_ok k \<longrightarrow> db_get db' (zEncodeSizeKey db k) = size_rec (card (dom (zset_of db' k)))"
    using inv nk by (auto simp: get zs zset_inv_def zsets_ok_def none simp del: dom_zset_of)
  moreover have "ttl_ok db'" using inv shrinks_ttl_ok [OF shrinks_deletes [of db xs]] by (simp add: db' zset_inv_def)
  ultimately show "zset_inv db'" by (simp add: zset_inv_def zsets_ok_def ib)
qed

lemma zset_inv_parts: "zset_inv db \<Longrightarrow> store_ok (bucket db)"
  by (simp add: zset_inv_def zsets_ok_def zindex_def)

interpretation zset_flush: flushing ZSET ZSizeType "\<lambda>db. zset_inv db \<and> meta_ok ZSizeType db"
proof unfold_locales
  fix db and ks :: "bytes list"
  assume i: "zset_inv db \<and> meta_ok ZSizeType db" and r: "room 0 db" and ks: "\<forall>k \<in> set ks. key_ok k"
  let ?xs = "concat (map (\<lambda>k. zrecords db k @ exp_keys db ZSetType k) ks)"
  have "flush_ops ZSET db ks = Inr (map BDel ?xs)"
    using flush_ops_deletes [of ks ZSET db "zrecords db"] ks i r zDelete_ok by simp
  moreover have "\<forall>k \<in> set ks. \<forall>j. indexVarBuf db @ ZSizeType # j \<in> set (zrecords db k) \<longleftrightarrow> j = k"
    using exp_keys_tag [of ZSizeType db _ ZSetType]
    by (auto simp: zrecords_def zEncodeSizeKey_def member_key_def elem_key_def zEncodeScoreKey_def)
  then have "\<forall>k. indexVarBuf db @ ZSizeType # k \<in> set ?xs \<longleftrightarrow> k \<in> set ks"
    using page_tags [of ZSizeType ks db "zrecords db"] by simp
  moreover have "\<forall>x \<in> set ?xs. owner db x = Some ZSetType"
  proof (rule page_owner, intro ballI)
    fix k x assume "x \<in> set (zrecords db k)"
    then show "owner db x = Some ZSetType"
      using exp_keys_owner [of x db ZSetType k] by (auto simp: zrecords_def zset.enc [symmetric])
  qed
  ultimately show "\<exists>xs. flush_ops ZSET db ks = Inr (map BDel xs) \<and> (\<forall>k. indexVarBuf db @ ZSizeType # k \<in> set xs \<longleftrightarrow> k \<in> set ks) \<and>
      (\<forall>x \<in> set xs. owner db x = Some (dataType_byte ZSET)) \<and>
      (zset_inv (db\<lparr>bucket := apply_batch (map BDel xs) (bucket db)\<rparr>) \<and> meta_ok ZSizeType (db\<lparr>bucket := apply_batch (map BDel xs) (bucket db)\<rparr>))"
    using i zclear_many(1) [OF _ ks] shrinks_meta_ok [OF shrinks_deletes] by (intro exI [of _ ?xs]) simp
qed (auto simp: zset_inv_parts getDataStoreType_def)

section \<open>All data types\<close>

fun meta_tag :: "DataType \<Rightarrow> char" where
  "meta_tag KV = KVType"
| "meta_tag LIST = LMetaType"
| "meta_tag HASH = HSizeType"
| "meta_tag SET = SSizeType"
| "meta_tag ZSET = ZSizeType"

text \<open>The records of every data type are well formed, and the expiry records are readable.\<close>

definition db_inv :: "ledisdb \<Rightarrow> bool" where
  "db_inv db \<longleftrightarrow> list_inv db \<and> hash_inv db \<and> set_inv db \<and> zset_inv db \<and> (\<forall>dt. meta_ok (meta_tag dt) db)"

lemma db_inv_store: "db_inv db \<Longrightarrow> store_ok (bucket db)"
  by (simp add: db_inv_def zset_inv_parts)

text \<open>An operation that keeps the other data types.\<close>

lemma db_inv_step:
  assumes "db_inv db" "keeps T db db'" "ttl_ok db'" "\<forall>dt. meta_ok (meta_tag dt) db'"
    and "T = ListType \<Longrightarrow> list_inv db'" "T = HashType \<Longrightarrow> hash_inv db'" "T = SetType \<Longrightarrow> set_inv db'" "T = ZSetType \<Longrightarrow> zset_inv db'"
  shows "db_inv db'"
proof -
  have "list_inv db'" using assms(1,3,5) lists_of_keeps [OF assms(2)] by (cases "T = ListType") (auto simp: db_inv_def list_inv_def)
  moreover have "hash_inv db'"
    using assms(1,3,6) hash.members_keeps(2) [OF assms(2)] by (cases "T = HashType") (auto simp: db_inv_def hash_inv_def)
  moreover have "set_inv db'"
    using assms(1,3,7) sets.members_keeps(2) [OF assms(2)] by (cases "T = SetType") (auto simp: db_inv_def set_inv_def)
  moreover have "zset_inv db'"
    using assms(1,3,8) zsets_keeps(2) [OF assms(2)] by (cases "T = ZSetType") (auto simp: db_inv_def zset_inv_def)
  ultimately show ?thesis using assms(4) by (simp add: db_inv_def)
qed

lemma keeps_tag_keys:
  assumes "keeps T db db'" "owner_tail (t # []) \<noteq> Some T" "t \<noteq> ExpMetaType" "t \<noteq> ExpTimeType"
  shows "tag_keys db' t = tag_keys db t"
  using assms by (auto simp: keeps_def tag_keys_def owner_def owner_tail_def)

lemma flush_step:
  assumes "db_inv db" "\<not> readonly db" "room 0 db"
  shows "\<exists>db'. flushType compile dt db = Some (Inr (wrap64 (int (card (tag_keys db (meta_tag dt))))), db') \<and> db_inv db' \<and>
    tag_keys db' (meta_tag dt) = {} \<and> keeps (dataType_byte dt) db db' \<and> shrinks db db'"
proof -
  have kv: "kv_inv db" using assms(1) db_inv_store [OF assms(1)] by (auto simp: db_inv_def kv_inv_def dest: spec [of _ KV])
  have m: "meta_ok (meta_tag d) db" for d using assms(1) by (simp add: db_inv_def)
  have "\<exists>db'. flush_loop compile dt (map BDel []) 0 db = Some (Inr (wrap64 (0 + int (card (tag_keys db (meta_tag dt))))), db') \<and>
      tag_keys db' (meta_tag dt) = {} \<and> keeps (dataType_byte dt) db db' \<and> shrinks db db' \<and>
      (dt = LIST \<longrightarrow> list_inv db') \<and> (dt = HASH \<longrightarrow> hash_inv db') \<and> (dt = SET \<longrightarrow> set_inv db') \<and> (dt = ZSET \<longrightarrow> zset_inv db')"
  proof (cases dt)
    case KV
    show ?thesis using kv_flush.loop_ends [OF kv assms(2,3), of "[]" 0 compile] KV by (auto simp: is_int64_def)
  next
    case LIST
    show ?thesis using list_flush.loop_ends [OF _ assms(2,3), of "[]" 0 compile] LIST assms(1) m [of LIST] by (auto simp: is_int64_def db_inv_def)
  next
    case HASH
    show ?thesis using hash_flush.loop_ends [OF _ assms(2,3), of "[]" 0 compile] HASH assms(1) m [of HASH] by (auto simp: is_int64_def db_inv_def)
  next
    case SET
    show ?thesis using set_flush.loop_ends [OF _ assms(2,3), of "[]" 0 compile] SET assms(1) m [of SET] by (auto simp: is_int64_def db_inv_def)
  next
    case ZSET
    show ?thesis using zset_flush.loop_ends [OF _ assms(2,3), of "[]" 0 compile] ZSET assms(1) m [of ZSET] by (auto simp: is_int64_def db_inv_def)
  qed
  then obtain db' where db': "flushType compile dt db = Some (Inr (wrap64 (int (card (tag_keys db (meta_tag dt))))), db')"
    "tag_keys db' (meta_tag dt) = {}" "keeps (dataType_byte dt) db db'" "shrinks db db'"
    "(dt = LIST \<longrightarrow> list_inv db') \<and> (dt = HASH \<longrightarrow> hash_inv db') \<and> (dt = SET \<longrightarrow> set_inv db') \<and> (dt = ZSET \<longrightarrow> zset_inv db')"
    by (auto simp: flushType_def)
  have "db_inv db'"
  proof (rule db_inv_step [OF assms(1) db'(3)])
    show "ttl_ok db'" using shrinks_ttl_ok [OF db'(4)] assms(1) by (simp add: db_inv_def list_inv_def)
    show "\<forall>dt. meta_ok (meta_tag dt) db'" using shrinks_meta_ok [OF db'(4)] m by blast
  qed (use db'(5) in \<open>cases dt; simp\<close>)+
  then show ?thesis using db' by blast
qed

definition num_keys :: "ledisdb \<Rightarrow> nat" where
  "num_keys db = (\<Sum>t \<in> {KVType, LMetaType, HSizeType, SSizeType, ZSizeType}. card (tag_keys db t))"

lemma num_keys_le: "num_keys db \<le> length (bucket db)"
proof -
  let ?tags = "{KVType, LMetaType, HSizeType, SSizeType, ZSizeType}" and ?f = "\<lambda>t x. indexVarBuf db @ t # x"
  have "num_keys db = (\<Sum>t \<in> ?tags. card (?f t ` tag_keys db t))"
    unfolding num_keys_def by (intro sum.cong refl card_image [symmetric]) (simp add: inj_on_def)
  also have "\<dots> = card (\<Union>t \<in> ?tags. ?f t ` tag_keys db t)"
    by (intro card_UN_disjoint [symmetric]) (auto simp: image_iff)
  also have "\<dots> \<le> card (fst ` set (bucket db))"
  proof (rule card_mono)
    show "(\<Union>t \<in> ?tags. ?f t ` tag_keys db t) \<subseteq> fst ` set (bucket db)"
      unfolding tag_keys_def sget_def by (auto dest!: map_of_SomeD intro: rev_image_eqI)
  qed simp
  also have "\<dots> \<le> length (bucket db)" using card_image_le [of "set (bucket db)" fst] card_length [of "bucket db"] by simp
  finally show ?thesis .
qed

lemma keeps_readonly: "keeps T db db' \<Longrightarrow> readonly db' = readonly db"
  by (simp add: keeps_def)

lemma shrinks_room: "shrinks db db' \<Longrightarrow> room n db \<Longrightarrow> room n db'"
  by (simp add: shrinks_def room_def)

text \<open>Flushing several types, each once: the types flushed are empty, the number of their keys is the answer.\<close>

lemma meta_tags: "owner_tail [meta_tag dt] = Some (dataType_byte dt)" "meta_tag dt \<noteq> ExpMetaType" "meta_tag dt \<noteq> ExpTimeType"
  by (cases dt; simp add: owner_tail_def type_of_tag_def)+

lemma dataType_byte_inj: "dataType_byte dt = dataType_byte dt' \<longleftrightarrow> dt = dt'"
  by (cases dt; cases dt'; simp)

lemma flush_types_ok:
  assumes "db_inv db" "\<not> readonly db" "room 0 db" "distinct dts" "is_int64 n"
  shows "\<exists>db'. flush_types compile dts n db = Some (Inr (wrap64 (n + (\<Sum>dt \<leftarrow> dts. int (card (tag_keys db (meta_tag dt)))))), db') \<and>
    db_inv db' \<and> (\<forall>dt. tag_keys db' (meta_tag dt) = (if dt \<in> set dts then {} else tag_keys db (meta_tag dt))) \<and> shrinks db db' \<and>
    readonly db' = readonly db"
  using assms
proof (induction dts arbitrary: db n)
  case (Cons dt dts)
  obtain d where d: "flushType compile dt db = Some (Inr (wrap64 (int (card (tag_keys db (meta_tag dt))))), d)" "db_inv d"
    "tag_keys d (meta_tag dt) = {}" "keeps (dataType_byte dt) db d" "shrinks db d"
    using flush_step [OF Cons.prems(1-3)] by blast
  have tk: "tag_keys d (meta_tag u) = (if u = dt then {} else tag_keys db (meta_tag u))" for u
    using keeps_tag_keys [OF d(4), of "meta_tag u"] d(3) by (auto simp: meta_tags dataType_byte_inj)
  have "(\<Sum>u \<leftarrow> dts. int (card (tag_keys d (meta_tag u)))) = (\<Sum>u \<leftarrow> dts. int (card (tag_keys db (meta_tag u))))"
    using Cons.prems(4) by (intro arg_cong [of _ _ sum_list] map_cong) (auto simp: tk)
  moreover have "wrap64 (n + wrap64 c) = wrap64 (n + c)" for c using wrap64_add_wrap64 [of c n] by (simp add: add.commute)
  ultimately have "\<exists>db'. flush_types compile dts (wrap64 (n + wrap64 (int (card (tag_keys db (meta_tag dt)))))) d
      = Some (Inr (wrap64 (n + (\<Sum>dt \<leftarrow> dt # dts. int (card (tag_keys db (meta_tag dt)))))), db') \<and>
    db_inv db' \<and> (\<forall>u. tag_keys db' (meta_tag u) = (if u \<in> set dts then {} else tag_keys d (meta_tag u))) \<and> shrinks d db' \<and> readonly db' = readonly d"
    using Cons.IH [OF d(2), of "wrap64 (n + wrap64 (int (card (tag_keys db (meta_tag dt)))))"] Cons.prems(2-4) keeps_readonly [OF d(4)]
      shrinks_room [OF d(5)] by (simp add: wrap64_add_wrap64 algebra_simps)
  then show ?case using d(1) tk shrinks_trans [OF d(5)] keeps_readonly [OF d(4)] by auto
qed simp

lemma db_inv_empty:
  assumes "db_inv db" "\<forall>dt. tag_keys db (meta_tag dt) = {}"
  shows "kv_of db = Map.empty" "list_of db = (\<lambda>_. [])" "hash_of db = (\<lambda>_. Map.empty)" "set_of db = (\<lambda>_. {})" "zset_of db = (\<lambda>_. Map.empty)"
proof -
  have t: "db_get db (indexVarBuf db @ meta_tag dt # k) = None" for dt k using assms(2) by (auto simp: tag_keys_def)
  have none: "mem_of T db = (\<lambda>_. Map.empty)" if "mem_ok T (meta_tag dt) db" for T dt
  proof -
    have "mem_of T db k = Map.empty" if "key_ok k" for k
      using \<open>mem_ok T (meta_tag dt) db\<close> that t [of dt k] finite_dom_mem_of [of T db k]
      by (auto simp: mem_ok_def size_rec_def split: if_splits)
    moreover have "\<not> key_ok k \<Longrightarrow> mem_of T db k = Map.empty" for k by (simp add: mem_of_def fun_eq_iff)
    ultimately show ?thesis by blast
  qed
  show "kv_of db = Map.empty" using t [of KV] by (simp add: kv_of_def encodeKVKey_def fun_eq_iff)
  show "list_of db = (\<lambda>_. [])" using t [of LIST] by (simp add: list_of_def lGetMeta_def lEncodeMetaKey_def fun_eq_iff)
  show "hash_of db = (\<lambda>_. Map.empty)" using none [of HashType HASH] assms(1) by (simp add: db_inv_def hash_inv_def)
  show "set_of db = (\<lambda>_. {})" using none [of SetType SET] assms(1) by (simp add: db_inv_def set_inv_def set_of_def fun_eq_iff)
  show "zset_of db = (\<lambda>_. Map.empty)"
    using none [of ZSetType ZSET] assms(1) by (simp add: db_inv_def zset_inv_def zsets_mem_ok zset_of_def fun_eq_iff)
qed

lemma FlushAll_ok:
  assumes "db_inv db" "\<not> readonly db" "room 0 db"
  shows "\<exists>db'. FlushAll compile db = Some (Inr (int (num_keys db)), db') \<and> db_inv db' \<and> num_keys db' = 0 \<and> shrinks db db' \<and> \<not> readonly db' \<and>
    kv_of db' = Map.empty \<and> list_of db' = (\<lambda>_. []) \<and> hash_of db' = (\<lambda>_. Map.empty) \<and> set_of db' = (\<lambda>_. {}) \<and> zset_of db' = (\<lambda>_. Map.empty)"
proof -
  let ?dts = "[KV, LIST, HASH, ZSET, SET]"
  have all: "dt \<in> set ?dts" for dt by (cases dt) simp_all
  obtain db' where db': "FlushAll compile db = Some (Inr (wrap64 (\<Sum>dt \<leftarrow> ?dts. int (card (tag_keys db (meta_tag dt))))), db')"
    "db_inv db'" "\<forall>dt. tag_keys db' (meta_tag dt) = {}" "shrinks db db'" "\<not> readonly db'"
    using flush_types_ok [OF assms(1-3), of ?dts 0 compile] all assms(2) unfolding FlushAll_def by (auto simp: is_int64_def)
  have n: "(\<Sum>dt \<leftarrow> ?dts. int (card (tag_keys db (meta_tag dt)))) = int (num_keys db)" by (simp add: num_keys_def)
  have "is_int64 (int (num_keys db))" using num_keys_le [of db] assms(3) by (auto simp: room_def is_int64_def)
  then have "FlushAll compile db = Some (Inr (int (num_keys db)), db')" using db'(1) unfolding n by simp
  moreover have "num_keys db' = 0"
    using db'(3) [rule_format, of KV] db'(3) [rule_format, of LIST] db'(3) [rule_format, of HASH] db'(3) [rule_format, of SET]
      db'(3) [rule_format, of ZSET] by (simp add: num_keys_def)
  ultimately show ?thesis using db'(2,4,5) db_inv_empty [OF db'(2,3)] by blast
qed

section \<open>A loop that does not end\<close>

text \<open>
  A sorted set whose size record counts members that the score index does not have: \<open>zDelete\<close>
  finds no member and writes the size back, so the key comes up in every page.
\<close>

definition stuck :: "bytes \<Rightarrow> int \<Rightarrow> ledisdb \<Rightarrow> bool" where
  "stuck k n db \<longleftrightarrow> store_ok (bucket db) \<and> \<not> readonly db \<and> key_ok k \<and> 0 < n \<and> is_int64 n \<and> tag_keys db ZSizeType = {k} \<and>
     db_get db (zEncodeSizeKey db k) = Some (PutInt64 n) \<and> (\<forall>r. db_get db (indexVarBuf db @ ZScoreType # r) = None)"

definition stuck_op :: "ledisdb \<Rightarrow> bytes \<Rightarrow> int \<Rightarrow> bop \<Rightarrow> bool" where
  "stuck_op db k n op \<longleftrightarrow> op = BPut (zEncodeSizeKey db k) (PutInt64 n) \<or> 
     (\<exists>x. op = BDel x \<and> ((\<exists>w. x = expEncodeTimeKey db ZSetType k w) \<or> x = expEncodeMetaKey db ZSetType k))"

lemma stuck_commit:
  assumes "stuck k n db" "\<forall>op \<in> set t. stuck_op db k n op"
  shows "stuck k n (db\<lparr>bucket := apply_batch t (bucket db)\<rparr>)"
proof -
  have "sget s (zEncodeSizeKey db k) = Some (PutInt64 n) \<Longrightarrow> \<forall>op \<in> set t. stuck_op db k n op \<Longrightarrow>
      sget (apply_batch t s) (zEncodeSizeKey db k) = Some (PutInt64 n)" for s
    by (induction t arbitrary: s) (auto simp: stuck_op_def store_simps)
  moreover have o: "sget (apply_batch t (bucket db)) (indexVarBuf db @ c # r) = db_get db (indexVarBuf db @ c # r)"
    if "c \<noteq> ExpMetaType" "c \<noteq> ExpTimeType" "indexVarBuf db @ c # r \<noteq> zEncodeSizeKey db k" for c r
    using assms(2) that by (intro sget_apply_batch_other) (auto simp: stuck_op_def exp_key_defs)
  moreover have "tag_keys (db\<lparr>bucket := apply_batch t (bucket db)\<rparr>) ZSizeType = {k}"
  proof -
    have "sget (apply_batch t (bucket db)) (indexVarBuf db @ ZSizeType # j) \<noteq> None \<longleftrightarrow> j = k" for j
      using assms(1) calculation(1) [of "bucket db"] o [of ZSizeType j] assms(2)
      by (cases "j = k") (auto simp: stuck_def zEncodeSizeKey_def tag_keys_def)
    then show ?thesis by (auto simp: tag_keys_def)
  qed
  ultimately show ?thesis using assms by (simp add: stuck_def) (simp add: zEncodeSizeKey_def)
qed

lemma stuck_zDelete:
  assumes "stuck k n db"
  shows "zDelete db k = Inr (0, [BPut (zEncodeSizeKey db k) (PutInt64 n)])"
proof -
  let ?R = "in_range (Some (zEncodeStartScoreKey db k MinScore)) (Some (zEncodeStopScoreKey db k MaxScore)) RangeClose"
  have "\<not> ?R (fst p)" if p: "p \<in> set (bucket db)" for p
  proof
    assume r: "?R (fst p)"
    have s: "ZScoreType < next_byte ZScoreType" "\<And>e. ZScoreType < e \<Longrightarrow> next_byte ZScoreType \<le> e"
      by (simp_all add: next_byte_def less_char_def less_eq_char_def)
    have pre: "indexVarBuf db @ [ZScoreType] \<le> indexVarBuf db @ ZScoreType # c" "indexVarBuf db @ ZScoreType # c < indexVarBuf db @ [next_byte ZScoreType]" for c
      using s(1) by (cases c; simp)+
    obtain c d where "zEncodeStartScoreKey db k MinScore = indexVarBuf db @ ZScoreType # c" "zEncodeStopScoreKey db k MaxScore = indexVarBuf db @ ZScoreType # d"
      by (simp_all add: zEncodeStartScoreKey_def zEncodeStopScoreKey_def zEncodeScoreKey_def elem_key_def butlast_append)
    then have "indexVarBuf db @ ZScoreType # c \<le> fst p" "fst p \<le> indexVarBuf db @ ZScoreType # d"
      using r by (simp_all add: in_range_def)
    then have "indexVarBuf db @ [ZScoreType] \<le> fst p \<and> fst p < indexVarBuf db @ [next_byte ZScoreType]"
      using order_trans [OF pre(1)] le_less_trans [OF _ pre(2)] by blast
    then obtain r where "fst p = indexVarBuf db @ ZScoreType # r" using prefix_range [OF s, of "indexVarBuf db" "fst p"] by blast
    then show False using assms p by (auto simp: stuck_def) (metis option.distinct(1) prod.collapse sget_eq_Some_iff)
  qed
  then have "filter (\<lambda>p. ?R (fst p)) (bucket db) = []" by (simp add: filter_False)
  then have "zIterator db k MinScore MaxScore 0 (-1) False = []"
    using assms by (simp add: zIterator_def rangeLimitIterator_forward stuck_def limit_def)
  moreover have "zIncrSize db k 0 = Inr (n, [BPut (zEncodeSizeKey db k) (PutInt64 n)])"
    using assms by (simp add: stuck_def zIncrSize_def incr_size_def)
  ultimately show ?thesis using assms by (simp add: zDelete_def stuck_def key_ok_def)
qed

lemma stuck_round:
  assumes "stuck k n db" "\<forall>op \<in> set t. stuck_op db k n op"
  defines "ops \<equiv> t @ BPut (zEncodeSizeKey db k) (PutInt64 n) # rmExpire_ops db ZSetType k"
  defines "db' \<equiv> db\<lparr>bucket := apply_batch ops (bucket db)\<rparr>"
  shows "scanGeneric compile db ZSizeType [] 1024 False [] False = Inr [k]"
    "flush_ops ZSET db [k] = Inr (BPut (zEncodeSizeKey db k) (PutInt64 n) # rmExpire_ops db ZSetType k)"
    "Commit ops db = (Inr (), db')" "stuck k n db'" "\<forall>op \<in> set ops. stuck_op db' k n op"
proof -
  have "meta_ok ZSizeType db" using assms(1) by (simp add: stuck_def meta_ok_def)
  then show "scanGeneric compile db ZSizeType [] 1024 False [] False = Inr [k]"
    using first_page [of db ZSET ZSizeType compile] assms(1) by (simp add: stuck_def getDataStoreType_def)
  show "flush_ops ZSET db [k] = Inr (BPut (zEncodeSizeKey db k) (PutInt64 n) # rmExpire_ops db ZSetType k)"
    by (simp add: stuck_zDelete [OF assms(1)])
  show "Commit ops db = (Inr (), db')" using assms(1) by (simp add: Commit_def stuck_def db'_def)
  have so: "\<forall>op \<in> set ops. stuck_op db k n op"
    using assms(2) exp_keys_cases [of _ db ZSetType k] unfolding stuck_op_def ops_def rmExpire_exp_keys by auto
  then show "stuck k n db'" unfolding db'_def by (rule stuck_commit [OF assms(1)])
  show "\<forall>op \<in> set ops. stuck_op db' k n op" using so by (simp add: stuck_op_def db'_def)
qed

lemma stuck_loop:
  assumes "stuck k n db" "\<forall>op \<in> set t. stuck_op db k n op"
  shows "flush_loop compile ZSET t dropped db = None"
proof -
  let ?P = "\<lambda>compile dt t (dropped :: int) db (y :: int result \<times> ledisdb). dt = ZSET \<longrightarrow> stuck k n db \<longrightarrow> (\<forall>op \<in> set t. stuck_op db k n op) \<longrightarrow> False"
  have "?P compile ZSET t dropped db y" if "flush_loop compile ZSET t dropped db = Some y" for y
  proof (rule flush_loop.raw_induct [of ?P, OF _ that])
    fix loop compile dt t dropped db y
    assume IH: "\<And>compile dt t dropped db y. loop compile dt t dropped db = Some y \<Longrightarrow> ?P compile dt t dropped db y"
      and body: "(case rbind (getDataStoreType dt) (\<lambda>metaDataType. scanGeneric compile db metaDataType [] 1024 False [] False) of
          Inl e \<Rightarrow>
            (case Commit t db of (Inl e, db') \<Rightarrow> Some (Inl e, db') | (Inr _, db') \<Rightarrow> loop compile dt t dropped db')
        | Inr keys \<Rightarrow>
            if keys = [] then Some (Inr dropped, db)
            else (case flush_ops dt db keys of
                    Inl e \<Rightarrow> Some (Inl e, db)
                  | Inr ops \<Rightarrow>
                      (case Commit (t @ ops) db of
                         (Inl e, db') \<Rightarrow> Some (Inl e, db')
                       | (Inr _, db') \<Rightarrow> loop compile dt (t @ ops) (wrap64 (dropped + int (length keys))) db'))) = Some y"
    show "?P compile dt t dropped db y"
    proof (intro impI)
      assume dt: "dt = ZSET" and s: "stuck k n db" "\<forall>op \<in> set t. stuck_op db k n op"
      note r = stuck_round [OF s]
      show False using IH body unfolding dt by (simp add: getDataStoreType_def r(1-3) del: flush_ops.simps apply_batch_append apply_batch_simps) (use r(4,5) in blast)
    qed
  qed
  then show ?thesis using assms by (cases "flush_loop compile ZSET t dropped db") auto
qed

text \<open>Other data types do not matter.\<close>

lemma stuck_keeps:
  assumes "stuck k n db" "keeps T db db'" "T \<noteq> ZSetType"
  shows "stuck k n db'"
proof -
  have ib: "indexVarBuf db' = indexVarBuf db" using assms(2) by (simp add: keeps_def)
  have get: "db_get db' (indexVarBuf db @ t # r) = db_get db (indexVarBuf db @ t # r)" if "t = ZSizeType \<or> t = ZScoreType" for t r
    using assms(2,3) that by (auto simp: keeps_def owner_def owner_tail_def type_of_tag_def)
  show ?thesis using assms(1,2) get by (auto simp: stuck_def keeps_def tag_keys_def zEncodeSizeKey_def)
qed

text \<open>After an increment by 0 of the only member of the only sorted set, \<open>FlushAll\<close> does not return.\<close>

lemma ZIncrBy_zero_stuck:
  assumes inv: "zset_inv db" and ro: "\<not> readonly db" and r: "room 3 db"
    and z: "tag_keys db ZSizeType = {k}" "zset_of db = (\<lambda>_. Map.empty)(k := [m \<mapsto> s])"
  shows "\<exists>db'. ZIncrBy k 0 m db = (Inr s, db') \<and> stuck k 1 db' \<and> keeps ZSetType db db' \<and> ttl_ok db' \<and> room 0 db'"
proof -
  let ?sk = "zEncodeScoreKey db k m s" and ?ek = "member_key ZSetType db k m"
  let ?d = "db\<lparr>bucket := sdel ?sk (sput ?ek (PutInt64 s) (sput ?sk [] (bucket db)))\<rparr>"
  have zi: "zindex db" "store_ok (bucket db)" "zsets_ok db" using inv by (auto simp: zset_inv_def zsets_ok_def zindex_def)
  have s: "zset_of db k m = Some s" by (simp add: z(2))
  have x: "key_ok k" "key_ok m" and sok: "score_ok s" using zset_of_ok [OF s] zset_of_score_ok [OF zi(1) s] by auto
  have v: "db_get db ?ek = Some (PutInt64 s)" using zset_of_value [OF zi(1) x] s by simp
  have sk: "db_get db ?sk \<noteq> None"
    using zi(1) s unfolding zindex_def by (metis (no_types, lifting) append_Cons append_assoc elem_key_def score_key)
  have incr: "ZIncrBy k 0 m db = (Inr s, ?d)"
    using v x ro sok score_ok_int64 [OF sok] by (auto simp: ZIncrBy_def lift_r_def zset.enc Let_def wrap64_id score_ok_def)
  have get: "db_get ?d y = (if y = ?sk then None else db_get db y)" for y using v by (auto simp: store_simps)
  have "db_get ?d (indexVarBuf db @ ZScoreType # r) = None" for r
    using zi(1) z(2) unfolding zindex_def get by (auto split: if_splits)
  moreover have "tag_keys ?d ZSizeType = {k}" using z(1) get by (auto simp: tag_keys_def score_key elem_key_def)
  moreover have "db_get ?d (zEncodeSizeKey ?d k) = Some (PutInt64 1)"
    using zi(3) x z(2) get by (simp add: zsets_ok_def size_rec_def)
  ultimately have "stuck k 1 ?d" using zi(2) ro x by (simp add: stuck_def is_int64_def)
  moreover have "keeps ZSetType db ?d" using keeps_zset(3) [of db k 0 m] by (simp add: incr)
  moreover have "ttl_ok ?d"
    using inv get by (intro ttl_ok_cong [of db ?d]) (simp_all add: zset_inv_def)
  moreover have "room 0 ?d"
    using r length_apply_batch [of "[BPut ?sk [], BPut ?ek (PutInt64 s), BDel ?sk]" "bucket db"] by (simp add: room_def)
  ultimately show ?thesis using incr by blast
qed

definition stuck_inv :: "bytes \<Rightarrow> int \<Rightarrow> ledisdb \<Rightarrow> bool" where
  "stuck_inv k n db \<longleftrightarrow> stuck k n db \<and> room 0 db \<and> kv_inv db \<and> list_inv db \<and> meta_ok LMetaType db \<and> hash_inv db \<and> meta_ok HSizeType db"

lemma stuck_inv_keeps:
  assumes "stuck_inv k n db" "keeps T db db'" "shrinks db db'" "T \<noteq> ZSetType"
    and "T = ListType \<Longrightarrow> list_inv db'" "T = HashType \<Longrightarrow> hash_inv db'"
  shows "stuck_inv k n db'"
proof -
  have "list_inv db'"
    using assms(1,5) lists_of_keeps [OF assms(2)] shrinks_ttl_ok [OF assms(3)] by (cases "T = ListType") (auto simp: stuck_inv_def list_inv_def)
  moreover have "hash_inv db'"
    using assms(1,6) hash.members_keeps(2) [OF assms(2)] shrinks_ttl_ok [OF assms(3)] by (cases "T = HashType") (auto simp: stuck_inv_def hash_inv_def)
  moreover have "store_ok (bucket db')" using assms(1,2) by (simp add: stuck_inv_def stuck_def keeps_def)
  ultimately show ?thesis
    using assms(1) stuck_keeps [OF _ assms(2,4)] shrinks_meta_ok [OF assms(3)] shrinks_room [OF assms(3)] by (simp add: stuck_inv_def kv_inv_def)
qed

lemma stuck_inv_flush:
  assumes "stuck_inv k n db" "dt \<in> {KV, LIST, HASH}"
  shows "\<exists>c db'. flushType compile dt db = Some (Inr c, db') \<and> stuck_inv k n db'"
proof -
  have i: "kv_inv db" "list_inv db \<and> meta_ok LMetaType db" "hash_inv db \<and> meta_ok HSizeType db" "\<not> readonly db" "room 0 db"
    using assms(1) by (simp_all add: stuck_inv_def stuck_def)
  have "\<exists>c db'. flush_loop compile dt (map BDel []) 0 db = Some (Inr c, db') \<and> keeps (dataType_byte dt) db db' \<and> shrinks db db' \<and>
      (dt = LIST \<longrightarrow> list_inv db') \<and> (dt = HASH \<longrightarrow> hash_inv db')"
    using assms(2) kv_flush.loop_ends [OF i(1,4,5), of "[]" 0 compile] list_flush.loop_ends [OF i(2,4,5), of "[]" 0 compile]
      hash_flush.loop_ends [OF i(3-5), of "[]" 0 compile] by (auto simp: is_int64_def)
  then show ?thesis using stuck_inv_keeps [OF assms(1)] assms(2) by (fastforce simp: flushType_def)
qed

lemma FlushAll_stuck:
  assumes inv: "db_inv db" and ro: "\<not> readonly db" and r: "room 3 db"
    and z: "tag_keys db ZSizeType = {k}" "zset_of db = (\<lambda>_. Map.empty)(k := [m \<mapsto> s])"
  shows "\<exists>db'. ZIncrBy k 0 m db = (Inr s, db') \<and> FlushAll compile db' = None"
proof -
  have zinv: "zset_inv db" and mt: "meta_ok (meta_tag dt) db" for dt using inv by (simp_all add: db_inv_def)
  obtain d where d: "ZIncrBy k 0 m db = (Inr s, d)" "stuck k 1 d" "keeps ZSetType db d" "ttl_ok d" "room 0 d"
    using ZIncrBy_zero_stuck [OF zinv ro r z] by blast
  have "meta_ok (meta_tag dt) d" if "dt \<noteq> ZSET" for dt
    using mt [of dt] keeps_tag_keys [OF d(3), of "meta_tag dt"] that by (cases dt) (auto simp: meta_ok_def owner_tail_def type_of_tag_def)
  from this [of KV] this [of LIST] this [of HASH]
  have i: "stuck_inv k 1 d"
    using inv d lists_of_keeps [OF d(3)] hash.members_keeps(2) [OF d(3)]
    by (simp add: stuck_inv_def kv_inv_def stuck_def list_inv_def hash_inv_def db_inv_def)
  obtain c1 d1 where d1: "flushType compile KV d = Some (Inr c1, d1)" "stuck_inv k 1 d1" using stuck_inv_flush [OF i, of KV compile] by auto
  obtain c2 d2 where d2: "flushType compile LIST d1 = Some (Inr c2, d2)" "stuck_inv k 1 d2" using stuck_inv_flush [OF d1(2), of LIST compile] by auto
  obtain c3 d3 where d3: "flushType compile HASH d2 = Some (Inr c3, d3)" "stuck_inv k 1 d3" using stuck_inv_flush [OF d2(2), of HASH compile] by auto
  have "flushType compile ZSET d3 = None"
    unfolding flushType_def by (rule stuck_loop) (use d3(2) in \<open>auto simp: stuck_inv_def\<close>)
  then show ?thesis using d(1) d1(1) d2(1) d3(1) by (simp add: FlushAll_def)
qed

end
