(* ===== verification/Server.thy ===== *)
theory Server
  imports CmdStrings CmdLists CmdHashes CmdSets CmdZSets CmdScan LedisFlush
begin

text \<open>
  The server: the handlers of \<open>servers.go\<close>, the command table that the \<open>init\<close> functions of package
  \<open>main\<close> fill, in the order of the files, and how \<open>uhaha\<close> runs a command: a write command goes
  through the replicated log and every node applies it; a read command runs on one node.
  The consensus itself is taken as given: the nodes have one log, and each node has had the
  first tick, before which \<open>Apply\<close> answers every entry with \<open>ErrNotLeader\<close>. Each node applies it at its
  own pace, with the time of the entry as \<open>m.Now()\<close>, and with its own clock and its own order of
  map iteration.
\<close>

section \<open>Handlers\<close>

text \<open>\<open>info\<close> stands for \<open>serverInfo.Dump("")\<close>, the figures of the process.\<close>

definition cmdINFO :: "bytes \<Rightarrow> handler" where
  "cmdINFO info m args db = (if length args \<noteq> 1 then wrong_args db else (Inr (Bytes (Some info)), db))"

type_synonym command = "machine \<Rightarrow> string list \<Rightarrow> ledisdb \<Rightarrow> (reply result \<times> ledisdb) option"

definition cmdFLUSHALL :: "regexp \<Rightarrow> command" where
  "cmdFLUSHALL compile m args db =
     (if length args \<noteq> 1 then Some (wrong_args db)
      else case FlushAll compile db of None \<Rightarrow> None | Some r \<Rightarrow> Some (reply_with SimpleInt r))"

definition cmdFLUSHDB :: "regexp \<Rightarrow> command" where
  "cmdFLUSHDB compile m args db = cmdFLUSHALL compile m args db"

section \<open>The command table\<close>

datatype cmd_kind = Read | Write

text \<open>
  What handlers get from outside: \<open>regexp.Compile\<close>, the order in which the goroutines of
  \<open>EXISTS\<close> finish, and the text of \<open>INFO\<close>.
\<close>

record env =
  re_compile :: regexp
  exists_sched :: "string list \<Rightarrow> string list"
  info_dump :: bytes

text \<open>\<open>addCommand\<close>: names are kept in lower case.\<close>

definition addCommand :: "cmd_kind \<Rightarrow> string \<Rightarrow> handler \<Rightarrow> string \<times> cmd_kind \<times> command" where
  "addCommand kind name fn = (ToLower name, kind, \<lambda>m args db. Some (fn m args db))"

definition AddReadCommand :: "string \<Rightarrow> handler \<Rightarrow> string \<times> cmd_kind \<times> command" where
  "AddReadCommand name fn = addCommand Read name fn"

definition AddWriteCommand :: "string \<Rightarrow> handler \<Rightarrow> string \<times> cmd_kind \<times> command" where
  "AddWriteCommand name fn = addCommand Write name fn"

definition hash_commands :: "env \<Rightarrow> (string \<times> cmd_kind \<times> command) list" where
  "hash_commands e =
    [AddWriteCommand ''HSET'' cmdHSET,
     AddReadCommand ''HGET'' cmdHGET,
     AddWriteCommand ''HDEL'' cmdHDEL,
     AddReadCommand ''HEXISTS'' cmdHEXISTS,
     AddReadCommand ''HGETALL'' cmdHGETALL,
     AddWriteCommand ''HINCRBY'' cmdHINCRBY,
     AddReadCommand ''HKEYS'' cmdHKEYS,
     AddReadCommand ''HLEN'' cmdHLEN,
     AddReadCommand ''HMGET'' cmdHMGET,
     AddWriteCommand ''HMSET'' cmdHMSET,
     AddWriteCommand ''HSETNX'' cmdHSETNX,
     AddReadCommand ''HSTRLEN'' cmdHSTRLEN,
     AddReadCommand ''HVALS'' cmdHVALS,
     AddWriteCommand ''HCLEAR'' cmdHCLEAR,
     AddWriteCommand ''HMCLEAR'' cmdHMCLEAR,
     AddWriteCommand ''HEXPIRE'' cmdHEXPIRE,
     AddWriteCommand ''HEXPIREAT'' cmdHEXPIREAT,
     AddReadCommand ''HTTL'' cmdHTTL,
     AddReadCommand ''HKEYEXISTS'' cmdHKEYEXISTS]"

definition list_commands :: "env \<Rightarrow> (string \<times> cmd_kind \<times> command) list" where
  "list_commands e =
    [AddWriteCommand ''RPUSH'' cmdRPUSH,
     AddWriteCommand ''LPOP'' cmdLPOP,
     AddReadCommand ''LINDEX'' cmdLINDEX,
     AddWriteCommand ''LPUSH'' cmdLPUSH,
     AddWriteCommand ''RPOP'' cmdRPOP,
     AddReadCommand ''LRANGE'' cmdLRANGE,
     AddWriteCommand ''LSET'' cmdLSET,
     AddReadCommand ''LLEN'' cmdLLEN,
     AddWriteCommand ''RPOPLPUSH'' cmdRPOPLPUSH,
     AddWriteCommand ''LCLEAR'' cmdLCLEAR,
     AddWriteCommand ''LMCLEAR'' cmdLMCLEAR,
     AddWriteCommand ''LEXPIRE'' cmdLEXPIRE,
     AddWriteCommand ''LEXPIREAT'' cmdLEXPIREAT,
     AddReadCommand ''LTTL'' cmdLTTL,
     AddReadCommand ''LKEYEXISTS'' cmdLKEYEXISTS,
     AddWriteCommand ''LTRIM'' cmdLTRIM]"

definition scan_commands :: "env \<Rightarrow> (string \<times> cmd_kind \<times> command) list" where
  "scan_commands e =
    [AddReadCommand ''HSCAN'' (cmdXHSCAN (re_compile e) scanGroup),
     AddReadCommand ''SSCAN'' (cmdXSSCAN (re_compile e) scanGroup),
     AddReadCommand ''ZSCAN'' (cmdXZSCAN (re_compile e) scanGroup),
     AddReadCommand ''XSCAN'' (cmdXSCAN (re_compile e) xScanGroup),
     AddReadCommand ''XHSCAN'' (cmdXHSCAN (re_compile e) xScanGroup),
     AddReadCommand ''XSSCAN'' (cmdXSSCAN (re_compile e) xScanGroup),
     AddReadCommand ''XZSCAN'' (cmdXZSCAN (re_compile e) xScanGroup)]"

definition server_commands :: "env \<Rightarrow> (string \<times> cmd_kind \<times> command) list" where
  "server_commands e =
    [AddReadCommand ''INFO'' (cmdINFO (info_dump e)),
     (ToLower ''FLUSHALL'', Write, cmdFLUSHALL (re_compile e)),
     (ToLower ''FLUSHDB'', Write, cmdFLUSHDB (re_compile e))]"

definition set_commands :: "env \<Rightarrow> (string \<times> cmd_kind \<times> command) list" where
  "set_commands e =
    [AddWriteCommand ''SADD'' cmdSADD,
     AddReadCommand ''SCARD'' cmdSCARD,
     AddReadCommand ''SDIFF'' cmdSDIFF,
     AddWriteCommand ''SDIFFSTORE'' cmdSDIFFSTORE,
     AddReadCommand ''SINTER'' cmdSINTER,
     AddWriteCommand ''SINTERSTORE'' cmdSINTERSTORE,
     AddReadCommand ''SISMEMBER'' cmdSISMEMBER,
     AddReadCommand ''SMEMBERS'' cmdSMEMBERS,
     AddWriteCommand ''SREM'' cmdSREM,
     AddReadCommand ''SUNION'' cmdSUNION,
     AddWriteCommand ''SUNIONSTORE'' cmdSUNIONSTORE,
     AddWriteCommand ''SCLEAR'' cmdSCLEAR,
     AddWriteCommand ''SMCLEAR'' cmdSMCLEAR,
     AddWriteCommand ''SEXPIRE'' cmdSEXPIRE,
     AddWriteCommand ''SEXPIREAT'' cmdSEXPIREAT,
     AddReadCommand ''STTL'' cmdSTTL,
     AddWriteCommand ''SPERSIST'' cmdSPERSIST,
     AddReadCommand ''SKEYEXISTS'' cmdSKEYEXISTS]"

definition zset_commands :: "env \<Rightarrow> (string \<times> cmd_kind \<times> command) list" where
  "zset_commands e =
    [AddWriteCommand ''ZADD'' cmdZADD,
     AddWriteCommand ''ZREM'' cmdZREM,
     AddWriteCommand ''ZCLEAR'' cmdZCLEAR,
     AddReadCommand ''ZCARD'' cmdZCARD,
     AddReadCommand ''ZCOUNT'' cmdZCOUNT,
     AddReadCommand ''ZRANK'' cmdZRANK,
     AddReadCommand ''ZRANGE'' cmdZRANGE,
     AddReadCommand ''ZREVRANGE'' cmdZREVRANGE,
     AddReadCommand ''ZSCORE'' cmdZSCORE,
     AddReadCommand ''ZINCRBY'' cmdZINCRBY,
     AddReadCommand ''ZREVRANK'' cmdZREVRANK,
     AddReadCommand ''ZRANGEBYSCORE'' cmdZRANGEBYSCORE,
     AddReadCommand ''ZREVRANGEBYSCORE'' cmdZREVRANGEBYSCORE,
     AddReadCommand ''ZREMRANGEBYSCORE'' cmdZREMRANGEBYSCORE,
     AddReadCommand ''ZREMRANGEBYRANK'' cmdZREMRANGEBYRANK]"

definition string_commands :: "env \<Rightarrow> (string \<times> cmd_kind \<times> command) list" where
  "string_commands e =
    [AddReadCommand ''BITCOUNT'' cmdBITCOUNT,
     AddReadCommand ''BITPOS'' cmdBITPOS,
     AddReadCommand ''EXISTS'' (cmdEXISTS (exists_sched e)),
     AddReadCommand ''GET'' cmdGET,
     AddReadCommand ''GETBIT'' cmdGETBIT,
     AddReadCommand ''GETRANGE'' cmdGETRANGE,
     AddReadCommand ''MGET'' cmdMGET,
     AddReadCommand ''STRLEN'' cmdSTRLEN,
     AddReadCommand ''TTL'' cmdTTL,
     AddWriteCommand ''APPEND'' cmdAPPEND,
     AddWriteCommand ''BITOP'' cmdBITOP,
     AddWriteCommand ''DECR'' cmdDECR,
     AddWriteCommand ''DECRBY'' cmdDECRBY,
     AddWriteCommand ''DEL'' cmdDEL,
     AddWriteCommand ''INCR'' cmdINCR,
     AddWriteCommand ''INCRBY'' cmdINCRBY,
     AddWriteCommand ''MSET'' cmdMSET,
     AddWriteCommand ''SET'' cmdSET,
     AddWriteCommand ''SETBIT'' cmdSETBIT,
     AddWriteCommand ''GETSET'' cmdGETSET,
     AddWriteCommand ''SETNX'' cmdSETNX,
     AddWriteCommand ''SETEX'' cmdSETEX,
     AddWriteCommand ''SETEXAT'' cmdSETEXAT,
     AddWriteCommand ''SETRANGE'' cmdSETRANGE,
     AddWriteCommand ''EXPIRE'' cmdEXPIRE,
     AddWriteCommand ''EXPIREAT'' cmdEXPIREAT]"

definition commands :: "env \<Rightarrow> (string \<times> cmd_kind \<times> command) list" where
  "commands e = hash_commands e @ list_commands e @ scan_commands e @ server_commands e @ set_commands e @
     zset_commands e @ string_commands e"

section \<open>Running a command\<close>

text \<open>A write command on one machine, as \<open>Apply\<close> does for the words of a log entry.\<close>

definition Apply_args :: "env \<Rightarrow> command" where
  "Apply_args e m args db =
     (if args = [] then Some (Inr NilReply, db)
      else case map_of (commands e) (ToLower (hd args)) of
             Some (Write, fn) \<Rightarrow> fn m args db
           | _ \<Rightarrow> Some (Inl Panic, db))"

text \<open>A read command, which \<open>Send\<close> runs on the machine it reaches.\<close>

definition execRead :: "env \<Rightarrow> command" where
  "execRead e m args db =
     (if args = [] then Some (Inr NilReply, db)
      else case map_of (commands e) (ToLower (hd args)) of
             Some (Read, fn) \<Rightarrow> fn m args db
           | _ \<Rightarrow> Some (Inl (ErrText ''unknown command''), db))"

text \<open>The log with the time of each entry, how many entries each node has applied, and its database.\<close>

record cluster =
  entries :: "(int \<times> string list) list"
  applied :: "nat \<Rightarrow> nat"
  dbs :: "nat \<Rightarrow> ledisdb"

definition kind_of_args :: "env \<Rightarrow> string list \<Rightarrow> cmd_kind option" where
  "kind_of_args e args = (if args = [] then None else map_option fst (map_of (commands e) (ToLower (hd args))))"

text \<open>
  The steps of a cluster whose clients send only words that satisfy \<open>ok\<close>. A Go map is visited in any
  order, but every entry once.
\<close>

inductive step :: "env \<Rightarrow> (string list \<Rightarrow> bool) \<Rightarrow> cluster \<Rightarrow> cluster \<Rightarrow> bool" for e ok where
  submits: "ok args \<Longrightarrow> kind_of_args e args = Some Write \<Longrightarrow> step e ok c (c\<lparr>entries := entries c @ [(t, args)]\<rparr>)"
| applies: "applied c i < length (entries c) \<Longrightarrow> entries c ! applied c i = (t, args) \<Longrightarrow> m_Now m = t \<Longrightarrow> any_order (map_order m) \<Longrightarrow>
    Apply_args e m args (dbs c i) = Some (r, db') \<Longrightarrow>
    step e ok c (c\<lparr>applied := (applied c)(i := Suc (applied c i)), dbs := (dbs c)(i := db')\<rparr>)"
| reads: "ok args \<Longrightarrow> kind_of_args e args = Some Read \<Longrightarrow> any_order (map_order m) \<Longrightarrow> execRead e m args (dbs c i) = Some (r, db') \<Longrightarrow>
    step e ok c (c\<lparr>dbs := (dbs c)(i := db')\<rparr>)"

definition start :: cluster where
  "start = \<lparr>entries = [], applied = (\<lambda>_. 0), dbs = (\<lambda>_. db0)\<rparr>"

section \<open>Replicas\<close>

text \<open>What a node gets that applies a log from an empty database, on a machine with the clock of the log.\<close>

abbreviation machine_at :: "int \<Rightarrow> machine" where
  "machine_at t \<equiv> \<lparr>m_Now = t, wall = t, map_order = (\<lambda>ks. ks)\<rparr>"

definition apply_entry :: "env \<Rightarrow> int \<times> string list \<Rightarrow> ledisdb \<Rightarrow> ledisdb" where
  "apply_entry e = (\<lambda>(t, args) db. case Apply_args e (machine_at t) args db of None \<Rightarrow> db | Some (_, db') \<Rightarrow> db')"

definition replay :: "env \<Rightarrow> (int \<times> string list) list \<Rightarrow> ledisdb \<Rightarrow> ledisdb" where
  "replay e es db = fold (apply_entry e) es db"

text \<open>
  Commands whose effect depends on the clock of the node, and the commands registered as reads
  that write. \<open>RPOPLPUSH\<close> reads the clock only when it moves an element within one list. The STORE
  commands on sets visit a Go map, but what they do does not depend on the order.
\<close>

definition clock_commands :: "string set" where
  "clock_commands = {''expire'', ''expireat'', ''setex'', ''setexat'', ''lexpire'', ''lexpireat'', ''hexpire'', ''hexpireat'',
     ''sexpire'', ''sexpireat''}"

definition writing_reads :: "string set" where
  "writing_reads = {''zincrby'', ''zremrangebyscore'', ''zremrangebyrank''}"

definition safe :: "string list \<Rightarrow> bool" where
  "safe args \<longleftrightarrow> args \<noteq> [] \<and> ToLower (hd args) \<notin> clock_commands \<union> writing_reads \<and>
     (ToLower (hd args) = ''rpoplpush'' \<longrightarrow> length args = 3 \<longrightarrow> args ! 1 \<noteq> args ! 2)"

lemma lower_letters:
  "lower_char (CHR ''A'') = CHR ''a''" "lower_char (CHR ''B'') = CHR ''b''" "lower_char (CHR ''C'') = CHR ''c''" "lower_char (CHR ''D'') = CHR ''d''"
  "lower_char (CHR ''E'') = CHR ''e''" "lower_char (CHR ''F'') = CHR ''f''" "lower_char (CHR ''G'') = CHR ''g''" "lower_char (CHR ''H'') = CHR ''h''"
  "lower_char (CHR ''I'') = CHR ''i''" "lower_char (CHR ''J'') = CHR ''j''" "lower_char (CHR ''K'') = CHR ''k''" "lower_char (CHR ''L'') = CHR ''l''"
  "lower_char (CHR ''M'') = CHR ''m''" "lower_char (CHR ''N'') = CHR ''n''" "lower_char (CHR ''O'') = CHR ''o''" "lower_char (CHR ''P'') = CHR ''p''"
  "lower_char (CHR ''Q'') = CHR ''q''" "lower_char (CHR ''R'') = CHR ''r''" "lower_char (CHR ''S'') = CHR ''s''" "lower_char (CHR ''T'') = CHR ''t''"
  "lower_char (CHR ''U'') = CHR ''u''" "lower_char (CHR ''V'') = CHR ''v''" "lower_char (CHR ''W'') = CHR ''w''" "lower_char (CHR ''X'') = CHR ''x''"
  "lower_char (CHR ''Y'') = CHR ''y''" "lower_char (CHR ''Z'') = CHR ''z''"
  by code_simp+

text \<open>What a table promises of its reads and writes.\<close>

definition pure_reads :: "(string \<times> cmd_kind \<times> command) list \<Rightarrow> bool" where
  "pure_reads cs \<longleftrightarrow> (\<forall>(name, kind, fn) \<in> set cs. kind = Read \<and> name \<notin> writing_reads \<longrightarrow>
     (\<forall>m args db. \<exists>r. fn m args db = Some (r, db)))"

definition clockless_writes :: "(string \<times> cmd_kind \<times> command) list \<Rightarrow> bool" where
  "clockless_writes cs \<longleftrightarrow> (\<forall>(name, kind, fn) \<in> set cs. kind = Write \<and> name \<notin> clock_commands \<longrightarrow>
     (\<forall>m m' args db. m_Now m = m_Now m' \<and> any_order (map_order m) \<and> any_order (map_order m') \<and>
          (name = ''rpoplpush'' \<longrightarrow> length args = 3 \<longrightarrow> args ! 1 \<noteq> args ! 2) \<longrightarrow>
        fn m args db = fn m' args db))"

lemma pure_pair: "(\<exists>r. x = (r, db)) \<longleftrightarrow> snd x = db"
  by (cases x) simp

lemmas add_defs = AddReadCommand_def AddWriteCommand_def addCommand_def

lemma hash_reads_pure: "pure_reads (hash_commands e)"
  unfolding pure_reads_def hash_commands_def add_defs
  by (simp add: cmdHGET_def cmdHEXISTS_def cmdHGETALL_def cmdHKEYS_def cmdHLEN_def cmdHMGET_def cmdHSTRLEN_def cmdHVALS_def
      cmdHTTL_def cmdHKEYEXISTS_def answer_def)

lemma list_reads_pure: "pure_reads (list_commands e)"
  unfolding pure_reads_def list_commands_def add_defs
  by (simp add: cmdLINDEX_def cmdLRANGE_def cmdLLEN_def cmdLTTL_def cmdLKEYEXISTS_def answer_def lift_r_def sbind_def split: sum.split)

lemma scan_reads_pure: "pure_reads (scan_commands e)"
  unfolding pure_reads_def scan_commands_def add_defs
  by (simp add: cmdXSCAN_def cmdXHSCAN_def cmdXSSCAN_def cmdXZSCAN_def lift_r_def)

lemma server_reads_pure: "pure_reads (server_commands e)"
  unfolding pure_reads_def server_commands_def add_defs by (simp add: cmdINFO_def)

lemma set_reads_pure: "pure_reads (set_commands e)"
  unfolding pure_reads_def set_commands_def add_defs
  by (simp add: cmdSCARD_def cmdSDIFF_def cmdSINTER_def cmdSISMEMBER_def cmdSMEMBERS_def cmdSUNION_def cmdSTTL_def cmdSKEYEXISTS_def
      soptGeneric_def answer_def)

lemma zset_reads_pure: "pure_reads (zset_commands e)"
  unfolding pure_reads_def zset_commands_def add_defs
  by (simp add: writing_reads_def lower_letters cmdZCARD_def cmdZCOUNT_def cmdZRANK_def cmdZRANGE_def cmdZREVRANGE_def cmdZSCORE_def cmdZREVRANK_def
      cmdZRANGEBYSCORE_def cmdZREVRANGEBYSCORE_def answer_def)

lemma string_reads_pure: "pure_reads (string_commands e)"
  unfolding pure_reads_def string_commands_def add_defs
  by (simp add: reads_change_nothing pure_pair)

lemma hash_writes_clockless: "clockless_writes (hash_commands e)"
  unfolding clockless_writes_def hash_commands_def add_defs
  by (simp add: clock_commands_def lower_letters cmdHSET_def cmdHDEL_def cmdHINCRBY_def cmdHMSET_def cmdHSETNX_def cmdHCLEAR_def cmdHMCLEAR_def)

lemma cmdRPOPLPUSH_clockless:
  "length args = 3 \<longrightarrow> args ! Suc 0 \<noteq> args ! 2 \<Longrightarrow> cmdRPOPLPUSH m args db = cmdRPOPLPUSH m' args db"
  by (simp add: cmdRPOPLPUSH_def Let_def lift_r_def cong: option.case_cong sum.case_cong prod.case_cong)

lemma list_writes_clockless: "clockless_writes (list_commands e)"
  unfolding clockless_writes_def list_commands_def add_defs
  by (simp add: clock_commands_def lower_letters cmdRPUSH_def cmdLPOP_def cmdLPUSH_def cmdRPOP_def cmdLSET_def cmdLCLEAR_def cmdLMCLEAR_def
      cmdLTRIM_def) (use cmdRPOPLPUSH_clockless in blast)

lemma scan_writes_clockless: "clockless_writes (scan_commands e)"
  unfolding clockless_writes_def scan_commands_def add_defs by simp

lemma server_writes_clockless: "clockless_writes (server_commands e)"
  unfolding clockless_writes_def server_commands_def add_defs by (simp add: cmdFLUSHALL_def cmdFLUSHDB_def)

lemma sstore_any_order:
  assumes "any_order (map_order m)" "any_order (map_order m')"
  shows "cmdSDIFFSTORE m args db = cmdSDIFFSTORE m' args db" "cmdSINTERSTORE m args db = cmdSINTERSTORE m' args db"
    "cmdSUNIONSTORE m args db = cmdSUNIONSTORE m' args db"
  using sStoreGeneric_any_order [OF assms]
  by (simp_all add: cmdSDIFFSTORE_def cmdSINTERSTORE_def cmdSUNIONSTORE_def soptStoreGeneric_def SDiffStore_def SInterStore_def SUnionStore_def)

lemma set_writes_clockless: "clockless_writes (set_commands e)"
  unfolding clockless_writes_def set_commands_def add_defs
  by (simp add: clock_commands_def lower_letters cmdSADD_def cmdSREM_def cmdSCLEAR_def cmdSMCLEAR_def cmdSPERSIST_def)
    (blast intro: sstore_any_order)

lemma zset_writes_clockless: "clockless_writes (zset_commands e)"
  unfolding clockless_writes_def zset_commands_def add_defs
  by (simp add: cmdZADD_def cmdZREM_def cmdZCLEAR_def)

lemma string_clockless:
  "cmdAPPEND m args db = cmdAPPEND m' args db"
  "cmdBITOP m args db = cmdBITOP m' args db"
  "cmdDECR m args db = cmdDECR m' args db"
  "cmdDECRBY m args db = cmdDECRBY m' args db"
  "cmdDEL m args db = cmdDEL m' args db"
  "cmdINCR m args db = cmdINCR m' args db"
  "cmdINCRBY m args db = cmdINCRBY m' args db"
  "cmdMSET m args db = cmdMSET m' args db"
  "cmdSET m args db = cmdSET m' args db"
  "cmdSETBIT m args db = cmdSETBIT m' args db"
  "cmdGETSET m args db = cmdGETSET m' args db"
  "cmdSETNX m args db = cmdSETNX m' args db"
  "cmdSETRANGE m args db = cmdSETRANGE m' args db"
  by (simp_all only: cmdAPPEND_def cmdBITOP_def cmdDECR_def cmdDECRBY_def cmdDEL_def cmdINCR_def cmdINCRBY_def cmdMSET_def cmdSET_def cmdSETBIT_def cmdGETSET_def cmdSETNX_def cmdSETRANGE_def)

lemma string_writes_clockless: "clockless_writes (string_commands e)"
  unfolding clockless_writes_def string_commands_def add_defs
  by (simp add: clock_commands_def lower_letters) (intro conjI allI impI string_clockless)

lemma commands_append: "pure_reads (xs @ ys) \<longleftrightarrow> pure_reads xs \<and> pure_reads ys"
  "clockless_writes (xs @ ys) \<longleftrightarrow> clockless_writes xs \<and> clockless_writes ys"
  by (simp_all only: pure_reads_def clockless_writes_def set_append ball_Un)

lemma commands_contract: "pure_reads (commands e)" "clockless_writes (commands e)"
  unfolding commands_def commands_append
  by (simp_all add: hash_reads_pure list_reads_pure scan_reads_pure server_reads_pure set_reads_pure zset_reads_pure string_reads_pure
      hash_writes_clockless list_writes_clockless scan_writes_clockless server_writes_clockless set_writes_clockless zset_writes_clockless
      string_writes_clockless)

lemma pure_readsD:
  "pure_reads cs \<Longrightarrow> (name, Read, fn) \<in> set cs \<Longrightarrow> name \<notin> writing_reads \<Longrightarrow> \<exists>r. fn m args db = Some (r, db)"
  unfolding pure_reads_def by (drule bspec, assumption) simp

lemma clockless_writesD:
  "clockless_writes cs \<Longrightarrow> (name, Write, fn) \<in> set cs \<Longrightarrow> name \<notin> clock_commands \<Longrightarrow> m_Now m = m_Now m' \<Longrightarrow>
     any_order (map_order m) \<Longrightarrow> any_order (map_order m') \<Longrightarrow>
     (name = ''rpoplpush'' \<longrightarrow> length args = 3 \<longrightarrow> args ! 1 \<noteq> args ! 2) \<Longrightarrow> fn m args db = fn m' args db"
  unfolding clockless_writes_def by (drule bspec, assumption) blast

lemma execRead_pure:
  assumes "safe args" "execRead e m args db = Some (r, db')"
  shows "db' = db"
proof -
  have "\<exists>r. fn m args db = Some (r, db)" if "map_of (commands e) (ToLower (hd args)) = Some (Read, fn)" for fn
    using assms(1) by (intro pure_readsD [OF commands_contract(1) map_of_SomeD [OF that]]) (simp add: safe_def)
  then show ?thesis using assms unfolding execRead_def safe_def
    by (fastforce split: option.splits cmd_kind.splits)
qed

lemma Apply_args_clockless:
  assumes "safe args" "m_Now m = m_Now m'" "any_order (map_order m)" "any_order (map_order m')"
  shows "Apply_args e m args db = Apply_args e m' args db"
proof -
  have "fn m args db = fn m' args db" if "map_of (commands e) (ToLower (hd args)) = Some (Write, fn)" for fn
    using assms by (intro clockless_writesD [OF commands_contract(2) map_of_SomeD [OF that]]) (simp_all add: safe_def)
  then show ?thesis unfolding Apply_args_def by (simp split: option.split prod.split cmd_kind.split)
qed

definition replicated :: "env \<Rightarrow> cluster \<Rightarrow> bool" where
  "replicated e c \<longleftrightarrow> (\<forall>x \<in> set (entries c). safe (snd x)) \<and>
     (\<forall>i. applied c i \<le> length (entries c) \<and> dbs c i = replay e (take (applied c i) (entries c)) db0)"

lemma replicated_step:
  assumes "replicated e c" "step e safe c c'"
  shows "replicated e c'"
  using assms(2)
proof cases
  case (submits args t)
  then show ?thesis using assms(1) by (auto simp: replicated_def le_Suc_eq)
next
  case (applies i t args m r db')
  then have s: "safe args" using assms(1) nth_mem [of "applied c i" "entries c"] by (fastforce simp: replicated_def)
  have "take (Suc (applied c i)) (entries c) = take (applied c i) (entries c) @ [(t, args)]"
    using applies(2,3) by (simp add: take_Suc_conv_app_nth)
  moreover have "Apply_args e (machine_at t) args (dbs c i) = Some (r, db')"
    using Apply_args_clockless [OF s, of m "machine_at t"] applies(4-6) by simp
  ultimately have "replay e (take (Suc (applied c i)) (entries c)) db0 = db'"
    using assms(1) by (simp add: replay_def replicated_def apply_entry_def)
  then show ?thesis using assms(1) applies(1,2) by (simp add: replicated_def)
next
  case (reads args m i r db')
  then show ?thesis using assms(1) execRead_pure [OF reads(2,5)] by (simp add: replicated_def)
qed

lemma replicated_reachable: "(step e safe)\<^sup>*\<^sup>* start c \<Longrightarrow> replicated e c"
proof (induction rule: rtranclp_induct)
  case base
  show ?case by (simp add: replicated_def start_def replay_def)
qed (rule replicated_step)

lemma look: "map_of (commands e) ''set'' = Some (Write, \<lambda>m args db. Some (cmdSET m args db))"
  "map_of (commands e) ''zadd'' = Some (Write, \<lambda>m args db. Some (cmdZADD m args db))"
  "map_of (commands e) ''expire'' = Some (Write, \<lambda>m args db. Some (cmdEXPIRE m args db))"
  "map_of (commands e) ''zincrby'' = Some (Read, \<lambda>m args db. Some (cmdZINCRBY m args db))"
  by (simp_all add: commands_def hash_commands_def list_commands_def scan_commands_def server_commands_def set_commands_def
      zset_commands_def string_commands_def add_defs lower_letters)

lemma lower_names:
  "ToLower ''SET'' = ''set''" "ToLower ''ZADD'' = ''zadd''" "ToLower ''EXPIRE'' = ''expire''" "ToLower ''ZINCRBY'' = ''zincrby''"
  by (simp_all add: lower_letters)

lemma run_names:
  "kind_of_args e (''SET'' # ws) = Some Write" "Apply_args e m (''SET'' # ws) db = Some (cmdSET m (''SET'' # ws) db)"
  "kind_of_args e (''ZADD'' # ws) = Some Write" "Apply_args e m (''ZADD'' # ws) db = Some (cmdZADD m (''ZADD'' # ws) db)"
  "kind_of_args e (''EXPIRE'' # ws) = Some Write" "Apply_args e m (''EXPIRE'' # ws) db = Some (cmdEXPIRE m (''EXPIRE'' # ws) db)"
  "kind_of_args e (''ZINCRBY'' # ws) = Some Read" "execRead e m (''ZINCRBY'' # ws) db = Some (cmdZINCRBY m (''ZINCRBY'' # ws) db)"
  by (simp_all add: kind_of_args_def Apply_args_def execRead_def lower_names look del: ToLower.simps)

text \<open>An environment for examples.\<close>

abbreviation env0 :: env where
  "env0 \<equiv> \<lparr>re_compile = (\<lambda>_. Inr (\<lambda>_. True)), exists_sched = (\<lambda>ks. ks), info_dump = []\<rparr>"

text \<open>Both of the first two nodes have applied the whole log.\<close>

definition at_rest :: "env \<Rightarrow> (string list \<Rightarrow> bool) \<Rightarrow> ledisdb \<Rightarrow> ledisdb \<Rightarrow> cluster \<Rightarrow> bool" where
  "at_rest e ok d0 d1 c \<longleftrightarrow> (step e ok)\<^sup>*\<^sup>* start c \<and> applied c 0 = length (entries c) \<and> applied c 1 = length (entries c) \<and>
     dbs c 0 = d0 \<and> dbs c 1 = d1"

lemma both_apply:
  assumes "at_rest e ok a0 a1 c" "ok args" "kind_of_args e args = Some Write" "m_Now m0 = m_Now m1"
    and "any_order (map_order m0)" "any_order (map_order m1)"
    and "Apply_args e m0 args a0 = Some (r0, d0)" "Apply_args e m1 args a1 = Some (r1, d1)"
  shows "\<exists>c'. at_rest e ok d0 d1 c' \<and> entries c' = entries c @ [(m_Now m1, args)]"
proof -
  define c1 where "c1 = c\<lparr>entries := entries c @ [(m_Now m1, args)]\<rparr>"
  define c2 where "c2 = c1\<lparr>applied := (applied c1)(0 := Suc (applied c1 0)), dbs := (dbs c1)(0 := d0)\<rparr>"
  define c3 where "c3 = c2\<lparr>applied := (applied c2)(1 := Suc (applied c2 1)), dbs := (dbs c2)(1 := d1)\<rparr>"
  have "step e ok c c1" unfolding c1_def by (rule submits) (simp_all add: assms)
  moreover have "step e ok c1 c2"
    unfolding c2_def by (rule applies [of _ _ "m_Now m1" args m0 _ r0]) (use assms in \<open>simp_all add: c1_def at_rest_def\<close>)
  moreover have "step e ok c2 c3"
    unfolding c3_def by (rule applies [of _ _ "m_Now m1" args m1 _ r1]) (use assms in \<open>simp_all add: c1_def c2_def at_rest_def\<close>)
  ultimately have "(step e ok)\<^sup>*\<^sup>* start c3"
    using assms(1) unfolding at_rest_def by (meson rtranclp.rtrancl_into_rtrancl)
  then show ?thesis using assms(1) by (intro exI [of _ c3]) (simp add: at_rest_def c1_def c2_def c3_def)
qed

lemma first_reads:
  assumes "at_rest e ok a0 a1 c" "ok args" "kind_of_args e args = Some Read" "any_order (map_order m)"
    and "execRead e m args a0 = Some (r, d0)"
  shows "\<exists>c'. at_rest e ok d0 a1 c'"
proof -
  have "step e ok c (c\<lparr>dbs := (dbs c)(0 := d0)\<rparr>)"
    by (rule reads [of _ args _ m _ _ r]) (use assms in \<open>simp_all add: at_rest_def\<close>)
  then have "(step e ok)\<^sup>*\<^sup>* start (c\<lparr>dbs := (dbs c)(0 := d0)\<rparr>)"
    using assms(1) unfolding at_rest_def by (meson rtranclp.rtrancl_into_rtrancl)
  then show ?thesis using assms(1) by (intro exI [of _ "c\<lparr>dbs := (dbs c)(0 := d0)\<rparr>"]) (simp add: at_rest_def)
qed

lemma at_rest_start: "at_rest e ok db0 db0 start" "entries start = []"
  by (simp_all add: at_rest_def start_def)

text \<open>
  C2. Whatever the nodes of a cluster do, at whatever pace they apply the log, with whatever
  clocks and orders of map iteration, two nodes that have applied the same number of entries have
  the same database, the one that replaying these entries on an empty database gives, as long
  as no client sends one of the commands that set an expiry time, an \<open>RPOPLPUSH\<close> of a list onto
  itself, which read the clock of the node, or one of the three sorted-set commands that write
  although they are registered as reads.
\<close>

theorem replicas_agree:
  assumes "(step e safe)\<^sup>*\<^sup>* start c"
  shows "applied c i \<le> length (entries c) \<and> dbs c i = replay e (take (applied c i) (entries c)) db0 \<and>
    (applied c i = applied c j \<longrightarrow> dbs c i = dbs c j)"
  using replicated_reachable [OF assms] by (simp add: replicated_def)

theorem replicas_agree_witness:
  "\<exists>c :: cluster. (step env0 safe)\<^sup>*\<^sup>* start c \<and> entries c = [(5, [''SET'', ''k'', ''v''])] \<and>
     applied c 0 = 1 \<and> applied c 1 = 1 \<and> kv_of (dbs c 0) ''k'' = Some ''v'' \<and> dbs c 1 = dbs c 0 \<and>
     dbs c 1 = replay env0 [(5, [''SET'', ''k'', ''v''])] db0"
proof -
  let ?args = "[''SET'', ''k'', ''v'']"
  let ?m0 = "\<lparr>m_Now = 5, wall = 6, map_order = (\<lambda>ks. ks)\<rparr>" and ?m1 = "\<lparr>m_Now = 5, wall = 70, map_order = rev\<rparr>"
  have s: "safe ?args" by (simp add: safe_def lower_letters clock_commands_def writing_reads_def)
  have v: "length ''v'' \<le> MaxValueSize" "key_ok ''k''" by (simp_all add: key_ok_def)
  obtain d where d: "Set_kv ''k'' ''v'' db0 = (Inr (), d)" "kv_of d ''k'' = Some ''v''"
    using Set_kv_ok [OF _ ttl_ok_newDB v(2,1), of 0] by auto
  have run: "Apply_args env0 m ?args db0 = Some (Inr (SimpleString ''OK''), d)" for m
    using d(1) by (simp add: run_names cmdSET_def)
  have orders: "any_order (map_order ?m0)" "any_order (map_order ?m1)" by (simp_all add: any_order_def)
  obtain c where c: "at_rest env0 safe d d c" "entries c = [(5, ?args)]"
    using both_apply [OF at_rest_start(1) [of env0 safe] s run_names(1) _ orders run run] by (auto simp: at_rest_start(2))
  then have "(step env0 safe)\<^sup>*\<^sup>* start c" by (simp add: at_rest_def)
  note agree = replicas_agree [OF this, of 1 0]
  show ?thesis by (rule exI [of _ c]) (use c d(2) agree in \<open>simp add: at_rest_def\<close>)
qed

lemma zadd_first:
  assumes "key_ok k" "key_ok x" "score_ok s"
  shows "\<exists>d. (\<forall>m. cmdZADD m [''ZADD'', k, FormatInt s, x] db0 = (Inr (SimpleInt 1), d)) \<and> zset_inv d \<and>
    zset_of d = (\<lambda>_. Map.empty)(k := [x \<mapsto> s]) \<and> \<not> readonly d \<and> room 3 d \<and> keeps ZSetType db0 d"
proof -
  obtain d where d: "ZAdd k [(s, x)] db0 = (Inr 1, d)" "zstep db0 k [x \<mapsto> s] d"
    using ZAdd_ok [OF zset_db0(1), of k "[(s, x)]"] assms by (auto simp: zset_db0(2) room_def)
  have k: "keeps ZSetType db0 d" using keeps_zset(1) [of db0 k "[(s, x)]"] d(1) by simp
  have "room 3 d"
  proof -
    let ?ops = "[BPut (zEncodeSetKey db0 k x) (PutInt64 s), BPut (zEncodeScoreKey db0 k x s) []]"
    have "zadd_loop db0 k [(s, x)] = Inr (1, ?ops)" using assms by (simp add: zSetItem_def score_ok_def)
    moreover have "zIncrSize db0 k 1 = Inr (1, [BPut (zEncodeSizeKey db0 k) (PutInt64 1)])"
      by (simp add: zIncrSize_def incr_size_def Int64_def is_int64_def)
    ultimately have "d = db0\<lparr>bucket := apply_batch (?ops @ [BPut (zEncodeSizeKey db0 k) (PutInt64 1)]) []\<rparr>"
      using d(1) by (simp add: ZAdd_def lift_r_def Commit_def del: apply_batch_simps apply_batch_append)
    then show ?thesis using length_apply_batch [of "?ops @ [BPut (zEncodeSizeKey db0 k) (PutInt64 1)]" "[]"] by (simp add: room_def)
  qed
  moreover have "cmdZADD m [''ZADD'', k, FormatInt s, x] db0 = (Inr (SimpleInt 1), d)" for m
    using ZADD_printed [of "[(s, x)]" m "''ZADD''" k db0] d(1) assms(3) by simp
  moreover have "\<not> readonly d" using k by (simp add: keeps_def)
  ultimately show ?thesis using k zstepD(1,2) [OF d(2)] by (auto simp: zset_db0(2))
qed

text \<open>
  C13. The two ways in which replicas part although they have applied the same entries. A
  \<open>ZINCRBY\<close> of a member runs as a read on one node, and only there the score changes. An
  \<open>EXPIRE\<close> whose time has passed on the clock of one node by the time that it applies the entry
  deletes the key there, while another node keeps it.
\<close>

theorem replicas_diverge:
  assumes "key_ok k" "key_ok x" "score_ok s" "score_ok (s + d)" "is_int64 d" "d \<noteq> 0"
    and "length v \<le> MaxValueSize" "is_int64 n" "is_int64 (t + n)"
  shows "(\<exists>c. (step e (\<lambda>_. True))\<^sup>*\<^sup>* start c \<and> applied c 0 = applied c 1 \<and>
      zset_of (dbs c 0) k x = Some (s + d) \<and> zset_of (dbs c 1) k x = Some s) \<and>
    (\<exists>c. (step e (\<lambda>_. True))\<^sup>*\<^sup>* start c \<and> applied c 0 = applied c 1 \<and>
      kv_of (dbs c 0) k = Some v \<and> kv_of (dbs c 1) k = None)"
proof
  obtain d1 where d1: "\<forall>m. cmdZADD m [''ZADD'', k, FormatInt s, x] db0 = (Inr (SimpleInt 1), d1)" "zset_inv d1"
    "zset_of d1 = (\<lambda>_. Map.empty)(k := [x \<mapsto> s])" "\<not> readonly d1" "room 1 d1"
    using zadd_first [OF assms(1-3)] room_mono [of _ _ 1] by (auto simp: room_def)
  have zo: "zset_of d1 k x = Some s" by (simp add: d1(3))
  obtain d2 where d2: "ZIncrBy k d x d1 = (Inr (s + d), d2)" "zset_of d2 k x = Some (s + d)"
    using ZIncrBy_ok [OF d1(2,4) assms(1,2) d1(5) assms(5)] assms(4,6) zo zstepD(2) by (fastforce split: if_splits)
  have incr: "cmdZINCRBY m [''ZINCRBY'', k, FormatInt d, x] d1 = (Inr (SimpleInt (s + d)), d2)" for m
    using assms(5) d2(1) by (simp add: cmdZINCRBY_def Atoi_def ParseInt_FormatInt lift_r_def)
  obtain c1 where "at_rest e (\<lambda>_. True) d1 d1 c1"
    using both_apply [OF at_rest_start(1) [of e "\<lambda>_. True"], of "''ZADD'' # [k, FormatInt s, x]" node node "Inr (SimpleInt 1)" d1 "Inr (SimpleInt 1)" d1] d1(1)
    by (auto simp: run_names)
  then obtain c2 where "at_rest e (\<lambda>_. True) d2 d1 c2"
    using first_reads [of e "\<lambda>_. True" d1 d1 c1 "[''ZINCRBY'', k, FormatInt d, x]" node "Inr (SimpleInt (s + d))" d2] incr by (auto simp: run_names)
  then show "\<exists>c. (step e (\<lambda>_. True))\<^sup>*\<^sup>* start c \<and> applied c 0 = applied c 1 \<and> zset_of (dbs c 0) k x = Some (s + d) \<and> zset_of (dbs c 1) k x = Some s"
    using d2(2) zo by (intro exI [of _ c2]) (simp add: at_rest_def)
next
  obtain d1 where d1: "Set_kv k v db0 = (Inr (), d1)" "kv_of d1 k = Some v" "ttl_ok d1"
    using Set_kv_ok [OF _ ttl_ok_newDB assms(1,7), of 0] by auto
  have "keeps KVType db0 d1" using keeps_Set_kv [of db0 k v] d1(1) by simp
  then have ro: "\<not> readonly d1" by (simp add: keeps_def)
  have set: "cmdSET m [''SET'', k, v] db0 = (Inr (SimpleString ''OK''), d1)" for m using d1(1) by (simp add: cmdSET_def)
  let ?m0 = "\<lparr>m_Now = t, wall = t + n - 1, map_order = (\<lambda>ks. ks)\<rparr>" and ?m1 = "\<lparr>m_Now = t, wall = t + n + 1, map_order = (\<lambda>ks. ks)\<rparr>"
  have ex: "cmdEXPIRE m [''EXPIRE'', k, FormatInt n] d1 = handleExpiration m k (t + n) d1" if "m_Now m = t" for m
    using assms(8,9) that by (simp add: cmdEXPIRE_def)
  obtain a where a: "cmdEXPIRE ?m0 [''EXPIRE'', k, FormatInt n] d1 = (Inr (SimpleInt 1), a)" "kv_of a k = Some v"
    using ExpireAt_eq [OF ro assms(1,9), of "t + n - 1"] d1(2) by (auto simp: ex handleExpiration_def)
  obtain b where b: "cmdEXPIRE ?m1 [''EXPIRE'', k, FormatInt n] d1 = (Inr (SimpleInt 1), b)" "kv_of b k = None"
    using Del_one [OF ro d1(3), of k] by (auto simp: ex handleExpiration_def)
  obtain c1 where c1: "at_rest e (\<lambda>_. True) d1 d1 c1"
    using both_apply [OF at_rest_start(1) [of e "\<lambda>_. True"], of "''SET'' # [k, v]" node node "Inr (SimpleString ''OK'')" d1 "Inr (SimpleString ''OK'')" d1] set
    by (auto simp: run_names)
  obtain c2 where "at_rest e (\<lambda>_. True) a b c2"
    using both_apply [OF c1, of "''EXPIRE'' # [k, FormatInt n]" ?m0 ?m1 "Inr (SimpleInt 1)" a "Inr (SimpleInt 1)" b] a(1) b(1) by (auto simp: run_names)
  then show "\<exists>c. (step e (\<lambda>_. True))\<^sup>*\<^sup>* start c \<and> applied c 0 = applied c 1 \<and> kv_of (dbs c 0) k = Some v \<and> kv_of (dbs c 1) k = None"
    using a(2) b(2) by (intro exI [of _ c2]) (simp add: at_rest_def)
qed

theorem replicas_diverge_witness:
  "\<exists>c. (step env0 (\<lambda>_. True))\<^sup>*\<^sup>* start c \<and> applied c 0 = applied c 1 \<and> dbs c 0 \<noteq> dbs c 1"
proof -
  have "\<exists>c. (step env0 (\<lambda>_. True))\<^sup>*\<^sup>* start c \<and> applied c 0 = applied c 1 \<and>
      zset_of (dbs c 0) ''z'' ''a'' = Some (1 + 2) \<and> zset_of (dbs c 1) ''z'' ''a'' = Some 1"
    using replicas_diverge [of "''z''" "''a''" 1 2 "''v''" 10 100 env0] by (simp add: key_ok_def score_ok_def is_int64_def)
  then show ?thesis by force
qed

end
