(* ===== verification/LedisInv.thy ===== *)
theory LedisInv
  imports LedisFlush
begin

text \<open>
  No operation of the data-type layer stores a container under a key of a size it refuses, or an
  expiry that is not eight bytes long.
\<close>

fun op_ok :: "ledisdb \<Rightarrow> bop \<Rightarrow> bool" where
  "op_ok db (BDel x) \<longleftrightarrow> True"
| "op_ok db (BPut x v) \<longleftrightarrow> (\<forall>dt k. x = indexVarBuf db @ meta_tag dt # k \<longrightarrow> key_ok k) \<and>
     (\<forall>T k. x = expEncodeMetaKey db T k \<longrightarrow> length v = 8)"

definition wf :: "ledisdb \<Rightarrow> ledisdb \<Rightarrow> bool" where
  "wf db db' \<longleftrightarrow> indexVarBuf db' = indexVarBuf db \<and> (\<forall>dt. meta_ok (meta_tag dt) db \<longrightarrow> meta_ok (meta_tag dt) db') \<and>
     (ttl_ok db \<longrightarrow> ttl_ok db')"

lemma wf_refl [simp, intro]: "wf db db"
  by (simp add: wf_def)

lemma wf_trans: "wf a b \<Longrightarrow> wf b c \<Longrightarrow> wf a c"
  by (simp add: wf_def)

lemma wf_setNextCheckTime [simp]: "wf db (setNextCheckTime w f db)"
  by (simp add: wf_def meta_ok_def tag_keys_def ttl_ok_def)

lemma batch_records:
  "\<forall>op \<in> set t. op_ok db op \<Longrightarrow> sget (apply_batch t s) x = Some v \<Longrightarrow> sget s x = Some v \<or> op_ok db (BPut x v)"
proof (induction t arbitrary: s)
  case (Cons op t)
  then show ?case by (cases op) (fastforce simp: store_simps split: if_splits)+
qed simp

lemma wf_Commit: "\<forall>op \<in> set t. op_ok db op \<Longrightarrow> wf db (snd (Commit t db))"
proof -
  assume t: "\<forall>op \<in> set t. op_ok db op"
  note b = batch_records [OF t, of "bucket db"]
  have "meta_ok (meta_tag dt) (db\<lparr>bucket := apply_batch t (bucket db)\<rparr>)" if "meta_ok (meta_tag dt) db" for dt
    using b that by (fastforce simp: meta_ok_def tag_keys_def)
  moreover have "ttl_ok (db\<lparr>bucket := apply_batch t (bucket db)\<rparr>)" if "ttl_ok db"
    using b that by (fastforce simp: ttl_ok_def)
  ultimately show ?thesis by (simp add: wf_def Commit_def)
qed

lemma wf_sbind:
  "wf db (snd r) \<Longrightarrow> (\<And>a db'. r = (Inr a, db') \<Longrightarrow> wf db' (snd (f a db'))) \<Longrightarrow> wf db (snd (sbind r f))"
  by (cases r; cases "fst r") (auto intro: wf_trans)

lemma wf_checked: "(\<And>a. r = Inr a \<Longrightarrow> wf db (snd (f a db))) \<Longrightarrow> wf db (snd (sbind (lift_r r db) f))"
  by (cases r) (simp_all add: lift_r_def)

lemma wf_if: "(b \<Longrightarrow> wf db (snd x)) \<Longrightarrow> (\<not> b \<Longrightarrow> wf db (snd y)) \<Longrightarrow> wf db (snd (if b then x else y))"
  by simp

lemma tag_neq: "c \<noteq> meta_tag dt \<Longrightarrow> indexVarBuf db @ c # r \<noteq> indexVarBuf db @ meta_tag dt # k"
  by simp

text \<open>Which records are harmless.\<close>

lemma op_ok_meta:
  "op_ok db (BPut (encodeKVKey db k) v) \<longleftrightarrow> key_ok k" "op_ok db (BPut (lEncodeMetaKey db k) v) \<longleftrightarrow> key_ok k"
  "op_ok db (BPut (hEncodeSizeKey db k) v) \<longleftrightarrow> key_ok k" "op_ok db (BPut (sEncodeSizeKey db k) v) \<longleftrightarrow> key_ok k"
  "op_ok db (BPut (zEncodeSizeKey db k) v) \<longleftrightarrow> key_ok k"
proof -
  have *: "(\<forall>u j. meta_tag dt = meta_tag u \<and> k = j \<longrightarrow> key_ok j) \<longleftrightarrow> key_ok k" for dt by blast
  show "op_ok db (BPut (encodeKVKey db k) v) \<longleftrightarrow> key_ok k" "op_ok db (BPut (lEncodeMetaKey db k) v) \<longleftrightarrow> key_ok k"
    "op_ok db (BPut (hEncodeSizeKey db k) v) \<longleftrightarrow> key_ok k" "op_ok db (BPut (sEncodeSizeKey db k) v) \<longleftrightarrow> key_ok k"
    "op_ok db (BPut (zEncodeSizeKey db k) v) \<longleftrightarrow> key_ok k"
    using * [of KV] * [of LIST] * [of HASH] * [of SET] * [of ZSET] by (simp_all add: size_key_defs exp_key_defs)
qed

lemma elem_tags [simp]: "ListType \<noteq> meta_tag dt" "HashType \<noteq> meta_tag dt" "SetType \<noteq> meta_tag dt" "ZSetType \<noteq> meta_tag dt"
  "ZScoreType \<noteq> meta_tag dt" "ExpMetaType \<noteq> meta_tag dt" "ExpTimeType \<noteq> meta_tag dt"
  by (cases dt; simp)+

lemma op_ok_elem [simp]:
  "op_ok db (BPut (lEncodeListKey db k i) v)" "op_ok db (BPut (hEncodeHashKey db k f) v)" "op_ok db (BPut (sEncodeSetKey db k f) v)"
  "op_ok db (BPut (zEncodeSetKey db k f) v)" "op_ok db (BPut (zEncodeScoreKey db k f w) v)"
  "op_ok db (BPut (member_key HashType db k f) v)" "op_ok db (BPut (member_key SetType db k f) v)" "op_ok db (BPut (member_key ZSetType db k f) v)"
  by (simp_all add: elem_key_defs elem_key_def exp_key_defs member_key_def)

lemma op_ok_expire: "\<forall>op \<in> set (expireAt_ops db T k w). op_ok db op"
  by (auto simp: expireAt_ops_def Let_def exp_key_defs)

lemma op_ok_rmExpire: "\<forall>op \<in> set (rmExpire_ops db T k). op_ok db op"
  by (simp add: rmExpire_exp_keys)

lemma op_ok_rmExpire_result: "rmExpire db T k = Inr (n, ops) \<Longrightarrow> \<forall>op \<in> set ops. op_ok db op"
  using op_ok_rmExpire [of db T k] by (simp add: rmExpire_ops_def)

lemma op_ok_cong: "indexVarBuf db' = indexVarBuf db \<Longrightarrow> op_ok db' op = op_ok db op"
  by (cases op) (simp_all add: expEncodeMetaKey_def)

lemma wf_commit_expireAt: "wf db (snd (commit_expireAt T key w db))"
  unfolding commit_expireAt_def
proof (rule wf_sbind)
  have "\<forall>op \<in> set (expireAt_ops db T key w). op_ok (setNextCheckTime w False db) op"
    using op_ok_expire [of db T key w] by (simp add: op_ok_cong [of "setNextCheckTime w False db" db])
  from wf_trans [OF wf_setNextCheckTime wf_Commit [OF this]]
  show "wf db (snd (Commit (expireAt_ops db T key w) (setNextCheckTime w False db)))" .
qed simp

section \<open>Strings\<close>

lemma op_ok_mset: "mset_ops db args = Inr ops \<Longrightarrow> \<forall>op \<in> set ops. op_ok db op"
  by (induction db args arbitrary: ops rule: mset_ops.induct) (auto simp: rbind_eq_Inr op_ok_meta checkKeySize_eq simp del: op_ok.simps split: if_splits)

lemma wf_kv:
  "wf db (snd (incr key delta db))" "wf db (snd (Del keys db))" "wf db (snd (GetSet key value db))" "wf db (snd (MSet args db))"
  "wf db (snd (Set_kv key value db))" "wf db (snd (SetNX key value db))" "wf db (snd (SetEXAT now key timestamp value db))"
  "wf db (snd (ExpireAt now key w db))" "wf db (snd (SetRange key offset value db))" "wf db (snd (Append key value db))"
  "wf db (snd (BitOP op destKey srcKeys db))" "wf db (snd (SetBit key offset on db))"
proof -
  note d = checkKeySize_eq op_ok_meta Let_def
  show "wf db (snd (incr key delta db))" by (auto simp: incr_def d simp del: op_ok.simps intro!: wf_checked wf_Commit split: if_splits)
  show "wf db (snd (Del keys db))" using op_ok_rmExpire by (auto simp: Del_def intro!: wf_Commit)
  show "wf db (snd (GetSet key value db))" by (auto simp: GetSet_def d simp del: op_ok.simps intro!: wf_checked wf_Commit split: if_splits)
  show "wf db (snd (MSet args db))" by (auto simp: MSet_def intro!: wf_checked wf_Commit dest: op_ok_mset)
  show "wf db (snd (Set_kv key value db))"
    by (auto simp: Set_kv_def d simp del: op_ok.simps intro!: wf_checked wf_Commit dest!: op_ok_rmExpire_result split: if_splits)
  show "wf db (snd (SetNX key value db))"
    by (auto simp: SetNX_def d simp del: op_ok.simps intro!: wf_checked wf_Commit split: option.split if_splits)
  show "wf db (snd (SetEXAT now key timestamp value db))"
  proof (cases "key_ok key")
    case True
    have "\<forall>op \<in> set (BPut (encodeKVKey db key) value # expireAt_ops db KVType key timestamp). op_ok (setNextCheckTime timestamp False db) op"
      using True op_ok_expire [of db KVType key timestamp] by (simp add: op_ok_cong [of "setNextCheckTime timestamp False db" db] op_ok_meta del: op_ok.simps)
    from wf_trans [OF wf_setNextCheckTime wf_Commit [OF this]] show ?thesis by (auto simp: SetEXAT_def intro!: wf_checked)
  qed (simp add: SetEXAT_def checkKeySize_eq lift_r_def)
  show "wf db (snd (ExpireAt now key w db))" by (auto simp: ExpireAt_def setExpireAt_def intro!: wf_checked wf_commit_expireAt)
  show "wf db (snd (SetRange key offset value db))"
    by (auto simp: SetRange_def d simp del: op_ok.simps intro!: wf_checked wf_Commit split: if_splits)
  show "wf db (snd (Append key value db))"
    by (auto simp: Append_def d simp del: op_ok.simps intro!: wf_checked wf_Commit split: if_splits)
  show "wf db (snd (BitOP op destKey srcKeys db))"
    by (auto simp: BitOP_def d simp del: op_ok.simps intro!: wf_checked wf_Commit split: if_splits)
  show "wf db (snd (SetBit key offset on db))"
    by (auto simp: SetBit_def d simp del: op_ok.simps intro!: wf_checked wf_Commit split: if_splits)
qed

section \<open>Lists\<close>

lemma lSetMeta_ok: "lSetMeta (lEncodeMetaKey db k) h t = Inr (n, ops) \<Longrightarrow> key_ok k \<Longrightarrow> \<forall>op \<in> set ops. op_ok db op"
  by (auto simp: lSetMeta_def Let_def op_ok_meta simp del: op_ok.simps(2) split: if_splits)

lemma lDelete_op_ok: "lDelete db k = Inr (n, ops) \<Longrightarrow> \<forall>op \<in> set ops. op_ok db op"
  by (auto simp: lDelete_def Let_def split: sum.splits if_splits prod.splits)

lemma lmclear_ok: "lmclear_ops db ks = Inr ops \<Longrightarrow> \<forall>op \<in> set ops. op_ok db op"
  by (induction db ks arbitrary: ops rule: lmclear_ops.induct) (auto simp: rbind_eq_Inr op_ok_rmExpire dest!: lDelete_op_ok)

lemma wf_list:
  "wf db (snd (lpush k w xs db))" "wf db (snd (lpop k w db))" "wf db (snd (ltrim2 k a b db))" "wf db (snd (LClear k db))"
  "wf db (snd (LMclear ks db))" "wf db (snd (lExpireAt k t db))"
proof -
  show "wf db (snd (lpush k w xs db))"
    by (auto simp: lpush_def Let_def checkKeySize_eq simp del: op_ok.simps(2) intro!: wf_checked wf_Commit dest!: lSetMeta_ok split: if_splits)
  show "wf db (snd (lpop k w db))"
    by (auto simp: lpop_def Let_def checkKeySize_eq op_ok_rmExpire simp del: op_ok.simps(2) intro!: wf_checked wf_Commit dest!: lSetMeta_ok
        split: prod.splits if_splits)
  show "wf db (snd (ltrim2 k a b db))"
    by (auto simp: ltrim2_def Let_def ball_Un checkKeySize_eq op_ok_rmExpire simp del: Un_iff op_ok.simps(2)
        intro!: wf_checked wf_if wf_Commit ball_set_if dest!: lSetMeta_ok lDelete_op_ok split del: if_split split: if_split_asm)
  show "wf db (snd (LClear k db))"
    by (auto simp: LClear_def Let_def op_ok_rmExpire intro!: wf_checked wf_Commit dest!: lDelete_op_ok)
  show "wf db (snd (LMclear ks db))"
    by (auto simp: LMclear_def intro!: wf_checked wf_Commit dest!: lmclear_ok)
  show "wf db (snd (lExpireAt k t db))"
    by (auto simp: lExpireAt_def intro!: wf_checked wf_commit_expireAt)
qed

section \<open>Hashes\<close>

lemma incr_size_ok:
  assumes "incr_size T sk db k d = Inr (n, ops)" "\<And>v. op_ok db (BPut sk v)"
  shows "\<forall>op \<in> set ops. op_ok db op"
  using assms op_ok_rmExpire by (auto simp: incr_size_def Let_def rbind_eq_Inr simp del: op_ok.simps(2) split: if_splits)

lemma hSetItem_op_ok: "hSetItem db k f v = Inr (n, ops) \<Longrightarrow> key_ok k \<Longrightarrow> \<forall>op \<in> set ops. op_ok db op"
  by (auto simp: hSetItem_def Let_def rbind_eq_Inr hIncrSize_def op_ok_meta simp del: op_ok.simps(2) dest!: incr_size_ok split: option.splits)

lemma hmset_ok: "hmset_loop db k fvs = Inr (n, ops) \<Longrightarrow> (\<forall>op \<in> set ops. op_ok db op) \<and> (fvs \<noteq> [] \<longrightarrow> key_ok k)"
  by (induction db k fvs arbitrary: n ops rule: hmset_loop.induct)
    (auto simp: rbind_eq_Inr Let_def checkHashKFSize_eq simp del: op_ok.simps(2) split: if_splits)

lemma hdel_ok: "hdel_loop db k fs = Inr (n, ops) \<Longrightarrow> (\<forall>op \<in> set ops. op_ok db op) \<and> (fs \<noteq> [] \<longrightarrow> key_ok k)"
  by (induction db k fs arbitrary: n ops rule: hdel_loop.induct)
    (auto simp: rbind_eq_Inr Let_def checkHashKFSize_eq split: option.splits if_splits)

lemma hDelete_op_ok: "\<forall>op \<in> set (snd (hDelete db k)). op_ok db op"
  by (auto simp: hDelete_def Let_def)

lemma hmclear_ok: "hmclear_ops db ks = Inr ops \<Longrightarrow> \<forall>op \<in> set ops. op_ok db op"
  by (induction db ks arbitrary: ops rule: hmclear_ops.induct) (auto simp: rbind_eq_Inr hDelete_op_ok op_ok_rmExpire)

lemma wf_hash:
  "wf db (snd (HSet k f v db))" "fvs \<noteq> [] \<Longrightarrow> wf db (snd (HMset k fvs db))" "fs \<noteq> [] \<Longrightarrow> wf db (snd (HDel k fs db))"
  "wf db (snd (HIncrBy k f d db))" "wf db (snd (hExpireAt k w db))" "wf db (snd (HClear k db))" "wf db (snd (HMclear ks db))"
proof -
  note d = op_ok_meta hIncrSize_def checkHashKFSize_eq
  show "wf db (snd (HSet k f v db))"
    by (auto simp: HSet_def d simp del: op_ok.simps(2) intro!: wf_checked wf_Commit dest!: hSetItem_op_ok split: if_splits)
  show "wf db (snd (HMset k fvs db))" if "fvs \<noteq> []"
    using that by (auto simp: HMset_def d simp del: op_ok.simps(2) intro!: wf_checked wf_Commit dest!: hmset_ok incr_size_ok)
  show "wf db (snd (HDel k fs db))" if "fs \<noteq> []"
    using that by (auto simp: HDel_def d simp del: op_ok.simps(2) intro!: wf_checked wf_Commit dest!: hdel_ok incr_size_ok)
  show "wf db (snd (HIncrBy k f d db))"
    by (auto simp: HIncrBy_def Let_def d simp del: op_ok.simps(2) intro!: wf_checked wf_Commit dest!: hSetItem_op_ok split: if_splits)
  show "wf db (snd (hExpireAt k w db))" by (auto simp: hExpireAt_def intro!: wf_checked wf_commit_expireAt)
  show "wf db (snd (HClear k db))"
    using hDelete_op_ok [of db k] by (auto simp: HClear_def op_ok_rmExpire intro!: wf_checked wf_Commit split: prod.split)
  show "wf db (snd (HMclear ks db))" by (auto simp: HMclear_def intro!: wf_checked wf_Commit dest!: hmclear_ok)
qed

section \<open>Sets\<close>

lemma sadd_ok: "sadd_loop db k xs = Inr (n, ops) \<Longrightarrow> (\<forall>op \<in> set ops. op_ok db op) \<and> (xs \<noteq> [] \<longrightarrow> key_ok k)"
  by (induction db k xs arbitrary: n ops rule: sadd_loop.induct)
    (auto simp: rbind_eq_Inr Let_def checkSetKMSize_eq simp del: op_ok.simps(2) split: if_splits)

lemma srem_ok: "srem_loop db k xs = Inr (n, ops) \<Longrightarrow> (\<forall>op \<in> set ops. op_ok db op) \<and> (xs \<noteq> [] \<longrightarrow> key_ok k)"
  by (induction db k xs arbitrary: n ops rule: srem_loop.induct)
    (auto simp: rbind_eq_Inr Let_def checkSetKMSize_eq split: option.splits if_splits)

lemma sstore_ok: "sstore_loop db k v = Inr ops \<Longrightarrow> \<forall>op \<in> set ops. op_ok db op"
  by (induction v arbitrary: ops) (auto simp: rbind_eq_Inr simp del: op_ok.simps(2))

lemma sDelete_op_ok: "\<forall>op \<in> set (snd (sDelete db k)). op_ok db op"
  by (auto simp: sDelete_def Let_def)

lemma smclear_ok: "smclear_ops db ks = Inr ops \<Longrightarrow> \<forall>op \<in> set ops. op_ok db op"
  by (induction db ks arbitrary: ops rule: smclear_ops.induct) (auto simp: rbind_eq_Inr sDelete_op_ok op_ok_rmExpire)

lemma wf_set:
  "xs \<noteq> [] \<Longrightarrow> wf db (snd (SAdd k xs db))" "xs \<noteq> [] \<Longrightarrow> wf db (snd (SRem k xs db))" "wf db (snd (sExpireAt k w db))"
  "wf db (snd (SPersist k db))" "wf db (snd (SClear k db))" "wf db (snd (SMclear ks db))"
proof -
  note d = op_ok_meta sIncrSize_def
  show "wf db (snd (SAdd k xs db))" if "xs \<noteq> []"
    using that by (auto simp: SAdd_def d simp del: op_ok.simps(2) intro!: wf_checked wf_Commit dest!: sadd_ok incr_size_ok)
  show "wf db (snd (SRem k xs db))" if "xs \<noteq> []"
    using that by (auto simp: SRem_def d simp del: op_ok.simps(2) intro!: wf_checked wf_Commit dest!: srem_ok incr_size_ok)
  show "wf db (snd (sExpireAt k w db))" by (auto simp: sExpireAt_def intro!: wf_checked wf_commit_expireAt)
  show "wf db (snd (SPersist k db))"
    by (auto simp: SPersist_def commit_persist_def intro!: wf_checked wf_Commit dest!: op_ok_rmExpire_result)
  show "wf db (snd (SClear k db))"
    using sDelete_op_ok [of db k] by (auto simp: SClear_def op_ok_rmExpire intro!: wf_checked wf_Commit split: prod.split)
  show "wf db (snd (SMclear ks db))" by (auto simp: SMclear_def intro!: wf_checked wf_Commit dest!: smclear_ok)
qed

section \<open>Sorted sets\<close>

lemma zadd_ok: "zadd_loop db k args = Inr (n, ops) \<Longrightarrow> (\<forall>op \<in> set ops. op_ok db op) \<and> (args \<noteq> [] \<longrightarrow> key_ok k)"
  by (induction db k args arbitrary: n ops rule: zadd_loop.induct)
    (auto simp: rbind_eq_Inr zSetItem_def Let_def checkZSetKMSize_eq simp del: op_ok.simps(2) split: option.splits if_splits)

lemma zrem_ok: "zrem_loop db k ms = Inr (n, ops) \<Longrightarrow> (\<forall>op \<in> set ops. op_ok db op) \<and> (ms \<noteq> [] \<longrightarrow> key_ok k)"
  by (induction db k ms arbitrary: n ops rule: zrem_loop.induct)
    (auto simp: rbind_eq_Inr zDelItem_def Let_def checkZSetKMSize_eq split: option.splits if_splits)

lemma zremrange_ok: "zremrange_loop db k it = Inr (n, ops) \<Longrightarrow> \<forall>op \<in> set ops. op_ok db op"
  by (induction db k it arbitrary: n ops rule: zremrange_loop.induct)
    (auto simp: rbind_eq_Inr zDelItem_def Let_def split: option.splits sum.splits if_splits)

lemma wf_zset:
  "wf db (snd (ZAdd k args db))" "wf db (snd (ZRem k ms db))" "wf db (snd (ZIncrBy k delta m db))"
  "k \<noteq> [] \<Longrightarrow> wf db (snd (commit_rem (zRemRange db k lo hi offset count) db))"
proof -
  note d = op_ok_meta zIncrSize_def
  show "wf db (snd (ZAdd k args db))"
    by (auto simp: ZAdd_def d simp del: op_ok.simps(2) intro!: wf_checked wf_Commit dest!: zadd_ok incr_size_ok)
  show "wf db (snd (ZRem k ms db))"
    by (auto simp: ZRem_def d simp del: op_ok.simps(2) intro!: wf_checked wf_Commit dest!: zrem_ok incr_size_ok)
  show "wf db (snd (ZIncrBy k delta m db))"
    by (auto simp: ZIncrBy_def Let_def d checkZSetKMSize_eq simp del: op_ok.simps(2) intro!: wf_checked wf_if wf_Commit dest!: incr_size_ok
        split: option.splits sum.splits if_splits)
  show "wf db (snd (commit_rem (zRemRange db k lo hi offset count) db))" if "k \<noteq> []"
    using that by (auto simp: commit_rem_def zRemRange_def d rbind_eq_Inr key_ok_def simp del: op_ok.simps(2) intro!: wf_checked wf_Commit
        dest!: zremrange_ok incr_size_ok split: if_splits)
qed

end
