(* ===== verification/ServerInv.thy ===== *)
theory ServerInv
  imports Server LedisInv
begin

text \<open>
  The invariant of the whole database: whatever commands a node runs, the records of all data
  types stay well formed, and therefore \<open>FLUSHALL\<close> returns and leaves nothing behind.
\<close>

section \<open>The effect of a command on the records of the other types\<close>

text \<open>Only records of type \<open>T\<close> change, and no container gets a bad key or expiry.\<close>

definition confined :: "char \<Rightarrow> ledisdb \<Rightarrow> ledisdb \<Rightarrow> bool" where
  "confined T db db' \<longleftrightarrow> (store_ok (bucket db) \<longrightarrow> keeps T db db') \<and> wf db db'"

lemma confined_refl [simp, intro]: "confined T db db"
  by (simp add: confined_def)

lemma confined_trans: "confined T a b \<Longrightarrow> confined T b c \<Longrightarrow> confined T a c"
  unfolding confined_def using keeps_trans wf_trans by (metis keeps_def)

lemma confined_sbind:
  "confined T db (snd r) \<Longrightarrow> (\<And>a db'. confined T db' (snd (f a db'))) \<Longrightarrow> confined T db (snd (sbind r f))"
  by (cases r; cases "fst r") (auto intro: confined_trans)

lemma confined_checked: "(\<And>a. confined T db (snd (f a db))) \<Longrightarrow> confined T db (snd (sbind (lift_r r db) f))"
  by (cases r) (simp_all add: lift_r_def)

lemma confined_kv:
  "confined KVType db (snd (incr key delta db))" "confined KVType db (snd (Del keys db))" "confined KVType db (snd (GetSet key value db))"
  "confined KVType db (snd (MSet args db))" "confined KVType db (snd (Set_kv key value db))" "confined KVType db (snd (SetNX key value db))"
  "confined KVType db (snd (SetEXAT now key timestamp value db))" "confined KVType db (snd (ExpireAt now key w db))"
  "confined KVType db (snd (SetRange key offset value db))" "confined KVType db (snd (Append key value db))"
  "confined KVType db (snd (BitOP op destKey srcKeys db))" "confined KVType db (snd (SetBit key offset on db))"
  by (simp_all add: confined_def kv_keeps wf_kv)

lemma confined_list:
  "confined ListType db (snd (lpush k w xs db))" "confined ListType db (snd (lpop k w db))" "confined ListType db (snd (ltrim2 k a b db))"
  "confined ListType db (snd (LClear k db))" "confined ListType db (snd (LMclear ks db))" "confined ListType db (snd (lExpireAt k t db))"
  by (simp_all add: confined_def list_keeps wf_list)

lemma confined_hash:
  "confined HashType db (snd (HSet k f v db))" "fvs \<noteq> [] \<Longrightarrow> confined HashType db (snd (HMset k fvs db))"
  "fs \<noteq> [] \<Longrightarrow> confined HashType db (snd (HDel k fs db))" "confined HashType db (snd (HIncrBy k f d db))"
  "confined HashType db (snd (hExpireAt k w db))" "confined HashType db (snd (HClear k db))" "confined HashType db (snd (HMclear ks db))"
  by (simp_all add: confined_def keeps_hash wf_hash)

lemma confined_set:
  "xs \<noteq> [] \<Longrightarrow> confined SetType db (snd (SAdd k xs db))" "xs \<noteq> [] \<Longrightarrow> confined SetType db (snd (SRem k xs db))"
  "confined SetType db (snd (sExpireAt k w db))" "confined SetType db (snd (SPersist k db))"
  "confined SetType db (snd (SClear k db))" "confined SetType db (snd (SMclear ks db))"
  by (simp_all add: confined_def keeps_set wf_set)

lemma confined_zset:
  "confined ZSetType db (snd (ZAdd k args db))" "confined ZSetType db (snd (ZRem k ms db))" "confined ZSetType db (snd (ZIncrBy k delta m db))"
  "k \<noteq> [] \<Longrightarrow> confined ZSetType db (snd (commit_rem (zRemRange db k lo hi offset cnt) db))"
  by (simp_all add: confined_def keeps_zset wf_zset)

lemma confined_inv:
  assumes "db_inv db" "confined T db db'"
    and "T = ListType \<Longrightarrow> list_inv db'" "T = HashType \<Longrightarrow> hash_inv db'" "T = SetType \<Longrightarrow> set_inv db'" "T = ZSetType \<Longrightarrow> zset_inv db'"
  shows "db_inv db' \<and> readonly db' = readonly db"
proof -
  have k: "keeps T db db'" and w: "wf db db'" using assms(2) db_inv_store [OF assms(1)] by (simp_all add: confined_def)
  have "ttl_ok db'" "\<forall>dt. meta_ok (meta_tag dt) db'"
    using w assms(1) by (simp_all add: wf_def db_inv_def list_inv_def)
  from db_inv_step [OF assms(1) k this assms(3-6)] keeps_readonly [OF k] show ?thesis by blast
qed

section \<open>Handlers\<close>

lemma confined_init_then:
  assumes "\<And>db. confined KVType db (snd (f db))"
  shows "confined KVType db (snd (sbind (if b then Set_kv k v db else (Inr (), db)) (\<lambda>_ db. f db)))"
  using assms by (intro confined_sbind) (simp_all add: confined_kv)

lemma string_confined:
  "confined KVType db (snd (cmdEXPIREAT m args db))" "confined KVType db (snd (cmdEXPIRE m args db))"
  "confined KVType db (snd (cmdSETRANGE m args db))" "confined KVType db (snd (cmdINCRBY m args db))"
  "confined KVType db (snd (cmdINCR m args db))" "confined KVType db (snd (cmdGETSET m args db))"
  "confined KVType db (snd (cmdSETBIT m args db))" "confined KVType db (snd (cmdDECRBY m args db))"
  "confined KVType db (snd (cmdDECR m args db))" "confined KVType db (snd (cmdBITOP m args db))"
  "confined KVType db (snd (cmdAPPEND m args db))" "confined KVType db (snd (cmdSET m args db))"
  "confined KVType db (snd (cmdSETEX m args db))" "confined KVType db (snd (cmdSETEXAT m args db))"
  "confined KVType db (snd (cmdSETNX m args db))" "confined KVType db (snd (cmdDEL m args db))"
  "confined KVType db (snd (cmdMSET m args db))"
  by (auto simp: cmdEXPIREAT_def cmdEXPIRE_def cmdSETRANGE_def cmdINCRBY_def cmdINCR_def cmdGETSET_def
      cmdSETBIT_def cmdDECRBY_def cmdDECR_def cmdBITOP_def cmdAPPEND_def cmdSET_def cmdSETEX_def
      cmdSETEXAT_def cmdSETNX_def cmdDEL_def cmdMSET_def IncrBy_def Incr_def DecrBy_def Decr_def Let_def
      handleExpiration_def setex_at_def intro!: confined_checked confined_init_then confined_kv split: sum.split)

lemma confined_LExpire: "confined ListType db (snd (LExpire now k d db))" "confined ListType db (snd (LExpireAt now k t db))"
  by (simp_all add: LExpire_def LExpireAt_def confined_list)

lemma confined_RPOPLPUSH: "confined ListType db (snd (cmdRPOPLPUSH m args db))"
proof -
  have pushed: "confined ListType d (snd (case LPush k [x] d of (Inl e, db) \<Rightarrow> (Inl e, snd (RPush s [x] db))
      | (Inr _, db) \<Rightarrow> (Inr (Bytes (Some x)), if ttl \<noteq> -1 then snd (LExpire (wall m) s ttl db) else db)))" for k s x d ttl
  proof -
    obtain r d' where p: "LPush k [x] d = (r, d')" by fastforce
    then have "confined ListType d d'" using confined_list(1) [of d k listHeadSeq "[x]"] by (simp add: LPush_def)
    then show ?thesis using p confined_trans [OF _ confined_list(1)] confined_trans [OF _ confined_LExpire(1)]
      by (cases r) (simp_all add: RPush_def)
  qed
  show ?thesis unfolding cmdRPOPLPUSH_def Let_def
    by (auto intro!: confined_checked confined_sbind pushed simp: confined_list RPop_def split: option.split)
qed

lemma list_confined:
  "confined ListType db (snd (cmdRPUSH m args db))" "confined ListType db (snd (cmdLPOP m args db))" "confined ListType db (snd (cmdLPUSH m args db))"
  "confined ListType db (snd (cmdRPOP m args db))" "confined ListType db (snd (cmdLCLEAR m args db))" "confined ListType db (snd (cmdLMCLEAR m args db))"
  "confined ListType db (snd (cmdLEXPIRE m args db))" "confined ListType db (snd (cmdLEXPIREAT m args db))" "confined ListType db (snd (cmdLTRIM m args db))"
  by (auto simp: cmdRPUSH_def cmdLPOP_def cmdLPUSH_def cmdRPOP_def cmdLCLEAR_def cmdLMCLEAR_def cmdLEXPIRE_def cmdLEXPIREAT_def cmdLTRIM_def
      lexpire_at_def RPush_def LPop_def LPush_def RPop_def LTrim_def intro!: confined_checked confined_list confined_LExpire)

lemma confined_hset_loop: "confined HashType db (snd (hset_loop k args n db))"
proof (induction k args n db rule: hset_loop.induct)
  case (1 k f v args n db)
  then show ?case using confined_hash(1) [of db k f v] by (auto intro: confined_trans split: prod.split sum.split)
qed simp_all

lemma hash_confined:
  "confined HashType db (snd (cmdHSET m args db))" "confined HashType db (snd (cmdHDEL m args db))" "confined HashType db (snd (cmdHINCRBY m args db))"
  "confined HashType db (snd (cmdHMSET m args db))" "confined HashType db (snd (cmdHSETNX m args db))" "confined HashType db (snd (cmdHCLEAR m args db))"
  "confined HashType db (snd (cmdHMCLEAR m args db))" "confined HashType db (snd (cmdHEXPIRE m args db))" "confined HashType db (snd (cmdHEXPIREAT m args db))"
proof -
  show "confined HashType db (snd (cmdHSET m args db))"
    using confined_hset_loop [of db "args ! 1" "drop 2 args" 0] by (auto simp: cmdHSET_def split: prod.split)
  have ne: "fv_pairs (drop 2 args) \<noteq> []" if "\<not> length args < 3" "length (drop 2 args) mod 2 = 0"
    using that by (cases "drop 2 args" rule: fv_pairs.cases) (auto simp: mod2_eq_if)
  then show "confined HashType db (snd (cmdHMSET m args db))" by (simp add: cmdHMSET_def confined_hash)
  show "confined HashType db (snd (cmdHDEL m args db))"
    using confined_hash(3) [of "drop 2 args" db "args ! 1"] by (auto simp: cmdHDEL_def split: prod.split sum.split)
  show "confined HashType db (snd (cmdHINCRBY m args db))" "confined HashType db (snd (cmdHSETNX m args db))" "confined HashType db (snd (cmdHCLEAR m args db))"
    "confined HashType db (snd (cmdHMCLEAR m args db))" "confined HashType db (snd (cmdHEXPIRE m args db))" "confined HashType db (snd (cmdHEXPIREAT m args db))"
    by (auto simp: cmdHINCRBY_def cmdHSETNX_def cmdHCLEAR_def cmdHMCLEAR_def cmdHEXPIRE_def cmdHEXPIREAT_def hexpire_at_def HExpireAt_def
        intro!: confined_checked confined_hash)
qed

lemma set_confined:
  "confined SetType db (snd (cmdSADD m args db))" "confined SetType db (snd (cmdSREM m args db))" "confined SetType db (snd (cmdSCLEAR m args db))"
  "confined SetType db (snd (cmdSMCLEAR m args db))" "confined SetType db (snd (cmdSEXPIRE m args db))" "confined SetType db (snd (cmdSEXPIREAT m args db))"
  "confined SetType db (snd (cmdSPERSIST m args db))"
  by (auto simp: cmdSADD_def cmdSREM_def cmdSCLEAR_def cmdSMCLEAR_def cmdSEXPIRE_def cmdSEXPIREAT_def cmdSPERSIST_def sexpire_at_def SExpireAt_def
      intro!: confined_checked confined_set split: sum.split)

lemma zset_confined:
  "confined ZSetType db (snd (cmdZADD m args db))" "confined ZSetType db (snd (cmdZREM m args db))" "confined ZSetType db (snd (cmdZINCRBY m args db))"
  "length args < 2 \<or> args ! 1 \<noteq> [] \<Longrightarrow> confined ZSetType db (snd (cmdZCLEAR m args db))"
  "length args < 2 \<or> args ! 1 \<noteq> [] \<Longrightarrow> confined ZSetType db (snd (cmdZREMRANGEBYSCORE m args db))"
  "length args < 2 \<or> args ! 1 \<noteq> [] \<Longrightarrow> confined ZSetType db (snd (cmdZREMRANGEBYRANK m args db))"
  by (auto simp: cmdZADD_def cmdZREM_def cmdZINCRBY_def cmdZCLEAR_def cmdZREMRANGEBYSCORE_def cmdZREMRANGEBYRANK_def ZClear_def ZRemRangeByScore_def
      ZRemRangeByRank_def intro!: confined_checked confined_zset split: prod.split)

section \<open>The table of commands\<close>

text \<open>
  What the words of a command must satisfy on the database they meet. \<open>LSET\<close> on a missing list, a
  STORE command with an empty result, a member or field named twice and an increment of 0 break
  the records; so does removing a range from the sorted set under the empty key, and an \<open>LTRIM\<close>
  whose two indices lie before the head. Of these, \<open>LSET\<close> and the STORE commands are left out
  altogether.
\<close>

definition admissible :: "string \<Rightarrow> string list \<Rightarrow> ledisdb \<Rightarrow> bool" where
  "admissible name args db \<longleftrightarrow> length args < 2147483648 \<and>
     name \<noteq> ''lset'' \<and> name \<noteq> ''sdiffstore'' \<and> name \<noteq> ''sinterstore'' \<and> name \<noteq> ''sunionstore'' \<and> (name = ''ltrim'' \<longrightarrow> \<not> ltrim_off args db) \<and>
     (name = ''hdel'' \<or> name = ''sadd'' \<or> name = ''srem'' \<or> name = ''zrem'' \<longrightarrow> distinct (drop 2 args)) \<and>
     (name = ''hmset'' \<longrightarrow> distinct (map fst (fv_pairs (drop 2 args)))) \<and>
     (name = ''zadd'' \<longrightarrow> (case zadd_pairs (drop 2 args) of Inl e \<Rightarrow> True | Inr ps \<Rightarrow> distinct (map snd ps))) \<and>
     (name = ''zincrby'' \<longrightarrow> length args = 4 \<longrightarrow> Atoi (args ! 2) \<noteq> Inr 0) \<and>
     (name = ''zclear'' \<or> name = ''zremrangebyscore'' \<or> name = ''zremrangebyrank'' \<longrightarrow> length args < 2 \<or> args ! 1 \<noteq> [])"

definition sound :: "ledisdb \<Rightarrow> bool" where
  "sound db \<longleftrightarrow> db_inv db \<and> \<not> readonly db"

definition fits :: "string list \<Rightarrow> ledisdb \<Rightarrow> bool" where
  "fits args db \<longleftrightarrow> sound db \<and> room (Suc (length args)) db"

definition sound_entry :: "string \<Rightarrow> command \<Rightarrow> bool" where
  "sound_entry name fn \<longleftrightarrow> (\<forall>m args db r db'. admissible name args db \<and> fits args db \<and> fn m args db = Some (r, db') \<longrightarrow> sound db')"

definition sound_writes :: "(string \<times> cmd_kind \<times> command) list \<Rightarrow> bool" where
  "sound_writes cs \<longleftrightarrow> (\<forall>(name, kind, fn) \<in> set cs. kind = Write \<or> name \<in> writing_reads \<longrightarrow> sound_entry name fn)"

lemma sound_writesD:
  "sound_writes cs \<Longrightarrow> (name, kind, fn) \<in> set cs \<Longrightarrow> kind = Write \<or> name \<in> writing_reads \<Longrightarrow> sound_entry name fn"
  unfolding sound_writes_def by (drule bspec, assumption) blast

lemma sound_entryI:
  assumes "\<And>m args db. admissible name args db \<Longrightarrow> fits args db \<Longrightarrow> sound (snd (h m args db))"
  shows "sound_entry name (\<lambda>m args db. Some (h m args db))"
  unfolding sound_entry_def
proof (intro allI impI, elim conjE)
  fix m args db r db' assume "admissible name args db" "fits args db" "Some (h m args db) = Some (r, db')"
  then show "sound db'" using assms [of args db m] by simp
qed

lemma sound_writes_append: "sound_writes (xs @ ys) \<longleftrightarrow> sound_writes xs \<and> sound_writes ys"
  by (simp only: sound_writes_def set_append ball_Un)

lemma sound_writes_Nil [simp]: "sound_writes []"
  by (simp add: sound_writes_def)

lemma sound_writes_Cons [simp]:
  "sound_writes (AddReadCommand n h # cs) \<longleftrightarrow>
     (ToLower n \<in> writing_reads \<longrightarrow> sound_entry (ToLower n) (\<lambda>m args db. Some (h m args db))) \<and> sound_writes cs"
  "sound_writes (AddWriteCommand n h # cs) \<longleftrightarrow> sound_entry (ToLower n) (\<lambda>m args db. Some (h m args db)) \<and> sound_writes cs"
  unfolding sound_writes_def add_defs list.set(2) ball_simps(7) prod.case by simp_all

lemma sound_confined:
  assumes "fits args db" "confined T db db'"
    and "T = ListType \<Longrightarrow> list_inv db \<Longrightarrow> list_inv db'" "T = HashType \<Longrightarrow> hash_inv db \<Longrightarrow> hash_inv db'"
    and "T = SetType \<Longrightarrow> set_inv db \<Longrightarrow> set_inv db'" "T = ZSetType \<Longrightarrow> zset_inv db \<Longrightarrow> zset_inv db'"
  shows "sound db'"
proof -
  have i: "db_inv db" using assms(1) by (simp add: fits_def sound_def)
  then have "db_inv db' \<and> readonly db' = readonly db"
    by (intro confined_inv [OF _ assms(2)] assms(3-6)) (simp_all add: db_inv_def)
  then show ?thesis using assms(1) by (simp add: fits_def sound_def)
qed

lemma sound_types:
  "fits args db \<Longrightarrow> confined KVType db db' \<Longrightarrow> sound db'"
  "fits args db \<Longrightarrow> confined ListType db db' \<Longrightarrow> (list_inv db \<Longrightarrow> list_inv db') \<Longrightarrow> sound db'"
  "fits args db \<Longrightarrow> confined HashType db db' \<Longrightarrow> (hash_inv db \<Longrightarrow> hash_inv db') \<Longrightarrow> sound db'"
  "fits args db \<Longrightarrow> confined SetType db db' \<Longrightarrow> (set_inv db \<Longrightarrow> set_inv db') \<Longrightarrow> sound db'"
  "fits args db \<Longrightarrow> confined ZSetType db db' \<Longrightarrow> (zset_inv db \<Longrightarrow> zset_inv db') \<Longrightarrow> sound db'"
  by (erule (1) sound_confined; simp)+

lemma string_sound: "sound_writes (string_commands e)"
  unfolding string_commands_def
  by (simp add: lower_letters writing_reads_def) (intro conjI sound_entryI; rule sound_types(1), assumption, rule string_confined)

lemma list_sound: "sound_writes (list_commands e)"
proof -
  have inv: "list_inv (snd (cmdRPUSH m args db))"
    "list_inv (snd (cmdLPOP m args db))"
    "list_inv (snd (cmdLPUSH m args db))"
    "list_inv (snd (cmdRPOP m args db))"
    "list_inv (snd (cmdRPOPLPUSH m args db))"
    "list_inv (snd (cmdLCLEAR m args db))"
    "list_inv (snd (cmdLMCLEAR m args db))"
    "list_inv (snd (cmdLEXPIRE m args db))"
    "list_inv (snd (cmdLEXPIREAT m args db))"
    if "admissible name args db" "list_inv db" for name m args db using list_invariant [OF that(2), of args m] that(1) by (simp_all add: admissible_def)
  have trim: "list_inv (snd (cmdLTRIM m args db))" if "admissible ''ltrim'' args db" "list_inv db" for m args db
    using list_inv_LTRIM that by (simp add: admissible_def)
  have "sound_entry ''lset'' f" for f by (simp add: sound_entry_def admissible_def)
  then show ?thesis unfolding list_commands_def
    by (simp add: lower_letters writing_reads_def)
      (intro conjI sound_entryI; rule sound_types(2), assumption, rule list_confined confined_RPOPLPUSH, rule trim inv; (assumption | simp; fail))
qed

lemma hash_sound: "sound_writes (hash_commands e)"
proof -
  have r: "room (length args) db" if "fits args db" for args db using that by (simp add: fits_def room_def)
  have inv: "hash_inv (snd (cmdHSET m args db))"
    "hash_inv (snd (cmdHINCRBY m args db))"
    "hash_inv (snd (cmdHSETNX m args db))"
    "hash_inv (snd (cmdHCLEAR m args db))"
    "hash_inv (snd (cmdHMCLEAR m args db))"
    "hash_inv (snd (cmdHEXPIRE m args db))"
    "hash_inv (snd (cmdHEXPIREAT m args db))"
    if "fits args db" "hash_inv db" for m args db using hash_invariant [OF that(2) r [OF that(1)], of m] by simp_all
  have del: "hash_inv (snd (cmdHDEL m args db))" if "fits args db" "hash_inv db" "admissible ''hdel'' args db" for m args db
    using hash_invariant [OF that(2) r [OF that(1)], of m] that(3) by (simp add: admissible_def)
  have mset: "hash_inv (snd (cmdHMSET m args db))" if "fits args db" "hash_inv db" "admissible ''hmset'' args db" for m args db
    using hash_invariant [OF that(2) r [OF that(1)], of m] that(3) by (simp add: admissible_def)
  show ?thesis unfolding hash_commands_def
    by (simp add: lower_letters writing_reads_def)
      (intro conjI sound_entryI; rule sound_types(3), assumption, rule hash_confined, rule inv del mset; (assumption | simp; fail))
qed

lemma set_sound: "sound_writes (set_commands e)"
proof -
  have r: "room (length args) db" if "fits args db" for args db using that by (simp add: fits_def room_def)
  have inv: "set_inv (snd (cmdSCLEAR m args db))"
    "set_inv (snd (cmdSMCLEAR m args db))"
    "set_inv (snd (cmdSEXPIRE m args db))"
    "set_inv (snd (cmdSEXPIREAT m args db))"
    "set_inv (snd (cmdSPERSIST m args db))"
    if "fits args db" "set_inv db" for m args db using set_invariant [OF that(2) r [OF that(1)], of m] by simp_all
  have add: "set_inv (snd (cmdSADD m args db))" if "fits args db" "set_inv db" "admissible ''sadd'' args db" for m args db
    using set_invariant [OF that(2) r [OF that(1)], of m] that(3) by (simp add: admissible_def)
  have rem: "set_inv (snd (cmdSREM m args db))" if "fits args db" "set_inv db" "admissible ''srem'' args db" for m args db
    using set_invariant [OF that(2) r [OF that(1)], of m] that(3) by (simp add: admissible_def)
  have "sound_entry ''sdiffstore'' f" "sound_entry ''sinterstore'' f" "sound_entry ''sunionstore'' f" for f
    by (simp_all add: sound_entry_def admissible_def)
  then show ?thesis unfolding set_commands_def
    by (simp add: lower_letters writing_reads_def)
      (intro conjI sound_entryI; rule sound_types(4), assumption, rule set_confined, rule inv add rem; (assumption | simp; fail))
qed

lemma zset_sound: "sound_writes (zset_commands e)"
proof -
  have r: "room 0 db" "room 1 db" "room (length args) db" "room (Suc (length args)) db" if "fits args db" for args db
    using that by (auto simp: fits_def room_def)
  have add: "zset_inv (snd (cmdZADD m args db))" if "fits args db" "zset_inv db" "admissible ''zadd'' args db" for m args db
    by (rule zset_inv_ZADD [OF that(2) r(3) [OF that(1)]]) (use that(3) in \<open>simp add: admissible_def\<close>)
  have rem: "zset_inv (snd (cmdZREM m args db))" if "fits args db" "zset_inv db" "admissible ''zrem'' args db" for m args db
    using zset_inv_ZRem [OF that(2) r(1) [OF that(1)]] that(2,3) by (simp add: cmdZREM_def admissible_def)
  have inc: "zset_inv (snd (cmdZINCRBY m args db))" if "fits args db" "zset_inv db" "admissible ''zincrby'' args db" for m args db
    using that(2,3) zset_inv_ZIncrBy [OF that(2) r(2) [OF that(1)] Atoi_int64, of "args ! 2"]
    by (auto simp: cmdZINCRBY_def admissible_def lift_r_def sbind_def [of "(_, db)"] split: sum.split)
  have range: "zset_inv (snd (cmdZCLEAR m args db))" "zset_inv (snd (cmdZREMRANGEBYSCORE m args db))" "zset_inv (snd (cmdZREMRANGEBYRANK m args db))"
    if "fits args db" "zset_inv db" "length args < 2 \<or> args ! 1 \<noteq> []" for m args db
    using zset_invariant [OF that(2) r(4) [OF that(1)], of m] that(2,3)
    by (auto simp: cmdZCLEAR_def cmdZREMRANGEBYSCORE_def cmdZREMRANGEBYRANK_def)
  have key: "length args < 2 \<or> args ! 1 \<noteq> []"
    if "admissible name args db" "name = ''zclear'' \<or> name = ''zremrangebyscore'' \<or> name = ''zremrangebyrank''" for name args db
    using that by (auto simp: admissible_def)
  show ?thesis unfolding zset_commands_def
    by (simp add: lower_letters writing_reads_def)
      (intro conjI sound_entryI; rule sound_types(5), assumption, rule zset_confined, (rule key, assumption, simp)?, rule add rem inc range;
        (assumption | rule key, assumption, simp))
qed

lemma server_sound: "sound_writes (server_commands e)"
proof -
  have "sound_entry name (cmdFLUSHALL compile)" for name compile
    unfolding sound_entry_def
  proof (intro allI impI, elim conjE)
    fix m args db r db' assume f: "fits args db" and run: "cmdFLUSHALL compile m args db = Some (r, db')"
    have "db_inv db" "\<not> readonly db" "room 0 db" using f by (auto simp: fits_def sound_def room_def)
    from FlushAll_ok [OF this, of compile] run f show "sound db'" by (auto simp: cmdFLUSHALL_def sound_def fits_def split: if_splits)
  qed
  moreover have "cmdFLUSHDB compile = cmdFLUSHALL compile" for compile by (simp add: fun_eq_iff cmdFLUSHDB_def)
  ultimately show ?thesis by (simp add: server_commands_def lower_letters writing_reads_def sound_writes_def add_defs)
qed

lemma scan_sound: "sound_writes (scan_commands e)"
  by (simp add: scan_commands_def lower_letters writing_reads_def)

lemma commands_sound: "sound_writes (commands e)"
  unfolding commands_def sound_writes_append
  by (simp add: string_sound list_sound hash_sound set_sound zset_sound server_sound scan_sound)

section \<open>What a node can reach\<close>

text \<open>The command that the words name, run as a write or as a read.\<close>

definition exec :: "env \<Rightarrow> command" where
  "exec e m args db = (if kind_of_args e args = Some Write then Apply_args e m args db else execRead e m args db)"

inductive runs :: "env \<Rightarrow> ledisdb \<Rightarrow> bool" for e where
  boots: "runs e db0"
| serves: "runs e db \<Longrightarrow> admissible (ToLower (hd args)) args db \<Longrightarrow> room (Suc (length args)) db \<Longrightarrow> exec e m args db = Some (r, db') \<Longrightarrow> runs e db'"

lemma exec_cases:
  assumes "exec e m args db = Some (r, db')"
  shows "db' = db \<or> (\<exists>kind fn. (ToLower (hd args), kind, fn) \<in> set (commands e) \<and> fn m args db = Some (r, db') \<and>
    (kind = Write \<or> ToLower (hd args) \<in> writing_reads))"
proof (cases "args = [] \<or> map_of (commands e) (ToLower (hd args)) = None")
  case True
  then show ?thesis using assms by (auto simp: exec_def kind_of_args_def execRead_def split: if_splits)
next
  case False
  then obtain kind fn where k: "map_of (commands e) (ToLower (hd args)) = Some (kind, fn)" by auto
  note mem = map_of_SomeD [OF k]
  have run: "fn m args db = Some (r, db')"
    using assms False k by (cases kind) (auto simp: exec_def kind_of_args_def execRead_def Apply_args_def)
  show ?thesis
  proof (cases "kind = Read \<and> ToLower (hd args) \<notin> writing_reads")
    case True
    then obtain r' where "fn m args db = Some (r', db)" using pure_readsD [OF commands_contract(1)] mem by blast
    then show ?thesis using run by simp
  next
    case False
    then have "kind = Write \<or> ToLower (hd args) \<in> writing_reads" by (cases kind) auto
    then show ?thesis using mem run by blast
  qed
qed

lemma sound_db0: "sound db0"
proof -
  have "meta_ok (meta_tag dt) db0" for dt by (simp add: meta_ok_def tag_keys_def)
  then show ?thesis using lists_db0 hash_db0 set_db0 zset_db0 by (simp add: sound_def db_inv_def)
qed

lemma runs_sound: "runs e db \<Longrightarrow> sound db"
proof (induction rule: runs.induct)
  case boots
  show ?case by (rule sound_db0)
next
  case (serves db args m r db')
  have f: "fits args db" using serves by (simp add: fits_def)
  consider "db' = db" | kind fn where "(ToLower (hd args), kind, fn) \<in> set (commands e)" "fn m args db = Some (r, db')"
      "kind = Write \<or> ToLower (hd args) \<in> writing_reads"
    using exec_cases [OF serves(4)] by blast
  then show ?case
  proof cases
    case 2
    then show ?thesis using sound_writesD [OF commands_sound 2(1,3)] serves(2) f unfolding sound_entry_def by blast
  qed (use serves.IH in simp)
qed

text \<open>
  C1: The invariant of the database: after any sequence of admissible commands, reads and writes of
  all data types mixed, with any clocks, the records of lists, hashes, sets and sorted sets are
  well formed, every container has a key of a legal size, and the expiry records are readable.
  Not admissible are \<open>LSET\<close>, the STORE commands on sets, a member or field named twice in one
  command, \<open>ZINCRBY\<close> by 0, an \<open>LTRIM\<close> with both indices before the head of a list, and the
  removal of a range under the empty key.
\<close>

theorem server_invariant:
  assumes "runs e db"
  shows "list_inv db \<and> hash_inv db \<and> set_inv db \<and> zset_inv db \<and> ttl_ok db \<and> \<not> readonly db \<and>
    (\<forall>dt k. k \<in> tag_keys db (meta_tag dt) \<longrightarrow> key_ok k)"
  using runs_sound [OF assms] by (auto simp: sound_def db_inv_def list_inv_def meta_ok_def)

lemma names:
  "ToLower ''ZADD'' = ''zadd''" "ToLower ''FLUSHALL'' = ''flushall''"
  "map_of (commands e) ''flushall'' = Some (Write, cmdFLUSHALL (re_compile e))"
  by (simp_all add: commands_def hash_commands_def list_commands_def scan_commands_def server_commands_def set_commands_def
      zset_commands_def string_commands_def add_defs lower_letters)

lemma runs_zadd:
  assumes "key_ok k" "key_ok x" "score_ok s"
  shows "\<exists>d. runs e d \<and> (\<forall>m. cmdZADD m [''ZADD'', k, FormatInt s, x] db0 = (Inr (SimpleInt 1), d)) \<and> \<not> readonly d \<and> room 3 d \<and>
    zset_of d = (\<lambda>_. Map.empty)(k := [x \<mapsto> s]) \<and> tag_keys d ZSizeType = {k}"
proof -
  let ?args = "[''ZADD'', k, FormatInt s, x]"
  obtain d where d: "\<forall>m. cmdZADD m ?args db0 = (Inr (SimpleInt 1), d)" "\<not> readonly d" "room 3 d"
    "zset_of d = (\<lambda>_. Map.empty)(k := [x \<mapsto> s])" "zset_inv d"
    using zadd_first [OF assms] by blast
  have adm: "admissible (ToLower (hd ?args)) ?args db0" by (simp add: admissible_def lower_letters split: sum.split)
  have room: "room (Suc (length ?args)) db0" by (simp add: room_def)
  have "exec e node ?args db0 = Some (Inr (SimpleInt 1), d)" using d(1) by (simp add: exec_def run_names)
  then have r: "runs e d" by (rule serves [OF boots adm room])
  have m: "meta_ok (meta_tag ZSET) d" using runs_sound [OF r] unfolding sound_def db_inv_def by blast
  have size: "db_get d (indexVarBuf d @ ZSizeType # j) = size_rec (card (dom (zset_of d j)))" if "key_ok j" for j
    using d(5) that by (simp add: zset_inv_def zsets_mem_ok mem_ok_def zset_of_def dom_map_option)
  have "j \<in> tag_keys d ZSizeType \<longleftrightarrow> j = k" for j
    using m size [of j] assms(1) by (auto simp: meta_ok_def tag_keys_def d(4) size_rec_def split: if_splits)
  then show ?thesis using r d by blast
qed

theorem server_invariant_witness:
  "\<exists>d. cmdZADD node [''ZADD'', ''z'', FormatInt 1, ''a''] db0 = (Inr (SimpleInt 1), d) \<and> zset_of d ''z'' ''a'' = Some 1 \<and>
     list_inv d \<and> hash_inv d \<and> set_inv d \<and> zset_inv d"
proof -
  obtain d where d: "runs env0 d" "\<forall>m. cmdZADD m [''ZADD'', ''z'', FormatInt 1, ''a''] db0 = (Inr (SimpleInt 1), d)"
    "zset_of d = (\<lambda>_. Map.empty)(''z'' := [''a'' \<mapsto> 1])"
    using runs_zadd [of "''z''" "''a''" 1 env0] by (auto simp: key_ok_def score_ok_def)
  then show ?thesis using server_invariant [OF d(1)] by auto
qed

text \<open>
  C4: After any sequence of admissible commands, \<open>FLUSHALL\<close> returns: its loops over the pages of keys
  end. The answer is the number of keys that it found, and afterwards there are no keys left and
  every string, list, hash, set and sorted set is empty.
\<close>

theorem flushall_empties:
  assumes "runs e db" "room 0 db"
  shows "\<exists>db'. Apply_args e m [''FLUSHALL''] db = Some (Inr (SimpleInt (int (num_keys db))), db') \<and> num_keys db' = 0 \<and>
    kv_of db' = Map.empty \<and> list_of db' = (\<lambda>_. []) \<and> hash_of db' = (\<lambda>_. Map.empty) \<and> set_of db' = (\<lambda>_. {}) \<and>
    zset_of db' = (\<lambda>_. Map.empty)"
proof -
  have "db_inv db" "\<not> readonly db" using runs_sound [OF assms(1)] by (simp_all add: sound_def)
  from FlushAll_ok [OF this assms(2), of "re_compile e"] show ?thesis
    by (auto simp: Apply_args_def names cmdFLUSHALL_def simp del: ToLower.simps)
qed

theorem flushall_empties_witness:
  "\<exists>db db'. runs env0 db \<and> zset_of db ''z'' ''a'' = Some 1 \<and> (\<exists>n. Apply_args env0 node [''FLUSHALL''] db = Some (Inr (SimpleInt n), db')) \<and>
     zset_of db' ''z'' ''a'' = None"
proof -
  obtain d where d: "runs env0 d" "room 3 d" "zset_of d = (\<lambda>_. Map.empty)(''z'' := [''a'' \<mapsto> 1])"
    using runs_zadd [of "''z''" "''a''" 1 env0] by (auto simp: key_ok_def score_ok_def)
  have "room 0 d" using d(2) by (simp add: room_def)
  from flushall_empties [OF d(1) this, of node] obtain d' n where "Apply_args env0 node [''FLUSHALL''] d = Some (Inr (SimpleInt n), d')"
    "zset_of d' = (\<lambda>_. Map.empty)" by blast
  then show ?thesis using d(1,3) by auto
qed

text \<open>
  C14: Increment 0 is not admissible for a reason. Once \<open>ZINCRBY k 0 x\<close> has been applied to a member
  of the only sorted set, \<open>FLUSHALL\<close> does not return: the score index has lost the member, so
  \<open>zDelete\<close> does not find it and the size record stays, and the key comes up in every page.
\<close>

theorem flushall_hangs:
  assumes "key_ok k" "key_ok x" "score_ok s"
  shows "\<exists>d1 d2. Apply_args e m1 [''ZADD'', k, FormatInt s, x] db0 = Some (Inr (SimpleInt 1), d1) \<and>
    execRead e m2 [''ZINCRBY'', k, ''0'', x] d1 = Some (Inr (SimpleInt s), d2) \<and> Apply_args e m3 [''FLUSHALL''] d2 = None"
proof -
  obtain d1 where d1: "runs e d1" "\<forall>m. cmdZADD m [''ZADD'', k, FormatInt s, x] db0 = (Inr (SimpleInt 1), d1)" "\<not> readonly d1" "room 3 d1"
    "zset_of d1 = (\<lambda>_. Map.empty)(k := [x \<mapsto> s])" "tag_keys d1 ZSizeType = {k}"
    using runs_zadd [OF assms] by blast
  have "db_inv d1" using runs_sound [OF d1(1)] by (simp add: sound_def)
  from FlushAll_stuck [OF this d1(3,4,6,5), of "re_compile e"] obtain d2
    where d2: "ZIncrBy k 0 x d1 = (Inr s, d2)" "FlushAll (re_compile e) d2 = None" by blast
  have "Atoi ''0'' = Inr 0" by code_simp
  then have "cmdZINCRBY m2 [''ZINCRBY'', k, ''0'', x] d1 = (Inr (SimpleInt s), d2)" using d2(1) by (simp add: cmdZINCRBY_def lift_r_def)
  moreover have "Apply_args e m3 [''FLUSHALL''] d2 = None" using d2(2) by (simp add: Apply_args_def names cmdFLUSHALL_def del: ToLower.simps)
  ultimately show ?thesis using d1(2) by (auto simp: run_names)
qed

theorem flushall_hangs_witness:
  "\<exists>d1 d2. Apply_args env0 node [''ZADD'', ''z'', FormatInt 1, ''a''] db0 = Some (Inr (SimpleInt 1), d1) \<and>
    execRead env0 node [''ZINCRBY'', ''z'', ''0'', ''a''] d1 = Some (Inr (SimpleInt 1), d2) \<and> Apply_args env0 node [''FLUSHALL''] d2 = None"
  by (rule flushall_hangs) (simp_all add: key_ok_def score_ok_def)

end
