(* ===== verification/Snapshot.thy ===== *)
theory Snapshot
  imports LedisCore
begin

text \<open>
  Snapshots: \<open>Persist\<close> and \<open>restore\<close> of \<open>main.go\<close> with the readers and writers of
  \<open>tidwall/sds\<close> that they use, over \<open>binary.PutUvarint\<close> and \<open>binary.ReadUvarint\<close>. A stream is
  the list of the bytes that are left in it. The LevelDB snapshot and the database are the entry
  list of the store.
\<close>

section \<open>Reading and writing values\<close>

definition io_EOF :: gerr where
  "io_EOF = ErrText ''EOF''"

definition io_ErrUnexpectedEOF :: gerr where
  "io_ErrUnexpectedEOF = ErrText ''unexpected EOF''"

definition varint_overflow :: gerr where
  "varint_overflow = ErrText ''binary: varint overflows a 64-bit integer''"

text \<open>The loop of \<open>binary.ReadUvarint\<close> at byte \<open>i\<close> with the value \<open>x\<close> so far.\<close>

function uvarint_loop :: "nat \<Rightarrow> nat \<Rightarrow> bytes \<Rightarrow> nat result \<times> bytes" where
  "uvarint_loop i x r =
     (if i \<ge> 10 then (Inl varint_overflow, r)
      else case r of
             [] \<Rightarrow> (Inl (if i > 0 then io_ErrUnexpectedEOF else io_EOF), [])
           | c # r \<Rightarrow>
               let b = of_char c :: nat in
               if b < 128 then
                 (if i = 9 \<and> b > 1 then (Inl varint_overflow, r) else (Inr (x + b * 2 ^ (7 * i)), r))
               else uvarint_loop (Suc i) (x + (b - 128) * 2 ^ (7 * i)) r)"
  by auto
termination by (relation "measure (\<lambda>(i, _). 10 - i)") auto

declare uvarint_loop.simps [simp del]

definition ReadUvarint :: "bytes \<Rightarrow> nat result \<times> bytes" where
  "ReadUvarint r = uvarint_loop 0 0 r"

text \<open>\<open>io.ReadFull\<close> into a buffer of \<open>n\<close> bytes.\<close>

definition ReadFull :: "nat \<Rightarrow> bytes \<Rightarrow> bytes result \<times> bytes" where
  "ReadFull n r =
     (if n \<le> length r then (Inr (take n r), drop n r)
      else (Inl (if r = [] then io_EOF else io_ErrUnexpectedEOF), []))"

text \<open>\<open>make\<close> panics on a length beyond the address space.\<close>

definition ReadBytes :: "bytes \<Rightarrow> bytes result \<times> bytes" where
  "ReadBytes r = sbind (ReadUvarint r) (\<lambda>n r. if n > 2 ^ 48 then (Inl Panic, r) else ReadFull n r)"

definition WriteUvarint :: "nat \<Rightarrow> bytes \<Rightarrow> bytes" where
  "WriteUvarint x w = w @ PutUvarint x"

definition WriteBytes :: "bytes \<Rightarrow> bytes \<Rightarrow> bytes" where
  "WriteBytes b w = WriteUvarint (length b) w @ b"

section \<open>Snapshots\<close>

definition snap_Persist :: "store \<Rightarrow> bytes" where
  "snap_Persist s = fold (\<lambda>(k, v) w. WriteBytes v (WriteBytes k w)) s []"

text \<open>The loop of \<open>restore\<close>: the batch, which is written at every thousandth entry, and the database.\<close>

fun write_full :: "bop list \<Rightarrow> store \<Rightarrow> bop list \<times> store" where
  "write_full batch s = (if length batch = 1000 then ([], apply_batch batch s) else (batch, s))"

lemma ReadUvarint_shrinks: "ReadUvarint r = (Inr n, r') \<Longrightarrow> length r' < length r"
proof -
  have "length r' < length r" if "uvarint_loop i x r = (Inr n, r')" for i x
    using that
  proof (induction i x r rule: uvarint_loop.induct)
    case (1 i x r)
    show ?case
    proof (cases r)
      case (Cons c r1)
      have "length r' < length r1" if "\<not> 10 \<le> i" "\<not> of_char c < (128 :: nat)"
          "uvarint_loop (Suc i) (x + (of_char c - 128) * 2 ^ (7 * i)) r1 = (Inr n, r')"
        using "1.IH" [OF that(1) Cons refl that(2,3)] .
      then show ?thesis using "1.prems" Cons by (subst (asm) uvarint_loop.simps) (fastforce simp: Let_def split: if_splits)
    qed (use "1.prems" in \<open>simp add: uvarint_loop.simps split: if_splits\<close>)
  qed
  then show "ReadUvarint r = (Inr n, r') \<Longrightarrow> length r' < length r" by (simp add: ReadUvarint_def)
qed

lemma ReadBytes_shrinks: "ReadBytes r = (Inr b, r') \<Longrightarrow> length r' < length r"
  using ReadUvarint_shrinks by (force simp: ReadBytes_def sbind_eq_Inr ReadFull_def split: if_splits)

function restore_loop :: "bop list \<Rightarrow> bytes \<Rightarrow> store \<Rightarrow> unit result \<times> store" where
  "restore_loop batch r s =
     (case ReadBytes r of
        (Inl e, _) \<Rightarrow> if e = io_EOF then (Inr (), apply_batch batch s) else (Inl e, s)
      | (Inr key, r) \<Rightarrow>
          (case ReadBytes r of
             (Inl e, _) \<Rightarrow> (Inl e, s)
           | (Inr value, r) \<Rightarrow>
               (case write_full (batch @ [BPut key value]) s of (batch, s) \<Rightarrow> restore_loop batch r s)))"
  by auto
termination
  by (relation "measure (\<lambda>(_, r, _). length r)") (auto dest!: ReadBytes_shrinks [OF sym])

declare restore_loop.simps [simp del]

definition restore :: "bytes \<Rightarrow> store \<Rightarrow> unit result \<times> store" where
  "restore rd s = restore_loop [] rd s"

section \<open>Round trip\<close>

lemma uvarint_loop_Put:
  "n * 2 ^ (7 * i) < 2 ^ 64 \<Longrightarrow> i < 10 \<Longrightarrow> uvarint_loop i x (PutUvarint n @ r) = (Inr (x + n * 2 ^ (7 * i)), r)"
proof (induction n arbitrary: i x rule: less_induct)
  case (less n)
  show ?case
  proof (cases "n < 128")
    case True
    have "\<not> n > 1" if "i = 9" using less.prems(1) that by simp
    then show ?thesis using True less.prems(2) by (subst uvarint_loop.simps, subst PutUvarint.simps) auto
  next
    case False
    have i: "i < 9"
    proof (rule ccontr)
      assume "\<not> i < 9"
      then have "i = 9" using less.prems(2) by simp
      then show False using less.prems(1) False by simp
    qed
    have e: "n div 128 * 2 ^ (7 * Suc i) + n mod 128 * 2 ^ (7 * i) = n * 2 ^ (7 * i)"
    proof -
      have "a * 2 ^ (7 * Suc i) + b * 2 ^ (7 * i) = (a * 128 + b) * 2 ^ (7 * i)" for a b :: nat
        by (simp add: power_add algebra_simps)
      then show ?thesis by (metis div_mult_mod_eq)
    qed
    have "uvarint_loop (Suc i) (x + n mod 128 * 2 ^ (7 * i)) (PutUvarint (n div 128) @ r)
        = (Inr (x + n mod 128 * 2 ^ (7 * i) + n div 128 * 2 ^ (7 * Suc i)), r)"
      using less.IH [of "n div 128" "Suc i" "x + n mod 128 * 2 ^ (7 * i)"] False i e less.prems(1) by simp
    moreover have "of_char (char_of (n mod 128 + 128) :: char) = n mod 128 + 128" by simp
    ultimately show ?thesis using False i e
      by (subst uvarint_loop.simps, subst PutUvarint.simps) (simp add: Let_def add.assoc add.commute)
  qed
qed

lemma ReadBytes_WriteBytes:
  assumes "length b \<le> 2 ^ 48"
  shows "ReadBytes (WriteBytes b [] @ r) = (Inr b, r)"
proof -
  have "length b * 2 ^ (7 * 0) < (2 :: nat) ^ 64" using assms by simp
  from uvarint_loop_Put [OF this] show ?thesis using assms
    by (simp add: ReadBytes_def ReadUvarint_def WriteBytes_def WriteUvarint_def ReadFull_def)
qed

lemma snap_Persist_Cons: "snap_Persist ((k, v) # s) = WriteBytes k [] @ WriteBytes v [] @ snap_Persist s"
proof -
  have w: "WriteBytes b w = w @ WriteBytes b []" for b w by (simp add: WriteBytes_def WriteUvarint_def)
  have "fold (\<lambda>(k, v) w. WriteBytes v (WriteBytes k w)) s w = w @ snap_Persist s" for w
  proof (induction s arbitrary: w)
    case (Cons p s)
    obtain k v where p: "p = (k, v)" by fastforce
    show ?case
      using Cons [of "WriteBytes v (WriteBytes k w)"] Cons [of "WriteBytes v (WriteBytes k [])"] w [of v "WriteBytes k w"]
        w [of k w] w [of v "WriteBytes k []"] by (simp add: p snap_Persist_def)
  qed (simp add: snap_Persist_def)
  then show ?thesis using w [of v "WriteBytes k []"] by (simp add: snap_Persist_def [of "_ # _"])
qed

definition fits_stream :: "store \<Rightarrow> bool" where
  "fits_stream s \<longleftrightarrow> (\<forall>(k, v) \<in> set s. length k \<le> 2 ^ 48 \<and> length v \<le> 2 ^ 48)"

text \<open>Whatever follows the entries in the stream, the loop goes on from there with all of them stored or in the batch.\<close>

lemma restore_loop_Persist:
  assumes "fits_stream t"
  shows "\<exists>batch' s'. restore_loop batch (snap_Persist t @ r) s = restore_loop batch' r s' \<and>
    apply_batch batch' s' = apply_batch (batch @ map (\<lambda>(k, v). BPut k v) t) s"
  using assms
proof (induction t arbitrary: batch s)
  case (Cons p t)
  obtain k v where p: "p = (k, v)" by fastforce
  have kv: "length k \<le> 2 ^ 48" "length v \<le> 2 ^ 48" "fits_stream t" using Cons.prems by (auto simp: fits_stream_def p)
  obtain b1 s1 where w: "write_full (batch @ [BPut k v]) s = (b1, s1)" by fastforce
  then have a: "apply_batch (b1 @ ops) s1 = apply_batch (batch @ BPut k v # ops) s" for ops
    by (auto simp: apply_batch_def split: if_splits)
  have "restore_loop batch (snap_Persist (p # t) @ r) s = restore_loop b1 (snap_Persist t @ r) s1"
    unfolding p snap_Persist_Cons append_assoc
    by (subst restore_loop.simps) (simp add: ReadBytes_WriteBytes [OF kv(1)] ReadBytes_WriteBytes [OF kv(2)] w del: write_full.simps)
  then show ?case using Cons.IH [OF kv(3), of b1 s1] a by (simp add: p)
qed (auto simp: snap_Persist_def)

lemma restore_end: "restore_loop batch [] s = (Inr (), apply_batch batch s)"
  by (simp add: restore_loop.simps ReadBytes_def ReadUvarint_def uvarint_loop.simps)

lemma restore_Persist:
  assumes "fits_stream s"
  shows "restore (snap_Persist s) t = (Inr (), apply_batch (map (\<lambda>(k, v). BPut k v) s) t)"
  using restore_loop_Persist [OF assms, of "[]" "[]" t] restore_end by (auto simp: restore_def)

lemma sget_puts:
  "store_ok s \<Longrightarrow> sget (apply_batch (map (\<lambda>(k, v). BPut k v) s) t) = sget t ++ sget s"
proof (induction s arbitrary: t)
  case (Cons p s)
  obtain k v where p: "p = (k, v)" by fastforce
  have "store_ok s" "sget s k = None" using Cons.prems by (auto simp: store_ok_def p sget_def map_of_eq_None_iff)
  moreover have "sget (p # s) = (sget s)(k \<mapsto> v)" by (simp add: p sget_def fun_eq_iff)
  ultimately show ?case using Cons.IH [of "sput k v t"]
    by (auto simp: p sget_sput map_add_def fun_eq_iff split: option.split)
qed (simp add: fun_eq_iff map_add_def)

text \<open>
  C16: A snapshot of any database, restored from its stream: the restore succeeds and overlays the
  entries of the snapshot on the database that the node has. The node gets the database of
  the snapshot exactly when it has no keys that the snapshot lacks; other keys survive,
  because nothing clears the database first.
\<close>

theorem snapshot_restore:
  assumes "store_ok s" "store_ok t" "fits_stream s"
  shows "\<exists>t'. restore (snap_Persist s) t = (Inr (), t') \<and> store_ok t' \<and> sget t' = sget t ++ sget s \<and>
    (t' = s \<longleftrightarrow> dom (sget t) \<subseteq> dom (sget s))"
proof -
  let ?t = "apply_batch (map (\<lambda>(k, v). BPut k v) s) t"
  have ok: "store_ok ?t" using assms(2) by simp
  have get: "sget ?t = sget t ++ sget s" by (rule sget_puts [OF assms(1)])
  have "?t = s \<longleftrightarrow> sget ?t = sget s" using mem.entries_determined [OF ok assms(1)] by (metis (no_types))
  also have "\<dots> \<longleftrightarrow> dom (sget t) \<subseteq> dom (sget s)"
    unfolding get by (auto simp: fun_eq_iff map_add_def subset_iff dom_def split: option.splits)
  finally show ?thesis using restore_Persist [OF assms(3), of t] ok get by simp
qed

theorem snapshot_restore_witness:
  "\<exists>t'. restore (snap_Persist [(''a'', ''1'')]) [(''b'', ''2'')] = (Inr (), t') \<and> sget t' ''a'' = Some ''1'' \<and> sget t' ''b'' = Some ''2'' \<and>
     t' \<noteq> [(''a'', ''1'')]"
proof -
  let ?s = "[(''a'', ''1'')]" and ?t = "[(''b'', ''2'')]"
  have g: "sget ?s = [''a'' \<mapsto> ''1'']" "sget ?t = [''b'' \<mapsto> ''2'']" by (simp_all add: sget_def fun_eq_iff)
  have "store_ok ?s" "store_ok ?t" "fits_stream ?s" by (simp_all add: store_ok_def fits_stream_def)
  from snapshot_restore [OF this] show ?thesis unfolding g by auto
qed

end
