(* ===== verification/GoText.thy ===== *)
theory GoText
  imports GoStd "HOL-Library.Sublist"
begin

text \<open>
  More of the Go library that the MySQL and router packages use: \<open>strings.Split\<close> and
  \<open>strings.Join\<close> with a one-byte separator, \<open>strings.TrimSpace\<close>, \<open>strconv.ParseUint\<close> with a bit
  size, and \<open>encoding/hex\<close>.
\<close>

section \<open>Splitting and joining\<close>

fun Split :: "string \<Rightarrow> char \<Rightarrow> string list" where
  "Split [] sep = [[]]"
| "Split (c # s) sep =
     (if c = sep then [] # Split s sep else (c # hd (Split s sep)) # tl (Split s sep))"

fun Join :: "string list \<Rightarrow> string \<Rightarrow> string" where
  "Join [] sep = []"
| "Join [w] sep = w"
| "Join (w # ws) sep = w @ sep @ Join ws sep"

lemma Split_ne [simp]: "Split s sep \<noteq> []"
  by (cases s) auto

lemma Split_plain: "sep \<notin> set w \<Longrightarrow> Split w sep = [w]"
  by (induction w) auto

lemma Split_append: "sep \<notin> set w \<Longrightarrow> Split (w @ sep # s) sep = w # Split s sep"
  by (induction w) auto

lemma Split_Join:
  "ws \<noteq> [] \<Longrightarrow> \<forall>w \<in> set ws. sep \<notin> set w \<Longrightarrow> Split (Join ws [sep]) sep = ws"
  by (induction ws "[sep]" rule: Join.induct) (auto simp: Split_plain Split_append)

section \<open>White space\<close>

text \<open>The UTF-8 encodings of the code points with \<open>unicode.IsSpace\<close>.\<close>

definition space_runes :: "bytes list" where
  "space_runes =
     [[CHR 0x09], [CHR 0x0A], [CHR 0x0B], [CHR 0x0C], [CHR 0x0D], [CHR 0x20], [CHR 0xC2, CHR 0x85], [CHR 0xC2, CHR 0xA0],
      [CHR 0xE1, CHR 0x9A, CHR 0x80], [CHR 0xE2, CHR 0x80, CHR 0x80], [CHR 0xE2, CHR 0x80, CHR 0x81],
      [CHR 0xE2, CHR 0x80, CHR 0x82], [CHR 0xE2, CHR 0x80, CHR 0x83], [CHR 0xE2, CHR 0x80, CHR 0x84],
      [CHR 0xE2, CHR 0x80, CHR 0x85], [CHR 0xE2, CHR 0x80, CHR 0x86], [CHR 0xE2, CHR 0x80, CHR 0x87],
      [CHR 0xE2, CHR 0x80, CHR 0x88], [CHR 0xE2, CHR 0x80, CHR 0x89], [CHR 0xE2, CHR 0x80, CHR 0x8A],
      [CHR 0xE2, CHR 0x80, CHR 0xA8], [CHR 0xE2, CHR 0x80, CHR 0xA9], [CHR 0xE2, CHR 0x80, CHR 0xAF],
      [CHR 0xE2, CHR 0x81, CHR 0x9F], [CHR 0xE3, CHR 0x80, CHR 0x80]]"

text \<open>Drop leading runes of a list, at most as often as there are bytes.\<close>

fun trim_runes :: "bytes list \<Rightarrow> nat \<Rightarrow> bytes \<Rightarrow> bytes" where
  "trim_runes rs 0 s = s"
| "trim_runes rs (Suc n) s =
     (case find (\<lambda>r. prefix r s) rs of None \<Rightarrow> s | Some r \<Rightarrow> trim_runes rs n (drop (length r) s))"

definition TrimSpace :: "string \<Rightarrow> string" where
  "TrimSpace s =
     (let t = trim_runes space_runes (length s) s
      in rev (trim_runes (map rev space_runes) (length t) (rev t)))"

lemma trim_runes_id:
  assumes "\<And>r. r \<in> set rs \<Longrightarrow> r \<noteq> [] \<and> hd r \<noteq> c"
  shows "trim_runes rs n (c # s) = c # s"
proof -
  have "\<not> prefix r (c # s)" if "r \<in> set rs" for r using assms [OF that] by (cases r) auto
  then have "find (\<lambda>r. prefix r (c # s)) rs = None" by (auto simp: find_None_iff)
  then show ?thesis by (cases n) simp_all
qed

text \<open>A string that neither begins nor ends with a byte of a space is left alone.\<close>

definition printable :: "char \<Rightarrow> bool" where
  "printable c \<longleftrightarrow> (32::nat) < of_char c \<and> (of_char c :: nat) < 128"

lemma TrimSpace_plain:
  assumes "s \<noteq> []" "printable (hd s)" "printable (last s)"
  shows "TrimSpace s = s"
proof -
  have r: "r \<noteq> [] \<and> \<not> printable (hd r) \<and> \<not> printable (last r)" if "r \<in> set space_runes" for r
    using that by (auto simp: space_runes_def printable_def)
  obtain c t where s: "s = c # t" using assms(1) by (cases s) auto
  have 1: "trim_runes space_runes n s = s" for n
    unfolding s using r assms(2) by (intro trim_runes_id) (auto simp: s)
  obtain d u where t: "rev s = d # u" "d = last s" using assms(1) by (cases "rev s") (auto simp: last_rev hd_rev [symmetric])
  have 2: "trim_runes (map rev space_runes) n (rev s) = rev s" for n
    unfolding t(1)
  proof (rule trim_runes_id)
    fix q assume "q \<in> set (map rev space_runes)"
    then obtain r' where "r' \<in> set space_runes" "q = rev r'" by auto
    then show "q \<noteq> [] \<and> hd q \<noteq> d" using r [of r'] assms(3) t(2) by (auto simp: hd_rev)
  qed
  show ?thesis by (simp add: TrimSpace_def 1 2)
qed

section \<open>Unsigned integers of a bit size\<close>

text \<open>\<open>strconv.ParseUint(s, 10, bits)\<close>.\<close>

definition ParseUintBits :: "nat \<Rightarrow> string \<Rightarrow> int result" where
  "ParseUintBits bits s = rbind (ParseUint s) (\<lambda>n. if n < 2 ^ bits then Inr n else Inl NumRange)"

section \<open>Hexadecimal text (encoding/hex)\<close>

definition hex_digit :: "nat \<Rightarrow> char" where
  "hex_digit d = char_of (if d < 10 then 48 + d else 87 + d)"

definition fromHexChar :: "char \<Rightarrow> nat option" where
  "fromHexChar c =
     (let n = of_char c
      in if 48 \<le> n \<and> n \<le> 57 then Some (n - 48)
         else if 97 \<le> n \<and> n \<le> 102 then Some (n - 87)
         else if 65 \<le> n \<and> n \<le> 70 then Some (n - 55)
         else None)"

fun hex_Encode :: "bytes \<Rightarrow> bytes" where
  "hex_Encode [] = []"
| "hex_Encode (b # bs) = hex_digit (of_char b div 16) # hex_digit (of_char b mod 16) # hex_Encode bs"

fun hex_Decode :: "bytes \<Rightarrow> bytes result" where
  "hex_Decode [] = Inr []"
| "hex_Decode [c] =
     (case fromHexChar c of None \<Rightarrow> Inl (ErrText ''encoding/hex: invalid byte'') | Some _ \<Rightarrow> Inl (ErrText ''encoding/hex: odd length hex string''))"
| "hex_Decode (c # d # s) =
     (case (fromHexChar c, fromHexChar d) of
        (Some a, Some b) \<Rightarrow> rbind (hex_Decode s) (\<lambda>bs. Inr (char_of (16 * a + b) # bs))
      | _ \<Rightarrow> Inl (ErrText ''encoding/hex: invalid byte''))"

lemma of_char_hex_digit: "d < 16 \<Longrightarrow> (of_char (hex_digit d) :: nat) = (if d < 10 then 48 + d else 87 + d)"
  by (simp add: hex_digit_def)

lemma fromHexChar_hex_digit [simp]: "d < 16 \<Longrightarrow> fromHexChar (hex_digit d) = Some d"
  by (simp add: fromHexChar_def of_char_hex_digit Let_def)

lemma length_hex_Encode [simp]: "length (hex_Encode bs) = 2 * length bs"
  by (induction bs) auto

lemma hex_Decode_Encode [simp]: "hex_Decode (hex_Encode bs) = Inr bs"
proof (induction bs)
  case (Cons b bs)
  have "of_char b div 16 < (16 :: nat)" using nat_of_char_less_256 [of b] by linarith
  then show ?case using Cons by simp
qed simp

lemma hex_Encode_chars:
  "c \<in> set (hex_Encode bs) \<Longrightarrow> printable c \<and> c \<noteq> CHR ''-'' \<and> c \<noteq> CHR '':'' \<and> c \<noteq> CHR '',''"
proof -
  assume "c \<in> set (hex_Encode bs)"
  then have "\<exists>d < 16. c = hex_digit d"
  proof (induction bs)
    case (Cons b bs)
    have "of_char b div 16 < (16 :: nat)" using nat_of_char_less_256 [of b] by linarith
    moreover have "of_char b mod 16 < (16 :: nat)" by simp
    ultimately show ?case using Cons by (metis hex_Encode.simps(2) set_ConsD)
  qed simp
  then obtain d where d: "d < 16" "c = hex_digit d" by blast
  then have "of_char c = (if d < 10 then 48 + d else 87 + d)" using of_char_hex_digit by simp
  then show ?thesis using d(1) by (auto simp: printable_def split: if_splits)
qed

end
