(* ===== verification/Uuid.thy ===== *)
theory Uuid
  imports GoText
begin

text \<open>UUIDs (\<open>go.uuid\<close>): a UUID is its 16 bytes; its text and the four forms that are parsed.\<close>

type_synonym UUID = bytes

definition byteGroups :: "nat list" where
  "byteGroups = [8, 4, 4, 4, 12]"

definition urnPrefix :: bytes where
  "urnPrefix = ''urn:uuid:''"

definition uuid_String :: "UUID \<Rightarrow> string" where
  "uuid_String u =
     hex_Encode (take 4 u) @ ''-'' @ hex_Encode (take 2 (drop 4 u)) @ ''-'' @ hex_Encode (take 2 (drop 6 u)) @ ''-'' @
     hex_Encode (take 2 (drop 8 u)) @ ''-'' @ hex_Encode (drop 10 u)"

text \<open>The loop over \<open>byteGroups\<close>; \<open>skip\<close> says that a dash comes first.\<close>

fun decode_groups :: "bool \<Rightarrow> nat list \<Rightarrow> bytes \<Rightarrow> UUID result" where
  "decode_groups skip [] src = Inr []"
| "decode_groups skip (g # gs) src =
     (let src = (if skip then drop 1 src else src)
      in rbind (hex_Decode (take g src)) (\<lambda>d. rbind (decode_groups True gs (drop g src)) (\<lambda>ds. Inr (d @ ds))))"

definition decodeCanonical :: "bytes \<Rightarrow> UUID result" where
  "decodeCanonical t =
     (if t ! 8 \<noteq> CHR ''-'' \<or> t ! 13 \<noteq> CHR ''-'' \<or> t ! 18 \<noteq> CHR ''-'' \<or> t ! 23 \<noteq> CHR ''-''
      then Inl (ErrText (''uuid: incorrect UUID format '' @ t))
      else decode_groups False byteGroups t)"

definition decodeHashLike :: "bytes \<Rightarrow> UUID result" where
  "decodeHashLike t = hex_Decode t"

definition decodePlain :: "bytes \<Rightarrow> UUID result" where
  "decodePlain t =
     (if length t = 32 then decodeHashLike t
      else if length t = 36 then decodeCanonical t
      else Inl (ErrText (''uuid: incorrrect UUID length: '' @ t)))"

definition decodeBraced :: "bytes \<Rightarrow> UUID result" where
  "decodeBraced t =
     (if t ! 0 \<noteq> CHR ''{'' \<or> last t \<noteq> CHR ''}'' then Inl (ErrText (''uuid: incorrect UUID format '' @ t))
      else decodePlain (butlast (tl t)))"

definition decodeURN :: "bytes \<Rightarrow> UUID result" where
  "decodeURN t =
     (if take 9 t \<noteq> urnPrefix then Inl (ErrText (''uuid: incorrect UUID format: '' @ t)) else decodePlain (drop 9 t))"

definition UnmarshalText :: "bytes \<Rightarrow> UUID result" where
  "UnmarshalText text =
     (if length text = 32 then decodeHashLike text
      else if length text = 36 then decodeCanonical text
      else if length text = 38 then decodeBraced text
      else if length text = 41 \<or> length text = 45 then decodeURN text
      else Inl (ErrText (''uuid: incorrect UUID length: '' @ text)))"

definition uuid_FromString :: "string \<Rightarrow> UUID result" where
  "uuid_FromString input = UnmarshalText input"

definition uuid_FromBytes :: "bytes \<Rightarrow> UUID result" where
  "uuid_FromBytes input =
     (if length input \<noteq> 16
      then Inl (ErrText (''uuid: UUID must be exactly 16 bytes long, got '' @ FormatInt (int (length input)) @ '' bytes''))
      else Inr input)"

section \<open>Every accepted text gives 16 bytes\<close>

lemma hex_Decode_length: "hex_Decode s = Inr bs \<Longrightarrow> length s = 2 * length bs"
  by (induction s arbitrary: bs rule: hex_Decode.induct) (auto simp: rbind_eq_Inr split: option.splits)

lemma decode_groups_length:
  "decode_groups skip gs src = Inr u \<Longrightarrow>
     (if gs = [] then 0 else sum_list gs + length gs - (if skip then 0 else 1)) \<le> length src \<Longrightarrow> 2 * length u = sum_list gs"
proof (induction skip gs src arbitrary: u rule: decode_groups.induct)
  case (2 skip g gs src)
  define src' where "src' = (if skip then drop 1 src else src)"
  obtain d ds where d: "hex_Decode (take g src') = Inr d" "decode_groups True gs (drop g src') = Inr ds" "u = d @ ds"
    using "2.prems"(1) by (auto simp: rbind_eq_Inr Let_def src'_def)
  have "length src' = length src - (if skip then 1 else 0)" by (simp add: src'_def)
  then have "g \<le> length src'" "(if gs = [] then 0 else sum_list gs + length gs) \<le> length (drop g src')"
    using "2.prems"(2) by (auto split: if_splits)
  moreover have "2 * length ds = sum_list gs" using "2.IH" [OF src'_def d(2)] calculation(2) by (auto split: if_splits)
  ultimately show ?case using hex_Decode_length [OF d(1)] d(3) by simp
qed simp

lemma decodeCanonical_length: "decodeCanonical t = Inr u \<Longrightarrow> length t = 36 \<Longrightarrow> length u = 16"
  using decode_groups_length [of False byteGroups t u] by (simp add: decodeCanonical_def byteGroups_def split: if_split_asm)

lemma decodePlain_length: "decodePlain t = Inr u \<Longrightarrow> length u = 16"
  using hex_Decode_length [of t u] decodeCanonical_length [of t u]
  by (auto simp: decodePlain_def decodeHashLike_def split: if_split_asm)

lemma uuid_FromString_length: "uuid_FromString s = Inr u \<Longrightarrow> length u = 16"
  using decodePlain_length [of s u] decodePlain_length [of _ u] unfolding uuid_FromString_def UnmarshalText_def
  by (auto simp: decodeBraced_def decodeURN_def decodePlain_def [of s] split: if_split_asm)

section \<open>Parsing the text of a UUID gives it back\<close>

lemma uuid_groups:
  assumes "length u = 16"
  obtains a b c d e where "u = a @ b @ c @ d @ e" "length a = 4" "length b = 2" "length c = 2" "length d = 2" "length e = 6"
    "uuid_String u = hex_Encode a @ ''-'' @ hex_Encode b @ ''-'' @ hex_Encode c @ ''-'' @ hex_Encode d @ ''-'' @ hex_Encode e"
proof
  show "u = take 4 u @ take 2 (drop 4 u) @ take 2 (drop 6 u) @ take 2 (drop 8 u) @ drop 10 u"
    using append_take_drop_id [of 4 u] append_take_drop_id [of 2 "drop 4 u"] append_take_drop_id [of 2 "drop 6 u"]
      append_take_drop_id [of 2 "drop 8 u"] by simp
  show "uuid_String u = hex_Encode (take 4 u) @ ''-'' @ hex_Encode (take 2 (drop 4 u)) @ ''-'' @ hex_Encode (take 2 (drop 6 u)) @ ''-'' @
     hex_Encode (take 2 (drop 8 u)) @ ''-'' @ hex_Encode (drop 10 u)" by (simp add: uuid_String_def)
qed (use assms in simp_all)

lemma length_uuid_String: "length u = 16 \<Longrightarrow> length (uuid_String u) = 36"
  by (simp add: uuid_String_def)

lemma uuid_String_chars:
  "c \<in> set (uuid_String u) \<Longrightarrow> printable c \<and> c \<noteq> CHR '':'' \<and> c \<noteq> CHR '',''"
  unfolding uuid_String_def using hex_Encode_chars by (auto simp: printable_def)

lemma uuid_FromString_String:
  assumes "length u = 16"
  shows "uuid_FromString (uuid_String u) = Inr u"
proof -
  obtain a b c d e where g: "u = a @ b @ c @ d @ e" "length a = 4" "length b = 2" "length c = 2" "length d = 2" "length e = 6"
    and s: "uuid_String u = hex_Encode a @ ''-'' @ hex_Encode b @ ''-'' @ hex_Encode c @ ''-'' @ hex_Encode d @ ''-'' @ hex_Encode e"
    using uuid_groups [OF assms] by metis
  have "uuid_String u ! 8 = CHR ''-''" "uuid_String u ! 13 = CHR ''-''" "uuid_String u ! 18 = CHR ''-''" "uuid_String u ! 23 = CHR ''-''"
    unfolding s using g(2-6) by (simp_all add: nth_append)
  moreover have "decode_groups False byteGroups (uuid_String u) = Inr u"
    unfolding s byteGroups_def using g by simp
  ultimately show ?thesis using length_uuid_String [OF assms]
    by (simp add: uuid_FromString_def UnmarshalText_def decodeCanonical_def)
qed

lemma uuid_String_inj: "length u = 16 \<Longrightarrow> length v = 16 \<Longrightarrow> uuid_String u = uuid_String v \<longleftrightarrow> u = v"
  using uuid_FromString_String by (metis sum.inject(2))

end
