(* ===== verification/GtidTypes.thy ===== *)
theory GtidTypes
  imports Uuid "HOL-Library.AList" "HOL-Library.Multiset"
begin

text \<open>
  The GTID sets of the SQL proxy: the structures of \<open>mysql_gtid.go\<close> and \<open>mariadb_gtid.go\<close>, and the
  interface \<open>GTIDSet\<close> of \<open>gtid.go\<close> as the sum of its two implementations, on which their methods
  make type assertions. A Go map is its list of entries in order of insertion.
\<close>

text \<open>Numbers from \<open>Start\<close> up to but without \<open>Stop\<close>.\<close>

datatype Interval = Interval (Start: int) (Stop: int)

type_synonym IntervalSlice = "Interval list"

record UUIDSet =
  SID :: UUID
  Intervals :: IntervalSlice

record MysqlGTIDSet =
  Sets :: "(string \<times> UUIDSet) list"

record MariadbGTID =
  DomainID :: int
  ServerID :: int
  SequenceNumber :: int

record MariadbGTIDSet =
  mSets :: "(int \<times> MariadbGTID) list"

datatype GTIDSet = MysqlSet MysqlGTIDSet | MariadbSet MariadbGTIDSet

lemma sort_map: "sort (map f xs) = map f (sort_key f xs)"
  by (rule properties_for_sort) simp_all

lemma list_all_entries:
  "distinct (map fst xs) \<Longrightarrow> list_all (\<lambda>(k, v). P k v) xs \<longleftrightarrow> (\<forall>k v. map_of xs k = Some v \<longrightarrow> P k v)"
  by (simp add: list_all_iff split_def) (metis eq_fst_iff map_of_is_SomeI map_of_SomeD snd_conv fst_conv prod.collapse)

lemma found_iff: "(case x of None \<Rightarrow> False | Some v \<Rightarrow> P v) \<longleftrightarrow> (\<exists>v. x = Some v \<and> P v)"
  by (simp split: option.split)

end
