(* ===== verification/MysqlGtid.thy ===== *)
theory MysqlGtid
  imports GtidTypes
begin

text \<open>
  MySQL GTID sets (\<open>mysql/mysql_gtid.go\<close>): half-open intervals of transaction numbers, sorted and
  merged interval lists, the intervals of one server, and the sets of several servers. \<open>ord\<close> is
  the order in which a run visits the keys of a map. \<open>errors.Trace\<close> adds a stack to an error and
  is left out. Slices are values here: \<open>Normalize\<close> also sorts the slice it is called on in place,
  which no caller in this file looks at again.
\<close>

section \<open>Intervals\<close>

text \<open>\<open>IntervalSlice.Less\<close> is the order by which \<open>Sort\<close> sorts.\<close>

definition Interval_Less :: "Interval \<Rightarrow> Interval \<Rightarrow> bool" where
  "Interval_Less i j \<longleftrightarrow>
     (if Start i < Start j then True else if Start i > Start j then False else Stop i < Stop j)"

instantiation Interval :: linorder
begin

definition less_Interval :: "Interval \<Rightarrow> Interval \<Rightarrow> bool" where
  "less_Interval i j = Interval_Less i j"

definition less_eq_Interval :: "Interval \<Rightarrow> Interval \<Rightarrow> bool" where
  "less_eq_Interval i j \<longleftrightarrow> i = j \<or> Interval_Less i j"

instance
  by standard (auto simp: less_Interval_def less_eq_Interval_def Interval_Less_def Interval.expand split: if_splits)

end

definition parseInterval :: "string \<Rightarrow> Interval result" where
  "parseInterval str =
     (let p = Split str (CHR ''-'')
      in rbind (if length p = 1 then rbind (ParseInt (p ! 0)) (\<lambda>start. Inr (Interval start (wrap64 (start + 1))))
                else if length p = 2 then
                  rbind (ParseInt (p ! 0)) (\<lambda>start. rbind (ParseInt (p ! 1)) (\<lambda>stop. Inr (Interval start (wrap64 (stop + 1)))))
                else Inl (ErrText ''invalid interval format, must n[-n]'')) (\<lambda>i.
         if Stop i \<le> Start i then Inl (ErrText ''invalid interval format, must n[-n] and the end must >= start'') else Inr i))"

definition Interval_String :: "Interval \<Rightarrow> string" where
  "Interval_String i =
     (if Stop i = wrap64 (Start i + 1) then FormatInt (Start i)
      else FormatInt (Start i) @ ''-'' @ FormatInt (wrap64 (Stop i - 1)))"

definition IntervalSlice_Sort :: "IntervalSlice \<Rightarrow> IntervalSlice" where
  "IntervalSlice_Sort s = sort s"

text \<open>The loop of \<open>Normalize\<close>, with the last interval of its result.\<close>

fun merge_intervals :: "Interval \<Rightarrow> IntervalSlice \<Rightarrow> IntervalSlice" where
  "merge_intervals cur [] = [cur]"
| "merge_intervals cur (i # s) =
     (if Start i > Stop cur then cur # merge_intervals i s
      else merge_intervals (Interval (Start cur) (max (Stop cur) (Stop i))) s)"

definition Normalize :: "IntervalSlice \<Rightarrow> IntervalSlice" where
  "Normalize s = (case IntervalSlice_Sort s of [] \<Rightarrow> [] | i # is \<Rightarrow> merge_intervals i is)"

text \<open>\<open>j\<close> only moves forward: the recursion carries the rest \<open>s[j:]\<close>.\<close>

fun IntervalSlice_Contain :: "IntervalSlice \<Rightarrow> IntervalSlice \<Rightarrow> bool" where
  "IntervalSlice_Contain s [] = True"
| "IntervalSlice_Contain s (i # sub) =
     (case dropWhile (\<lambda>j. Start i > Stop j) s of
        [] \<Rightarrow> False
      | j # rest \<Rightarrow> if Start i < Start j \<or> Stop i > Stop j then False else IntervalSlice_Contain (j # rest) sub)"

fun IntervalSlice_Equal :: "IntervalSlice \<Rightarrow> IntervalSlice \<Rightarrow> bool" where
  "IntervalSlice_Equal [] [] = True"
| "IntervalSlice_Equal (i # s) (j # t) = (Start i = Start j \<and> Stop i = Stop j \<and> IntervalSlice_Equal s t)"
| "IntervalSlice_Equal _ _ = False"

definition IntervalSlice_Compare :: "IntervalSlice \<Rightarrow> IntervalSlice \<Rightarrow> int" where
  "IntervalSlice_Compare s t = (if IntervalSlice_Equal s t then 0 else if IntervalSlice_Contain s t then 1 else -1)"

section \<open>The intervals of one server\<close>

fun parse_intervals :: "string list \<Rightarrow> IntervalSlice result" where
  "parse_intervals [] = Inr []"
| "parse_intervals (w # ws) =
     rbind (parseInterval w) (\<lambda>i. rbind (parse_intervals ws) (\<lambda>is. Inr (i # is)))"

definition NewUUIDSet :: "UUID \<Rightarrow> IntervalSlice \<Rightarrow> UUIDSet" where
  "NewUUIDSet sid ivs = \<lparr>SID = sid, Intervals = Normalize ivs\<rparr>"

definition ParseUUIDSet :: "string \<Rightarrow> UUIDSet result" where
  "ParseUUIDSet str =
     (let sep = Split (TrimSpace str) (CHR '':'')
      in if length sep < 2 then Inl (ErrText ''invalid GTID format, must UUID:interval[:interval]'')
         else rbind (uuid_FromString (hd sep)) (\<lambda>sid.
              rbind (parse_intervals (tl sep)) (\<lambda>ivs. Inr \<lparr>SID = sid, Intervals = Normalize ivs\<rparr>)))"

definition UUIDSet_Contain :: "UUIDSet \<Rightarrow> UUIDSet \<Rightarrow> bool" where
  "UUIDSet_Contain s sub = (if SID s \<noteq> SID sub then False else IntervalSlice_Contain (Intervals s) (Intervals sub))"

definition UUIDSet_Bytes :: "UUIDSet \<Rightarrow> bytes" where
  "UUIDSet_Bytes s = uuid_String (SID s) @ concat (map (\<lambda>i. '':'' @ Interval_String i) (Intervals s))"

definition AddInterval :: "IntervalSlice \<Rightarrow> UUIDSet \<Rightarrow> UUIDSet" where
  "AddInterval ivs s = s\<lparr>Intervals := Normalize (Intervals s @ ivs)\<rparr>"

definition UUIDSet_String :: "UUIDSet \<Rightarrow> string" where
  "UUIDSet_String s = UUIDSet_Bytes s"

text \<open>A 64-bit integer, little endian (\<open>binary.Write\<close>, \<open>binary.LittleEndian.Uint64\<close>).\<close>

definition put_int64 :: "int \<Rightarrow> bytes" where
  "put_int64 n = le_bytes 8 (nat (n mod 18446744073709551616))"

definition get_int64 :: "bytes \<Rightarrow> int" where
  "get_int64 b = wrap64 (int (le_nat (take 8 b)))"

definition UUIDSet_Encode :: "UUIDSet \<Rightarrow> bytes" where
  "UUIDSet_Encode s =
     SID s @ put_int64 (int (length (Intervals s))) @
     concat (map (\<lambda>i. put_int64 (Start i) @ put_int64 (Stop i)) (Intervals s))"

fun decode_intervals :: "nat \<Rightarrow> bytes \<Rightarrow> IntervalSlice" where
  "decode_intervals 0 data = []"
| "decode_intervals (Suc n) data =
     Interval (get_int64 data) (get_int64 (drop 8 data)) # decode_intervals n (drop 16 data)"

text \<open>
  \<open>decode\<close> returns the set and the number of bytes it has read. The length check is on 64-bit
  integers that may wrap; a negative or a huge number of intervals that passes it makes
  \<open>make\<close> panic (its limit for 16-byte elements is \<open>2\<^sup>4\<^sup>4\<close>).
\<close>

definition UUIDSet_decode :: "bytes \<Rightarrow> (UUIDSet \<times> int) result" where
  "UUIDSet_decode data =
     (if length data < 24 then Inl (ErrText ''invalid uuid set buffer, less 24'')
      else rbind (uuid_FromBytes (take 16 data)) (\<lambda>sid.
        let n = get_int64 (drop 16 data)
        in if int (length data) < wrap64 (wrap64 (16 * n) + 24)
           then Inl (ErrText (''invalid uuid set buffer, must '' @ FormatInt (wrap64 (24 + wrap64 (16 * n))) @ '', but '' @ FormatInt (int (length data))))
           else if n < 0 \<or> n > 17592186044416 then Inl Panic
           else Inr (\<lparr>SID = sid, Intervals = decode_intervals (nat n) (drop 24 data)\<rparr>, 24 + 16 * n)))"

definition UUIDSet_Decode :: "bytes \<Rightarrow> UUIDSet result" where
  "UUIDSet_Decode data =
     (case UUIDSet_decode data of
        Inl e \<Rightarrow>
          if e = Panic then Inl Panic
          else if data \<noteq> [] then Inl (ErrText (''invalid uuid set buffer, must 0, but '' @ FormatInt (int (length data)))) else Inl e
      | Inr (s, n) \<Rightarrow>
          if n \<noteq> int (length data)
          then Inl (ErrText (''invalid uuid set buffer, must '' @ FormatInt n @ '', but '' @ FormatInt (int (length data)))) else Inr s)"

definition UUIDSet_Clone :: "UUIDSet \<Rightarrow> UUIDSet" where
  "UUIDSet_Clone s = \<lparr>SID = SID s, Intervals = Normalize (Intervals s)\<rparr>"

section \<open>The sets of several servers\<close>

definition AddSet :: "UUIDSet \<Rightarrow> MysqlGTIDSet \<Rightarrow> MysqlGTIDSet" where
  "AddSet us s =
     (let sid = uuid_String (SID us)
      in case map_of (Sets s) sid of
           Some p \<Rightarrow> s\<lparr>Sets := AList.update sid (AddInterval (Intervals us) p) (Sets s)\<rparr>
         | None \<Rightarrow> s\<lparr>Sets := AList.update sid us (Sets s)\<rparr>)"

fun parse_sets :: "string list \<Rightarrow> MysqlGTIDSet \<Rightarrow> MysqlGTIDSet result" where
  "parse_sets [] s = Inr s"
| "parse_sets (w # ws) s = rbind (ParseUUIDSet w) (\<lambda>set. parse_sets ws (AddSet set s))"

definition ParseMysqlGTIDSet :: "string \<Rightarrow> MysqlGTIDSet result" where
  "ParseMysqlGTIDSet str =
     (if str = [] then Inr \<lparr>Sets = []\<rparr> else parse_sets (Split str (CHR '','')) \<lparr>Sets = []\<rparr>)"

fun decode_sets :: "nat \<Rightarrow> bytes \<Rightarrow> MysqlGTIDSet \<Rightarrow> MysqlGTIDSet result" where
  "decode_sets 0 data s = Inr s"
| "decode_sets (Suc n) data s =
     rbind (UUIDSet_decode data) (\<lambda>(set, k). decode_sets n (drop (nat k) data) (AddSet set s))"

definition DecodeMysqlGTIDSet :: "bytes \<Rightarrow> MysqlGTIDSet result" where
  "DecodeMysqlGTIDSet data =
     (if length data < 8 then Inl (ErrText ''invalid gtid set buffer, less 4'')
      else decode_sets (nat (get_int64 data)) (drop 8 data) \<lparr>Sets = []\<rparr>)"

text \<open>A visit of the entries of the map in the order \<open>ord\<close>.\<close>

definition entries_in :: "(string list \<Rightarrow> string list) \<Rightarrow> MysqlGTIDSet \<Rightarrow> UUIDSet list" where
  "entries_in ord s = map (\<lambda>k. the (map_of (Sets s) k)) (ord (map fst (Sets s)))"

definition MysqlGTIDSet_Update :: "(string list \<Rightarrow> string list) \<Rightarrow> string \<Rightarrow> MysqlGTIDSet \<Rightarrow> unit result \<times> MysqlGTIDSet" where
  "MysqlGTIDSet_Update ord GTIDStr s =
     (case ParseMysqlGTIDSet GTIDStr of
        Inl e \<Rightarrow> (Inl e, s)
      | Inr gtidSet \<Rightarrow> (Inr (), fold AddSet (entries_in ord gtidSet) s))"

text \<open>The result of the loops of \<open>Contain\<close> and \<open>Equal\<close> does not depend on the order of the visit.\<close>

definition MysqlGTIDSet_Contain :: "MysqlGTIDSet \<Rightarrow> GTIDSet \<Rightarrow> bool" where
  "MysqlGTIDSet_Contain s g =
     (case g of
        MariadbSet _ \<Rightarrow> False
      | MysqlSet sub \<Rightarrow>
          list_all (\<lambda>(key, set). case map_of (Sets s) key of None \<Rightarrow> False | Some p \<Rightarrow> UUIDSet_Contain p set) (Sets sub))"

definition MysqlGTIDSet_Equal :: "MysqlGTIDSet \<Rightarrow> GTIDSet \<Rightarrow> bool" where
  "MysqlGTIDSet_Equal s g =
     (case g of
        MariadbSet _ \<Rightarrow> False
      | MysqlSet sub \<Rightarrow>
          if length (Sets sub) \<noteq> length (Sets s) then False
          else list_all (\<lambda>(key, set). case map_of (Sets s) key of
                 None \<Rightarrow> False | Some p \<Rightarrow> IntervalSlice_Equal (Intervals p) (Intervals set)) (Sets sub))"

definition MysqlGTIDSet_String :: "MysqlGTIDSet \<Rightarrow> string" where
  "MysqlGTIDSet_String s =
     (if length (Sets s) = 1 then UUIDSet_String (snd (hd (Sets s)))
      else Join (sort (map (\<lambda>(key, set). UUIDSet_String set) (Sets s))) '','')"

definition MysqlGTIDSet_Encode :: "(string list \<Rightarrow> string list) \<Rightarrow> MysqlGTIDSet \<Rightarrow> bytes" where
  "MysqlGTIDSet_Encode ord s =
     put_int64 (int (length (Sets s))) @ concat (map UUIDSet_Encode (entries_in ord s))"

definition MysqlGTIDSet_Clone :: "MysqlGTIDSet \<Rightarrow> MysqlGTIDSet" where
  "MysqlGTIDSet_Clone s = \<lparr>Sets = map (\<lambda>(sid, set). (sid, UUIDSet_Clone set)) (Sets s)\<rparr>"


section \<open>What an interval list stands for\<close>

definition points :: "Interval \<Rightarrow> int set" where
  "points i = {Start i ..< Stop i}"

definition numbers :: "IntervalSlice \<Rightarrow> int set" where
  "numbers s = (\<Union>i \<in> set s. points i)"

text \<open>A normalized list: intervals that are not empty, in order, and that do not touch.\<close>

definition normal :: "IntervalSlice \<Rightarrow> bool" where
  "normal s \<longleftrightarrow> sorted_wrt (\<lambda>i j. Stop i < Start j) s \<and> (\<forall>i \<in> set s. Start i < Stop i)"

lemma numbers_simps [simp]:
  "numbers [] = {}"
  "numbers (i # s) = points i \<union> numbers s"
  "numbers (s @ t) = numbers s \<union> numbers t"
  by (auto simp: numbers_def)

lemma normal_simps [simp]:
  "normal []"
  "normal (i # s) \<longleftrightarrow> Start i < Stop i \<and> (\<forall>j \<in> set s. Stop i < Start j) \<and> normal s"
  by (auto simp: normal_def)

lemma normal_above: "normal (i # s) \<Longrightarrow> n \<in> numbers s \<Longrightarrow> Stop i < n"
  by (force simp: numbers_def points_def)

lemma merge_intervals_spec:
  assumes "\<forall>i \<in> set (cur # s). Start i < Stop i" "sorted (map Start (cur # s))"
  shows "normal (merge_intervals cur s) \<and> numbers (merge_intervals cur s) = numbers (cur # s) \<and>
    (\<forall>i \<in> set (merge_intervals cur s). Start cur \<le> Start i) \<and> merge_intervals cur s \<noteq> []"
  using assms
proof (induction cur s rule: merge_intervals.induct)
  case (2 cur i s)
  show ?case
  proof (cases "Start i > Stop cur")
    case True
    then show ?thesis using 2(1) 2(3,4) by (fastforce simp: points_def)
  next
    case False
    then have "points (Interval (Start cur) (max (Stop cur) (Stop i))) = points cur \<union> points i"
      using 2(3,4) by (auto simp: points_def)
    then show ?thesis using False 2(2) [OF False] 2(3,4) by (auto simp: less_max_iff_disj)
  qed
qed (simp add: points_def)

lemma sorted_Start: "sorted s \<Longrightarrow> sorted (map Start s)"
  by (induction s) (auto simp: less_eq_Interval_def Interval_Less_def split: if_splits)

lemma Normalize_spec:
  assumes "\<forall>i \<in> set s. Start i < Stop i"
  shows "normal (Normalize s)" "numbers (Normalize s) = numbers s" "s \<noteq> [] \<Longrightarrow> Normalize s \<noteq> []"
proof -
  have n: "numbers (sort s) = numbers s" by (simp add: numbers_def)
  have "normal (Normalize s) \<and> numbers (Normalize s) = numbers s \<and> (s \<noteq> [] \<longrightarrow> Normalize s \<noteq> [])"
  proof (cases "sort s")
    case Nil
    then have "s = []" by (metis length_0_conv length_sort)
    then show ?thesis by (simp add: Normalize_def IntervalSlice_Sort_def)
  next
    case (Cons i t)
    have "sorted (map Start (i # t))" using sorted_Start [OF sorted_sort [of s]] by (simp only: Cons)
    moreover have "\<forall>j \<in> set (i # t). Start j < Stop j" using assms by (simp flip: Cons)
    ultimately show ?thesis using merge_intervals_spec [of i t] n by (simp add: Normalize_def IntervalSlice_Sort_def Cons)
  qed
  then show "normal (Normalize s)" "numbers (Normalize s) = numbers s" "s \<noteq> [] \<Longrightarrow> Normalize s \<noteq> []" by auto
qed

text \<open>The bounds of the intervals come from the given ones.\<close>

lemma merge_intervals_bounds:
  "i \<in> set (merge_intervals cur s) \<Longrightarrow> Start i \<in> Start ` set (cur # s) \<and> Stop i \<in> Stop ` set (cur # s)"
  by (induction cur s rule: merge_intervals.induct) (auto simp: max_def split: if_splits)

lemma Normalize_bounds:
  "i \<in> set (Normalize s) \<Longrightarrow> Start i \<in> Start ` set s \<and> Stop i \<in> Stop ` set s"
proof -
  assume i: "i \<in> set (Normalize s)"
  have s: "set (sort s) = set s" by simp
  show ?thesis
  proof (cases "sort s")
    case (Cons j t)
    then have "i \<in> set (merge_intervals j t)" using i by (simp add: Normalize_def IntervalSlice_Sort_def)
    then show ?thesis using merge_intervals_bounds [of i j t] s by (simp only: Cons)
  qed (use i in \<open>simp add: Normalize_def IntervalSlice_Sort_def\<close>)
qed

lemma merge_intervals_normal: "normal (cur # s) \<Longrightarrow> merge_intervals cur s = cur # s"
  by (induction s arbitrary: cur) auto

lemma normal_sorted: "normal s \<Longrightarrow> sorted s"
proof (induction s)
  case (Cons i s)
  have "i \<le> j" if "j \<in> set s" for j
  proof -
    have "Start i < Stop i" "Stop i < Start j" using Cons.prems that by auto
    then show ?thesis by (simp add: less_eq_Interval_def Interval_Less_def)
  qed
  then show ?case using Cons by simp
qed simp

lemma Normalize_normal: "normal s \<Longrightarrow> Normalize s = s"
  using normal_sorted [of s] merge_intervals_normal
  by (auto simp: Normalize_def IntervalSlice_Sort_def sorted_sort_id split: list.split)

subsection \<open>Inclusion and equality\<close>

lemma points_within:
  assumes "normal (j # s)" "Start i < Stop i" "Start i \<le> Stop j"
  shows "points i \<subseteq> numbers (j # s) \<longleftrightarrow> Start j \<le> Start i \<and> Stop i \<le> Stop j"
proof
  assume sub: "points i \<subseteq> numbers (j # s)"
  have "Start i \<notin> numbers s" "Stop j \<notin> numbers s" using normal_above [OF assms(1)] assms(3) by force+
  moreover have "Start i \<in> points i" "Stop j \<notin> points j" using assms(2) by (auto simp: points_def)
  ultimately have "Start i \<in> points j" "Stop j \<notin> points i" using sub by auto
  then show "Start j \<le> Start i \<and> Stop i \<le> Stop j" using assms(2) by (auto simp: points_def)
qed (auto simp: points_def)

lemma normal_dropWhile: "normal s \<Longrightarrow> normal (dropWhile P s)"
  by (induction s) auto

lemma numbers_dropWhile:
  "(\<And>n. n \<in> A \<Longrightarrow> a \<le> n) \<Longrightarrow> A \<subseteq> numbers (dropWhile (\<lambda>j. a > Stop j) s) \<longleftrightarrow> A \<subseteq> numbers s"
proof (induction s)
  case (Cons j s)
  have "A \<inter> points j = {}" if "Stop j < a" using Cons.prems that by (fastforce simp: points_def)
  then have "A \<subseteq> numbers (j # s) \<longleftrightarrow> A \<subseteq> numbers s" if "Stop j < a" using that by auto
  then show ?case using Cons by simp
qed simp

lemma IntervalSlice_Contain_iff:
  "normal s \<Longrightarrow> normal sub \<Longrightarrow> IntervalSlice_Contain s sub \<longleftrightarrow> numbers sub \<subseteq> numbers s"
proof (induction s sub rule: IntervalSlice_Contain.induct)
  case (2 s i sub)
  let ?d = "dropWhile (\<lambda>j. Start i > Stop j) s"
  have above: "Start i \<le> n" if "n \<in> numbers (i # sub)" for n
    using that normal_above [OF "2.prems"(2)] "2.prems"(2) by (fastforce simp: points_def)
  then have d: "numbers (i # sub) \<subseteq> numbers s \<longleftrightarrow> numbers (i # sub) \<subseteq> numbers ?d"
    using numbers_dropWhile [of "numbers (i # sub)" "Start i" s] by simp
  show ?case
  proof (cases ?d)
    case Nil
    have "Start i \<in> numbers (i # sub)" using "2.prems"(2) by (simp add: points_def)
    then have "\<not> numbers (i # sub) \<subseteq> numbers s" unfolding d Nil by auto
    then show ?thesis by (simp only: IntervalSlice_Contain.simps Nil list.case)
  next
    case (Cons j rest)
    have n: "normal (j # rest)" using normal_dropWhile [OF "2.prems"(1)] Cons by metis
    moreover have "Start i \<le> Stop j" using hd_dropWhile [of "\<lambda>j. Start i > Stop j" s] Cons by simp
    ultimately have "points i \<subseteq> numbers (j # rest) \<longleftrightarrow> Start j \<le> Start i \<and> Stop i \<le> Stop j"
      using points_within "2.prems"(2) by simp
    moreover have "IntervalSlice_Contain (j # rest) sub \<longleftrightarrow> numbers sub \<subseteq> numbers (j # rest)"
      if "\<not> (Start i < Start j \<or> Stop i > Stop j)" using "2.IH" [OF Cons that n] "2.prems"(2) by simp
    ultimately show ?thesis unfolding d Cons IntervalSlice_Contain.simps list.case by auto
  qed
qed simp

lemma IntervalSlice_Equal_iff: "IntervalSlice_Equal s t \<longleftrightarrow> s = t"
  by (induction s t rule: IntervalSlice_Equal.induct) (auto simp: Interval.expand)

lemma normal_unique: "normal s \<Longrightarrow> normal t \<Longrightarrow> numbers s = numbers t \<Longrightarrow> s = t"
proof (induction s arbitrary: t)
  case Nil
  then show ?case by (cases t) (auto simp: points_def)
next
  case (Cons i s)
  obtain j u where t: "t = j # u" using Cons.prems by (cases t) (auto simp: points_def)
  have ord: "Start a \<le> Start b \<and> Stop b \<le> Stop a"
    if "normal (a # x)" "normal (b # y)" "numbers (a # x) = numbers (b # y)" "Start b \<le> Stop a" for a b x y
    using points_within [OF that(1), of b] that by auto
  have "Start i \<in> numbers (j # u)" "Start j \<in> numbers (i # s)"
    using Cons.prems t by (auto simp: points_def)
  then have le: "Start j \<le> Start i" "Start i \<le> Start j"
    using normal_above [of j u "Start i"] normal_above [of i s "Start j"] Cons.prems t by (fastforce simp: points_def)+
  then have "i = j"
    using ord [of i s j u] ord [of j u i s] Cons.prems t by (auto simp: Interval.expand)
  moreover have "numbers s = numbers (i # s) - points i" "numbers u = numbers (j # u) - points j"
    using normal_above [of i s] normal_above [of j u] Cons.prems t by (fastforce simp: points_def)+
  ultimately show ?case using Cons t by simp
qed

end
