(* ===== verification/GtidSets.thy ===== *)
theory GtidSets
  imports MysqlGtid
begin

text \<open>
  What the MySQL GTID sets of theory MysqlGtid stand for: a set of transactions, pairs of a
  server and a number. \<open>Contain\<close>, \<open>Equal\<close>, \<open>AddSet\<close> and \<open>Update\<close> are inclusion, equality and union
  of these; the text and the binary form of a set are read back as a set of the same
  transactions. The invariant \<open>gtid_set_ok\<close> holds of every set that is parsed.
\<close>

section \<open>What a GTID set stands for\<close>

definition interval_ok :: "Interval \<Rightarrow> bool" where
  "interval_ok i \<longleftrightarrow> 0 \<le> Start i \<and> Start i < Stop i \<and> Stop i \<le> MaxInt64"

definition server_ok :: "UUIDSet \<Rightarrow> bool" where
  "server_ok u \<longleftrightarrow> length (SID u) = 16 \<and> Intervals u \<noteq> [] \<and> normal (Intervals u) \<and> (\<forall>i \<in> set (Intervals u). interval_ok i)"

definition gtid_set_ok :: "MysqlGTIDSet \<Rightarrow> bool" where
  "gtid_set_ok s \<longleftrightarrow>
     distinct (map fst (Sets s)) \<and> (\<forall>k u. map_of (Sets s) k = Some u \<longrightarrow> k = uuid_String (SID u) \<and> server_ok u)"

text \<open>The transactions in a set: pairs of a server and a number.\<close>

definition server_transactions :: "UUIDSet \<Rightarrow> (UUID \<times> int) set" where
  "server_transactions u = {SID u} \<times> numbers (Intervals u)"

definition transactions :: "MysqlGTIDSet \<Rightarrow> (UUID \<times> int) set" where
  "transactions s = {(sid, n). \<exists>u. map_of (Sets s) (uuid_String sid) = Some u \<and> SID u = sid \<and> n \<in> numbers (Intervals u)}"

lemma empty_set_ok [simp]: "gtid_set_ok \<lparr>Sets = []\<rparr>" "transactions \<lparr>Sets = []\<rparr> = {}"
  by (simp_all add: gtid_set_ok_def transactions_def)

lemma Normalize_ok:
  assumes "\<forall>i \<in> set s. interval_ok i"
  shows "normal (Normalize s)" "numbers (Normalize s) = numbers s" "\<forall>i \<in> set (Normalize s). interval_ok i"
    "s \<noteq> [] \<Longrightarrow> Normalize s \<noteq> []"
proof -
  have lt: "\<forall>i \<in> set s. Start i < Stop i" using assms by (simp add: interval_ok_def)
  show "normal (Normalize s)" "numbers (Normalize s) = numbers s" "s \<noteq> [] \<Longrightarrow> Normalize s \<noteq> []"
    using Normalize_spec [OF lt] by auto
  then show "\<forall>i \<in> set (Normalize s). interval_ok i"
    using Normalize_bounds [of _ s] assms by (fastforce simp: interval_ok_def normal_def)
qed

lemma AddInterval_ok:
  assumes "server_ok u" "\<forall>i \<in> set ivs. interval_ok i"
  shows "server_ok (AddInterval ivs u)" "SID (AddInterval ivs u) = SID u"
    "numbers (Intervals (AddInterval ivs u)) = numbers (Intervals u) \<union> numbers ivs"
proof -
  have "\<forall>i \<in> set (Intervals u @ ivs). interval_ok i" using assms by (auto simp: server_ok_def)
  from Normalize_ok [OF this] show "server_ok (AddInterval ivs u)" "SID (AddInterval ivs u) = SID u"
    "numbers (Intervals (AddInterval ivs u)) = numbers (Intervals u) \<union> numbers ivs"
    using assms by (auto simp: AddInterval_def server_ok_def)
qed

lemma gtid_set_ok_lookup:
  assumes "gtid_set_ok s" "map_of (Sets s) k = Some u"
  shows "k = uuid_String (SID u)" "server_ok u"
  using assms by (simp_all add: gtid_set_ok_def)

lemma AddSet_ok:
  assumes "gtid_set_ok s" "server_ok u"
  shows "gtid_set_ok (AddSet u s) \<and> transactions (AddSet u s) = transactions s \<union> server_transactions u"
proof -
  let ?k = "uuid_String (SID u)"
  obtain q where q: "server_ok q" "SID q = SID u" "Sets (AddSet u s) = AList.update ?k q (Sets s)"
    "\<And>n. n \<in> numbers (Intervals q) \<longleftrightarrow> n \<in> numbers (Intervals u) \<or> (SID u, n) \<in> transactions s"
  proof (cases "map_of (Sets s) ?k")
    case None
    show ?thesis by (rule that [of u]) (use assms None in \<open>simp_all add: AddSet_def transactions_def\<close>)
  next
    case (Some p)
    have p: "server_ok p" "uuid_String (SID p) = ?k" using gtid_set_ok_lookup [OF assms(1) Some] by simp_all
    then have sid: "SID p = SID u" using assms(2) uuid_String_inj by (simp add: server_ok_def)
    have "\<forall>i \<in> set (Intervals u). interval_ok i" using assms(2) by (simp add: server_ok_def)
    note add = AddInterval_ok [OF p(1) this]
    show ?thesis by (rule that [of "AddInterval (Intervals u) p"])
        (use add sid Some in \<open>auto simp: AddSet_def transactions_def\<close>)
  qed
  have m: "map_of (Sets (AddSet u s)) = (map_of (Sets s))(?k \<mapsto> q)" by (simp add: q(3) update_conv')
  have "distinct (map fst (Sets (AddSet u s)))" using assms(1) by (simp add: q(3) gtid_set_ok_def distinct_update)
  then have "gtid_set_ok (AddSet u s)" using assms(1) q(1,2) m by (auto simp: gtid_set_ok_def)
  moreover have "(sid, n) \<in> transactions (AddSet u s) \<longleftrightarrow> (sid, n) \<in> transactions s \<union> server_transactions u" for sid n
  proof (cases "uuid_String sid = ?k")
    case True
    have "sid = SID u" if "(sid, n) \<in> transactions s"
      using that True assms gtid_set_ok_lookup(2) [OF assms(1)] uuid_String_inj [of sid "SID u"]
      by (auto simp: transactions_def server_ok_def)
    then show ?thesis using q(2,4) True by (auto simp: transactions_def m server_transactions_def)
  next
    case False
    then show ?thesis by (auto simp: transactions_def m server_transactions_def)
  qed
  ultimately show ?thesis by auto
qed

lemma fold_AddSet_ok:
  "gtid_set_ok s \<Longrightarrow> \<forall>u \<in> set us. server_ok u \<Longrightarrow>
     gtid_set_ok (fold AddSet us s) \<and> transactions (fold AddSet us s) = transactions s \<union> (\<Union>u \<in> set us. server_transactions u)"
proof (induction us arbitrary: s)
  case (Cons u us)
  then show ?case using AddSet_ok [of s u] Cons.IH [of "AddSet u s"] by auto
qed simp

text \<open>A visit of the whole map collects the transactions of the set.\<close>

lemma entries_servers:
  assumes "gtid_set_ok s" "set ks = fst ` set (Sets s)"
  defines "us \<equiv> map (\<lambda>k. the (map_of (Sets s) k)) ks"
  shows "\<forall>u \<in> set us. server_ok u" "(\<Union>u \<in> set us. server_transactions u) = transactions s"
proof -
  have ks: "set ks = dom (map_of (Sets s))" by (simp add: assms(2) dom_map_of_conv_image_fst)
  then have us: "u \<in> set us \<longleftrightarrow> (\<exists>k. map_of (Sets s) k = Some u)" for u
    unfolding us_def by (auto simp: image_iff dom_def)
  then show "\<forall>u \<in> set us. server_ok u" using gtid_set_ok_lookup(2) [OF assms(1)] by blast
  show "(\<Union>u \<in> set us. server_transactions u) = transactions s"
    using us gtid_set_ok_lookup(1) [OF assms(1)] by (auto simp: transactions_def server_transactions_def)
qed

lemma entries_in_ok:
  assumes "gtid_set_ok s" "\<And>ks. set (ord ks) = set ks"
  shows "\<forall>u \<in> set (entries_in ord s). server_ok u"
    "(\<Union>u \<in> set (entries_in ord s). server_transactions u) = transactions s"
  using entries_servers [OF assms(1), of "ord (map fst (Sets s))"] assms(2) by (simp_all add: entries_in_def)

section \<open>Inclusion, equality and copies\<close>

lemma MysqlGTIDSet_Contain_iff:
  assumes "gtid_set_ok s" "gtid_set_ok t"
  shows "MysqlGTIDSet_Contain s (MysqlSet t) \<longleftrightarrow> transactions t \<subseteq> transactions s"
proof -
  have c: "MysqlGTIDSet_Contain s (MysqlSet t) \<longleftrightarrow>
      (\<forall>k u. map_of (Sets t) k = Some u \<longrightarrow> (\<exists>p. map_of (Sets s) k = Some p \<and> UUIDSet_Contain p u))"
    using assms(2) by (force simp: MysqlGTIDSet_Contain_def list_all_iff gtid_set_ok_def map_of_eq_Some_iff split: option.split)
  have sub: "UUIDSet_Contain p u \<longleftrightarrow> SID p = SID u \<and> numbers (Intervals u) \<subseteq> numbers (Intervals p)"
    if "server_ok p" "server_ok u" for p u
    using that IntervalSlice_Contain_iff by (auto simp: UUIDSet_Contain_def server_ok_def)
  have ne: "numbers (Intervals u) \<noteq> {}" if "server_ok u" for u
    using that by (cases "Intervals u") (auto simp: server_ok_def points_def)
  show ?thesis
  proof
    assume "MysqlGTIDSet_Contain s (MysqlSet t)"
    then show "transactions t \<subseteq> transactions s"
      using c sub gtid_set_ok_lookup(2) [OF assms(1)] gtid_set_ok_lookup(2) [OF assms(2)]
      by (clarsimp simp: transactions_def) blast
  next
    assume le: "transactions t \<subseteq> transactions s"
    have "\<exists>p. map_of (Sets s) k = Some p \<and> UUIDSet_Contain p u" if u: "map_of (Sets t) k = Some u" for k u
    proof -
      have k: "k = uuid_String (SID u)" "server_ok u" using gtid_set_ok_lookup [OF assms(2) u] by auto
      have in_s: "\<exists>p. map_of (Sets s) k = Some p \<and> SID p = SID u \<and> n \<in> numbers (Intervals p)"
        if "n \<in> numbers (Intervals u)" for n
        using le u k that by (auto simp: transactions_def)
      then obtain p where p: "map_of (Sets s) k = Some p" "SID p = SID u" using ne [OF k(2)] by blast
      moreover have "numbers (Intervals u) \<subseteq> numbers (Intervals p)" using in_s p(1) by force
      ultimately have "map_of (Sets s) k = Some p" "SID p = SID u" "numbers (Intervals u) \<subseteq> numbers (Intervals p)" by auto
      then show ?thesis using sub gtid_set_ok_lookup(2) [OF assms(1)] k(2) by blast
    qed
    then show "MysqlGTIDSet_Contain s (MysqlSet t)" using c by blast
  qed
qed

lemma lookup_transactions:
  assumes "gtid_set_ok s" "gtid_set_ok t" "transactions s = transactions t" "map_of (Sets s) k = Some u"
  shows "map_of (Sets t) k = Some u"
proof -
  have u: "k = uuid_String (SID u)" "server_ok u" using gtid_set_ok_lookup [OF assms(1,4)] by auto
  have mem: "(SID u, n) \<in> transactions t \<longleftrightarrow> n \<in> numbers (Intervals u)" for n
    unfolding assms(3) [symmetric] using assms(4) u(1) by (auto simp: transactions_def)
  obtain i r where "Intervals u = i # r" "Start i < Stop i" using u(2) by (cases "Intervals u") (auto simp: server_ok_def)
  then have "Start i \<in> numbers (Intervals u)" by (simp add: points_def)
  then obtain p where p: "map_of (Sets t) k = Some p" "SID p = SID u" using mem u(1) by (auto simp: transactions_def)
  then have "numbers (Intervals p) = numbers (Intervals u)" using mem u(1) by (auto simp: transactions_def)
  then have "Intervals p = Intervals u"
    using normal_unique u(2) gtid_set_ok_lookup(2) [OF assms(2) p(1)] by (auto simp: server_ok_def)
  then show ?thesis using p by simp
qed

lemma MysqlGTIDSet_Equal_iff:
  assumes "gtid_set_ok s" "gtid_set_ok t"
  shows "MysqlGTIDSet_Equal s (MysqlSet t) \<longleftrightarrow> transactions s = transactions t"
proof -
  have len: "length (Sets x) = card (dom (map_of (Sets x)))" if "gtid_set_ok x" for x
    using that distinct_card [of "map fst (Sets x)"] by (simp add: gtid_set_ok_def dom_map_of_conv_image_fst)
  have same: "Intervals p = Intervals u \<longleftrightarrow> p = u" if "map_of (Sets s) k = Some p" "map_of (Sets t) k = Some u" for k p u
    using gtid_set_ok_lookup [OF assms(1) that(1)] gtid_set_ok_lookup [OF assms(2) that(2)] uuid_String_inj [of "SID p" "SID u"]
    by (auto simp: server_ok_def intro: UUIDSet.equality)
  have "MysqlGTIDSet_Equal s (MysqlSet t) \<longleftrightarrow>
      length (Sets t) = length (Sets s) \<and> (\<forall>k u. map_of (Sets t) k = Some u \<longrightarrow> (\<exists>p. map_of (Sets s) k = Some p \<and> Intervals p = Intervals u))"
    using assms(2) by (force simp: MysqlGTIDSet_Equal_def list_all_iff gtid_set_ok_def map_of_eq_Some_iff IntervalSlice_Equal_iff split: option.split)
  also have "\<dots> \<longleftrightarrow> length (Sets t) = length (Sets s) \<and> map_of (Sets t) \<subseteq>\<^sub>m map_of (Sets s)"
    using same by (force simp: map_le_def dom_def)
  also have "\<dots> \<longleftrightarrow> map_of (Sets t) = map_of (Sets s)"
  proof
    assume *: "length (Sets t) = length (Sets s) \<and> map_of (Sets t) \<subseteq>\<^sub>m map_of (Sets s)"
    then have "dom (map_of (Sets t)) = dom (map_of (Sets s))"
      using len [OF assms(1)] len [OF assms(2)] map_le_implies_dom_le card_subset_eq [OF finite_dom_map_of] by metis
    then show "map_of (Sets t) = map_of (Sets s)" using * by (metis map_le_antisym map_le_def)
  qed (use len [OF assms(1)] len [OF assms(2)] in simp)
  also have "\<dots> \<longleftrightarrow> transactions s = transactions t"
  proof
    assume "transactions s = transactions t"
    then show "map_of (Sets t) = map_of (Sets s)"
      using lookup_transactions [OF assms] lookup_transactions [OF assms(2,1)] by (intro ext) (metis option.exhaust)
  qed (simp add: transactions_def)
  finally show ?thesis .
qed

lemma UUIDSet_Clone_ok: "server_ok u \<Longrightarrow> UUIDSet_Clone u = u"
  by (simp add: UUIDSet_Clone_def server_ok_def Normalize_normal)

lemma MysqlGTIDSet_Clone_ok:
  assumes "gtid_set_ok s"
  shows "MysqlGTIDSet_Clone s = s"
proof -
  have "(\<lambda>(k, u). (k, UUIDSet_Clone u)) e = e" if e: "e \<in> set (Sets s)" for e
  proof -
    obtain k u where ku: "e = (k, u)" by fastforce
    then have "map_of (Sets s) k = Some u" using e assms by (simp add: gtid_set_ok_def)
    then show ?thesis using gtid_set_ok_lookup(2) [OF assms] UUIDSet_Clone_ok ku by simp
  qed
  then show ?thesis by (simp add: MysqlGTIDSet_Clone_def map_idI)
qed
section \<open>Parsing\<close>

lemma ParseInt_no_dash: "ParseInt s = Inr i \<Longrightarrow> CHR ''-'' \<notin> set s \<Longrightarrow> 0 \<le> i"
  by (auto simp: ParseInt_def Let_def rbind_eq_Inr dest!: ParseUint_nonneg split: list.splits if_splits)

lemma Split_no_sep: "w \<in> set (Split s sep) \<Longrightarrow> sep \<notin> set w"
proof (induction s arbitrary: w)
  case (Cons c s)
  have "hd (Split s sep) \<in> set (Split s sep)" by simp
  moreover have "set (tl (Split s sep)) \<subseteq> set (Split s sep)" by (simp add: list.set_sel(2) subsetI)
  ultimately show ?case using Cons by (auto split: if_splits)
qed simp

lemma wrap64_succ: "is_int64 n \<Longrightarrow> wrap64 (n + 1) = (if n = MaxInt64 then MinInt64 else n + 1)"
  by (auto simp: wrap64_def is_int64_def)

lemma parseInterval_ok: "parseInterval str = Inr i \<Longrightarrow> interval_ok i"
proof -
  assume p: "parseInterval str = Inr i"
  define ws where "ws = Split str (CHR ''-'')"
  have nn: "0 \<le> n \<and> is_int64 n" if "w \<in> set ws" "ParseInt w = Inr n" for w n
    using that Split_no_sep ParseInt_no_dash ParseInt_int64 unfolding ws_def by blast
  have "\<exists>a b. 0 \<le> a \<and> is_int64 a \<and> 0 \<le> b \<and> is_int64 b \<and> i = Interval a (wrap64 (b + 1))" "Start i < Stop i"
    using p nn [of "ws ! 0"] nn [of "ws ! 1"]
    by (auto simp: parseInterval_def Let_def rbind_eq_Inr ws_def [symmetric] split: if_splits)
  then show ?thesis by (auto simp: interval_ok_def wrap64_succ is_int64_def split: if_splits)
qed

lemma parse_intervals_ok:
  "parse_intervals ws = Inr ivs \<Longrightarrow> (\<forall>i \<in> set ivs. interval_ok i) \<and> length ivs = length ws"
  by (induction ws arbitrary: ivs) (auto simp: rbind_eq_Inr dest: parseInterval_ok)

lemma ParseUUIDSet_ok: "ParseUUIDSet str = Inr u \<Longrightarrow> server_ok u"
proof -
  assume p: "ParseUUIDSet str = Inr u"
  define ws where "ws = Split (TrimSpace str) (CHR '':'')"
  obtain ivs where ivs: "2 \<le> length ws" "uuid_FromString (hd ws) = Inr (SID u)" "parse_intervals (tl ws) = Inr ivs"
    "Intervals u = Normalize ivs"
    using p by (auto simp: ParseUUIDSet_def Let_def rbind_eq_Inr ws_def [symmetric] split: if_splits)
  moreover have "ivs \<noteq> []" using parse_intervals_ok [OF ivs(3)] ivs(1) by auto
  moreover have "length (SID u) = 16" using uuid_FromString_length ivs(2) by blast
  ultimately show ?thesis using parse_intervals_ok [OF ivs(3)] Normalize_ok [of ivs] by (simp add: server_ok_def)
qed

lemma parse_sets_fold:
  "parse_sets ws s = Inr t \<longleftrightarrow> (\<exists>us. map ParseUUIDSet ws = map Inr us \<and> t = fold AddSet us s)"
proof (induction ws arbitrary: s)
  case (Cons w ws)
  then show ?case by (cases "ParseUUIDSet w") (auto simp: Cons_eq_map_conv)
qed auto

lemma ParseMysqlGTIDSet_ok: "ParseMysqlGTIDSet str = Inr s \<Longrightarrow> gtid_set_ok s"
proof -
  assume p: "ParseMysqlGTIDSet str = Inr s"
  show ?thesis
  proof (cases "str = []")
    case False
    then obtain us where us: "map ParseUUIDSet (Split str (CHR '','')) = map Inr us" "s = fold AddSet us \<lparr>Sets = []\<rparr>"
      using p by (auto simp: ParseMysqlGTIDSet_def parse_sets_fold)
    have "server_ok u" if "u \<in> set us" for u
    proof -
      have "Inr u \<in> set (map ParseUUIDSet (Split str (CHR '','')))" unfolding us(1) using that by simp
      then show ?thesis using ParseUUIDSet_ok by (metis (mono_tags, lifting) in_set_conv_nth length_map nth_map)
    qed
    then show ?thesis using fold_AddSet_ok us(2) by simp
  qed (use p in \<open>auto simp: ParseMysqlGTIDSet_def\<close>)
qed

lemma MysqlGTIDSet_Update_ok:
  assumes "gtid_set_ok s" "\<And>ks. set (ord ks) = set ks" "ParseMysqlGTIDSet str = Inr g"
  obtains s' where "MysqlGTIDSet_Update ord str s = (Inr (), s')" "gtid_set_ok s'" "transactions s' = transactions s \<union> transactions g"
proof -
  have "gtid_set_ok g" using ParseMysqlGTIDSet_ok assms(3) by blast
  note e = entries_in_ok [OF this assms(2)]
  show ?thesis using that fold_AddSet_ok [OF assms(1) e(1)] e(2) assms(3) by (simp add: MysqlGTIDSet_Update_def)
qed

section \<open>Printing and parsing are inverse\<close>

lemma FormatInt_digits: "0 \<le> n \<Longrightarrow> c \<in> set (FormatInt n) \<Longrightarrow> is_digit c"
  using nat_str_digits by (simp add: FormatInt_def)

lemma digit_plain: "is_digit c \<Longrightarrow> printable c \<and> c \<noteq> CHR ''-'' \<and> c \<noteq> CHR '':'' \<and> c \<noteq> CHR '',''"
  by (auto simp: is_digit_def printable_def)

lemma interval_ok_ends:
  assumes "interval_ok i"
  shows "is_int64 (Start i)" "wrap64 (Start i + 1) = Start i + 1" "wrap64 (Stop i - 1) = Stop i - 1" "wrap64 (Stop i) = Stop i"
    "is_int64 (Stop i - 1)"
  using assms by (simp_all add: interval_ok_def is_int64_def)

lemma Interval_String_chars:
  assumes "interval_ok i" "c \<in> set (Interval_String i)"
  shows "printable c \<and> c \<noteq> CHR '':'' \<and> c \<noteq> CHR '',''"
proof -
  have "is_digit c \<or> c = CHR ''-''"
    using assms FormatInt_digits [of "Start i" c] FormatInt_digits [of "Stop i - 1" c]
    by (auto simp: Interval_String_def interval_ok_ends interval_ok_def split: if_splits)
  then show ?thesis using digit_plain by (auto simp: printable_def)
qed

lemma parseInterval_String: "interval_ok i \<Longrightarrow> parseInterval (Interval_String i) = Inr i"
proof -
  assume i: "interval_ok i"
  have s: "0 \<le> Start i" "0 \<le> Stop i - 1" "Start i < Stop i" using i by (simp_all add: interval_ok_def)
  then have d: "CHR ''-'' \<notin> set (FormatInt (Start i))" "CHR ''-'' \<notin> set (FormatInt (Stop i - 1))"
    using FormatInt_digits digit_plain by blast+
  show ?thesis
    using s by (auto simp: parseInterval_def Let_def Interval_String_def Split_plain [OF d(1)] Split_plain [OF d(2)]
        Split_append [OF d(1)] ParseInt_FormatInt interval_ok_ends [OF i] Interval.expand)
qed

lemma parse_intervals_String: "\<forall>i \<in> set ivs. interval_ok i \<Longrightarrow> parse_intervals (map Interval_String ivs) = Inr ivs"
  by (induction ivs) (simp_all add: parseInterval_String)

lemma Join_Cons: "Join (w # ws) [c] = w @ concat (map (\<lambda>v. [c] @ v) ws)"
  by (induction ws arbitrary: w) auto

lemma UUIDSet_String_Join: "UUIDSet_String u = Join (uuid_String (SID u) # map Interval_String (Intervals u)) '':''"
  by (simp only: Join_Cons UUIDSet_String_def UUIDSet_Bytes_def map_map comp_def)

lemma UUIDSet_String_chars:
  assumes "server_ok u" "c \<in> set (UUIDSet_String u)"
  shows "printable c \<and> c \<noteq> CHR '',''"
  using assms uuid_String_chars [of c "SID u"] Interval_String_chars [of _ c]
  by (auto simp: UUIDSet_String_def UUIDSet_Bytes_def server_ok_def printable_def)

lemma ParseUUIDSet_String:
  assumes "server_ok u"
  shows "ParseUUIDSet (UUIDSet_String u) = Inr u"
proof -
  have len: "length (SID u) = 16" and ivs: "\<forall>i \<in> set (Intervals u). interval_ok i" "Intervals u \<noteq> []" "normal (Intervals u)"
    using assms by (simp_all add: server_ok_def)
  have "UUIDSet_String u \<noteq> []"
    using length_uuid_String [OF len] by (auto simp: UUIDSet_String_def UUIDSet_Bytes_def)
  then have "TrimSpace (UUIDSet_String u) = UUIDSet_String u"
    using UUIDSet_String_chars [OF assms] by (intro TrimSpace_plain) simp_all
  moreover have "Split (UUIDSet_String u) (CHR '':'') = uuid_String (SID u) # map Interval_String (Intervals u)"
    unfolding UUIDSet_String_Join using uuid_String_chars Interval_String_chars ivs(1)
    by (intro Split_Join) (simp, fastforce)
  ultimately show ?thesis using ivs(2)
    by (simp add: ParseUUIDSet_def Let_def uuid_FromString_String len parse_intervals_String [OF ivs(1)] Normalize_normal [OF ivs(3)])
qed

lemma parse_sets_String:
  "\<forall>u \<in> set us. server_ok u \<Longrightarrow> parse_sets (map UUIDSet_String us) s = Inr (fold AddSet us s)"
  by (induction us arbitrary: s) (simp_all add: ParseUUIDSet_String)

lemma MysqlGTIDSet_String_parse:
  assumes "gtid_set_ok s"
  obtains t where "ParseMysqlGTIDSet (MysqlGTIDSet_String s) = Inr t" "gtid_set_ok t" "transactions t = transactions s"
proof -
  define us where "us = sort_key UUIDSet_String (map snd (Sets s))"
  have "map snd (Sets s) = map (\<lambda>k. the (map_of (Sets s) k)) (map fst (Sets s))"
    using assms by (auto simp: gtid_set_ok_def)
  then have us: "\<forall>u \<in> set us. server_ok u" "(\<Union>u \<in> set us. server_transactions u) = transactions s"
    using entries_servers [OF assms, of "map fst (Sets s)"] by (simp_all add: us_def)
  have "MysqlGTIDSet_String s = Join (map UUIDSet_String us) '',''"
  proof (cases "length (Sets s) = 1")
    case True
    then obtain e where "Sets s = [e]" by (auto simp: length_Suc_conv)
    then show ?thesis by (simp add: MysqlGTIDSet_String_def us_def)
  qed (simp add: MysqlGTIDSet_String_def us_def sort_map [symmetric] split_def comp_def)
  moreover have "parse_sets (Split (Join (map UUIDSet_String us) '','') (CHR '','')) \<lparr>Sets = []\<rparr> = Inr (fold AddSet us \<lparr>Sets = []\<rparr>)" if "us \<noteq> []"
    using that us(1) UUIDSet_String_chars parse_sets_String [OF us(1)] by (subst Split_Join) auto
  moreover have "Join (map UUIDSet_String us) '','' \<noteq> []" if "us \<noteq> []"
  proof -
    obtain u v where "us = u # v" using \<open>us \<noteq> []\<close> by (meson neq_Nil_conv)
    moreover have "UUIDSet_String u \<noteq> []" using length_uuid_String us(1) calculation
      by (auto simp: UUIDSet_String_def UUIDSet_Bytes_def server_ok_def)
    ultimately show ?thesis by (cases v) simp_all
  qed
  ultimately have "ParseMysqlGTIDSet (MysqlGTIDSet_String s) = Inr (fold AddSet us \<lparr>Sets = []\<rparr>)"
    by (cases "us = []") (simp_all add: ParseMysqlGTIDSet_def)
  then show ?thesis using that fold_AddSet_ok [of "\<lparr>Sets = []\<rparr>" us] us by simp
qed

section \<open>Encoding and decoding are inverse\<close>

lemma get_put_int64: "is_int64 n \<Longrightarrow> get_int64 (put_int64 n @ r) = n"
proof -
  assume n: "is_int64 n"
  have "nat (n mod 18446744073709551616) mod 256 ^ 8 = nat (n mod 18446744073709551616)"
    by (simp add: nat_mod_as_int mod_less)
  then have "get_int64 (put_int64 n @ r) = wrap64 (n mod 18446744073709551616)"
    by (simp add: get_int64_def put_int64_def le_nat_le_bytes)
  also have "\<dots> = n" using n by (simp add: wrap64_def is_int64_def mod_add_left_eq)
  finally show ?thesis .
qed

lemma length_put_int64 [simp]: "length (put_int64 n) = 8"
  by (simp add: put_int64_def)

abbreviation interval_bytes :: "Interval \<Rightarrow> bytes" where
  "interval_bytes i \<equiv> put_int64 (Start i) @ put_int64 (Stop i)"

lemma length_interval_bytes [simp]: "length (concat (map interval_bytes ivs)) = 16 * length ivs"
  by (induction ivs) simp_all

lemma decode_intervals_bytes:
  "\<forall>i \<in> set ivs. interval_ok i \<Longrightarrow> decode_intervals (length ivs) (concat (map interval_bytes ivs) @ r) = ivs"
proof (induction ivs)
  case (Cons i ivs)
  have "is_int64 (Start i)" "is_int64 (Stop i)" using Cons.prems by (simp_all add: interval_ok_def is_int64_def)
  then show ?case using Cons by (simp add: get_put_int64 Interval.expand)
qed simp

lemma length_UUIDSet_Encode: "length (SID u) = 16 \<Longrightarrow> length (UUIDSet_Encode u) = 24 + 16 * length (Intervals u)"
  by (simp add: UUIDSet_Encode_def)

lemma UUIDSet_decode_Encode:
  assumes "server_ok u" "length (UUIDSet_Encode u) \<le> 2 ^ 47"
  shows "UUIDSet_decode (UUIDSet_Encode u @ r) = Inr (u, int (length (UUIDSet_Encode u)))"
proof -
  have len: "length (SID u) = 16" and ivs: "\<forall>i \<in> set (Intervals u). interval_ok i" using assms(1) by (simp_all add: server_ok_def)
  have n: "24 + 16 * length (Intervals u) \<le> 140737488355328" using assms(2) length_UUIDSet_Encode [OF len] by simp
  then have i: "is_int64 (int (length (Intervals u)))" "is_int64 (16 * int (length (Intervals u)))" "is_int64 (16 * int (length (Intervals u)) + 24)"
    by (simp_all add: is_int64_def)
  have "get_int64 (drop 16 (UUIDSet_Encode u @ r)) = int (length (Intervals u))"
    by (simp add: UUIDSet_Encode_def len get_put_int64 i)
  moreover have "drop 24 (UUIDSet_Encode u @ r) = concat (map interval_bytes (Intervals u)) @ r"
    by (simp add: UUIDSet_Encode_def len)
  moreover have "take 16 (UUIDSet_Encode u @ r) = SID u" by (simp add: UUIDSet_Encode_def len)
  ultimately show ?thesis using n i
    by (simp add: UUIDSet_decode_def uuid_FromBytes_def len length_UUIDSet_Encode decode_intervals_bytes [OF ivs])
qed

lemma UUIDSet_Decode_Encode:
  "server_ok u \<Longrightarrow> length (UUIDSet_Encode u) \<le> 2 ^ 47 \<Longrightarrow> UUIDSet_Decode (UUIDSet_Encode u) = Inr u"
  using UUIDSet_decode_Encode [of u "[]"] by (simp add: UUIDSet_Decode_def)

lemma decode_sets_Encode:
  "\<forall>u \<in> set us. server_ok u \<and> length (UUIDSet_Encode u) \<le> 2 ^ 47 \<Longrightarrow>
     decode_sets (length us) (concat (map UUIDSet_Encode us)) s = Inr (fold AddSet us s)"
  by (induction us arbitrary: s) (simp_all add: UUIDSet_decode_Encode)

lemma DecodeMysqlGTIDSet_Encode:
  assumes "gtid_set_ok s" "\<And>ks. set (ord ks) = set ks \<and> length (ord ks) = length ks" "length (MysqlGTIDSet_Encode ord s) \<le> 2 ^ 47"
  obtains t where "DecodeMysqlGTIDSet (MysqlGTIDSet_Encode ord s) = Inr t" "gtid_set_ok t" "transactions t = transactions s"
proof -
  let ?us = "entries_in ord s"
  have us: "\<forall>u \<in> set ?us. server_ok u" "(\<Union>u \<in> set ?us. server_transactions u) = transactions s"
    using entries_in_ok [OF assms(1), of ord] assms(2) by simp_all
  have n: "length ?us = length (Sets s)" using assms(2) by (simp add: entries_in_def)
  have tot: "8 + length (concat (map UUIDSet_Encode ?us)) \<le> 2 ^ 47" using assms(3) by (simp add: MysqlGTIDSet_Encode_def)
  have small: "length (UUIDSet_Encode u) \<le> length (concat (map UUIDSet_Encode us))" if "u \<in> set us" for u us
    using that by (induction us) auto
  have count: "length us \<le> length (concat (map UUIDSet_Encode us))" if "\<forall>u \<in> set us. server_ok u" for us
    using that by (induction us) (auto simp: length_UUIDSet_Encode server_ok_def)
  have "length (Sets s) \<le> 2 ^ 47" using count [OF us(1)] tot n by linarith
  then have "is_int64 (int (length (Sets s)))" by (simp add: is_int64_def)
  then have "DecodeMysqlGTIDSet (MysqlGTIDSet_Encode ord s) = decode_sets (length ?us) (concat (map UUIDSet_Encode ?us)) \<lparr>Sets = []\<rparr>"
    by (simp add: DecodeMysqlGTIDSet_def MysqlGTIDSet_Encode_def get_put_int64 n)
  moreover have "length (UUIDSet_Encode u) \<le> 2 ^ 47" if "u \<in> set ?us" for u using small [OF that] tot by linarith
  ultimately have "DecodeMysqlGTIDSet (MysqlGTIDSet_Encode ord s) = Inr (fold AddSet ?us \<lparr>Sets = []\<rparr>)" using decode_sets_Encode [of ?us] us(1) by simp
  then show ?thesis using that fold_AddSet_ok [of "\<lparr>Sets = []\<rparr>" ?us] us by simp
qed

text \<open>
  C31. On well-formed sets, \<open>Contain\<close> decides inclusion and \<open>Equal\<close> equality of the transactions;
  \<open>Clone\<close> is the same set; adding a server's intervals and \<open>Update\<close> with a text form the union,
  in whatever order the entries of the parsed map are visited, and leave a well-formed set; a
  text that does not parse leaves the set alone, and what parses is well-formed.
\<close>

theorem gtid_set_algebra:
  assumes "gtid_set_ok s" "gtid_set_ok t" "server_ok u" "\<And>ks. set (ord ks) = set ks"
  shows "(MysqlGTIDSet_Contain s (MysqlSet t) \<longleftrightarrow> transactions t \<subseteq> transactions s) \<and>
    (MysqlGTIDSet_Equal s (MysqlSet t) \<longleftrightarrow> transactions s = transactions t) \<and>
    MysqlGTIDSet_Clone s = s \<and>
    gtid_set_ok (AddSet u s) \<and> transactions (AddSet u s) = transactions s \<union> server_transactions u \<and>
    (case ParseMysqlGTIDSet str of
       Inl e \<Rightarrow> MysqlGTIDSet_Update ord str s = (Inl e, s)
     | Inr g \<Rightarrow> gtid_set_ok g \<and> (\<exists>s'. MysqlGTIDSet_Update ord str s = (Inr (), s') \<and> gtid_set_ok s' \<and>
         transactions s' = transactions s \<union> transactions g))"
proof -
  have "case ParseMysqlGTIDSet str of
      Inl e \<Rightarrow> MysqlGTIDSet_Update ord str s = (Inl e, s)
    | Inr g \<Rightarrow> gtid_set_ok g \<and> (\<exists>s'. MysqlGTIDSet_Update ord str s = (Inr (), s') \<and> gtid_set_ok s' \<and>
        transactions s' = transactions s \<union> transactions g)"
  proof (cases "ParseMysqlGTIDSet str")
    case (Inr g)
    then show ?thesis using ParseMysqlGTIDSet_ok [OF Inr] MysqlGTIDSet_Update_ok [OF assms(1,4) Inr] by fastforce
  qed (simp add: MysqlGTIDSet_Update_def)
  then show ?thesis
    using MysqlGTIDSet_Contain_iff [OF assms(1,2)] MysqlGTIDSet_Equal_iff [OF assms(1,2)] MysqlGTIDSet_Clone_ok [OF assms(1)]
      AddSet_ok [OF assms(1,3)] by blast
qed

text \<open>
  C33. The binary form of a well-formed set, of at most \<open>2\<^sup>4\<^sup>7\<close> bytes (the address space of a
  process), decodes to a well-formed set of the same transactions, in whatever order the
  entries were written; so does the form of one server.
\<close>

theorem gtid_binary_roundtrip:
  assumes "gtid_set_ok s" "\<And>ks. mset (ord ks) = mset ks" "length (MysqlGTIDSet_Encode ord s) \<le> 2 ^ 47"
    "server_ok u" "length (UUIDSet_Encode u) \<le> 2 ^ 47"
  shows "(\<exists>t. DecodeMysqlGTIDSet (MysqlGTIDSet_Encode ord s) = Inr t \<and> gtid_set_ok t \<and> transactions t = transactions s \<and>
      MysqlGTIDSet_Equal s (MysqlSet t)) \<and>
    UUIDSet_Decode (UUIDSet_Encode u) = Inr u"
proof -
  have ord: "set (ord ks) = set ks \<and> length (ord ks) = length ks" for ks
    using assms(2) mset_eq_setD mset_eq_length by blast
  have "\<exists>t. DecodeMysqlGTIDSet (MysqlGTIDSet_Encode ord s) = Inr t \<and> gtid_set_ok t \<and> transactions t = transactions s \<and>
      MysqlGTIDSet_Equal s (MysqlSet t)"
    using DecodeMysqlGTIDSet_Encode [OF assms(1) ord assms(3)] MysqlGTIDSet_Equal_iff [OF assms(1)] by metis
  then show ?thesis using UUIDSet_Decode_Encode [OF assms(4,5)] by blast
qed

section \<open>Examples\<close>

abbreviation server_a :: UUIDSet where
  "server_a \<equiv> \<lparr>SID = replicate 16 (CHR ''a''), Intervals = [Interval 1 4, Interval 6 7]\<rparr>"

abbreviation set_a :: MysqlGTIDSet where
  "set_a \<equiv> \<lparr>Sets = [(uuid_String (replicate 16 (CHR ''a'')), server_a)]\<rparr>"

lemma server_a_ok: "server_ok server_a"
  by (simp add: server_ok_def interval_ok_def)

lemma set_a_ok: "gtid_set_ok set_a"
  using server_a_ok by (simp add: gtid_set_ok_def)

text \<open>Part of the transactions of the same server.\<close>

abbreviation server_b :: UUIDSet where
  "server_b \<equiv> \<lparr>SID = replicate 16 (CHR ''a''), Intervals = [Interval 2 4]\<rparr>"

abbreviation set_b :: MysqlGTIDSet where
  "set_b \<equiv> \<lparr>Sets = [(uuid_String (replicate 16 (CHR ''a'')), server_b)]\<rparr>"

lemma set_b_ok: "server_ok server_b" "gtid_set_ok set_b"
  by (simp_all add: server_ok_def interval_ok_def gtid_set_ok_def)

lemma set_b_part: "transactions set_b \<subseteq> transactions set_a" "transactions set_b \<noteq> transactions set_a"
proof -
  let ?a = "replicate 16 (CHR ''a'')"
  show "transactions set_b \<subseteq> transactions set_a" by (auto simp: transactions_def numbers_def points_def split: if_splits)
  have "(?a, 6) \<in> transactions set_a" "(?a, 6) \<notin> transactions set_b" by (simp_all add: transactions_def numbers_def points_def)
  then show "transactions set_b \<noteq> transactions set_a" by blast
qed

theorem gtid_set_algebra_witness:
  "MysqlGTIDSet_Contain set_a (MysqlSet set_b) \<and> \<not> MysqlGTIDSet_Equal set_a (MysqlSet set_b) \<and>
     transactions (AddSet server_b set_a) = transactions set_a \<union> server_transactions server_b"
  using gtid_set_algebra [OF set_a_ok set_b_ok(2,1), of "\<lambda>ks. ks"] set_b_part by blast

theorem gtid_binary_roundtrip_witness: "UUIDSet_Decode (UUIDSet_Encode server_a) = Inr server_a"
  using gtid_binary_roundtrip [OF set_a_ok, of "\<lambda>ks. ks" server_a] server_a_ok
  by (simp add: MysqlGTIDSet_Encode_def entries_in_def length_UUIDSet_Encode)

end
