(* ===== verification/MariadbGtid.thy ===== *)
theory MariadbGtid
  imports GtidTypes
begin

text \<open>
  MariaDB GTIDs and sets of them (\<open>mysql/mariadb_gtid.go\<close>): one GTID for each replication domain.
  \<open>ord\<close> is the order in which a run visits the domains of a map. The warning that \<open>forward\<close> logs,
  and the text of the conversion error that \<open>ParseMariadbGTID\<close> appends to its own, are left out.
\<close>

section \<open>One GTID\<close>

definition ParseMariadbGTID :: "string \<Rightarrow> MariadbGTID result" where
  "ParseMariadbGTID str =
     (if length str = 0 then Inr \<lparr>DomainID = 0, ServerID = 0, SequenceNumber = 0\<rparr>
      else let seps = Split str (CHR ''-'')
        in if length seps \<noteq> 3 then Inl (ErrText (''invalid Mariadb GTID '' @ str @ '', must domain-server-sequence''))
           else case ParseUintBits 32 (seps ! 0) of
             Inl _ \<Rightarrow> Inl (ErrText (''invalid MariaDB GTID Domain ID ('' @ seps ! 0 @ '')''))
           | Inr domainID \<Rightarrow>
               case ParseUintBits 32 (seps ! 1) of
                 Inl _ \<Rightarrow> Inl (ErrText (''invalid MariaDB GTID Server ID ('' @ seps ! 1 @ '')''))
               | Inr serverID \<Rightarrow>
                   case ParseUintBits 64 (seps ! 2) of
                     Inl _ \<Rightarrow> Inl (ErrText (''invalid MariaDB GTID Sequence number ('' @ seps ! 2 @ '')''))
                   | Inr sequenceID \<Rightarrow> Inr \<lparr>DomainID = domainID, ServerID = serverID, SequenceNumber = sequenceID\<rparr>)"

definition MariadbGTID_String :: "MariadbGTID \<Rightarrow> string" where
  "MariadbGTID_String gtid =
     (if DomainID gtid = 0 \<and> ServerID gtid = 0 \<and> SequenceNumber gtid = 0 then []
      else FormatInt (DomainID gtid) @ ''-'' @ FormatInt (ServerID gtid) @ ''-'' @ FormatInt (SequenceNumber gtid))"

definition MariadbGTID_Contain :: "MariadbGTID \<Rightarrow> MariadbGTID \<Rightarrow> bool" where
  "MariadbGTID_Contain gtid other \<longleftrightarrow> DomainID gtid = DomainID other \<and> SequenceNumber gtid \<ge> SequenceNumber other"

definition MariadbGTID_Clone :: "MariadbGTID \<Rightarrow> MariadbGTID" where
  "MariadbGTID_Clone gtid = gtid"

definition forward :: "MariadbGTID \<Rightarrow> MariadbGTID \<Rightarrow> unit result \<times> MariadbGTID" where
  "forward newer gtid =
     (if DomainID newer \<noteq> DomainID gtid
      then (Inl (ErrText (MariadbGTID_String newer @ '' is not same with domain of '' @ MariadbGTID_String gtid)), gtid)
      else (Inr (), gtid\<lparr>ServerID := ServerID newer, SequenceNumber := SequenceNumber newer\<rparr>))"

section \<open>Sets\<close>

definition MariadbGTIDSet_AddSet :: "MariadbGTID \<Rightarrow> MariadbGTIDSet \<Rightarrow> unit result \<times> MariadbGTIDSet" where
  "MariadbGTIDSet_AddSet gtid s =
     (case map_of (mSets s) (DomainID gtid) of
        Some p \<Rightarrow> (let (r, q) = forward gtid p in (r, s\<lparr>mSets := AList.update (DomainID gtid) q (mSets s)\<rparr>))
      | None \<Rightarrow> (Inr (), s\<lparr>mSets := AList.update (DomainID gtid) gtid (mSets s)\<rparr>))"

fun update_words :: "string list \<Rightarrow> MariadbGTIDSet \<Rightarrow> unit result \<times> MariadbGTIDSet" where
  "update_words [] s = (Inr (), s)"
| "update_words (w # ws) s =
     (case ParseMariadbGTID w of
        Inl e \<Rightarrow> (Inl e, s)
      | Inr gtid \<Rightarrow>
          (case MariadbGTIDSet_AddSet gtid s of (Inl e, s') \<Rightarrow> (Inl e, s') | (Inr _, s') \<Rightarrow> update_words ws s'))"

definition MariadbGTIDSet_Update :: "string \<Rightarrow> MariadbGTIDSet \<Rightarrow> unit result \<times> MariadbGTIDSet" where
  "MariadbGTIDSet_Update GTIDStr s = update_words (Split GTIDStr (CHR '','')) s"

definition ParseMariadbGTIDSet :: "string \<Rightarrow> MariadbGTIDSet result" where
  "ParseMariadbGTIDSet str =
     (if str = [] then Inr \<lparr>mSets = []\<rparr>
      else case MariadbGTIDSet_Update str \<lparr>mSets = []\<rparr> of (Inl e, s) \<Rightarrow> Inl e | (Inr _, s) \<Rightarrow> Inr s)"

definition MariadbGTIDSet_String :: "MariadbGTIDSet \<Rightarrow> string" where
  "MariadbGTIDSet_String s = Join (sort (map (\<lambda>(d, set). MariadbGTID_String set) (mSets s))) '',''"

definition MariadbGTIDSet_Encode :: "(int list \<Rightarrow> int list) \<Rightarrow> MariadbGTIDSet \<Rightarrow> bytes" where
  "MariadbGTIDSet_Encode ord s =
     Join (map (\<lambda>d. MariadbGTID_String (the (map_of (mSets s) d))) (ord (map fst (mSets s)))) '',''"

definition MariadbGTIDSet_Clone :: "MariadbGTIDSet \<Rightarrow> MariadbGTIDSet" where
  "MariadbGTIDSet_Clone s = \<lparr>mSets = map (\<lambda>(domainID, gtid). (domainID, MariadbGTID_Clone gtid)) (mSets s)\<rparr>"

definition MariadbGTIDSet_Equal :: "MariadbGTIDSet \<Rightarrow> GTIDSet \<Rightarrow> bool" where
  "MariadbGTIDSet_Equal s g =
     (case g of
        MysqlSet _ \<Rightarrow> False
      | MariadbSet other \<Rightarrow>
          if length (mSets other) \<noteq> length (mSets s) then False
          else list_all (\<lambda>(domainID, gtid). case map_of (mSets s) domainID of None \<Rightarrow> False | Some p \<Rightarrow> gtid = p) (mSets other))"

definition MariadbGTIDSet_Contain :: "MariadbGTIDSet \<Rightarrow> GTIDSet \<Rightarrow> bool" where
  "MariadbGTIDSet_Contain s g =
     (case g of
        MysqlSet _ \<Rightarrow> False
      | MariadbSet other \<Rightarrow>
          list_all (\<lambda>(domainID, gtid). case map_of (mSets s) domainID of None \<Rightarrow> False | Some p \<Rightarrow> MariadbGTID_Contain p gtid) (mSets other))"

section \<open>Printing and parsing one GTID\<close>

definition gtid_ok :: "MariadbGTID \<Rightarrow> bool" where
  "gtid_ok g \<longleftrightarrow> DomainID g \<in> {0 ..< 2 ^ 32} \<and> ServerID g \<in> {0 ..< 2 ^ 32} \<and> SequenceNumber g \<in> {0 ..< 2 ^ 64}"

text \<open>The GTID 0-0-0 prints as nothing, and a set that holds it does not read back.\<close>

definition gtid_zero :: "MariadbGTID \<Rightarrow> bool" where
  "gtid_zero g \<longleftrightarrow> DomainID g = 0 \<and> ServerID g = 0 \<and> SequenceNumber g = 0"

lemma ParseUintBits_FormatInt:
  assumes "0 \<le> n" "n < 2 ^ bits" "bits \<le> 64"
  shows "ParseUintBits bits (FormatInt n) = Inr n"
proof -
  have "(2 :: int) ^ bits \<le> 2 ^ 64" using assms(3) by (intro power_increasing) simp_all
  then have "n \<le> maxUint64" using assms(2) by simp
  then have "parse_digits 0 (nat_str (nat n)) = Inr n" using parse_digits_nat_str [of "nat n"] assms(1) by simp
  then show ?thesis using assms by (simp add: ParseUintBits_def ParseUint_def FormatInt_def)
qed

lemma FormatInt_plain: "0 \<le> n \<Longrightarrow> c \<in> set (FormatInt n) \<Longrightarrow> c \<noteq> CHR ''-'' \<and> c \<noteq> CHR '',''"
  using nat_str_digits [of "nat n"] by (auto simp: FormatInt_def is_digit_def)

lemma MariadbGTID_parse_String:
  assumes "gtid_ok g"
  shows "ParseMariadbGTID (MariadbGTID_String g) = Inr g"
proof (cases "gtid_zero g")
  case True
  then show ?thesis by (simp add: ParseMariadbGTID_def MariadbGTID_String_def gtid_zero_def)
next
  case False
  have r: "0 \<le> DomainID g" "0 \<le> ServerID g" "0 \<le> SequenceNumber g"
    "DomainID g < 2 ^ 32" "ServerID g < 2 ^ 32" "SequenceNumber g < 2 ^ 64" using assms by (auto simp: gtid_ok_def)
  have d: "CHR ''-'' \<notin> set (FormatInt (DomainID g))" "CHR ''-'' \<notin> set (FormatInt (ServerID g))"
    "CHR ''-'' \<notin> set (FormatInt (SequenceNumber g))" using FormatInt_plain r by blast+
  then have "Split (MariadbGTID_String g) (CHR ''-'') = [FormatInt (DomainID g), FormatInt (ServerID g), FormatInt (SequenceNumber g)]"
    using False by (simp add: MariadbGTID_String_def gtid_zero_def Split_append Split_plain)
  moreover have "length (MariadbGTID_String g) \<noteq> 0" using False by (simp add: MariadbGTID_String_def gtid_zero_def)
  ultimately show ?thesis
    using ParseUintBits_FormatInt [OF r(1,4)] ParseUintBits_FormatInt [OF r(2,5)] ParseUintBits_FormatInt [OF r(3,6)]
    unfolding ParseMariadbGTID_def Let_def by simp
qed

lemma MariadbGTID_String_chars: "gtid_ok g \<Longrightarrow> CHR '','' \<notin> set (MariadbGTID_String g)"
  using FormatInt_plain by (auto simp: MariadbGTID_String_def gtid_ok_def)

section \<open>Printing and parsing a set\<close>

definition mariadb_set_ok :: "MariadbGTIDSet \<Rightarrow> bool" where
  "mariadb_set_ok s \<longleftrightarrow>
     distinct (map fst (mSets s)) \<and> (\<forall>d g. map_of (mSets s) d = Some g \<longrightarrow> DomainID g = d \<and> gtid_ok g \<and> \<not> gtid_zero g)"

lemma update_words_String:
  "\<forall>g \<in> set gs. gtid_ok g \<Longrightarrow> distinct (map DomainID gs) \<Longrightarrow> DomainID ` set gs \<inter> fst ` set xs = {} \<Longrightarrow>
     update_words (map MariadbGTID_String gs) \<lparr>mSets = xs\<rparr> = (Inr (), \<lparr>mSets = xs @ map (\<lambda>g. (DomainID g, g)) gs\<rparr>)"
proof (induction gs arbitrary: xs)
  case (Cons g gs)
  then have new: "DomainID g \<notin> fst ` set xs" by auto
  then have "AList.update (DomainID g) g xs = xs @ [(DomainID g, g)]" by (induction xs) auto
  then have "MariadbGTIDSet_AddSet g \<lparr>mSets = xs\<rparr> = (Inr (), \<lparr>mSets = xs @ [(DomainID g, g)]\<rparr>)"
    using new by (simp add: MariadbGTIDSet_AddSet_def map_of_eq_None_iff [THEN iffD2])
  then show ?case using Cons MariadbGTID_parse_String [of g] by auto
qed simp

text \<open>Any list of the entries is read back as a set equal to the original.\<close>

lemma mariadb_entries:
  assumes "mariadb_set_ok s"
  shows "mSets s = map (\<lambda>g. (DomainID g, g)) (map snd (mSets s))" "distinct (map DomainID (map snd (mSets s)))"
    "\<forall>g \<in> set (map snd (mSets s)). gtid_ok g \<and> \<not> gtid_zero g"
proof -
  have e: "DomainID g = d \<and> gtid_ok g \<and> \<not> gtid_zero g" if "(d, g) \<in> set (mSets s)" for d g
    using that assms by (auto simp: mariadb_set_ok_def)
  then show 1: "mSets s = map (\<lambda>g. (DomainID g, g)) (map snd (mSets s))" by (force intro!: map_idI [symmetric])
  have "map DomainID (map snd (mSets s)) = map fst (mSets s)" using e by auto
  then show "distinct (map DomainID (map snd (mSets s)))" using assms by (simp only: mariadb_set_ok_def)
  show "\<forall>g \<in> set (map snd (mSets s)). gtid_ok g \<and> \<not> gtid_zero g" using e by force
qed

lemma MariadbGTIDSet_Equal_perm:
  assumes "mariadb_set_ok s" "mset (mSets t) = mset (mSets s)"
  shows "MariadbGTIDSet_Equal s (MariadbSet t)"
proof -
  have "set (mSets t) = set (mSets s)" "length (mSets t) = length (mSets s)" using assms(2) mset_eq_setD mset_eq_length by blast+
  then show ?thesis using assms(1) by (auto simp: MariadbGTIDSet_Equal_def list_all_iff mariadb_set_ok_def)
qed

lemma mariadb_parse_perm:
  assumes "mariadb_set_ok s" "mset gs = mset (map snd (mSets s))"
  obtains t where "ParseMariadbGTIDSet (Join (map MariadbGTID_String gs) '','') = Inr t" "mariadb_set_ok t"
    "MariadbGTIDSet_Equal s (MariadbSet t)"
proof -
  let ?t = "\<lparr>mSets = map (\<lambda>g. (DomainID g, g)) gs\<rparr>"
  note e = mariadb_entries [OF assms(1)]
  have set_gs: "set gs = set (map snd (mSets s))" using assms(2) mset_eq_setD by blast
  then have gs: "\<forall>g \<in> set gs. gtid_ok g \<and> \<not> gtid_zero g" using e(3) by simp
  have d: "distinct (map DomainID gs)" using e(2) assms(2) by (metis mset_eq_imp_distinct_iff mset_map)
  have ok: "mariadb_set_ok ?t" using gs d by (auto simp: mariadb_set_ok_def comp_def dest!: map_of_SomeD)
  have "mset (mSets ?t) = mset (mSets s)" by (subst e(1)) (simp only: mset_map assms(2) MariadbGTIDSet.simps)
  then have eq: "MariadbGTIDSet_Equal s (MariadbSet ?t)" using MariadbGTIDSet_Equal_perm assms(1) by blast
  have "ParseMariadbGTIDSet (Join (map MariadbGTID_String gs) '','') = Inr ?t"
  proof (cases gs)
    case (Cons g gs')
    have "MariadbGTID_String g \<noteq> []" using gs Cons by (simp add: MariadbGTID_String_def gtid_zero_def)
    then have "Join (map MariadbGTID_String gs) '','' \<noteq> []" using Cons by (cases gs') simp_all
    moreover have "Split (Join (map MariadbGTID_String gs) '','') (CHR '','') = map MariadbGTID_String gs"
      using gs MariadbGTID_String_chars Cons by (intro Split_Join) auto
    ultimately show ?thesis using update_words_String [of gs "[]"] gs d
      by (simp add: ParseMariadbGTIDSet_def MariadbGTIDSet_Update_def)
  qed (simp add: ParseMariadbGTIDSet_def)
  then show ?thesis using that ok eq by blast
qed

lemma mariadb_parse_String:
  assumes "mariadb_set_ok s"
  obtains t where "ParseMariadbGTIDSet (MariadbGTIDSet_String s) = Inr t" "mariadb_set_ok t" "MariadbGTIDSet_Equal s (MariadbSet t)"
proof -
  let ?gs = "sort_key MariadbGTID_String (map snd (mSets s))"
  have "MariadbGTIDSet_String s = Join (map MariadbGTID_String ?gs) '',''"
    unfolding sort_map [symmetric] by (simp only: MariadbGTIDSet_String_def map_map comp_def split_def)
  then show ?thesis using mariadb_parse_perm [OF assms, of ?gs] that by auto
qed

lemma mariadb_parse_Encode:
  assumes "mariadb_set_ok s" "\<And>ds. mset (ord ds) = mset ds"
  obtains t where "ParseMariadbGTIDSet (MariadbGTIDSet_Encode ord s) = Inr t" "mariadb_set_ok t" "MariadbGTIDSet_Equal s (MariadbSet t)"
proof -
  let ?gs = "map (\<lambda>d. the (map_of (mSets s) d)) (ord (map fst (mSets s)))"
  have "map snd (mSets s) = map (\<lambda>d. the (map_of (mSets s) d)) (map fst (mSets s))"
    using assms(1) by (auto simp: mariadb_set_ok_def)
  then have "mset ?gs = mset (map snd (mSets s))" using assms(2) by (metis mset_map)
  moreover have "MariadbGTIDSet_Encode ord s = Join (map MariadbGTID_String ?gs) '',''"
    by (simp add: MariadbGTIDSet_Encode_def comp_def)
  ultimately show ?thesis using mariadb_parse_perm [OF assms(1), of ?gs] that by metis
qed

section \<open>The order on sets\<close>

lemma MariadbGTIDSet_Contain_iff:
  assumes "mariadb_set_ok t"
  shows "MariadbGTIDSet_Contain s (MariadbSet t) \<longleftrightarrow>
    (\<forall>d g. map_of (mSets t) d = Some g \<longrightarrow> (\<exists>p. map_of (mSets s) d = Some p \<and> DomainID p = DomainID g \<and> SequenceNumber g \<le> SequenceNumber p))"
proof -
  have "distinct (map fst (mSets t))" using assms by (simp add: mariadb_set_ok_def)
  note entries = list_all_entries [OF this]
  show ?thesis by (simp add: MariadbGTIDSet_Contain_def MariadbGTID_Contain_def entries found_iff)
qed

lemma MariadbGTIDSet_Equal_iff:
  assumes "mariadb_set_ok s" "mariadb_set_ok t"
  shows "MariadbGTIDSet_Equal s (MariadbSet t) \<longleftrightarrow> map_of (mSets s) = map_of (mSets t)"
proof -
  have len: "length (mSets x) = card (dom (map_of (mSets x)))" if "mariadb_set_ok x" for x
    using that distinct_card [of "map fst (mSets x)"] by (simp add: mariadb_set_ok_def dom_map_of_conv_image_fst)
  have "distinct (map fst (mSets t))" using assms(2) by (simp add: mariadb_set_ok_def)
  note entries = list_all_entries [OF this]
  have "MariadbGTIDSet_Equal s (MariadbSet t) \<longleftrightarrow> length (mSets t) = length (mSets s) \<and> map_of (mSets t) \<subseteq>\<^sub>m map_of (mSets s)"
    by (auto simp: MariadbGTIDSet_Equal_def map_le_def dom_def entries found_iff)
  also have "\<dots> \<longleftrightarrow> map_of (mSets s) = map_of (mSets t)"
  proof
    assume *: "length (mSets t) = length (mSets s) \<and> map_of (mSets t) \<subseteq>\<^sub>m map_of (mSets s)"
    then have "dom (map_of (mSets t)) = dom (map_of (mSets s))"
      using len [OF assms(1)] len [OF assms(2)] map_le_implies_dom_le card_subset_eq [OF finite_dom_map_of] by metis
    then show "map_of (mSets s) = map_of (mSets t)" using * by (metis map_le_antisym map_le_def)
  qed (use len [OF assms(1)] len [OF assms(2)] in simp)
  finally show ?thesis .
qed

end
