(* ===== verification/GtidFlavor.thy ===== *)
theory GtidFlavor
  imports GtidSets MariadbGtid
begin

text \<open>
  The interface \<open>GTIDSet\<close> (\<open>mysql/gtid.go\<close>) with the two flavors that implement it, and positions
  in the binary log (\<open>mysql/position.go\<close>). The locale states what a client of the interface relies
  on: inclusion is a preorder, equal sets include each other, and a set can be stored as text
  and read back.
\<close>

section \<open>The interface\<close>

abbreviation MySQLFlavor :: string where "MySQLFlavor \<equiv> ''mysql''"
abbreviation MariaDBFlavor :: string where "MariaDBFlavor \<equiv> ''mariadb''"

definition ParseGTIDSet :: "string \<Rightarrow> string \<Rightarrow> GTIDSet result" where
  "ParseGTIDSet flavor s =
     (if flavor = MySQLFlavor then rbind (ParseMysqlGTIDSet s) (\<lambda>g. Inr (MysqlSet g))
      else if flavor = MariaDBFlavor then rbind (ParseMariadbGTIDSet s) (\<lambda>g. Inr (MariadbSet g))
      else Inl (ErrText (''invalid flavor '' @ flavor)))"

fun GTIDSet_String :: "GTIDSet \<Rightarrow> string" where
  "GTIDSet_String (MysqlSet s) = MysqlGTIDSet_String s"
| "GTIDSet_String (MariadbSet s) = MariadbGTIDSet_String s"

fun GTIDSet_Equal :: "GTIDSet \<Rightarrow> GTIDSet \<Rightarrow> bool" where
  "GTIDSet_Equal (MysqlSet s) g = MysqlGTIDSet_Equal s g"
| "GTIDSet_Equal (MariadbSet s) g = MariadbGTIDSet_Equal s g"

fun GTIDSet_Contain :: "GTIDSet \<Rightarrow> GTIDSet \<Rightarrow> bool" where
  "GTIDSet_Contain (MysqlSet s) g = MysqlGTIDSet_Contain s g"
| "GTIDSet_Contain (MariadbSet s) g = MariadbGTIDSet_Contain s g"

fun GTIDSet_Clone :: "GTIDSet \<Rightarrow> GTIDSet" where
  "GTIDSet_Clone (MysqlSet s) = MysqlSet (MysqlGTIDSet_Clone s)"
| "GTIDSet_Clone (MariadbSet s) = MariadbSet (MariadbGTIDSet_Clone s)"

fun GTIDSet_Update :: "(string list \<Rightarrow> string list) \<Rightarrow> string \<Rightarrow> GTIDSet \<Rightarrow> unit result \<times> GTIDSet" where
  "GTIDSet_Update ord str (MysqlSet s) = (let (r, s') = MysqlGTIDSet_Update ord str s in (r, MysqlSet s'))"
| "GTIDSet_Update ord str (MariadbSet s) = (let (r, s') = MariadbGTIDSet_Update str s in (r, MariadbSet s'))"

section \<open>What clients rely on\<close>

locale gtid_interface =
  fixes ok :: "'s \<Rightarrow> bool"
    and contain equal :: "'s \<Rightarrow> 's \<Rightarrow> bool"
    and clone :: "'s \<Rightarrow> 's"
    and str :: "'s \<Rightarrow> string"
    and parse :: "string \<Rightarrow> 's result"
  assumes contain_trans: "ok r \<Longrightarrow> ok s \<Longrightarrow> ok t \<Longrightarrow> contain r s \<Longrightarrow> contain s t \<Longrightarrow> contain r t"
    and equal_contain: "ok s \<Longrightarrow> ok t \<Longrightarrow> equal s t \<Longrightarrow> contain s t"
    and equal_refl: "ok s \<Longrightarrow> equal s s"
    and equal_sym: "ok s \<Longrightarrow> ok t \<Longrightarrow> equal s t \<Longrightarrow> equal t s"
    and clone_same: "ok s \<Longrightarrow> clone s = s"
    and parse_str: "ok s \<Longrightarrow> \<exists>t. parse (str s) = Inr t \<and> ok t \<and> equal s t"
begin

text \<open>A stored set stands in for the original in every inclusion.\<close>

lemma stored_set:
  assumes "ok s"
  shows "\<exists>s'. parse (str (clone s)) = Inr s' \<and> ok s' \<and> equal s s' \<and>
    (\<forall>t. ok t \<longrightarrow> (contain s' t \<longleftrightarrow> contain s t) \<and> (contain t s' \<longleftrightarrow> contain t s))"
proof -
  obtain s' where s': "parse (str s) = Inr s'" "ok s'" "equal s s'" using parse_str [OF assms] by blast
  then have "contain s s'" "contain s' s" using equal_contain equal_sym assms by blast+
  then have "(contain s' t \<longleftrightarrow> contain s t) \<and> (contain t s' \<longleftrightarrow> contain t s)" if "ok t" for t
    using contain_trans assms s'(2) that by blast
  then show ?thesis using s' clone_same [OF assms] by auto
qed

end

interpretation mysql: gtid_interface gtid_set_ok "\<lambda>s t. MysqlGTIDSet_Contain s (MysqlSet t)"
  "\<lambda>s t. MysqlGTIDSet_Equal s (MysqlSet t)" MysqlGTIDSet_Clone MysqlGTIDSet_String ParseMysqlGTIDSet
proof
  fix s assume s: "gtid_set_ok s"
  show "\<exists>t. ParseMysqlGTIDSet (MysqlGTIDSet_String s) = Inr t \<and> gtid_set_ok t \<and> MysqlGTIDSet_Equal s (MysqlSet t)"
  proof (rule MysqlGTIDSet_String_parse [OF s])
    fix t assume "ParseMysqlGTIDSet (MysqlGTIDSet_String s) = Inr t" "gtid_set_ok t" "transactions t = transactions s"
    then show ?thesis using MysqlGTIDSet_Equal_iff [OF s] by simp
  qed
qed (simp_all add: MysqlGTIDSet_Contain_iff MysqlGTIDSet_Equal_iff MysqlGTIDSet_Clone_ok)

lemma MariadbGTIDSet_Clone_id: "MariadbGTIDSet_Clone s = s"
  by (simp add: MariadbGTIDSet_Clone_def MariadbGTID_Clone_def)

interpretation mariadb: gtid_interface mariadb_set_ok "\<lambda>s t. MariadbGTIDSet_Contain s (MariadbSet t)"
  "\<lambda>s t. MariadbGTIDSet_Equal s (MariadbSet t)" MariadbGTIDSet_Clone MariadbGTIDSet_String ParseMariadbGTIDSet
proof
  fix r s t assume ok: "mariadb_set_ok r" "mariadb_set_ok s" "mariadb_set_ok t"
  assume rs: "MariadbGTIDSet_Contain r (MariadbSet s)" and st: "MariadbGTIDSet_Contain s (MariadbSet t)"
  have "\<exists>p. map_of (mSets r) d = Some p \<and> DomainID p = DomainID g \<and> SequenceNumber g \<le> SequenceNumber p"
    if dg: "map_of (mSets t) d = Some g" for d g
  proof -
    obtain q where q: "map_of (mSets s) d = Some q" "DomainID q = DomainID g" "SequenceNumber g \<le> SequenceNumber q"
      using st dg unfolding MariadbGTIDSet_Contain_iff [OF ok(3)] by blast
    obtain p where "map_of (mSets r) d = Some p" "DomainID p = DomainID q" "SequenceNumber q \<le> SequenceNumber p"
      using rs q(1) unfolding MariadbGTIDSet_Contain_iff [OF ok(2)] by blast
    then show ?thesis using q by simp
  qed
  then show "MariadbGTIDSet_Contain r (MariadbSet t)" unfolding MariadbGTIDSet_Contain_iff [OF ok(3)] by blast
next
  fix s assume "mariadb_set_ok s"
  then show "\<exists>t. ParseMariadbGTIDSet (MariadbGTIDSet_String s) = Inr t \<and> mariadb_set_ok t \<and> MariadbGTIDSet_Equal s (MariadbSet t)"
    by (rule mariadb_parse_String) blast
qed (simp_all add: MariadbGTIDSet_Contain_iff MariadbGTIDSet_Equal_iff MariadbGTIDSet_Clone_id)

section \<open>Sets of either flavor\<close>

fun flavor_of :: "GTIDSet \<Rightarrow> string" where
  "flavor_of (MysqlSet _) = MySQLFlavor"
| "flavor_of (MariadbSet _) = MariaDBFlavor"

fun GTIDSet_ok :: "GTIDSet \<Rightarrow> bool" where
  "GTIDSet_ok (MysqlSet s) = gtid_set_ok s"
| "GTIDSet_ok (MariadbSet s) = mariadb_set_ok s"

text \<open>
  C32. The text of a copy of a well-formed set of either flavor parses, under that flavor, to a
  well-formed set that is equal to the original and includes, and is included in, exactly the
  sets the original does; sets of the other flavor are never included. (A MariaDB set with the
  GTID 0-0-0, which prints as the empty text, is not well-formed.)
\<close>

theorem gtid_text_roundtrip:
  assumes "GTIDSet_ok g"
  shows "\<exists>g'. ParseGTIDSet (flavor_of g) (GTIDSet_String (GTIDSet_Clone g)) = Inr g' \<and> GTIDSet_ok g' \<and> GTIDSet_Equal g g' \<and>
    (\<forall>h. GTIDSet_ok h \<longrightarrow> (GTIDSet_Contain g' h \<longleftrightarrow> GTIDSet_Contain g h) \<and> (GTIDSet_Contain h g' \<longleftrightarrow> GTIDSet_Contain h g) \<and>
      (GTIDSet_Contain g h \<longrightarrow> flavor_of h = flavor_of g))"
proof (cases g)
  case (MysqlSet s)
  then obtain s' where s': "ParseMysqlGTIDSet (MysqlGTIDSet_String (MysqlGTIDSet_Clone s)) = Inr s'" "gtid_set_ok s'"
    "MysqlGTIDSet_Equal s (MysqlSet s')"
    "\<And>t. gtid_set_ok t \<Longrightarrow> MysqlGTIDSet_Contain s' (MysqlSet t) = MysqlGTIDSet_Contain s (MysqlSet t) \<and>
      MysqlGTIDSet_Contain t (MysqlSet s') = MysqlGTIDSet_Contain t (MysqlSet s)"
    using mysql.stored_set [of s] assms by auto
  have "GTIDSet_Contain (MysqlSet s') h = GTIDSet_Contain g h \<and> GTIDSet_Contain h (MysqlSet s') = GTIDSet_Contain h g \<and>
      (GTIDSet_Contain g h \<longrightarrow> flavor_of h = flavor_of g)" if "GTIDSet_ok h" for h
    using s'(4) that MysqlSet by (cases h) (auto simp: MysqlGTIDSet_Contain_def [of _ "MariadbSet _"] MariadbGTIDSet_Contain_def)
  then show ?thesis using s'(1-3) MysqlSet by (intro exI [of _ "MysqlSet s'"]) (auto simp: ParseGTIDSet_def)
next
  case (MariadbSet s)
  then obtain s' where s': "ParseMariadbGTIDSet (MariadbGTIDSet_String (MariadbGTIDSet_Clone s)) = Inr s'" "mariadb_set_ok s'"
    "MariadbGTIDSet_Equal s (MariadbSet s')"
    "\<And>t. mariadb_set_ok t \<Longrightarrow> MariadbGTIDSet_Contain s' (MariadbSet t) = MariadbGTIDSet_Contain s (MariadbSet t) \<and>
      MariadbGTIDSet_Contain t (MariadbSet s') = MariadbGTIDSet_Contain t (MariadbSet s)"
    using mariadb.stored_set [of s] assms by auto
  have "GTIDSet_Contain (MariadbSet s') h = GTIDSet_Contain g h \<and> GTIDSet_Contain h (MariadbSet s') = GTIDSet_Contain h g \<and>
      (GTIDSet_Contain g h \<longrightarrow> flavor_of h = flavor_of g)" if "GTIDSet_ok h" for h
    using s'(4) that MariadbSet by (cases h) (auto simp: MariadbGTIDSet_Contain_def [of _ "MysqlSet _"] MysqlGTIDSet_Contain_def)
  then show ?thesis using s'(1-3) MariadbSet by (intro exI [of _ "MariadbSet s'"]) (auto simp: ParseGTIDSet_def)
qed

theorem gtid_text_roundtrip_witness: "\<exists>g'. ParseGTIDSet MySQLFlavor (GTIDSet_String (GTIDSet_Clone (MysqlSet set_a))) = Inr g'"
  using gtid_text_roundtrip [of "MysqlSet set_a"] set_a_ok by auto

section \<open>Positions in the binary log\<close>

record Position =
  Name :: string
  Pos :: int

text \<open>A file name without its extension, and the number in the extension; a name whose extension is not a number panics.\<close>

definition splitBinlogName :: "string \<Rightarrow> (string \<times> int) result" where
  "splitBinlogName n =
     (if CHR ''.'' \<notin> set n then Inr (n, 0)
      else case Atoi (rev (takeWhile (\<lambda>c. c \<noteq> CHR ''.'') (rev n))) of
        Inl _ \<Rightarrow> Inl Panic
      | Inr seq \<Rightarrow> Inr (rev (tl (dropWhile (\<lambda>c. c \<noteq> CHR ''.'') (rev n))), seq))"

definition CompareBinlogFileName :: "string \<Rightarrow> string \<Rightarrow> int result" where
  "CompareBinlogFileName a b =
     (if a = [] \<and> b = [] then Inr 0
      else if a = [] then Inr (-1)
      else if b = [] then Inr 1
      else rbind (splitBinlogName a) (\<lambda>(aBase, aSeq). rbind (splitBinlogName b) (\<lambda>(bBase, bSeq).
        Inr (if aBase > bBase then 1 else if aBase < bBase then -1
             else if aSeq > bSeq then 1 else if aSeq < bSeq then -1 else 0))))"

definition Position_Compare :: "Position \<Rightarrow> Position \<Rightarrow> int result" where
  "Position_Compare p q =
     rbind (CompareBinlogFileName (Name p) (Name q)) (\<lambda>nameCmp.
       Inr (if nameCmp \<noteq> 0 then nameCmp else if Pos p > Pos q then 1 else if Pos p < Pos q then -1 else 0))"

definition Position_String :: "Position \<Rightarrow> string" where
  "Position_String p = ''('' @ Name p @ '', '' @ FormatInt (Pos p) @ '')''"

text \<open>The place of a position in the order of the log: no name first, then the base name, the number and the offset.\<close>

definition position_key :: "Position \<Rightarrow> (bool \<times> string \<times> int \<times> int) result" where
  "position_key p =
     (if Name p = [] then Inr (False, [], 0, Pos p)
      else rbind (splitBinlogName (Name p)) (\<lambda>(b, n). Inr (True, b, n, Pos p)))"

definition key_less :: "bool \<times> string \<times> int \<times> int \<Rightarrow> bool \<times> string \<times> int \<times> int \<Rightarrow> bool" where
  "key_less k l = (case (k, l) of ((e, b, n, p), (e', b', n', p')) \<Rightarrow>
     e < e' \<or> e = e' \<and> (b < b' \<or> b = b' \<and> (n < n' \<or> n = n' \<and> p < p')))"

lemma position_key_cases:
  assumes "position_key p = Inr k"
  obtains (none) "Name p = []" "k = (False, [], 0, Pos p)"
    | (name) b n where "Name p \<noteq> []" "splitBinlogName (Name p) = Inr (b, n)" "k = (True, b, n, Pos p)"
  using assms by (auto simp: position_key_def rbind_eq_Inr split: if_split_asm)

lemma Position_Compare_key:
  assumes "position_key p = Inr k" "position_key q = Inr l"
  shows "Position_Compare p q = Inr (if key_less l k then 1 else if key_less k l then -1 else 0)"
  using assms(1)
proof (cases rule: position_key_cases)
  case p: none
  from assms(2) show ?thesis
    by (cases rule: position_key_cases) (simp_all add: p Position_Compare_def CompareBinlogFileName_def key_less_def)
next
  case p: (name b n)
  from assms(2) show ?thesis
  proof (cases rule: position_key_cases)
    case q: (name b' n')
    show ?thesis
      by (cases b b' rule: linorder_cases; cases n n' rule: linorder_cases)
        (simp_all add: p q Position_Compare_def CompareBinlogFileName_def key_less_def)
  qed (simp add: p Position_Compare_def CompareBinlogFileName_def key_less_def)
qed

lemma key_less_order: "\<not> key_less k k" "key_less k l \<Longrightarrow> key_less l m \<Longrightarrow> key_less k m" "key_less k l \<or> k = l \<or> key_less l k"
  by (auto simp: key_less_def split: prod.splits)

text \<open>
  Where no file name has an extension that is not a number, comparing positions is a total
  order on their place in the log: swapping the arguments negates the result, 0 is returned
  exactly for the same place, and the order is transitive.
\<close>

theorem position_order:
  assumes "position_key p = Inr k" "position_key q = Inr l" "position_key r = Inr m"
  shows "\<exists>c \<in> {-1, 0, 1}. Position_Compare p q = Inr c \<and> Position_Compare q p = Inr (- c) \<and> (c = 0 \<longleftrightarrow> k = l) \<and>
    (c = -1 \<longrightarrow> Position_Compare q r \<in> {Inr (-1), Inr 0} \<longrightarrow> Position_Compare p r = Inr (-1))"
  using key_less_order(1) [of k] key_less_order(1) [of l] key_less_order(2) [of k l m] key_less_order(2) [of m l k] key_less_order(3) [of k l]
    key_less_order(2) [of k l k] key_less_order(3) [of l m] key_less_order(2) [of k m k]
  unfolding Position_Compare_key [OF assms(1,2)] Position_Compare_key [OF assms(2,1)] Position_Compare_key [OF assms(2,3)]
    Position_Compare_key [OF assms(1,3)] by auto

theorem position_order_witness:
  "Position_Compare \<lparr>Name = ''log.9'', Pos = 7\<rparr> \<lparr>Name = ''log.10'', Pos = 4\<rparr> = Inr (-1)"
proof -
  have k: "position_key \<lparr>Name = ''log.9'', Pos = 7\<rparr> = Inr (True, ''log'', 9, 7)"
    "position_key \<lparr>Name = ''log.10'', Pos = 4\<rparr> = Inr (True, ''log'', 10, 4)" by code_simp+
  show ?thesis using position_order [OF k k(1)] Position_Compare_key [OF k] by (simp add: key_less_def)
qed

end
