(* ===== verification/MysqlUtil.thy ===== *)
theory MysqlUtil
  imports GoText "HOL-Library.Word"
begin

text \<open>
  The encodings of the MySQL protocol (\<open>mysql/util.go\<close>, \<open>mysql/parse_binary.go\<close>): integers and
  strings with a length prefix, little-endian integers, dates and times, password scrambles and
  the escaping of string literals. A \<open>uint64\<close> is a \<open>64 word\<close>. The hash functions are arguments
  (\<open>sha1\<close>, \<open>sha256\<close>), and random bytes are what the source delivers. \<open>Panic\<close> is the result of an
  index out of range.

  A Go slice has spare capacity behind its length, and a slice expression may reach into it:
  where the code slices up to a bound it has not compared with the length, the slice is a pair
  of its bytes and of the bytes behind them.
\<close>

unbundle bit_operations_syntax

section \<open>Bytes and words\<close>

definition byte_of :: "'a::len word \<Rightarrow> char" where
  "byte_of w = char_of (unat w)"

definition of_byte :: "char \<Rightarrow> 'a::len word" where
  "of_byte c = of_nat (of_char c)"

definition xor_byte :: "char \<Rightarrow> char \<Rightarrow> char" where
  "xor_byte a b = byte_of (of_byte a XOR of_byte b :: 8 word)"

section \<open>Slices with their spare capacity\<close>

type_synonym slice = "bytes \<times> bytes"

text \<open>\<open>s[i]\<close>, \<open>s[lo:]\<close> and \<open>s[lo:hi]\<close>.\<close>

definition index :: "bytes \<Rightarrow> nat \<Rightarrow> char result" where
  "index b i = (if i < length b then Inr (b ! i) else Inl Panic)"

definition slice_from :: "slice \<Rightarrow> nat \<Rightarrow> slice result" where
  "slice_from s lo = (if lo \<le> length (fst s) then Inr (drop lo (fst s), snd s) else Inl Panic)"

definition slice_range :: "slice \<Rightarrow> nat \<Rightarrow> nat \<Rightarrow> bytes result" where
  "slice_range s lo hi =
     (if lo \<le> hi \<and> hi \<le> length (fst s) + length (snd s) then Inr (take (hi - lo) (drop lo (fst s @ snd s))) else Inl Panic)"

section \<open>Passwords\<close>

definition CalcPassword :: "(bytes \<Rightarrow> bytes) \<Rightarrow> bytes \<Rightarrow> bytes \<Rightarrow> bytes option" where
  "CalcPassword sha1 scramble password =
     (if length password = 0 then None
      else let stage1 = sha1 password;
               hash = sha1 stage1;
               scramble = sha1 (scramble @ hash)
        in Some (map2 xor_byte scramble stage1))"

definition CalcCachingSha2Password :: "(bytes \<Rightarrow> bytes) \<Rightarrow> bytes \<Rightarrow> bytes \<Rightarrow> bytes option" where
  "CalcCachingSha2Password sha256 scramble password =
     (if length password = 0 then None
      else let message1 = sha256 password;
               message1Hash = sha256 message1;
               message2 = sha256 (message1Hash @ scramble)
        in Some (map2 xor_byte message1 message2))"

text \<open>The text that \<open>EncryptPassword\<close> hands to RSA: the password and a zero byte, XORed with the seed over and over.\<close>

definition EncryptPassword_plain :: "bytes \<Rightarrow> bytes \<Rightarrow> bytes result" where
  "EncryptPassword_plain password seed =
     (let plain = password @ [CHR 0x00]
      in if length seed = 0 then Inl Panic
         else Inr (map (\<lambda>i. xor_byte (plain ! i) (seed ! (i mod length seed))) [0 ..< length plain]))"

text \<open>\<open>RandomBuf\<close> on what the random source has delivered: the bytes asked for, or an error.\<close>

definition RandomBuf :: "bytes result \<Rightarrow> bytes result" where
  "RandomBuf source = rbind source (\<lambda>buf. Inr (map (\<lambda>b. if b = CHR 0x00 then CHR ''0'' else b) buf))"

section \<open>Integers with a length prefix\<close>

definition PutLengthEncodedInt :: "64 word \<Rightarrow> bytes" where
  "PutLengthEncodedInt n =
     (if n \<le> 250 then [byte_of n]
      else if n \<le> 0xffff then [CHR 0xfc, byte_of n, byte_of (drop_bit 8 n)]
      else if n \<le> 0xffffff then [CHR 0xfd, byte_of n, byte_of (drop_bit 8 n), byte_of (drop_bit 16 n)]
      else [CHR 0xfe, byte_of n, byte_of (drop_bit 8 n), byte_of (drop_bit 16 n), byte_of (drop_bit 24 n),
            byte_of (drop_bit 32 n), byte_of (drop_bit 40 n), byte_of (drop_bit 48 n), byte_of (drop_bit 56 n)])"

definition AppendLengthEncodedInteger :: "bytes \<Rightarrow> 64 word \<Rightarrow> bytes" where
  "AppendLengthEncodedInteger b n =
     (if n \<le> 250 then b @ [byte_of n]
      else if n \<le> 0xffff then b @ [CHR 0xfc, byte_of n, byte_of (drop_bit 8 n)]
      else if n \<le> 0xffffff then b @ [CHR 0xfd, byte_of n, byte_of (drop_bit 8 n), byte_of (drop_bit 16 n)]
      else b @ [CHR 0xfe, byte_of n, byte_of (drop_bit 8 n), byte_of (drop_bit 16 n), byte_of (drop_bit 24 n),
                byte_of (drop_bit 32 n), byte_of (drop_bit 40 n), byte_of (drop_bit 48 n), byte_of (drop_bit 56 n)])"

text \<open>The loop of \<open>FixedLengthInt\<close>, with the index of the next byte.\<close>

fun fixed_loop :: "nat \<Rightarrow> bytes \<Rightarrow> 64 word \<Rightarrow> 64 word" where
  "fixed_loop i [] num = num"
| "fixed_loop i (b # buf) num = fixed_loop (i + 1) buf (num OR push_bit (i * 8) (of_byte b))"

definition FixedLengthInt :: "bytes \<Rightarrow> 64 word" where
  "FixedLengthInt buf = fixed_loop 0 buf 0"

fun bfixed_loop :: "nat \<Rightarrow> bytes \<Rightarrow> 64 word \<Rightarrow> 64 word" where
  "bfixed_loop len [] num = num"
| "bfixed_loop len (b # buf) num = bfixed_loop (len - 1) buf (num OR push_bit ((len - 1) * 8) (of_byte b))"

definition BFixedLengthInt :: "bytes \<Rightarrow> 64 word" where
  "BFixedLengthInt buf = bfixed_loop (length buf) buf 0"

text \<open>The number, whether the value is NULL, and the number of bytes read.\<close>

definition LengthEncodedInt :: "bytes \<Rightarrow> (64 word \<times> bool \<times> nat) result" where
  "LengthEncodedInt b =
     (if length b = 0 then Inr (0, True, 0)
      else if b ! 0 = CHR 0xfb then Inr (0, True, 1)
      else if b ! 0 = CHR 0xfc then
        if length b \<le> 2 then Inl Panic else Inr (of_byte (b ! 1) OR push_bit 8 (of_byte (b ! 2)), False, 3)
      else if b ! 0 = CHR 0xfd then
        if length b \<le> 3 then Inl Panic
        else Inr (of_byte (b ! 1) OR push_bit 8 (of_byte (b ! 2)) OR push_bit 16 (of_byte (b ! 3)), False, 4)
      else if b ! 0 = CHR 0xfe then
        if length b \<le> 8 then Inl Panic
        else Inr (of_byte (b ! 1) OR push_bit 8 (of_byte (b ! 2)) OR push_bit 16 (of_byte (b ! 3)) OR
                  push_bit 24 (of_byte (b ! 4)) OR push_bit 32 (of_byte (b ! 5)) OR push_bit 40 (of_byte (b ! 6)) OR
                  push_bit 48 (of_byte (b ! 7)) OR push_bit 56 (of_byte (b ! 8)), False, 9)
      else Inr (of_byte (b ! 0), False, 1))"

text \<open>
  \<open>n += int(num)\<close> wraps around: a length of \<open>2\<^sup>6\<^sup>3\<close> or more makes \<open>n\<close> smaller than it was, passes
  the check and then panics in the slice expression, but is returned by \<open>SkipLengthEncodedString\<close>.
\<close>

abbreviation EOF :: gerr where
  "EOF \<equiv> ErrText ''EOF''"

definition LengthEncodedString :: "bytes \<Rightarrow> (bytes \<times> bool \<times> nat) result" where
  "LengthEncodedString b =
     rbind (LengthEncodedInt b) (\<lambda>(num, isNull, n).
       if num < 1 then Inr ([], isNull, n)
       else let m = wrap64 (int n + sint num)
         in if int (length b) \<ge> m then
              if m < int n then Inl Panic else Inr (take (nat m - n) (drop n b), False, nat m)
            else Inl EOF)"

definition SkipLengthEncodedString :: "bytes \<Rightarrow> int result" where
  "SkipLengthEncodedString b =
     rbind (LengthEncodedInt b) (\<lambda>(num, _, n).
       if num < 1 then Inr (int n)
       else let m = wrap64 (int n + sint num) in if int (length b) \<ge> m then Inr m else Inl EOF)"

definition PutLengthEncodedString :: "bytes \<Rightarrow> bytes" where
  "PutLengthEncodedString b = PutLengthEncodedInt (of_nat (length b)) @ b"

definition Uint16ToBytes :: "16 word \<Rightarrow> bytes" where
  "Uint16ToBytes n = [byte_of n, byte_of (drop_bit 8 n)]"

definition Uint32ToBytes :: "32 word \<Rightarrow> bytes" where
  "Uint32ToBytes n = [byte_of n, byte_of (drop_bit 8 n), byte_of (drop_bit 16 n), byte_of (drop_bit 24 n)]"

definition Uint64ToBytes :: "64 word \<Rightarrow> bytes" where
  "Uint64ToBytes n =
     [byte_of n, byte_of (drop_bit 8 n), byte_of (drop_bit 16 n), byte_of (drop_bit 24 n),
      byte_of (drop_bit 32 n), byte_of (drop_bit 40 n), byte_of (drop_bit 48 n), byte_of (drop_bit 56 n)]"

section \<open>Binary integers (parse\_binary.go)\<close>

text \<open>\<open>binary.LittleEndian.Uint16\<close>, \<open>Uint32\<close> and \<open>Uint64\<close>.\<close>

definition le_word :: "nat \<Rightarrow> bytes \<Rightarrow> 'a::len word result" where
  "le_word k b = (if length b < k then Inl Panic else Inr (of_nat (le_nat (take k b))))"

definition ParseBinaryInt8 :: "bytes \<Rightarrow> 8 word result" where
  "ParseBinaryInt8 data = rbind (index data 0) (\<lambda>c. Inr (of_byte c))"

definition ParseBinaryUint8 :: "bytes \<Rightarrow> 8 word result" where
  "ParseBinaryUint8 data = rbind (index data 0) (\<lambda>c. Inr (of_byte c))"

definition ParseBinaryInt16 :: "bytes \<Rightarrow> 16 word result" where
  "ParseBinaryInt16 data = le_word 2 data"

definition ParseBinaryUint16 :: "bytes \<Rightarrow> 16 word result" where
  "ParseBinaryUint16 data = le_word 2 data"

definition ParseBinaryUint24 :: "bytes \<Rightarrow> 32 word result" where
  "ParseBinaryUint24 data =
     rbind (index data 0) (\<lambda>a. rbind (index data 1) (\<lambda>b. rbind (index data 2) (\<lambda>c.
       Inr (of_byte a OR push_bit 8 (of_byte b) OR push_bit 16 (of_byte c)))))"

definition ParseBinaryInt24 :: "bytes \<Rightarrow> 32 word result" where
  "ParseBinaryInt24 data =
     rbind (ParseBinaryUint24 data) (\<lambda>u32. Inr (if u32 AND 0x00800000 \<noteq> 0 then u32 OR 0xFF000000 else u32))"

definition ParseBinaryInt32 :: "bytes \<Rightarrow> 32 word result" where
  "ParseBinaryInt32 data = le_word 4 data"

definition ParseBinaryUint32 :: "bytes \<Rightarrow> 32 word result" where
  "ParseBinaryUint32 data = le_word 4 data"

definition ParseBinaryInt64 :: "bytes \<Rightarrow> 64 word result" where
  "ParseBinaryInt64 data = le_word 8 data"

definition ParseBinaryUint64 :: "bytes \<Rightarrow> 64 word result" where
  "ParseBinaryUint64 data = le_word 8 data"

text \<open>A float is its bits.\<close>

definition ParseBinaryFloat32 :: "bytes \<Rightarrow> 32 word result" where
  "ParseBinaryFloat32 data = le_word 4 data"

definition ParseBinaryFloat64 :: "bytes \<Rightarrow> 64 word result" where
  "ParseBinaryFloat64 data = le_word 8 data"

section \<open>Dates and times\<close>

text \<open>\<open>%0kd\<close>\<close>

definition pad :: "nat \<Rightarrow> nat \<Rightarrow> string" where
  "pad k n = replicate (k - length (nat_str n)) (CHR ''0'') @ nat_str n"

abbreviation pad_byte :: "nat \<Rightarrow> char \<Rightarrow> string" where
  "pad_byte k c \<equiv> pad k (of_char c)"

definition date_text :: "slice \<Rightarrow> string result" where
  "date_text data =
     rbind (slice_range data 0 2) (\<lambda>y. rbind (index (fst data) 2) (\<lambda>m. rbind (index (fst data) 3) (\<lambda>d.
       Inr (pad 4 (le_nat y) @ ''-'' @ pad_byte 2 m @ ''-'' @ pad_byte 2 d))))"

definition clock_text :: "bytes \<Rightarrow> string result" where
  "clock_text data =
     rbind (index data 4) (\<lambda>h. rbind (index data 5) (\<lambda>m. rbind (index data 6) (\<lambda>s.
       Inr (pad_byte 2 h @ '':'' @ pad_byte 2 m @ '':'' @ pad_byte 2 s))))"

definition FormatBinaryDate :: "int \<Rightarrow> slice \<Rightarrow> bytes result" where
  "FormatBinaryDate n data =
     (if n = 0 then Inr ''0000-00-00''
      else if n = 4 then date_text data
      else Inl (ErrText (''invalid date packet length '' @ FormatInt n)))"

definition FormatBinaryDateTime :: "int \<Rightarrow> slice \<Rightarrow> bytes result" where
  "FormatBinaryDateTime n data =
     (if n = 0 then Inr ''0000-00-00 00:00:00''
      else if n = 4 then rbind (date_text data) (\<lambda>d. Inr (d @ '' 00:00:00''))
      else if n = 7 then rbind (date_text data) (\<lambda>d. rbind (clock_text (fst data)) (\<lambda>c. Inr (d @ '' '' @ c)))
      else if n = 11 then
        rbind (date_text data) (\<lambda>d. rbind (clock_text (fst data)) (\<lambda>c. rbind (slice_range data 7 11) (\<lambda>u.
          Inr (d @ '' '' @ c @ ''.'' @ pad 6 (le_nat u)))))
      else Inl (ErrText (''invalid datetime packet length '' @ FormatInt n)))"

text \<open>\<open>%c\<close> prints the zero byte when the time is not negative.\<close>

definition FormatBinaryTime :: "int \<Rightarrow> slice \<Rightarrow> bytes result" where
  "FormatBinaryTime n data =
     (if n = 0 then Inr ''0000-00-00''
      else rbind (index (fst data) 0) (\<lambda>d0.
        let sign = (if d0 = CHR 0x01 then CHR ''-'' else CHR 0x00);
            clock = rbind (index (fst data) 1) (\<lambda>d1. rbind (index (fst data) 5) (\<lambda>d5.
              rbind (index (fst data) 6) (\<lambda>d6. rbind (index (fst data) 7) (\<lambda>d7.
                Inr (sign # pad 2 (unat (of_byte d1 * 24 + of_byte d5 :: 16 word)) @ '':'' @ pad_byte 2 d6 @ '':'' @ pad_byte 2 d7)))))
        in if n = 8 then clock
           else if n = 12 then rbind clock (\<lambda>c. rbind (slice_range data 8 12) (\<lambda>u. Inr (c @ ''.'' @ pad 6 (le_nat u))))
           else Inl (ErrText (''invalid time packet length '' @ FormatInt n))))"

section \<open>String literals\<close>

definition encodeRef :: "(char \<times> char) list" where
  "encodeRef =
     [(CHR 0x00, CHR ''0''), (CHR 0x27, CHR 0x27), (CHR 0x22, CHR 0x22), (CHR 0x08, CHR ''b''), (CHR 0x0A, CHR ''n''),
      (CHR 0x0D, CHR ''r''), (CHR 0x09, CHR ''t''), (CHR 0x1A, CHR ''Z''), (CHR 0x5C, CHR 0x5C)]"

definition DONTESCAPE :: char where
  "DONTESCAPE = CHR 0xFF"

definition EncodeMap :: "char \<Rightarrow> char" where
  "EncodeMap w = (case map_of encodeRef w of None \<Rightarrow> DONTESCAPE | Some c \<Rightarrow> c)"

fun Escape :: "string \<Rightarrow> string" where
  "Escape [] = []"
| "Escape (w # sql) = (if EncodeMap w = DONTESCAPE then [w] else [CHR 0x5C, EncodeMap w]) @ Escape sql"

definition GetNetProto :: "string \<Rightarrow> string" where
  "GetNetProto addr = (if CHR ''/'' \<in> set addr then ''unix'' else ''tcp'')"

section \<open>Little-endian words\<close>

lemma of_char_byte_of: "(of_char (byte_of w) :: nat) = unat w mod 256"
  by (simp add: byte_of_def)

lemma byte_of_drop_bit: "byte_of (drop_bit k w) = char_of (unat w div 2 ^ k)"
  by (simp only: byte_of_def unat_drop_bit_eq) (simp only: drop_bit_eq_div)

lemma unat_of_byte: "8 \<le> LENGTH('a) \<Longrightarrow> unat (of_byte c :: 'a::len word) = of_char c"
proof -
  assume l: "8 \<le> LENGTH('a)"
  have "(256 :: nat) \<le> 2 ^ LENGTH('a)" using power_increasing [OF l, of "2 :: nat"] by simp
  then have "of_char c < (2 ^ LENGTH('a) :: nat)" using nat_of_char_less_256 [of c] by linarith
  then show ?thesis by (simp add: of_byte_def unat_of_nat)
qed

lemma of_byte_byte_of: "unat w < 256 \<Longrightarrow> of_byte (byte_of w) = w"
  by (simp add: of_byte_def of_char_byte_of)

lemma byte_or_push: "of_byte c OR push_bit 8 w = of_byte c + 256 * (w :: 'a::len word)"
proof -
  have b: "\<not> bit (of_byte c :: 'a word) n" if "8 \<le> n" for n
  proof -
    have "(256 :: nat) \<le> 2 ^ n" using power_increasing [OF that, of "2 :: nat"] by simp
    then have "of_char c < (2 ^ n :: nat)" by (rule less_le_trans [OF nat_of_char_less_256])
    then show ?thesis unfolding of_byte_def bit_of_nat_iff by (simp add: bit_iff_odd del: of_nat_of_char)
  qed
  have "of_byte c AND push_bit 8 w = 0" by (rule bit_word_eqI) (auto simp: bit_and_iff bit_push_bit_iff b)
  then have "of_byte c + push_bit 8 w = of_byte c OR push_bit 8 w" by (rule disjunctive_add_eq_or)
  then show ?thesis by (simp add: push_bit_eq_mult mult.commute)
qed

lemma fixed_loop_le_nat: "fixed_loop i buf num = num OR push_bit (i * 8) (of_nat (le_nat buf))"
proof (induction buf arbitrary: i num)
  case (Cons c buf)
  have "of_nat (le_nat (c # buf)) = (of_byte c OR push_bit 8 (of_nat (le_nat buf)) :: 64 word)"
    unfolding byte_or_push by (simp add: of_byte_def)
  then show ?case by (simp add: Cons.IH push_bit_or or.assoc add.commute del: le_nat.simps)
qed simp

lemma FixedLengthInt_le_nat: "FixedLengthInt buf = of_nat (le_nat buf)"
  by (simp add: FixedLengthInt_def fixed_loop_le_nat)

lemma fixed_loop_snoc: "fixed_loop i (buf @ [c]) num = fixed_loop i buf num OR push_bit ((i + length buf) * 8) (of_byte c)"
  by (induction buf arbitrary: i num) (simp_all add: ac_simps)

lemma bfixed_loop_fixed: "bfixed_loop (length buf) buf num = num OR FixedLengthInt (rev buf)"
proof (induction buf arbitrary: num)
  case (Cons c buf)
  then show ?case by (simp add: FixedLengthInt_def fixed_loop_snoc or.assoc or.commute or.left_commute)
qed (simp add: FixedLengthInt_def)

lemma BFixedLengthInt_be_nat: "BFixedLengthInt buf = of_nat (be_nat buf)"
  by (simp add: BFixedLengthInt_def bfixed_loop_fixed FixedLengthInt_le_nat be_nat_def)

lemma le_bytes_add: "le_bytes (m + n) v = le_bytes m v @ le_bytes n (v div 256 ^ m)"
  by (induction m arbitrary: v) (simp_all add: div_mult2_eq)

lemma le_bytes_1: "le_bytes 1 v = [char_of v]"
  by (simp add: char_of_mod_256)

lemma le_bytes_2: "le_bytes 2 v = [char_of v, char_of (v div 2 ^ 8)]"
  using le_bytes_add [of 1 1 v] by (simp add: le_bytes_1 del: One_nat_def)

lemma le_bytes_3: "le_bytes 3 v = [char_of v, char_of (v div 2 ^ 8), char_of (v div 2 ^ 16)]"
  using le_bytes_add [of 2 1 v] by (simp add: le_bytes_1 le_bytes_2 del: One_nat_def)

lemma le_bytes_4: "le_bytes 4 v = [char_of v, char_of (v div 2 ^ 8), char_of (v div 2 ^ 16), char_of (v div 2 ^ 24)]"
  using le_bytes_add [of 3 1 v] by (simp add: le_bytes_1 le_bytes_3 del: One_nat_def)

lemma le_bytes_8:
  "le_bytes 8 v = [char_of v, char_of (v div 2 ^ 8), char_of (v div 2 ^ 16), char_of (v div 2 ^ 24),
     char_of (v div 2 ^ 32), char_of (v div 2 ^ 40), char_of (v div 2 ^ 48), char_of (v div 2 ^ 56)]"
  using le_bytes_add [of 4 4 v] by (simp add: le_bytes_4 flip: div_mult2_eq)

lemma word_bytes:
  "Uint16ToBytes u = le_bytes 2 (unat u)" "Uint32ToBytes v = le_bytes 4 (unat v)" "Uint64ToBytes w = le_bytes 8 (unat w)"
  unfolding Uint16ToBytes_def Uint32ToBytes_def Uint64ToBytes_def le_bytes_2 le_bytes_4 le_bytes_8 byte_of_drop_bit
  by (simp_all only: byte_of_def)

text \<open>Reading the bytes of a word gives it back.\<close>

lemma le_word_le_bytes:
  assumes "LENGTH('a) \<le> 8 * k"
  shows "le_word k (le_bytes k (unat (w :: 'a::len word)) @ r) = Inr w"
proof -
  have "(2 :: nat) ^ LENGTH('a) \<le> 2 ^ (8 * k)" using assms by (intro power_increasing) simp_all
  then have "(2 :: nat) ^ LENGTH('a) \<le> 256 ^ k" by (simp add: power_mult)
  then have "unat w < 256 ^ k" by (rule less_le_trans [OF unsigned_less])
  then show ?thesis by (simp add: le_word_def le_nat_le_bytes)
qed

section \<open>Length prefixes\<close>

lemma PutLengthEncodedInt_bytes:
  "PutLengthEncodedInt n =
     (if unat n \<le> 250 then [char_of (unat n)]
      else if unat n < 2 ^ 16 then CHR 0xfc # le_bytes 2 (unat n)
      else if unat n < 2 ^ 24 then CHR 0xfd # le_bytes 3 (unat n)
      else CHR 0xfe # le_bytes 8 (unat n))"
  unfolding PutLengthEncodedInt_def byte_of_drop_bit le_bytes_2 le_bytes_3 le_bytes_8
  by (auto simp: byte_of_def word_le_nat_alt)

lemma length_8: "length b = 8 \<longleftrightarrow> (\<exists>x y z u v w s t. b = [x, y, z, u, v, w, s, t])"
proof
  assume "length b = 8"
  then have "length b = Suc (Suc (Suc (Suc (Suc (Suc (Suc (Suc 0)))))))" by simp
  then show "\<exists>x y z u v w s t. b = [x, y, z, u, v, w, s, t]" by (simp only: length_Suc_conv length_0_conv) blast
qed auto

lemma LengthEncodedInt_prefix:
  assumes "length b = k" "(c, k) \<in> {(CHR 0xfc, 2), (CHR 0xfd, 3), (CHR 0xfe, 8)}"
  shows "LengthEncodedInt (c # b @ r) = Inr (of_nat (le_nat b), False, k + 1)"
proof -
  have f: "of_nat (le_nat b) = FixedLengthInt b" by (simp add: FixedLengthInt_le_nat)
  consider (2) x y where "c = CHR 0xfc" "k = 2" "b = [x, y]"
    | (3) x y z where "c = CHR 0xfd" "k = 3" "b = [x, y, z]"
    | (8) x y z u v w s t where "c = CHR 0xfe" "k = 8" "b = [x, y, z, u, v, w, s, t]"
    using assms by (auto simp: length_Suc_conv numeral_2_eq_2 numeral_3_eq_3 length_8)
  then show ?thesis unfolding f
    by cases (simp_all add: LengthEncodedInt_def FixedLengthInt_def or.assoc)
qed

lemma LengthEncodedInt_Put: "LengthEncodedInt (PutLengthEncodedInt n @ r) = Inr (n, False, length (PutLengthEncodedInt n))"
proof (cases "unat n \<le> 250")
  case True
  have "char_of (unat n) \<noteq> CHR 0xfb" "char_of (unat n) \<noteq> CHR 0xfc" "char_of (unat n) \<noteq> CHR 0xfd" "char_of (unat n) \<noteq> CHR 0xfe"
    using True by (auto dest!: arg_cong [where f = "of_char :: char \<Rightarrow> nat"])
  then show ?thesis using True by (simp add: PutLengthEncodedInt_bytes LengthEncodedInt_def of_byte_def)
next
  case False
  have "unat n < 256 ^ 8" using unsigned_less [of n, where 'a = nat] by simp
  then show ?thesis using False
    by (auto simp: PutLengthEncodedInt_bytes LengthEncodedInt_prefix le_nat_le_bytes)
qed

lemma length_PutLengthEncodedInt: "length (PutLengthEncodedInt n) \<in> {1, 3, 4, 9}"
  by (simp add: PutLengthEncodedInt_bytes)

lemma AppendLengthEncodedInteger_Put: "AppendLengthEncodedInteger b n = b @ PutLengthEncodedInt n"
  by (simp add: AppendLengthEncodedInteger_def PutLengthEncodedInt_def)

lemma LengthEncodedString_Put:
  assumes "length b < 2 ^ 62"
  shows "LengthEncodedString (PutLengthEncodedString b @ r) = Inr (b, False, length (PutLengthEncodedString b))"
    "SkipLengthEncodedString (PutLengthEncodedString b @ r) = Inr (int (length (PutLengthEncodedString b)))"
proof -
  let ?n = "of_nat (length b) :: 64 word" let ?k = "length (PutLengthEncodedInt ?n)"
  have k: "?k \<le> 9" using length_PutLengthEncodedInt [of ?n] by auto
  have u: "unat ?n = length b" using assms by (simp add: unat_of_nat)
  have "uint ?n = int (length b)" using assms by (simp add: unsigned_of_nat take_bit_nat_eq_self)
  then have s: "sint ?n = int (length b)" using assms by (simp add: sint_uint signed_take_bit_int_eq_self)
  have w: "wrap64 (int ?k + int (length b)) = int (?k + length b)" using assms k by (intro wrap64_id [THEN trans]) (simp_all add: is_int64_def)
  have z: "?n = 0 \<longleftrightarrow> b = []" using unat_eq_zero [of ?n] unfolding u by simp
  show "LengthEncodedString (PutLengthEncodedString b @ r) = Inr (b, False, length (PutLengthEncodedString b))"
    "SkipLengthEncodedString (PutLengthEncodedString b @ r) = Inr (int (length (PutLengthEncodedString b)))"
    by (simp_all add: LengthEncodedString_def SkipLengthEncodedString_def PutLengthEncodedString_def LengthEncodedInt_Put z s w Let_def nat_int_add)
qed

lemma LengthEncodedInt_bounds: "LengthEncodedInt b = Inr (num, isNull, n) \<Longrightarrow> n \<le> length b \<and> n \<le> 9"
  by (cases b) (auto simp: LengthEncodedInt_def split: if_splits)

lemma LengthEncodedInt_panics:
  "LengthEncodedInt b = Inl e \<longleftrightarrow>
     e = Panic \<and> (take 1 b = [CHR 0xfc] \<and> length b \<le> 2 \<or> take 1 b = [CHR 0xfd] \<and> length b \<le> 3 \<or> take 1 b = [CHR 0xfe] \<and> length b \<le> 8)"
  by (cases b) (auto simp: LengthEncodedInt_def)

lemma wrap64_add_less:
  assumes "is_int64 s" "0 \<le> n" "n \<le> 9" "wrap64 (n + s) < n"
  shows "s < 0 \<or> 9223372036854775799 \<le> s"
proof (rule ccontr)
  assume "\<not> ?thesis"
  then have "is_int64 (n + s)" "0 \<le> s" using assms by (auto simp: is_int64_def)
  then show False using assms(4) by simp
qed

lemma is_int64_sint: "is_int64 (sint (w :: 64 word))"
  using sint_greater_eq [of w] sint_less [of w] by (simp add: is_int64_def)

lemma sint_huge: "sint (w :: 64 word) < 0 \<or> 9223372036854775799 \<le> sint w \<Longrightarrow> 9223372036854775799 \<le> unat w"
proof (rule ccontr)
  assume s: "sint w < 0 \<or> 9223372036854775799 \<le> sint w" "\<not> 9223372036854775799 \<le> unat w"
  have "uint w = int (unat w)" by simp
  then have u: "uint w < 9223372036854775799" using s(2) by linarith
  moreover have "sint w = uint w" unfolding sint_uint
  proof (rule signed_take_bit_int_eq_self)
    show "- (2 ^ (LENGTH(64) - Suc 0)) \<le> uint w" by (rule order_trans [OF _ uint_ge_0]) simp
    show "uint w < 2 ^ (LENGTH(64) - Suc 0)" using u by simp
  qed
  ultimately show False using s(1) uint_ge_0 [of w] by linarith
qed

lemma LengthEncodedString_bounds:
  "case LengthEncodedString b of
     Inr (s, isNull, n) \<Rightarrow> n \<le> length b \<and> length s \<le> n \<and> s = drop (n - length s) (take n b)
   | Inl e \<Rightarrow> e = EOF \<or> e = Panic \<and>
       (LengthEncodedInt b = Inl Panic \<or> (\<exists>num isNull n. LengthEncodedInt b = Inr (num, isNull, n) \<and> 9223372036854775799 \<le> unat num))"
proof (cases "LengthEncodedInt b")
  case (Inl e)
  then show ?thesis using LengthEncodedInt_panics [of b e] by (simp add: LengthEncodedString_def)
next
  case (Inr r)
  obtain num isNull n where r: "r = (num, isNull, n)" by (cases r) auto
  have n: "n \<le> length b" "n \<le> 9" using LengthEncodedInt_bounds Inr r by auto
  let ?m = "wrap64 (int n + sint num)"
  show ?thesis
  proof (cases "num < 1 \<or> int (length b) < ?m")
    case True
    then show ?thesis using n by (auto simp: LengthEncodedString_def Inr r Let_def)
  next
    case ok: False
    show ?thesis
    proof (cases "?m < int n")
      case True
      then have "9223372036854775799 \<le> unat num" using wrap64_add_less [OF is_int64_sint, of "int n" num] n(2) sint_huge by auto
      then show ?thesis using ok True by (auto simp: LengthEncodedString_def Inr r Let_def)
    next
      case False
      define k where "k = nat ?m"
      have k: "n \<le> k" "k \<le> length b" using False ok by (auto simp: k_def)
      have "LengthEncodedString b = Inr (take (k - n) (drop n b), False, k)"
        using ok False by (simp add: LengthEncodedString_def Inr r Let_def k_def)
      moreover have "length (take (k - n) (drop n b)) = k - n" using k by simp
      moreover have "drop (k - (k - n)) (take k b) = take (k - n) (drop n b)" using k by (simp add: drop_take)
      ultimately show ?thesis using k by simp
    qed
  qed
qed

text \<open>
  C34. The codec of integers and strings with a length prefix. What is written is read back,
  with the number of bytes written, whatever follows; the prefix has 1, 3, 4 or 9 bytes.
  Whatever the input, reading never runs past its end: it fails with an end-of-file error, or
  panics, and then either the prefix is cut short or the announced length is at least
  \<open>2\<^sup>6\<^sup>3 - 9\<close>.
\<close>

theorem lenenc_bounds:
  assumes "length v < 2 ^ 62"
  shows "LengthEncodedInt (PutLengthEncodedInt k @ r) = Inr (k, False, length (PutLengthEncodedInt k)) \<and>
    length (PutLengthEncodedInt k) \<in> {1, 3, 4, 9} \<and>
    AppendLengthEncodedInteger r k = r @ PutLengthEncodedInt k \<and>
    LengthEncodedString (PutLengthEncodedString v @ r) = Inr (v, False, length (PutLengthEncodedString v)) \<and>
    SkipLengthEncodedString (PutLengthEncodedString v @ r) = Inr (int (length (PutLengthEncodedString v))) \<and>
    (case LengthEncodedString b of
       Inr (s, isNull, n) \<Rightarrow> n \<le> length b \<and> length s \<le> n \<and> s = drop (n - length s) (take n b)
     | Inl e \<Rightarrow> e = EOF \<or> e = Panic \<and>
         (take 1 b = [CHR 0xfc] \<and> length b \<le> 2 \<or> take 1 b = [CHR 0xfd] \<and> length b \<le> 3 \<or> take 1 b = [CHR 0xfe] \<and> length b \<le> 8 \<or>
          (\<exists>num isNull n. LengthEncodedInt b = Inr (num, isNull, n) \<and> 9223372036854775799 \<le> unat num)))"
  using LengthEncodedInt_Put length_PutLengthEncodedInt AppendLengthEncodedInteger_Put LengthEncodedString_Put [OF assms]
    LengthEncodedString_bounds [of b] LengthEncodedInt_panics [of b Panic] by (auto split: sum.splits)

theorem lenenc_bounds_witness: "LengthEncodedString (PutLengthEncodedString ''abc'' @ ''d'') = Inr (''abc'', False, 4)"
proof -
  have "length (PutLengthEncodedString ''abc'') = 4"
    by (simp add: PutLengthEncodedString_def PutLengthEncodedInt_def)
  then show ?thesis using lenenc_bounds [of "''abc''" 0 "''d''" "[]"] by simp
qed

section \<open>Escaped literals\<close>

text \<open>
  How the server reads a literal after the opening quote: the text up to the closing quote and
  what follows it. A backslash escapes the next byte, and a doubled quote stands for one quote.
\<close>

definition unescape_byte :: "char \<Rightarrow> char" where
  "unescape_byte c =
     (if c = CHR ''0'' then CHR 0x00 else if c = CHR ''b'' then CHR 0x08 else if c = CHR ''n'' then CHR 0x0A
      else if c = CHR ''r'' then CHR 0x0D else if c = CHR ''t'' then CHR 0x09 else if c = CHR ''Z'' then CHR 0x1A else c)"

fun read_literal :: "string \<Rightarrow> (string \<times> string) option" where
  "read_literal [] = None"
| "read_literal [c] = (if c = CHR 0x27 then Some ([], []) else None)"
| "read_literal (c # d # s) =
     (if c = CHR 0x5C then map_option (\<lambda>(t, r). (unescape_byte d # t, r)) (read_literal s)
      else if c = CHR 0x27 then
        if d = CHR 0x27 then map_option (\<lambda>(t, r). (c # t, r)) (read_literal s) else Some ([], d # s)
      else map_option (\<lambda>(t, r). (c # t, r)) (read_literal (d # s)))"

lemma EncodeMap_cases:
  "EncodeMap w = DONTESCAPE \<and> w \<noteq> CHR 0x27 \<and> w \<noteq> CHR 0x5C \<or> EncodeMap w \<noteq> DONTESCAPE \<and> unescape_byte (EncodeMap w) = w"
  by (auto simp: EncodeMap_def encodeRef_def DONTESCAPE_def unescape_byte_def)

lemma read_literal_plain:
  "c \<noteq> CHR 0x5C \<Longrightarrow> c \<noteq> CHR 0x27 \<Longrightarrow> s \<noteq> [] \<Longrightarrow> read_literal (c # s) = map_option (\<lambda>(t, r). (c # t, r)) (read_literal s)"
  by (cases s) simp_all

text \<open>
  C35. An escaped text between quotes is read as exactly that text: no byte of it ends the
  literal early, and what follows the closing quote is left for the parser.
\<close>

theorem escape_literal:
  assumes "take 1 rest \<noteq> [CHR 0x27]"
  shows "read_literal (Escape s @ CHR 0x27 # rest) = Some (s, rest)"
proof (induction s)
  case Nil
  then show ?case using assms by (cases rest) simp_all
next
  case (Cons w s)
  show ?case
  proof (cases "EncodeMap w = DONTESCAPE")
    case True
    then show ?thesis using Cons EncodeMap_cases [of w] by (simp add: read_literal_plain)
  next
    case False
    then show ?thesis using Cons EncodeMap_cases [of w] by simp
  qed
qed

theorem escape_literal_witness: "read_literal (Escape [CHR 0x27] @ [CHR 0x27] @ '' or'') = Some ([CHR 0x27], '' or'')"
  using escape_literal [of "'' or''" "[CHR 0x27]"] by simp

section \<open>Passwords\<close>

lemma xor_byte_cancel: "xor_byte (xor_byte a b) b = a"
proof -
  have "of_byte (byte_of w) = (w :: 8 word)" for w
    using unsigned_less [of w, where 'a = nat] by (intro of_byte_byte_of) simp
  moreover have "byte_of (of_byte a :: 8 word) = a" by (simp add: byte_of_def unat_of_byte)
  ultimately show ?thesis by (simp add: xor_byte_def xor.assoc)
qed

lemma map2_xor_cancel: "length a = length b \<Longrightarrow> map2 xor_byte (map2 xor_byte a b) b = a"
  by (induction a b rule: list_induct2) (simp_all add: xor_byte_cancel)

text \<open>
  Who knows the twice-hashed password can recover the once-hashed one from an answer to a
  challenge, and check it: that is how the server authenticates.
\<close>

lemma CalcPassword_check:
  assumes "\<And>x. length (sha1 x) = 20" "password \<noteq> []"
  obtains token where "CalcPassword sha1 scramble password = Some token" "length token = 20"
    "map2 xor_byte (sha1 (scramble @ sha1 (sha1 password))) token = sha1 password"
proof -
  let ?s = "sha1 (scramble @ sha1 (sha1 password))"
  have "map2 xor_byte ?s (map2 xor_byte ?s (sha1 password)) = map2 xor_byte (map2 xor_byte (sha1 password) ?s) ?s"
    by (rule nth_equalityI) (simp_all add: assms(1) xor_byte_def xor.commute)
  also have "\<dots> = sha1 password" by (rule map2_xor_cancel) (simp add: assms(1))
  finally show ?thesis using that [of "map2 xor_byte ?s (sha1 password)"] assms by (simp add: CalcPassword_def Let_def)
qed

end
