(* ===== verification/MysqlField.thy ===== *)
theory MysqlField
  imports MysqlUtil
begin

text \<open>
  Column definitions and rows of a MySQL result (\<open>mysql/field.go\<close>, \<open>mysql/rowdata.go\<close>). A float
  is its IEEE 754 bits; \<open>strconv.ParseFloat\<close> is the argument \<open>parse_float\<close>. A value that is parsed
  again into an old list of values keeps the parts that are not assigned, as in the code.
\<close>

section \<open>Columns\<close>

abbreviation MYSQL_TYPE_DECIMAL :: "8 word" where "MYSQL_TYPE_DECIMAL \<equiv> 0"
abbreviation MYSQL_TYPE_TINY :: "8 word" where "MYSQL_TYPE_TINY \<equiv> 1"
abbreviation MYSQL_TYPE_SHORT :: "8 word" where "MYSQL_TYPE_SHORT \<equiv> 2"
abbreviation MYSQL_TYPE_LONG :: "8 word" where "MYSQL_TYPE_LONG \<equiv> 3"
abbreviation MYSQL_TYPE_FLOAT :: "8 word" where "MYSQL_TYPE_FLOAT \<equiv> 4"
abbreviation MYSQL_TYPE_DOUBLE :: "8 word" where "MYSQL_TYPE_DOUBLE \<equiv> 5"
abbreviation MYSQL_TYPE_NULL :: "8 word" where "MYSQL_TYPE_NULL \<equiv> 6"
abbreviation MYSQL_TYPE_TIMESTAMP :: "8 word" where "MYSQL_TYPE_TIMESTAMP \<equiv> 7"
abbreviation MYSQL_TYPE_LONGLONG :: "8 word" where "MYSQL_TYPE_LONGLONG \<equiv> 8"
abbreviation MYSQL_TYPE_INT24 :: "8 word" where "MYSQL_TYPE_INT24 \<equiv> 9"
abbreviation MYSQL_TYPE_DATE :: "8 word" where "MYSQL_TYPE_DATE \<equiv> 10"
abbreviation MYSQL_TYPE_TIME :: "8 word" where "MYSQL_TYPE_TIME \<equiv> 11"
abbreviation MYSQL_TYPE_DATETIME :: "8 word" where "MYSQL_TYPE_DATETIME \<equiv> 12"
abbreviation MYSQL_TYPE_YEAR :: "8 word" where "MYSQL_TYPE_YEAR \<equiv> 13"
abbreviation MYSQL_TYPE_NEWDATE :: "8 word" where "MYSQL_TYPE_NEWDATE \<equiv> 14"
abbreviation MYSQL_TYPE_VARCHAR :: "8 word" where "MYSQL_TYPE_VARCHAR \<equiv> 15"
abbreviation MYSQL_TYPE_BIT :: "8 word" where "MYSQL_TYPE_BIT \<equiv> 16"
abbreviation MYSQL_TYPE_JSON :: "8 word" where "MYSQL_TYPE_JSON \<equiv> 0xf5"
abbreviation MYSQL_TYPE_NEWDECIMAL :: "8 word" where "MYSQL_TYPE_NEWDECIMAL \<equiv> 0xf6"
abbreviation MYSQL_TYPE_ENUM :: "8 word" where "MYSQL_TYPE_ENUM \<equiv> 0xf7"
abbreviation MYSQL_TYPE_SET :: "8 word" where "MYSQL_TYPE_SET \<equiv> 0xf8"
abbreviation MYSQL_TYPE_TINY_BLOB :: "8 word" where "MYSQL_TYPE_TINY_BLOB \<equiv> 0xf9"
abbreviation MYSQL_TYPE_MEDIUM_BLOB :: "8 word" where "MYSQL_TYPE_MEDIUM_BLOB \<equiv> 0xfa"
abbreviation MYSQL_TYPE_LONG_BLOB :: "8 word" where "MYSQL_TYPE_LONG_BLOB \<equiv> 0xfb"
abbreviation MYSQL_TYPE_BLOB :: "8 word" where "MYSQL_TYPE_BLOB \<equiv> 0xfc"
abbreviation MYSQL_TYPE_VAR_STRING :: "8 word" where "MYSQL_TYPE_VAR_STRING \<equiv> 0xfd"
abbreviation MYSQL_TYPE_STRING :: "8 word" where "MYSQL_TYPE_STRING \<equiv> 0xfe"
abbreviation MYSQL_TYPE_GEOMETRY :: "8 word" where "MYSQL_TYPE_GEOMETRY \<equiv> 0xff"

abbreviation NOT_NULL_FLAG :: "16 word" where "NOT_NULL_FLAG \<equiv> 1"
abbreviation UNSIGNED_FLAG :: "16 word" where "UNSIGNED_FLAG \<equiv> 32"
abbreviation BINARY_FLAG :: "16 word" where "BINARY_FLAG \<equiv> 128"

abbreviation ErrMalformPacket :: gerr where "ErrMalformPacket \<equiv> ErrText ''Malform packet error''"

record Field =
  f_Data :: bytes
  f_Schema :: bytes
  f_Table :: bytes
  f_OrgTable :: bytes
  f_Name :: bytes
  f_OrgName :: bytes
  f_Charset :: "16 word"
  f_ColumnLength :: "32 word"
  f_Type :: "8 word"
  f_Flag :: "16 word"
  f_Decimal :: "8 word"
  f_DefaultValueLength :: "64 word"
  f_DefaultValue :: "bytes option"

text \<open>\<open>new(Field)\<close>\<close>

definition zero_Field :: Field where
  "zero_Field = \<lparr>f_Data = [], f_Schema = [], f_Table = [], f_OrgTable = [], f_Name = [], f_OrgName = [], f_Charset = 0,
     f_ColumnLength = 0, f_Type = 0, f_Flag = 0, f_Decimal = 0, f_DefaultValueLength = 0, f_DefaultValue = None\<rparr>"

definition from_pos :: "bytes \<Rightarrow> int \<Rightarrow> bytes result" where
  "from_pos p pos = (if 0 \<le> pos \<and> pos \<le> int (length p) then Inr (drop (nat pos) p) else Inl Panic)"

text \<open>A string at a position, and the position behind it.\<close>

definition string_at :: "bytes \<Rightarrow> int \<Rightarrow> (bytes \<times> int) result" where
  "string_at p pos = rbind (from_pos p pos) (\<lambda>b. rbind (LengthEncodedString b) (\<lambda>(v, _, n). Inr (v, pos + int n)))"

definition word_at :: "nat \<Rightarrow> bytes \<Rightarrow> int \<Rightarrow> 'a::len word result" where
  "word_at k p pos = rbind (from_pos p pos) (le_word k)"

definition byte_at :: "bytes \<Rightarrow> int \<Rightarrow> 8 word result" where
  "byte_at p pos = rbind (index p (nat pos)) (\<lambda>c. Inr (of_byte c))"

text \<open>The end of \<open>Parse\<close>: a default value, if there is more data. The sums are on 64 bits.\<close>

definition default_value :: "bytes \<Rightarrow> int \<Rightarrow> Field \<Rightarrow> Field result" where
  "default_value p pos f =
     (if int (length p) > pos then
        rbind (LengthEncodedInt (drop (nat pos) p)) (\<lambda>(num, _, n).
          let pos = pos + int n; end = wrap64 (pos + sint num)
          in if end > int (length p) then Inl ErrMalformPacket
             else if end < pos then Inl Panic
             else Inr (f\<lparr>f_DefaultValueLength := num, f_DefaultValue := Some (take (nat (end - pos)) (drop (nat pos) p))\<rparr>))
      else Inr f)"

definition Field_Parse :: "bytes \<Rightarrow> Field \<Rightarrow> Field result" where
  "Field_Parse p f =
     rbind (SkipLengthEncodedString p) (\<lambda>pos.
     rbind (string_at p pos) (\<lambda>(Schema, pos).
     rbind (string_at p pos) (\<lambda>(Table, pos).
     rbind (string_at p pos) (\<lambda>(OrgTable, pos).
     rbind (string_at p pos) (\<lambda>(Name, pos).
     rbind (string_at p pos) (\<lambda>(OrgName, pos).
     let pos = pos + 1
     in rbind (word_at 2 p pos) (\<lambda>Charset.
        rbind (word_at 4 p (pos + 2)) (\<lambda>ColumnLength.
        rbind (byte_at p (pos + 6)) (\<lambda>Type.
        rbind (word_at 2 p (pos + 7)) (\<lambda>Flag.
        rbind (byte_at p (pos + 9)) (\<lambda>Decimal.
        default_value p (pos + 12)
          (f\<lparr>f_Data := p, f_Schema := Schema, f_Table := Table, f_OrgTable := OrgTable, f_Name := Name, f_OrgName := OrgName,
             f_Charset := Charset, f_ColumnLength := ColumnLength, f_Type := Type, f_Flag := Flag, f_Decimal := Decimal,
             f_DefaultValue := None\<rparr>))))))))))))"

definition FieldData_Parse :: "bytes \<Rightarrow> Field result" where
  "FieldData_Parse p = Field_Parse p zero_Field"

definition Field_Dump :: "Field option \<Rightarrow> bytes" where
  "Field_Dump r =
     (let f = (case r of None \<Rightarrow> zero_Field | Some f \<Rightarrow> f)
      in PutLengthEncodedString ''def'' @ PutLengthEncodedString (f_Schema f) @ PutLengthEncodedString (f_Table f) @
         PutLengthEncodedString (f_OrgTable f) @ PutLengthEncodedString (f_Name f) @ PutLengthEncodedString (f_OrgName f) @
         [CHR 0x0c] @ Uint16ToBytes (f_Charset f) @ Uint32ToBytes (f_ColumnLength f) @ [byte_of (f_Type f)] @
         Uint16ToBytes (f_Flag f) @ [byte_of (f_Decimal f)] @ [CHR 0x00, CHR 0x00] @
         (case f_DefaultValue f of None \<Rightarrow> [] | Some v \<Rightarrow> Uint64ToBytes (f_DefaultValueLength f) @ v))"

section \<open>Values\<close>

datatype FieldValueType = FieldValueTypeNull | FieldValueTypeUnsigned | FieldValueTypeSigned | FieldValueTypeFloat | FieldValueTypeString

record FieldValue =
  fv_Type :: FieldValueType
  fv_value :: "64 word"
  fv_str :: bytes

definition zero_FieldValue :: FieldValue where
  "zero_FieldValue = \<lparr>fv_Type = FieldValueTypeNull, fv_value = 0, fv_str = []\<rparr>"

text \<open>
  The Go values that pass through an \<open>interface{}\<close>, by their type; floats are bits. A nil slice,
  and an empty string with no data pointer, is \<open>None\<close>. (The bytes of a parsed value are never
  compared with nil.)
\<close>

datatype goval =
    VInt8 "8 word" | VInt16 "16 word" | VInt32 "32 word" | VInt64 "64 word" | VInt "64 word"
  | VUint8 "8 word" | VUint16 "16 word" | VUint32 "32 word" | VUint64 "64 word" | VUint "64 word"
  | VFloat32 "32 word" | VFloat64 "64 word"
  | VBytes "bytes option" | VString "bytes option" | VNil | VOther string

definition AsUint64 :: "FieldValue \<Rightarrow> 64 word" where
  "AsUint64 fv = fv_value fv"

definition AsInt64 :: "FieldValue \<Rightarrow> 64 word" where
  "AsInt64 fv = fv_value fv"

definition AsFloat64 :: "FieldValue \<Rightarrow> 64 word" where
  "AsFloat64 fv = fv_value fv"

definition AsString :: "FieldValue \<Rightarrow> bytes" where
  "AsString fv = fv_str fv"

definition FieldValue_Value :: "FieldValue \<Rightarrow> goval" where
  "FieldValue_Value fv =
     (case fv_Type fv of
        FieldValueTypeUnsigned \<Rightarrow> VUint64 (AsUint64 fv)
      | FieldValueTypeSigned \<Rightarrow> VInt64 (AsInt64 fv)
      | FieldValueTypeFloat \<Rightarrow> VFloat64 (AsFloat64 fv)
      | FieldValueTypeString \<Rightarrow> VBytes (Some (AsString fv))
      | FieldValueTypeNull \<Rightarrow> VNil)"

section \<open>Rows in the text protocol\<close>

definition isUnsigned :: "Field \<Rightarrow> bool" where
  "isUnsigned f \<longleftrightarrow> f_Flag f AND UNSIGNED_FLAG \<noteq> 0"

definition text_value :: "(string \<Rightarrow> 64 word result) \<Rightarrow> Field \<Rightarrow> bytes \<Rightarrow> FieldValue \<Rightarrow> FieldValue result" where
  "text_value parse_float f v d =
     (if f_Type f \<in> {MYSQL_TYPE_TINY, MYSQL_TYPE_SHORT, MYSQL_TYPE_INT24, MYSQL_TYPE_LONGLONG, MYSQL_TYPE_LONG, MYSQL_TYPE_YEAR} then
        if isUnsigned f
        then rbind (ParseUint v) (\<lambda>val. Inr (d\<lparr>fv_Type := FieldValueTypeUnsigned, fv_value := word_of_int val\<rparr>))
        else rbind (ParseInt v) (\<lambda>val. Inr (d\<lparr>fv_Type := FieldValueTypeSigned, fv_value := word_of_int val\<rparr>))
      else if f_Type f \<in> {MYSQL_TYPE_FLOAT, MYSQL_TYPE_DOUBLE}
      then rbind (parse_float v) (\<lambda>val. Inr (d\<lparr>fv_Type := FieldValueTypeFloat, fv_value := val\<rparr>))
      else Inr (d\<lparr>fv_Type := FieldValueTypeString, fv_str := v\<rparr>))"

text \<open>The loop over the columns; \<open>p\<close> is the rest of the row.\<close>

fun text_loop :: "(string \<Rightarrow> 64 word result) \<Rightarrow> bytes \<Rightarrow> Field list \<Rightarrow> FieldValue list \<Rightarrow> FieldValue list result" where
  "text_loop parse_float p (f # fs) (d # ds) =
     rbind (LengthEncodedString p) (\<lambda>(v, isNull, n).
     rbind (if isNull then Inr (d\<lparr>fv_Type := FieldValueTypeNull\<rparr>) else text_value parse_float f v d) (\<lambda>d'.
     rbind (text_loop parse_float (drop n p) fs ds) (\<lambda>ds'. Inr (d' # ds'))))"
| "text_loop parse_float p _ _ = Inr []"

text \<open>The list of values to fill: the given one, made long enough and cut to the number of columns.\<close>

definition row_dst :: "Field list \<Rightarrow> FieldValue list \<Rightarrow> FieldValue list" where
  "row_dst f dst = take (length f) (dst @ replicate (length f - length dst) zero_FieldValue)"

definition ParseText :: "(string \<Rightarrow> 64 word result) \<Rightarrow> bytes \<Rightarrow> Field list \<Rightarrow> FieldValue list \<Rightarrow> FieldValue list result" where
  "ParseText parse_float p f dst = text_loop parse_float p f (row_dst f dst)"

section \<open>Rows in the binary protocol\<close>

text \<open>The conversion of a \<open>float32\<close> to a \<open>float64\<close>, on the bits.\<close>

fun normalize_mantissa :: "nat \<Rightarrow> nat \<Rightarrow> nat \<Rightarrow> nat \<times> nat" where
  "normalize_mantissa 0 e m = (e, m)"
| "normalize_mantissa (Suc k) e m = (if m < 2 ^ 23 then normalize_mantissa k (e - 1) (2 * m) else (e, m))"

definition float32_to_64 :: "32 word \<Rightarrow> 64 word" where
  "float32_to_64 w =
     (let s = unat w div 2 ^ 31; e = unat w div 2 ^ 23 mod 2 ^ 8; m = unat w mod 2 ^ 23;
          (e', m') = (if e = 255 then (2047, if m = 0 then 0 else m * 2 ^ 29 mod 2 ^ 51 + 2 ^ 51)
                      else if e > 0 then (e + 896, m * 2 ^ 29)
                      else if m = 0 then (0, 0)
                      else let (e1, m1) = normalize_mantissa 23 897 m in (e1, (m1 - 2 ^ 23) * 2 ^ 29))
      in of_nat (s * 2 ^ 63 + e' * 2 ^ 52 + m'))"

definition sext :: "'a::len word \<Rightarrow> 64 word" where
  "sext w = word_of_int (sint w)"

definition zext :: "'a::len word \<Rightarrow> 64 word" where
  "zext w = word_of_nat (unat w)"

text \<open>An integer column of \<open>k\<close> bytes at \<open>pos\<close>; \<open>u\<close> and \<open>s\<close> read it without and with a sign.\<close>

definition int_value :: "nat \<Rightarrow> (bytes \<Rightarrow> 'a::len word result) \<Rightarrow> (bytes \<Rightarrow> 'a word result) \<Rightarrow> slice \<Rightarrow> Field \<Rightarrow> nat \<Rightarrow> FieldValue \<Rightarrow>
    (FieldValue \<times> nat) result" where
  "int_value k u s p f pos d =
     rbind (slice_range p pos (pos + k)) (\<lambda>b.
       if isUnsigned f then rbind (u b) (\<lambda>v. Inr (d\<lparr>fv_Type := FieldValueTypeUnsigned, fv_value := zext v\<rparr>, pos + k))
       else rbind (s b) (\<lambda>v. Inr (d\<lparr>fv_Type := FieldValueTypeSigned, fv_value := sext v\<rparr>, pos + k)))"

text \<open>A date or time column: its length, then its bytes in the format \<open>fmt\<close>.\<close>

definition time_value :: "(int \<Rightarrow> slice \<Rightarrow> bytes result) \<Rightarrow> slice \<Rightarrow> nat \<Rightarrow> FieldValue \<Rightarrow> (FieldValue \<times> nat) result" where
  "time_value fmt p pos d =
     rbind (slice_from p pos) (\<lambda>q. rbind (LengthEncodedInt (fst q)) (\<lambda>(num, isNull, n).
       if isNull then Inr (d\<lparr>fv_Type := FieldValueTypeNull\<rparr>, pos + n)
       else rbind (slice_from p (pos + n)) (\<lambda>q'. rbind (fmt (sint num) q') (\<lambda>v.
         Inr (d\<lparr>fv_Type := FieldValueTypeString, fv_str := v\<rparr>, pos + n + nat (sint num))))))"

definition binary_value :: "slice \<Rightarrow> Field \<Rightarrow> nat \<Rightarrow> FieldValue \<Rightarrow> (FieldValue \<times> nat) result" where
  "binary_value p f pos d =
     (if f_Type f = MYSQL_TYPE_NULL then Inr (d\<lparr>fv_Type := FieldValueTypeNull\<rparr>, pos)
      else if f_Type f = MYSQL_TYPE_TINY then int_value 1 ParseBinaryUint8 ParseBinaryInt8 p f pos d
      else if f_Type f \<in> {MYSQL_TYPE_SHORT, MYSQL_TYPE_YEAR} then int_value 2 ParseBinaryUint16 ParseBinaryInt16 p f pos d
      else if f_Type f \<in> {MYSQL_TYPE_INT24, MYSQL_TYPE_LONG} then int_value 4 ParseBinaryUint32 ParseBinaryInt32 p f pos d
      else if f_Type f = MYSQL_TYPE_LONGLONG then int_value 8 ParseBinaryUint64 ParseBinaryInt64 p f pos d
      else if f_Type f = MYSQL_TYPE_FLOAT then
        rbind (slice_range p pos (pos + 4)) (\<lambda>b. rbind (ParseBinaryFloat32 b) (\<lambda>v.
          Inr (d\<lparr>fv_Type := FieldValueTypeFloat, fv_value := float32_to_64 v\<rparr>, pos + 4)))
      else if f_Type f = MYSQL_TYPE_DOUBLE then
        rbind (slice_range p pos (pos + 8)) (\<lambda>b. rbind (ParseBinaryFloat64 b) (\<lambda>v.
          Inr (d\<lparr>fv_Type := FieldValueTypeFloat, fv_value := v\<rparr>, pos + 8)))
      else if f_Type f \<in> {MYSQL_TYPE_DECIMAL, MYSQL_TYPE_NEWDECIMAL, MYSQL_TYPE_VARCHAR, MYSQL_TYPE_BIT, MYSQL_TYPE_ENUM,
          MYSQL_TYPE_SET, MYSQL_TYPE_TINY_BLOB, MYSQL_TYPE_MEDIUM_BLOB, MYSQL_TYPE_LONG_BLOB, MYSQL_TYPE_BLOB,
          MYSQL_TYPE_VAR_STRING, MYSQL_TYPE_STRING, MYSQL_TYPE_GEOMETRY, MYSQL_TYPE_JSON} then
        rbind (slice_from p pos) (\<lambda>q. rbind (LengthEncodedString (fst q)) (\<lambda>(v, isNull, n).
          Inr (if isNull then d\<lparr>fv_Type := FieldValueTypeNull\<rparr> else d\<lparr>fv_Type := FieldValueTypeString, fv_str := v\<rparr>, pos + n)))
      else if f_Type f \<in> {MYSQL_TYPE_DATE, MYSQL_TYPE_NEWDATE} then time_value FormatBinaryDate p pos d
      else if f_Type f \<in> {MYSQL_TYPE_TIMESTAMP, MYSQL_TYPE_DATETIME} then time_value FormatBinaryDateTime p pos d
      else if f_Type f = MYSQL_TYPE_TIME then time_value FormatBinaryTime p pos d
      else Inl (ErrText (''Stmt Unknown FieldType '' @ FormatInt (uint (f_Type f)) @ '' '' @ f_Name f)))"

definition null_bit :: "bytes \<Rightarrow> nat \<Rightarrow> bool" where
  "null_bit nullBitmap i \<longleftrightarrow> bit (of_byte (nullBitmap ! ((i + 2) div 8)) :: 8 word) ((i + 2) mod 8)"

text \<open>The loop over the columns; \<open>i\<close> is the number of the next one.\<close>

fun binary_loop :: "slice \<Rightarrow> bytes \<Rightarrow> nat \<Rightarrow> nat \<Rightarrow> Field list \<Rightarrow> FieldValue list \<Rightarrow> FieldValue list result" where
  "binary_loop p nullBitmap i pos (f # fs) (d # ds) =
     rbind (if null_bit nullBitmap i then Inr (d\<lparr>fv_Type := FieldValueTypeNull\<rparr>, pos) else binary_value p f pos d) (\<lambda>(d', pos').
     rbind (binary_loop p nullBitmap (i + 1) pos' fs ds) (\<lambda>ds'. Inr (d' # ds')))"
| "binary_loop p nullBitmap i pos _ _ = Inr []"

definition ParseBinary :: "slice \<Rightarrow> Field list \<Rightarrow> FieldValue list \<Rightarrow> FieldValue list result" where
  "ParseBinary p f dst =
     rbind (index (fst p) 0) (\<lambda>h.
       if h \<noteq> CHR 0x00 then Inl ErrMalformPacket
       else let pos = 1 + (length f + 7 + 2) div 8
         in rbind (slice_range p 1 pos) (\<lambda>nullBitmap. binary_loop p nullBitmap 0 pos f (row_dst f dst)))"

definition RowData_Parse :: "(string \<Rightarrow> 64 word result) \<Rightarrow> slice \<Rightarrow> Field list \<Rightarrow> bool \<Rightarrow> FieldValue list \<Rightarrow> FieldValue list result" where
  "RowData_Parse parse_float p f binary dst = (if binary then ParseBinary p f dst else ParseText parse_float (fst p) f dst)"

section \<open>The types of parsed values\<close>

definition column_type :: "Field \<Rightarrow> FieldValueType" where
  "column_type f =
     (if f_Type f \<in> {MYSQL_TYPE_TINY, MYSQL_TYPE_SHORT, MYSQL_TYPE_INT24, MYSQL_TYPE_LONGLONG, MYSQL_TYPE_LONG, MYSQL_TYPE_YEAR}
      then if isUnsigned f then FieldValueTypeUnsigned else FieldValueTypeSigned
      else if f_Type f \<in> {MYSQL_TYPE_FLOAT, MYSQL_TYPE_DOUBLE} then FieldValueTypeFloat
      else FieldValueTypeString)"

abbreviation typed :: "Field \<Rightarrow> FieldValue \<Rightarrow> bool" where
  "typed f d \<equiv> fv_Type d \<in> {FieldValueTypeNull, column_type f}"

lemma text_value_typed: "text_value parse_float f v d = Inr d' \<Longrightarrow> typed f d'"
  by (auto simp: text_value_def column_type_def rbind_eq_Inr split: if_splits)

lemma text_loop_typed:
  "text_loop parse_float p fs ds = Inr ds' \<Longrightarrow> length ds = length fs \<Longrightarrow> list_all2 typed fs ds'"
proof (induction fs ds arbitrary: p ds' rule: list_induct2')
  case (4 f fs d ds)
  obtain v isNull n d1 ds1 where s: "LengthEncodedString p = Inr (v, isNull, n)"
    "(if isNull then Inr (d\<lparr>fv_Type := FieldValueTypeNull\<rparr>) else text_value parse_float f v d) = Inr d1"
    "text_loop parse_float (drop n p) fs ds = Inr ds1" "ds' = d1 # ds1"
    using "4.prems"(1) by (auto simp: rbind_eq_Inr)
  have "typed f d1" using s(2) text_value_typed [of parse_float f v d d1] by (auto split: if_splits)
  moreover have "list_all2 typed fs ds1" using "4.IH" [OF s(3)] "4.prems"(2) by simp
  ultimately show ?case using s(4) by simp
qed simp_all

lemma int_value_typed: "int_value k u s p f pos d = Inr (d', pos') \<Longrightarrow> fv_Type d' = (if isUnsigned f then FieldValueTypeUnsigned else FieldValueTypeSigned)"
  by (cases "isUnsigned f") (auto simp: int_value_def rbind_eq_Inr)

lemma time_value_typed: "time_value fmt p pos d = Inr (d', pos') \<Longrightarrow> fv_Type d' \<in> {FieldValueTypeNull, FieldValueTypeString}"
  by (auto simp: time_value_def rbind_eq_Inr split: if_splits)

lemma binary_value_typed:
  assumes "binary_value p f pos d = Inr (d', pos')"
  shows "typed f d'"
proof (cases "f_Type f \<in> {MYSQL_TYPE_TINY, MYSQL_TYPE_SHORT, MYSQL_TYPE_INT24, MYSQL_TYPE_LONGLONG, MYSQL_TYPE_LONG, MYSQL_TYPE_YEAR}")
  case True
  then show ?thesis using assms by (auto simp: binary_value_def column_type_def dest!: int_value_typed split: if_splits)
next
  case False
  then show ?thesis using assms time_value_typed
    by (auto simp: binary_value_def column_type_def rbind_eq_Inr dest!: time_value_typed split: if_split_asm)
qed

lemma binary_loop_typed:
  "binary_loop p nb i pos fs ds = Inr ds' \<Longrightarrow> length ds = length fs \<Longrightarrow> list_all2 typed fs ds'"
proof (induction fs ds arbitrary: i pos ds' rule: list_induct2')
  case (4 f fs d ds)
  obtain d1 pos1 ds1 where s:
    "(if null_bit nb i then Inr (d\<lparr>fv_Type := FieldValueTypeNull\<rparr>, pos) else binary_value p f pos d) = Inr (d1, pos1)"
    "binary_loop p nb (i + 1) pos1 fs ds = Inr ds1" "ds' = d1 # ds1"
    using "4.prems"(1) by (auto simp: rbind_eq_Inr)
  have "typed f d1" using s(1) binary_value_typed [of p f pos d d1 pos1] by (auto split: if_splits)
  moreover have "list_all2 typed fs ds1" using "4.IH" [OF s(2)] "4.prems"(2) by simp
  ultimately show ?case using s(3) by simp
qed simp_all

lemma length_row_dst [simp]: "length (row_dst f dst) = length f"
  by (simp add: row_dst_def)

text \<open>
  C36. A row that is parsed, in either protocol and into whatever old values, has one value for
  each column, and each value is NULL or of the type that the column has: unsigned or signed
  integers for the integer columns by their flag, floats for the float columns, and byte
  strings for all others.
\<close>

theorem row_types:
  "case RowData_Parse parse_float p f binary dst of
     Inl e \<Rightarrow> True
   | Inr ds \<Rightarrow> list_all2 (\<lambda>f d. fv_Type d \<in> {FieldValueTypeNull, column_type f}) f ds"
proof (cases binary)
  case True
  have "list_all2 typed f ds" if r: "ParseBinary p f dst = Inr ds" for ds
  proof -
    obtain nb pos where "binary_loop p nb 0 pos f (row_dst f dst) = Inr ds"
      using r by (auto simp: ParseBinary_def rbind_eq_Inr Let_def split: if_splits)
    then show ?thesis by (rule binary_loop_typed) simp
  qed
  then show ?thesis using True by (simp add: RowData_Parse_def split: sum.split)
next
  case False
  then show ?thesis using text_loop_typed [of parse_float "fst p" f "row_dst f dst"]
    by (simp add: RowData_Parse_def ParseText_def split: sum.split)
qed

section \<open>Column definitions are read back\<close>

lemma string_at_Put:
  "length v < 2 ^ 62 \<Longrightarrow> string_at (pre @ PutLengthEncodedString v @ r) (int (length pre)) = Inr (v, int (length (pre @ PutLengthEncodedString v)))"
  by (simp add: string_at_def from_pos_def LengthEncodedString_Put)

lemma word_at_bytes:
  "LENGTH('a) \<le> 8 * k \<Longrightarrow> word_at k (pre @ le_bytes k (unat (w :: 'a::len word)) @ r) (int (length pre)) = Inr w"
  by (simp add: word_at_def from_pos_def le_word_le_bytes)

lemma byte_at_byte: "byte_at (pre @ [byte_of w] @ r) (int (length pre)) = Inr w"
proof -
  have "unat w < 256" using unsigned_less [of w, where 'a = nat] by simp
  then show ?thesis by (simp add: byte_at_def index_def of_byte_byte_of)
qed

definition names_ok :: "Field \<Rightarrow> bool" where
  "names_ok f \<longleftrightarrow> length (f_Schema f) < 2 ^ 62 \<and> length (f_Table f) < 2 ^ 62 \<and> length (f_OrgTable f) < 2 ^ 62 \<and>
     length (f_Name f) < 2 ^ 62 \<and> length (f_OrgName f) < 2 ^ 62"

text \<open>The strings at the front, and the numbers behind them, of a column definition.\<close>

definition dump_names :: "Field \<Rightarrow> bytes" where
  "dump_names f = PutLengthEncodedString ''def'' @ PutLengthEncodedString (f_Schema f) @ PutLengthEncodedString (f_Table f) @
     PutLengthEncodedString (f_OrgTable f) @ PutLengthEncodedString (f_Name f) @ PutLengthEncodedString (f_OrgName f)"

definition dump_default :: "Field \<Rightarrow> bytes" where
  "dump_default f = (case f_DefaultValue f of None \<Rightarrow> [] | Some v \<Rightarrow> Uint64ToBytes (f_DefaultValueLength f) @ v)"

definition dump_numbers :: "Field \<Rightarrow> bytes" where
  "dump_numbers f = le_bytes 2 (unat (f_Charset f)) @ le_bytes 4 (unat (f_ColumnLength f)) @ [byte_of (f_Type f)] @
     le_bytes 2 (unat (f_Flag f)) @ [byte_of (f_Decimal f)] @ [CHR 0x00, CHR 0x00]"

lemma Field_Dump_parts: "Field_Dump (Some f) = dump_names f @ [CHR 0x0c] @ dump_numbers f @ dump_default f"
  by (simp add: Field_Dump_def dump_names_def dump_numbers_def dump_default_def word_bytes Let_def)

lemma parse_names:
  fixes r :: bytes
  assumes "names_ok f"
  defines "p \<equiv> dump_names f @ r"
  shows "rbind (SkipLengthEncodedString p) (\<lambda>pos. rbind (string_at p pos) (\<lambda>(Schema, pos). rbind (string_at p pos) (\<lambda>(Table, pos).
     rbind (string_at p pos) (\<lambda>(OrgTable, pos). rbind (string_at p pos) (\<lambda>(Name, pos). rbind (string_at p pos) (\<lambda>(OrgName, pos).
       k Schema Table OrgTable Name OrgName pos)))))) =
     k (f_Schema f) (f_Table f) (f_OrgTable f) (f_Name f) (f_OrgName f) (int (length (dump_names f)))"
proof -
  let ?S = PutLengthEncodedString
  define a0 where "a0 = ?S ''def''"
  define a1 where "a1 = a0 @ ?S (f_Schema f)"
  define a2 where "a2 = a1 @ ?S (f_Table f)"
  define a3 where "a3 = a2 @ ?S (f_OrgTable f)"
  define a4 where "a4 = a3 @ ?S (f_Name f)"
  have p: "p = a0 @ ?S (f_Schema f) @ ?S (f_Table f) @ ?S (f_OrgTable f) @ ?S (f_Name f) @ ?S (f_OrgName f) @ r"
    "p = a1 @ ?S (f_Table f) @ ?S (f_OrgTable f) @ ?S (f_Name f) @ ?S (f_OrgName f) @ r"
    "p = a2 @ ?S (f_OrgTable f) @ ?S (f_Name f) @ ?S (f_OrgName f) @ r"
    "p = a3 @ ?S (f_Name f) @ ?S (f_OrgName f) @ r" "p = a4 @ ?S (f_OrgName f) @ r"
    and e: "dump_names f = a4 @ ?S (f_OrgName f)"
    by (simp_all add: p_def dump_names_def a0_def a1_def a2_def a3_def a4_def)
  have n: "length (f_Schema f) < 2 ^ 62" "length (f_Table f) < 2 ^ 62" "length (f_OrgTable f) < 2 ^ 62"
     "length (f_Name f) < 2 ^ 62" "length (f_OrgName f) < 2 ^ 62" using assms(1) by (simp_all add: names_ok_def)
  have s: "string_at p (int (length a0)) = Inr (f_Schema f, int (length a1))" unfolding p(1) a1_def by (rule string_at_Put [OF n(1)])
  have s1: "string_at p (int (length a1)) = Inr (f_Table f, int (length a2))" unfolding p(2) a2_def by (rule string_at_Put [OF n(2)])
  have s2: "string_at p (int (length a2)) = Inr (f_OrgTable f, int (length a3))" unfolding p(3) a3_def by (rule string_at_Put [OF n(3)])
  have s3: "string_at p (int (length a3)) = Inr (f_Name f, int (length a4))" unfolding p(4) a4_def by (rule string_at_Put [OF n(4)])
  have s4: "string_at p (int (length a4)) = Inr (f_OrgName f, int (length (dump_names f)))" unfolding p(5) e by (rule string_at_Put [OF n(5)])
  have "SkipLengthEncodedString p = Inr (int (length a0))" unfolding p(1) a0_def by (rule LengthEncodedString_Put(2)) simp
  then show ?thesis by (simp add: s s1 s2 s3 s4)
qed


lemma Field_Parse_Dump:
  fixes f g :: Field
  assumes "names_ok f"
  defines "p \<equiv> Field_Dump (Some f)"
  shows "Field_Parse p g = default_value p (int (length (dump_names f) + 13))
    (g\<lparr>f_Data := p, f_Schema := f_Schema f, f_Table := f_Table f, f_OrgTable := f_OrgTable f, f_Name := f_Name f,
       f_OrgName := f_OrgName f, f_Charset := f_Charset f, f_ColumnLength := f_ColumnLength f, f_Type := f_Type f,
       f_Flag := f_Flag f, f_Decimal := f_Decimal f, f_DefaultValue := None\<rparr>)"
proof -
  define b0 where "b0 = dump_names f @ [CHR 0x0c]"
  define b1 where "b1 = b0 @ le_bytes 2 (unat (f_Charset f))"
  define b2 where "b2 = b1 @ le_bytes 4 (unat (f_ColumnLength f))"
  define b3 where "b3 = b2 @ [byte_of (f_Type f)]"
  define b4 where "b4 = b3 @ le_bytes 2 (unat (f_Flag f))"
  let ?N = "int (length (dump_names f))"
  have p: "p = b0 @ le_bytes 2 (unat (f_Charset f)) @ drop (length b1) p"
    "p = b1 @ le_bytes 4 (unat (f_ColumnLength f)) @ drop (length b2) p"
    "p = b2 @ [byte_of (f_Type f)] @ drop (length b3) p"
    "p = b3 @ le_bytes 2 (unat (f_Flag f)) @ drop (length b4) p"
    "p = b4 @ [byte_of (f_Decimal f)] @ [CHR 0x00, CHR 0x00] @ dump_default f"
    by (simp_all add: p_def Field_Dump_parts dump_numbers_def b0_def b1_def b2_def b3_def b4_def)
  have l: "int (length b0) = ?N + 1" "int (length b1) = ?N + 3" "int (length b2) = ?N + 7" "int (length b3) = ?N + 8" "int (length b4) = ?N + 10"
    by (simp_all add: b0_def b1_def b2_def b3_def b4_def)
  have w: "word_at 2 p (?N + 1) = Inr (f_Charset f)" unfolding l(1) [symmetric] by (subst p(1)) (rule word_at_bytes, simp)
  have w1: "word_at 4 p (?N + 3) = Inr (f_ColumnLength f)" unfolding l(2) [symmetric] by (subst p(2)) (rule word_at_bytes, simp)
  have w2: "byte_at p (?N + 7) = Inr (f_Type f)" unfolding l(3) [symmetric] by (subst p(3)) (rule byte_at_byte)
  have w3: "word_at 2 p (?N + 8) = Inr (f_Flag f)" unfolding l(4) [symmetric] by (subst p(4)) (rule word_at_bytes, simp)
  have w4: "byte_at p (?N + 10) = Inr (f_Decimal f)" unfolding l(5) [symmetric] by (subst p(5)) (rule byte_at_byte)
  have "p = dump_names f @ [CHR 0x0c] @ dump_numbers f @ dump_default f" unfolding p_def by (rule Field_Dump_parts)
  note names = parse_names [OF assms(1), of "[CHR 0x0c] @ dump_numbers f @ dump_default f", folded this]
  show ?thesis unfolding Field_Parse_def names by (simp add: Let_def w w1 w2 w3 w4 add.assoc)
qed

lemma length_Field_Dump: "length (Field_Dump (Some f)) = length (dump_names f) + 13 + length (dump_default f)"
  by (simp add: Field_Dump_parts dump_numbers_def)

lemma drop_Field_Dump: "drop (length (dump_names f) + 13) (Field_Dump (Some f)) = dump_default f"
  by (simp add: Field_Dump_parts dump_numbers_def)

lemma drop_Field_Dump_default: "drop (length (dump_names f) + 14) (Field_Dump (Some f)) = drop 1 (dump_default f)"
  by (simp add: Field_Dump_parts dump_numbers_def)

text \<open>A default value is written behind a length of eight bytes, and read behind a length prefix.\<close>

lemma default_value_Dump:
  assumes "f_DefaultValue f = Some v" "f_DefaultValueLength f = of_nat (length v)" "length v \<le> 250" "length (dump_names f) < 2 ^ 62"
  shows "default_value (Field_Dump (Some f)) (int (length (dump_names f) + 13)) g =
    Inr (g\<lparr>f_DefaultValueLength := of_nat (length v), f_DefaultValue := Some (take (length v) (replicate 7 (CHR 0x00) @ v))\<rparr>)"
proof -
  let ?n = "of_nat (length v) :: 64 word" let ?N = "length (dump_names f) + 13"
  have u: "unat ?n = length v" using assms(3) by (simp add: unat_of_nat)
  have s: "sint ?n = int (length v)" using assms(3) by (simp add: signed_of_nat signed_take_bit_int_eq_self)
  have "dump_default f = le_bytes 8 (length v) @ v" by (simp add: dump_default_def assms(1,2) word_bytes u)
  moreover have "le_bytes 8 (length v) = char_of (length v) # replicate 7 (CHR 0x00)"
  proof -
    have z: "length v div 2 ^ k = 0" if "8 \<le> k" for k
    proof -
      have "length v < 2 ^ 8" using assms(3) by simp
      also have "(2 :: nat) ^ 8 \<le> 2 ^ k" using that by (intro power_increasing) simp_all
      finally show ?thesis by simp
    qed
    have "char_of (0 :: nat) = CHR 0x00" by code_simp
    moreover have "replicate 7 c = [c, c, c, c, c, c, c]" for c :: char by (simp add: numeral_eq_Suc)
    ultimately show ?thesis unfolding le_bytes_8 by (simp only: z le_refl)
  qed
  ultimately have d: "dump_default f = char_of (length v) # replicate 7 (CHR 0x00) @ v" by simp
  have "PutLengthEncodedInt ?n = [char_of (length v)]" using u assms(3) by (simp add: PutLengthEncodedInt_bytes)
  then have "LengthEncodedInt (dump_default f) = Inr (?n, False, 1)" using LengthEncodedInt_Put [of ?n "replicate 7 (CHR 0x00) @ v"] d by simp
  moreover have "wrap64 (int (?N + 1) + int (length v)) = int (?N + 1 + length v)" using assms(3,4) by (simp add: is_int64_def)
  moreover have "drop (length (dump_names f) + 14) (Field_Dump (Some f)) = replicate 7 (CHR 0x00) @ v"
    unfolding drop_Field_Dump_default d by simp
  ultimately show ?thesis using drop_Field_Dump [of f] length_Field_Dump [of f] d s
    by (simp add: default_value_def Let_def nat_add_distrib add.commute)
qed


text \<open>
  C37. A column definition without a default value is read back from its bytes as it was, with
  the bytes themselves as its data. One with a default value of 1 to 250 bytes is not: \<open>Dump\<close>
  writes its length in eight bytes where \<open>Parse\<close> expects a length prefix, and what is read is the
  start of seven zero bytes and the value.
\<close>

theorem field_roundtrip:
  assumes "names_ok f" "length (dump_names f) < 2 ^ 62" "1 \<le> length v" "length v \<le> 250"
  shows "FieldData_Parse (Field_Dump (Some (f\<lparr>f_DefaultValue := None, f_DefaultValueLength := 0\<rparr>))) =
      Inr (f\<lparr>f_DefaultValue := None, f_DefaultValueLength := 0,
        f_Data := Field_Dump (Some (f\<lparr>f_DefaultValue := None, f_DefaultValueLength := 0\<rparr>))\<rparr>) \<and>
    (\<exists>g. FieldData_Parse (Field_Dump (Some (f\<lparr>f_DefaultValue := Some v, f_DefaultValueLength := of_nat (length v)\<rparr>))) = Inr g \<and>
      f_DefaultValueLength g = of_nat (length v) \<and> f_DefaultValue g = Some (take (length v) (replicate 7 (CHR 0x00) @ v)))"
proof
  let ?f = "f\<lparr>f_DefaultValue := None, f_DefaultValueLength := 0\<rparr>"
  have "names_ok ?f" using assms(1) by (simp add: names_ok_def)
  moreover have "dump_default ?f = []" by (simp add: dump_default_def)
  ultimately show "FieldData_Parse (Field_Dump (Some ?f)) = Inr (f\<lparr>f_DefaultValue := None, f_DefaultValueLength := 0,
        f_Data := Field_Dump (Some ?f)\<rparr>)"
    using length_Field_Dump [of ?f] by (simp add: FieldData_Parse_def Field_Parse_Dump default_value_def zero_Field_def)
next
  let ?f = "f\<lparr>f_DefaultValue := Some v, f_DefaultValueLength := of_nat (length v)\<rparr>"
  have n: "names_ok ?f" using assms(1) by (simp add: names_ok_def)
  have "length (dump_names ?f) < 2 ^ 62" using assms(2) by (simp add: dump_names_def)
  then show "\<exists>g. FieldData_Parse (Field_Dump (Some ?f)) = Inr g \<and>
      f_DefaultValueLength g = of_nat (length v) \<and> f_DefaultValue g = Some (take (length v) (replicate 7 (CHR 0x00) @ v))"
    unfolding FieldData_Parse_def Field_Parse_Dump [OF n] using assms(4) by (subst default_value_Dump) simp_all
qed

theorem field_roundtrip_witness:
  "\<exists>g. FieldData_Parse (Field_Dump (Some (zero_Field\<lparr>f_DefaultValue := Some ''abc'', f_DefaultValueLength := 3\<rparr>))) = Inr g \<and>
    f_DefaultValue g = Some [CHR 0x00, CHR 0x00, CHR 0x00]"
proof -
  have "length (dump_names zero_Field) < 2 ^ 62"
    by (simp add: dump_names_def zero_Field_def PutLengthEncodedString_def PutLengthEncodedInt_def)
  moreover have "names_ok zero_Field" by (simp add: names_ok_def zero_Field_def)
  ultimately have "\<exists>g. FieldData_Parse (Field_Dump (Some (zero_Field\<lparr>f_DefaultValue := Some ''abc'', f_DefaultValueLength := of_nat (length ''abc'')\<rparr>))) = Inr g \<and>
      f_DefaultValueLength g = of_nat (length ''abc'') \<and> f_DefaultValue g = Some (take (length ''abc'') (replicate 7 (CHR 0x00) @ ''abc''))"
    using field_roundtrip [of zero_Field "''abc''"] by simp
  then show ?thesis by auto
qed

end
