(* ===== verification/MysqlResult.thy ===== *)
theory MysqlResult
  imports MysqlField
begin

text \<open>
  Result sets (\<open>mysql/resultset.go\<close>, \<open>mysql/resultset_helper.go\<close>): building them from Go values in
  the text and the binary protocol, and reading values out of them. What the code does with the
  value of a float is an argument: \<open>format_float\<close> (\<open>strconv.AppendFloat\<close> with format f),
  \<open>float_to_uint\<close>, \<open>int_to_float\<close>, \<open>uint_to_float\<close> (the conversions of the language) and
  \<open>parse_float\<close>. The pool that recycles result sets is left out.
\<close>

section \<open>Formatting values\<close>

definition formatTextValue :: "(64 word \<Rightarrow> string) \<Rightarrow> goval \<Rightarrow> bytes option result" where
  "formatTextValue format_float v =
     (case v of
        VInt8 w \<Rightarrow> Inr (Some (FormatInt (sint w)))
      | VInt16 w \<Rightarrow> Inr (Some (FormatInt (sint w)))
      | VInt32 w \<Rightarrow> Inr (Some (FormatInt (sint w)))
      | VInt64 w \<Rightarrow> Inr (Some (FormatInt (sint w)))
      | VInt w \<Rightarrow> Inr (Some (FormatInt (sint w)))
      | VUint8 w \<Rightarrow> Inr (Some (FormatInt (uint w)))
      | VUint16 w \<Rightarrow> Inr (Some (FormatInt (uint w)))
      | VUint32 w \<Rightarrow> Inr (Some (FormatInt (uint w)))
      | VUint64 w \<Rightarrow> Inr (Some (FormatInt (uint w)))
      | VUint w \<Rightarrow> Inr (Some (FormatInt (uint w)))
      | VFloat32 w \<Rightarrow> Inr (Some (format_float (float32_to_64 w)))
      | VFloat64 w \<Rightarrow> Inr (Some (format_float w))
      | VBytes b \<Rightarrow> Inr b
      | VString b \<Rightarrow> Inr b
      | VNil \<Rightarrow> Inr None
      | VOther t \<Rightarrow> Inl (ErrText (''invalid type '' @ t)))"

definition formatBinaryValue :: "goval \<Rightarrow> bytes option result" where
  "formatBinaryValue v =
     (case v of
        VInt8 w \<Rightarrow> Inr (Some (Uint64ToBytes (sext w)))
      | VInt16 w \<Rightarrow> Inr (Some (Uint64ToBytes (sext w)))
      | VInt32 w \<Rightarrow> Inr (Some (Uint64ToBytes (sext w)))
      | VInt64 w \<Rightarrow> Inr (Some (Uint64ToBytes w))
      | VInt w \<Rightarrow> Inr (Some (Uint64ToBytes w))
      | VUint8 w \<Rightarrow> Inr (Some (Uint64ToBytes (zext w)))
      | VUint16 w \<Rightarrow> Inr (Some (Uint64ToBytes (zext w)))
      | VUint32 w \<Rightarrow> Inr (Some (Uint64ToBytes (zext w)))
      | VUint64 w \<Rightarrow> Inr (Some (Uint64ToBytes w))
      | VUint w \<Rightarrow> Inr (Some (Uint64ToBytes w))
      | VFloat32 w \<Rightarrow> Inr (Some (Uint64ToBytes (float32_to_64 w)))
      | VFloat64 w \<Rightarrow> Inr (Some (Uint64ToBytes w))
      | VBytes b \<Rightarrow> Inr b
      | VString b \<Rightarrow> Inr b
      | VNil \<Rightarrow> Inl (ErrText ''invalid type <nil>'')
      | VOther t \<Rightarrow> Inl (ErrText (''invalid type '' @ t)))"

definition fieldType :: "goval \<Rightarrow> 8 word result" where
  "fieldType v =
     (case v of
        VInt8 _ \<Rightarrow> Inr MYSQL_TYPE_LONGLONG | VInt16 _ \<Rightarrow> Inr MYSQL_TYPE_LONGLONG | VInt32 _ \<Rightarrow> Inr MYSQL_TYPE_LONGLONG
      | VInt64 _ \<Rightarrow> Inr MYSQL_TYPE_LONGLONG | VInt _ \<Rightarrow> Inr MYSQL_TYPE_LONGLONG
      | VUint8 _ \<Rightarrow> Inr MYSQL_TYPE_LONGLONG | VUint16 _ \<Rightarrow> Inr MYSQL_TYPE_LONGLONG | VUint32 _ \<Rightarrow> Inr MYSQL_TYPE_LONGLONG
      | VUint64 _ \<Rightarrow> Inr MYSQL_TYPE_LONGLONG | VUint _ \<Rightarrow> Inr MYSQL_TYPE_LONGLONG
      | VFloat32 _ \<Rightarrow> Inr MYSQL_TYPE_DOUBLE | VFloat64 _ \<Rightarrow> Inr MYSQL_TYPE_DOUBLE
      | VString _ \<Rightarrow> Inr MYSQL_TYPE_VAR_STRING | VBytes _ \<Rightarrow> Inr MYSQL_TYPE_VAR_STRING
      | VNil \<Rightarrow> Inr MYSQL_TYPE_NULL
      | VOther t \<Rightarrow> Inl (ErrText (''unsupported type '' @ t @ '' for resultset'')))"

definition formatField :: "Field \<Rightarrow> goval \<Rightarrow> Field result" where
  "formatField field v =
     (let signed = Inr (field\<lparr>f_Charset := 63, f_Flag := BINARY_FLAG OR NOT_NULL_FLAG\<rparr>);
          unsigned = Inr (field\<lparr>f_Charset := 63, f_Flag := BINARY_FLAG OR NOT_NULL_FLAG OR UNSIGNED_FLAG\<rparr>)
      in case v of
        VInt8 _ \<Rightarrow> signed | VInt16 _ \<Rightarrow> signed | VInt32 _ \<Rightarrow> signed | VInt64 _ \<Rightarrow> signed | VInt _ \<Rightarrow> signed
      | VUint8 _ \<Rightarrow> unsigned | VUint16 _ \<Rightarrow> unsigned | VUint32 _ \<Rightarrow> unsigned | VUint64 _ \<Rightarrow> unsigned | VUint _ \<Rightarrow> unsigned
      | VFloat32 _ \<Rightarrow> signed | VFloat64 _ \<Rightarrow> signed
      | VString _ \<Rightarrow> Inr (field\<lparr>f_Charset := 33\<rparr>) | VBytes _ \<Rightarrow> Inr (field\<lparr>f_Charset := 33\<rparr>)
      | VNil \<Rightarrow> Inr (field\<lparr>f_Charset := 33\<rparr>)
      | VOther t \<Rightarrow> Inl (ErrText (''unsupported type '' @ t @ '' for resultset'')))"

section \<open>Result sets\<close>

record Resultset =
  Fields :: "Field option list"
  FieldNames :: "(string \<times> int) list"
  Values :: "FieldValue list list"
  RawPkg :: bytes
  RowDatas :: "bytes list"

definition new_Resultset :: Resultset where
  "new_Resultset = \<lparr>Fields = [], FieldNames = [], Values = [], RawPkg = [], RowDatas = []\<rparr>"

subsection \<open>In the text protocol\<close>

text \<open>The field of a column after one more value.\<close>

definition column_field :: "string \<Rightarrow> Field option \<Rightarrow> goval \<Rightarrow> Field result" where
  "column_field name fo v =
     rbind (fieldType v) (\<lambda>typ.
       case fo of
         None \<Rightarrow> formatField (zero_Field\<lparr>f_Name := name, f_Type := typ\<rparr>) v
       | Some f \<Rightarrow>
           if typ \<noteq> f_Type f then
             if f_Type f = MYSQL_TYPE_NULL \<and> typ \<noteq> MYSQL_TYPE_NULL then formatField (f\<lparr>f_Type := typ\<rparr>) v
             else if f_Type f \<noteq> MYSQL_TYPE_NULL \<and> typ \<noteq> MYSQL_TYPE_NULL then Inl (ErrText ''row types aren't consistent'')
             else Inr f
           else Inr f)"

definition text_cell :: "(64 word \<Rightarrow> string) \<Rightarrow> goval \<Rightarrow> bytes result" where
  "text_cell format_float v =
     rbind (formatTextValue format_float v) (\<lambda>b.
       Inr (case b of None \<Rightarrow> [CHR 0xfb] | Some b \<Rightarrow> PutLengthEncodedString b))"

text \<open>The loop over the columns of a row.\<close>

fun text_row :: "(64 word \<Rightarrow> string) \<Rightarrow> string list \<Rightarrow> Field option list \<Rightarrow> goval list \<Rightarrow> (Field option list \<times> bytes) result" where
  "text_row format_float (name # names) (fo # fos) (v # vs) =
     rbind (column_field name fo v) (\<lambda>f.
     rbind (text_cell format_float v) (\<lambda>c.
     rbind (text_row format_float names fos vs) (\<lambda>(fs, row). Inr (Some f # fs, c @ row))))"
| "text_row format_float _ fos _ = Inr (fos, [])"

definition check_columns :: "nat \<Rightarrow> Field option list \<Rightarrow> goval list \<Rightarrow> unit result" where
  "check_columns i fos vs =
     (if length vs \<noteq> length fos
      then Inl (ErrText (''row '' @ FormatInt (int i) @ '' has '' @ FormatInt (int (length vs)) @ '' column not equal '' @ FormatInt (int (length fos))))
      else Inr ())"

fun text_rows :: "(64 word \<Rightarrow> string) \<Rightarrow> string list \<Rightarrow> nat \<Rightarrow> Field option list \<Rightarrow> goval list list \<Rightarrow> (Field option list \<times> bytes list) result" where
  "text_rows format_float names i fos [] = Inr (fos, [])"
| "text_rows format_float names i fos (vs # values) =
     rbind (check_columns i fos vs) (\<lambda>_.
     rbind (text_row format_float names fos vs) (\<lambda>(fos', row).
     rbind (text_rows format_float names (i + 1) fos' values) (\<lambda>(fos'', rows). Inr (fos'', row # rows))))"

definition BuildSimpleTextResultset :: "(64 word \<Rightarrow> string) \<Rightarrow> string list \<Rightarrow> goval list list \<Rightarrow> Resultset result" where
  "BuildSimpleTextResultset format_float names values =
     (if length values = 0
      then Inr (new_Resultset\<lparr>Fields := map (\<lambda>name. Some (zero_Field\<lparr>f_Name := name, f_Charset := 33, f_Type := MYSQL_TYPE_NULL\<rparr>)) names\<rparr>)
      else rbind (text_rows format_float names 0 (replicate (length names) None) values) (\<lambda>(fos, rows).
        Inr (new_Resultset\<lparr>Fields := fos, RowDatas := rows\<rparr>)))"

subsection \<open>In the binary protocol\<close>

text \<open>\<open>nullBitmap[(i+2)/8] |= (1 << (uint(i+2) % 8))\<close>\<close>

definition set_null :: "nat \<Rightarrow> bytes \<Rightarrow> bytes result" where
  "set_null i nullBitmap =
     (let k = (i + 2) div 8
      in if k < length nullBitmap
         then Inr (nullBitmap[k := byte_of (of_byte (nullBitmap ! k) OR push_bit ((i + 2) mod 8) 1 :: 8 word)]) else Inl Panic)"

text \<open>The loop over the columns of row \<open>i\<close>: the fields, the null bitmap and the cells.\<close>

fun binary_row :: "nat \<Rightarrow> string list \<Rightarrow> Field option list \<Rightarrow> goval list \<Rightarrow> bytes \<Rightarrow> (Field option list \<times> bytes \<times> bytes) result" where
  "binary_row i (name # names) (fo # fos) (v # vs) nullBitmap =
     rbind (fieldType v) (\<lambda>typ.
     rbind (if i = 0 then rbind (formatField (zero_Field\<lparr>f_Type := typ, f_Name := name\<rparr>) v) (\<lambda>f. Inr (Some f)) else Inr fo) (\<lambda>fo'.
     rbind (if v = VNil then rbind (set_null i nullBitmap) (\<lambda>nb. Inr (nb, []))
            else rbind (formatBinaryValue v) (\<lambda>b.
              case fo' of
                None \<Rightarrow> Inl Panic
              | Some f \<Rightarrow>
                  let b' = (case b of None \<Rightarrow> [] | Some b' \<Rightarrow> b')
                  in Inr (nullBitmap, if f_Type f = MYSQL_TYPE_VAR_STRING then PutLengthEncodedString b' else b'))) (\<lambda>(nb, c).
     rbind (binary_row i names fos vs nb) (\<lambda>(fs, nb', row). Inr (fo' # fs, nb', c @ row)))))"
| "binary_row i _ fos _ nullBitmap = Inr (fos, nullBitmap, [])"

fun binary_rows :: "nat \<Rightarrow> string list \<Rightarrow> nat \<Rightarrow> Field option list \<Rightarrow> goval list list \<Rightarrow> (Field option list \<times> bytes list) result" where
  "binary_rows bitmapLen names i fos [] = Inr (fos, [])"
| "binary_rows bitmapLen names i fos (vs # values) =
     rbind (check_columns i fos vs) (\<lambda>_.
     rbind (binary_row i names fos vs (replicate bitmapLen (CHR 0x00))) (\<lambda>(fos', nullBitmap, row).
     rbind (binary_rows bitmapLen names (i + 1) fos' values) (\<lambda>(fos'', rows).
       Inr (fos'', ([CHR 0x00] @ nullBitmap @ row) # rows))))"

definition BuildSimpleBinaryResultset :: "string list \<Rightarrow> goval list list \<Rightarrow> Resultset result" where
  "BuildSimpleBinaryResultset names values =
     rbind (binary_rows ((length names + 7 + 2) div 8) names 0 (replicate (length names) None) values) (\<lambda>(fos, rows).
       Inr (new_Resultset\<lparr>Fields := fos, RowDatas := rows\<rparr>))"

definition BuildSimpleResultset :: "(64 word \<Rightarrow> string) \<Rightarrow> string list \<Rightarrow> goval list list \<Rightarrow> bool \<Rightarrow> Resultset result" where
  "BuildSimpleResultset format_float names values binary =
     (if binary then BuildSimpleBinaryResultset names values else BuildSimpleTextResultset format_float names values)"

subsection \<open>Reading values\<close>

definition RowNumber :: "Resultset \<Rightarrow> nat" where
  "RowNumber r = length (Values r)"

definition ColumnNumber :: "Resultset \<Rightarrow> nat" where
  "ColumnNumber r = length (Fields r)"

definition GetValue :: "Resultset \<Rightarrow> int \<Rightarrow> int \<Rightarrow> goval result" where
  "GetValue r row column =
     (if row \<ge> int (length (Values r)) \<or> row < 0 then Inl (ErrText (''invalid row index '' @ FormatInt row))
      else if column \<ge> int (length (Fields r)) \<or> column < 0 then Inl (ErrText (''invalid column index '' @ FormatInt column))
      else let vs = Values r ! nat row
        in if nat column < length vs then Inr (FieldValue_Value (vs ! nat column)) else Inl Panic)"

definition NameIndex :: "Resultset \<Rightarrow> string \<Rightarrow> int result" where
  "NameIndex r name =
     (case map_of (FieldNames r) name of
        Some column \<Rightarrow> Inr column
      | None \<Rightarrow> Inl (ErrText (''invalid field name '' @ name)))"

definition GetValueByName :: "Resultset \<Rightarrow> int \<Rightarrow> string \<Rightarrow> goval result" where
  "GetValueByName r row name = rbind (NameIndex r name) (\<lambda>column. GetValue r row column)"

definition IsNull :: "Resultset \<Rightarrow> int \<Rightarrow> int \<Rightarrow> bool result" where
  "IsNull r row column = rbind (GetValue r row column) (\<lambda>d. Inr (d = VNil))"

definition IsNullByName :: "Resultset \<Rightarrow> int \<Rightarrow> string \<Rightarrow> bool result" where
  "IsNullByName r row name = rbind (NameIndex r name) (\<lambda>column. IsNull r row column)"

text \<open>The bytes of a slice or string.\<close>

abbreviation bytes_of :: "bytes option \<Rightarrow> bytes" where
  "bytes_of b \<equiv> (case b of None \<Rightarrow> [] | Some b' \<Rightarrow> b')"

definition GetUint :: "(64 word \<Rightarrow> 64 word) \<Rightarrow> Resultset \<Rightarrow> int \<Rightarrow> int \<Rightarrow> 64 word result" where
  "GetUint float_to_uint r row column =
     rbind (GetValue r row column) (\<lambda>d.
       case d of
         VInt v \<Rightarrow> Inr v | VInt8 v \<Rightarrow> Inr (sext v) | VInt16 v \<Rightarrow> Inr (sext v) | VInt32 v \<Rightarrow> Inr (sext v) | VInt64 v \<Rightarrow> Inr v
       | VUint v \<Rightarrow> Inr v | VUint8 v \<Rightarrow> Inr (zext v) | VUint16 v \<Rightarrow> Inr (zext v) | VUint32 v \<Rightarrow> Inr (zext v) | VUint64 v \<Rightarrow> Inr v
       | VFloat32 v \<Rightarrow> Inr (float_to_uint (float32_to_64 v)) | VFloat64 v \<Rightarrow> Inr (float_to_uint v)
       | VString v \<Rightarrow> rbind (ParseUint (bytes_of v)) (\<lambda>n. Inr (word_of_int n))
       | VBytes v \<Rightarrow> rbind (ParseUint (bytes_of v)) (\<lambda>n. Inr (word_of_int n))
       | VNil \<Rightarrow> Inr 0
       | VOther t \<Rightarrow> Inl (ErrText (''data type is '' @ t)))"

definition GetUintByName :: "(64 word \<Rightarrow> 64 word) \<Rightarrow> Resultset \<Rightarrow> int \<Rightarrow> string \<Rightarrow> 64 word result" where
  "GetUintByName float_to_uint r row name = rbind (NameIndex r name) (\<lambda>column. GetUint float_to_uint r row column)"

text \<open>\<open>int64(v)\<close> reinterprets the 64 bits.\<close>

definition GetInt :: "(64 word \<Rightarrow> 64 word) \<Rightarrow> Resultset \<Rightarrow> int \<Rightarrow> int \<Rightarrow> int result" where
  "GetInt float_to_uint r row column = rbind (GetUint float_to_uint r row column) (\<lambda>v. Inr (sint v))"

definition GetIntByName :: "(64 word \<Rightarrow> 64 word) \<Rightarrow> Resultset \<Rightarrow> int \<Rightarrow> string \<Rightarrow> int result" where
  "GetIntByName float_to_uint r row name = rbind (GetUintByName float_to_uint r row name) (\<lambda>v. Inr (sint v))"

definition GetFloat :: "(int \<Rightarrow> 64 word) \<Rightarrow> (int \<Rightarrow> 64 word) \<Rightarrow> (string \<Rightarrow> 64 word result) \<Rightarrow> Resultset \<Rightarrow> int \<Rightarrow> int \<Rightarrow> 64 word result" where
  "GetFloat int_to_float uint_to_float parse_float r row column =
     rbind (GetValue r row column) (\<lambda>d.
       case d of
         VInt v \<Rightarrow> Inr (int_to_float (sint v)) | VInt8 v \<Rightarrow> Inr (int_to_float (sint v)) | VInt16 v \<Rightarrow> Inr (int_to_float (sint v))
       | VInt32 v \<Rightarrow> Inr (int_to_float (sint v)) | VInt64 v \<Rightarrow> Inr (int_to_float (sint v))
       | VUint v \<Rightarrow> Inr (uint_to_float (uint v)) | VUint8 v \<Rightarrow> Inr (uint_to_float (uint v)) | VUint16 v \<Rightarrow> Inr (uint_to_float (uint v))
       | VUint32 v \<Rightarrow> Inr (uint_to_float (uint v)) | VUint64 v \<Rightarrow> Inr (uint_to_float (uint v))
       | VFloat32 v \<Rightarrow> Inr (float32_to_64 v) | VFloat64 v \<Rightarrow> Inr v
       | VString v \<Rightarrow> parse_float (bytes_of v) | VBytes v \<Rightarrow> parse_float (bytes_of v)
       | VNil \<Rightarrow> Inr 0
       | VOther t \<Rightarrow> Inl (ErrText (''data type is '' @ t)))"

definition GetFloatByName :: "(int \<Rightarrow> 64 word) \<Rightarrow> (int \<Rightarrow> 64 word) \<Rightarrow> (string \<Rightarrow> 64 word result) \<Rightarrow> Resultset \<Rightarrow> int \<Rightarrow> string \<Rightarrow> 64 word result" where
  "GetFloatByName int_to_float uint_to_float parse_float r row name =
     rbind (NameIndex r name) (\<lambda>column. GetFloat int_to_float uint_to_float parse_float r row column)"

definition GetString :: "(64 word \<Rightarrow> string) \<Rightarrow> Resultset \<Rightarrow> int \<Rightarrow> int \<Rightarrow> string result" where
  "GetString format_float r row column =
     rbind (GetValue r row column) (\<lambda>d.
       case d of
         VString v \<Rightarrow> Inr (bytes_of v) | VBytes v \<Rightarrow> Inr (bytes_of v)
       | VInt v \<Rightarrow> Inr (FormatInt (sint v)) | VInt8 v \<Rightarrow> Inr (FormatInt (sint v)) | VInt16 v \<Rightarrow> Inr (FormatInt (sint v))
       | VInt32 v \<Rightarrow> Inr (FormatInt (sint v)) | VInt64 v \<Rightarrow> Inr (FormatInt (sint v))
       | VUint v \<Rightarrow> Inr (FormatInt (uint v)) | VUint8 v \<Rightarrow> Inr (FormatInt (uint v)) | VUint16 v \<Rightarrow> Inr (FormatInt (uint v))
       | VUint32 v \<Rightarrow> Inr (FormatInt (uint v)) | VUint64 v \<Rightarrow> Inr (FormatInt (uint v))
       | VFloat32 v \<Rightarrow> Inr (format_float (float32_to_64 v)) | VFloat64 v \<Rightarrow> Inr (format_float v)
       | VNil \<Rightarrow> Inr []
       | VOther t \<Rightarrow> Inl (ErrText (''data type is '' @ t)))"

definition GetStringByName :: "(64 word \<Rightarrow> string) \<Rightarrow> Resultset \<Rightarrow> int \<Rightarrow> string \<Rightarrow> string result" where
  "GetStringByName format_float r row name = rbind (NameIndex r name) (\<lambda>column. GetString format_float r row column)"

section \<open>Rows of the text protocol are read back\<close>

datatype kind = KSigned | KUnsigned | KString

fun kind_of :: "goval \<Rightarrow> kind option" where
  "kind_of (VInt8 _) = Some KSigned" | "kind_of (VInt16 _) = Some KSigned" | "kind_of (VInt32 _) = Some KSigned"
| "kind_of (VInt64 _) = Some KSigned" | "kind_of (VInt _) = Some KSigned"
| "kind_of (VUint8 _) = Some KUnsigned" | "kind_of (VUint16 _) = Some KUnsigned" | "kind_of (VUint32 _) = Some KUnsigned"
| "kind_of (VUint64 _) = Some KUnsigned" | "kind_of (VUint _) = Some KUnsigned"
| "kind_of (VBytes _) = Some KString" | "kind_of (VString _) = Some KString"
| "kind_of _ = None"

text \<open>Values that are neither floats nor of an unsupported type, and not too long.\<close>

fun plain_value :: "goval \<Rightarrow> bool" where
  "plain_value (VFloat32 _) = False" | "plain_value (VFloat64 _) = False" | "plain_value (VOther _) = False"
| "plain_value (VBytes b) = (length (bytes_of b) < 2 ^ 62)" | "plain_value (VString b) = (length (bytes_of b) < 2 ^ 62)"
| "plain_value _ = True"

text \<open>What a value is read back as: integers as 64-bit ones, strings as byte slices, nil slices as NULL.\<close>

fun read_back :: "goval \<Rightarrow> goval" where
  "read_back (VInt8 w) = VInt64 (sext w)" | "read_back (VInt16 w) = VInt64 (sext w)" | "read_back (VInt32 w) = VInt64 (sext w)"
| "read_back (VInt64 w) = VInt64 w" | "read_back (VInt w) = VInt64 w"
| "read_back (VUint8 w) = VUint64 (zext w)" | "read_back (VUint16 w) = VUint64 (zext w)" | "read_back (VUint32 w) = VUint64 (zext w)"
| "read_back (VUint64 w) = VUint64 w" | "read_back (VUint w) = VUint64 w"
| "read_back (VBytes b) = (case b of None \<Rightarrow> VNil | Some b' \<Rightarrow> VBytes (Some b'))"
| "read_back (VString b) = (case b of None \<Rightarrow> VNil | Some b' \<Rightarrow> VBytes (Some b'))"
| "read_back v = v"

definition kind_type :: "kind \<Rightarrow> 8 word" where
  "kind_type k = (if k = KString then MYSQL_TYPE_VAR_STRING else MYSQL_TYPE_LONGLONG)"

text \<open>A column has taken the kind of a value, or has seen none but NULLs.\<close>

definition has_kind :: "kind \<Rightarrow> Field \<Rightarrow> bool" where
  "has_kind k f \<longleftrightarrow> f_Type f = kind_type k \<and> isUnsigned f = (k = KUnsigned)"

definition col_inv :: "string \<times> kind \<Rightarrow> Field option \<Rightarrow> bool" where
  "col_inv c fo \<longleftrightarrow> (case fo of None \<Rightarrow> True | Some f \<Rightarrow>
     f_Name f = fst c \<and> (f_Type f = MYSQL_TYPE_NULL \<and> f_Flag f = 0 \<or> has_kind (snd c) f))"

definition fits :: "Field option \<Rightarrow> goval \<Rightarrow> bool" where
  "fits fo v \<longleftrightarrow> (\<exists>f. fo = Some f \<and> (case kind_of v of None \<Rightarrow> True | Some k \<Rightarrow> has_kind k f))"

lemma fieldType_kind: "plain_value v \<Longrightarrow> fieldType v = Inr (case kind_of v of None \<Rightarrow> MYSQL_TYPE_NULL | Some k \<Rightarrow> kind_type k)"
  by (cases v) (simp_all add: fieldType_def kind_type_def)

lemma formatField_kind:
  assumes "plain_value v" "kind_of v = Some k" "f_Type f = kind_type k" "f_Flag f = 0"
  obtains g where "formatField f v = Inr g" "has_kind k g" "f_Name g = f_Name f"
  using assms by (cases v) (auto simp: formatField_def has_kind_def isUnsigned_def)

lemma kind_type_null: "kind_type k \<noteq> MYSQL_TYPE_NULL" "\<not> has_kind k f" if "f_Type f = MYSQL_TYPE_NULL"
  using that by (simp_all add: kind_type_def has_kind_def)

lemma no_kind: "plain_value v \<Longrightarrow> kind_of v = None \<longleftrightarrow> v = VNil"
  by (cases v) simp_all

lemma column_field_ok:
  assumes "plain_value v" "kind_of v \<in> {None, Some (snd c)}" "col_inv c fo"
  obtains f where "column_field (fst c) fo v = Inr f" "col_inv c (Some f)" "fits (Some f) v" "\<And>u. fits fo u \<Longrightarrow> fits (Some f) u"
proof (cases fo)
  case None
  show ?thesis
  proof (cases "kind_of v")
    case k: None
    then have "v = VNil" using no_kind assms(1) by blast
    then show ?thesis
      by (intro that [of "zero_Field\<lparr>f_Name := fst c, f_Type := MYSQL_TYPE_NULL, f_Charset := 33\<rparr>"])
        (simp_all add: column_field_def fieldType_def None formatField_def col_inv_def fits_def zero_Field_def)
  next
    case (Some k)
    obtain g where "formatField (zero_Field\<lparr>f_Name := fst c, f_Type := kind_type k\<rparr>) v = Inr g" "has_kind k g" "f_Name g = fst c"
      by (rule formatField_kind [OF assms(1) Some, of "zero_Field\<lparr>f_Name := fst c, f_Type := kind_type k\<rparr>"])
        (simp_all add: zero_Field_def)
    then show ?thesis using assms(2) Some None
      by (intro that [of g]) (simp_all add: column_field_def fieldType_kind [OF assms(1)] col_inv_def fits_def)
  qed
next
  case (Some f)
  consider (null) "f_Type f = MYSQL_TYPE_NULL" "f_Flag f = 0" | (kind) "has_kind (snd c) f"
    using assms(3) Some by (auto simp: col_inv_def)
  then show ?thesis
  proof cases
    case null
    have old: "fits (Some g) u" if "fits fo u" for g u
      using that kind_type_null(2) [OF null(1)] by (auto simp: fits_def Some split: option.splits)
    show ?thesis
    proof (cases "kind_of v")
      case None
      then show ?thesis using assms(3) null Some old
        by (intro that [of f]) (simp_all add: column_field_def fieldType_kind [OF assms(1)] fits_def)
    next
      case k: (Some k)
      obtain g where "formatField (f\<lparr>f_Type := kind_type k\<rparr>) v = Inr g" "has_kind k g" "f_Name g = f_Name f"
        by (rule formatField_kind [OF assms(1) k, of "f\<lparr>f_Type := kind_type k\<rparr>"]) (simp_all add: null)
      then show ?thesis using assms(2,3) null k Some old kind_type_null(1) [OF null(1), of k]
        by (intro that [of g]) (auto simp: column_field_def fieldType_kind [OF assms(1)] col_inv_def fits_def)
    qed
  next
    case kind
    have "column_field (fst c) fo v = Inr f"
      using assms(2) kind kind_type_null by (auto simp: column_field_def fieldType_kind [OF assms(1)] Some has_kind_def kind_type_def)
    moreover have "fits (Some f) v" using assms(2) kind by (auto simp: fits_def)
    ultimately show ?thesis using assms(3) Some by (intro that [of f]) simp_all
  qed
qed

subsection \<open>Writing rows\<close>

fun cell :: "goval \<Rightarrow> bytes" where
  "cell v = (case formatTextValue (\<lambda>_. []) v of Inr (Some b) \<Rightarrow> PutLengthEncodedString b | _ \<Rightarrow> [CHR 0xfb])"

declare cell.simps [simp del]

lemma text_cell_plain: "plain_value v \<Longrightarrow> text_cell format_float v = Inr (cell v)"
  by (cases v) (auto simp: text_cell_def cell.simps formatTextValue_def split: option.split)

lemma text_row_ok:
  assumes "list_all2 col_inv cs fos" "list_all2 (\<lambda>c v. plain_value v \<and> kind_of v \<in> {None, Some (snd c)}) cs vs"
  shows "\<exists>fos'. text_row format_float (map fst cs) fos vs = Inr (fos', concat (map cell vs)) \<and> list_all2 col_inv cs fos' \<and>
    list_all2 fits fos' vs \<and> list_all2 (\<lambda>fo fo'. \<forall>u. fits fo u \<longrightarrow> fits fo' u) fos fos'"
  using assms
proof (induction cs arbitrary: fos vs)
  case Nil
  then show ?case by simp
next
  case (Cons c cs)
  obtain fo fos1 v vs1 where l: "fos = fo # fos1" "vs = v # vs1" using Cons.prems by (auto simp: list_all2_Cons1)
  obtain f where f: "column_field (fst c) fo v = Inr f" "col_inv c (Some f)" "fits (Some f) v" "\<And>u. fits fo u \<Longrightarrow> fits (Some f) u"
    using column_field_ok [of v c fo] Cons.prems l by auto
  obtain fos' where "text_row format_float (map fst cs) fos1 vs1 = Inr (fos', concat (map cell vs1))" "list_all2 col_inv cs fos'"
    "list_all2 fits fos' vs1" "list_all2 (\<lambda>fo fo'. \<forall>u. fits fo u \<longrightarrow> fits fo' u) fos1 fos'"
    using Cons.IH [of fos1 vs1] Cons.prems l by auto
  then show ?case using f Cons.prems(2) l by (intro exI [of _ "Some f # fos'"]) (simp add: text_cell_plain)
qed

lemma fits_mono:
  assumes "list_all2 (\<lambda>fo fo'. \<forall>u. fits fo u \<longrightarrow> fits fo' u) fos fos'" "list_all2 fits fos vs"
  shows "list_all2 fits fos' vs"
  using assms by (auto simp: list_all2_conv_all_nth)

lemma text_rows_ok:
  assumes "list_all2 col_inv cs fos" "\<forall>vs \<in> set vals. list_all2 (\<lambda>c v. plain_value v \<and> kind_of v \<in> {None, Some (snd c)}) cs vs"
  shows "\<exists>fos'. text_rows format_float (map fst cs) i fos vals = Inr (fos', map (\<lambda>vs. concat (map cell vs)) vals) \<and>
    list_all2 col_inv cs fos' \<and> (\<forall>vs \<in> set vals. list_all2 fits fos' vs) \<and>
    list_all2 (\<lambda>fo fo'. \<forall>u. fits fo u \<longrightarrow> fits fo' u) fos fos'"
  using assms
proof (induction vals arbitrary: i fos)
  case Nil
  then show ?case by (simp add: list_all2_refl)
next
  case (Cons vs vals)
  obtain fos1 where 1: "text_row format_float (map fst cs) fos vs = Inr (fos1, concat (map cell vs))" "list_all2 col_inv cs fos1"
    "list_all2 fits fos1 vs" "list_all2 (\<lambda>fo fo'. \<forall>u. fits fo u \<longrightarrow> fits fo' u) fos fos1"
    using text_row_ok [OF Cons.prems(1)] Cons.prems(2) by (meson list.set_intros(1))
  obtain fos2 where 2: "text_rows format_float (map fst cs) (i + 1) fos1 vals = Inr (fos2, map (\<lambda>vs. concat (map cell vs)) vals)"
    "list_all2 col_inv cs fos2" "\<forall>vs \<in> set vals. list_all2 fits fos2 vs"
    "list_all2 (\<lambda>fo fo'. \<forall>u. fits fo u \<longrightarrow> fits fo' u) fos1 fos2"
    using Cons.IH [OF 1(2)] Cons.prems(2) by (meson list.set_intros(2))
  have "length vs = length fos" using Cons.prems by (auto dest!: list_all2_lengthD)
  moreover have "list_all2 (\<lambda>fo fo'. \<forall>u. fits fo u \<longrightarrow> fits fo' u) fos fos2"
    using 1(4) 2(4) by (auto simp: list_all2_conv_all_nth)
  ultimately show ?case using 1 2 fits_mono [OF 2(4) 1(3)] by (intro exI [of _ fos2]) (simp add: check_columns_def)
qed

subsection \<open>Reading rows\<close>

lemma length_nat_str: "n < 10 ^ Suc k \<Longrightarrow> length (nat_str n) \<le> Suc k"
proof (induction k arbitrary: n)
  case 0
  then show ?case by (subst nat_str.simps) simp
next
  case (Suc k)
  then have "n div 10 < 10 ^ Suc k" by (simp add: less_mult_imp_div_less)
  then show ?case using Suc.IH [of "n div 10"] by (subst nat_str.simps) simp
qed

lemma length_FormatInt: "- (10 ^ 20) < i \<Longrightarrow> i < 10 ^ 20 \<Longrightarrow> length (FormatInt i) < 2 ^ 62"
proof -
  assume i: "- (10 ^ 20) < i" "i < 10 ^ 20"
  then have "nat i < 10 ^ Suc 19" "nat (- i) < 10 ^ Suc 19" by simp_all
  then have "length (nat_str (nat i)) \<le> Suc 19" "length (nat_str (nat (- i))) \<le> Suc 19" using length_nat_str by blast+
  then show ?thesis by (simp add: FormatInt_def)
qed

lemma sint_bounds: "LENGTH('a) \<le> 64 \<Longrightarrow> is_int64 (sint (w :: 'a::len word))"
proof -
  assume l: "LENGTH('a) \<le> 64"
  have "(2 :: int) ^ (LENGTH('a) - 1) \<le> 2 ^ 63" using l by (intro power_increasing) auto
  then show ?thesis using sint_greater_eq [of w] sint_less [of w] by (simp add: is_int64_def)
qed

lemma uint_bounds: "LENGTH('a) \<le> 64 \<Longrightarrow> 0 \<le> uint w \<and> uint (w :: 'a::len word) \<le> maxUint64"
proof -
  assume l: "LENGTH('a) \<le> 64"
  have "(2 :: int) ^ LENGTH('a) \<le> 2 ^ 64" using l by (intro power_increasing) auto
  then have "uint w < 2 ^ 64" by (rule less_le_trans [OF uint_bounded])
  then show ?thesis by simp
qed

lemma ParseUint_FormatInt: "0 \<le> n \<Longrightarrow> n \<le> maxUint64 \<Longrightarrow> ParseUint (FormatInt n) = Inr n"
  using parse_digits_nat_str [of "nat n"] by (simp add: ParseUint_def FormatInt_def)

definition reads :: "(string \<Rightarrow> 64 word result) \<Rightarrow> Field \<Rightarrow> goval \<Rightarrow> FieldValue \<Rightarrow> bool" where
  "reads parse_float f v d \<longleftrightarrow> (\<forall>r. \<exists>b isNull d'. LengthEncodedString (cell v @ r) = Inr (b, isNull, length (cell v)) \<and>
     (if isNull then Inr (d\<lparr>fv_Type := FieldValueTypeNull\<rparr>) else text_value parse_float f b d) = Inr d' \<and> FieldValue_Value d' = read_back v)"

lemma reads_null: "cell v = [CHR 0xfb] \<Longrightarrow> read_back v = VNil \<Longrightarrow> reads parse_float f v d"
  by (auto simp: reads_def LengthEncodedString_def LengthEncodedInt_def FieldValue_Value_def)

lemma reads_text:
  assumes "cell v = PutLengthEncodedString b" "length b < 2 ^ 62" "text_value parse_float f b d = Inr d'" "FieldValue_Value d' = read_back v"
  shows "reads parse_float f v d"
  using assms by (auto simp: reads_def LengthEncodedString_Put)

lemma reads_signed:
  assumes "cell v = PutLengthEncodedString (FormatInt (sint (w :: 'a::len word)))" "LENGTH('a) \<le> 64" "has_kind KSigned f"
    "read_back v = VInt64 (word_of_int (sint w))"
  shows "reads parse_float f v d"
proof (rule reads_text [OF assms(1)])
  have i: "is_int64 (sint w)" using sint_bounds assms(2) by blast
  show "length (FormatInt (sint w)) < 2 ^ 62" using i by (intro length_FormatInt) (simp_all add: is_int64_def)
  show "text_value parse_float f (FormatInt (sint w)) d = Inr (d\<lparr>fv_Type := FieldValueTypeSigned, fv_value := word_of_int (sint w)\<rparr>)"
    using assms(3) by (simp add: text_value_def has_kind_def kind_type_def ParseInt_FormatInt [OF i])
qed (simp add: FieldValue_Value_def AsInt64_def assms(4))

lemma reads_unsigned:
  assumes "cell v = PutLengthEncodedString (FormatInt (uint (w :: 'a::len word)))" "LENGTH('a) \<le> 64" "has_kind KUnsigned f"
    "read_back v = VUint64 (word_of_int (uint w))"
  shows "reads parse_float f v d"
proof (rule reads_text [OF assms(1)])
  have i: "0 \<le> uint w" "uint w \<le> maxUint64" using uint_bounds [OF assms(2), of w] by auto
  have "- (10 ^ 20) < uint w" by (rule less_le_trans [OF _ i(1)]) simp
  then show "length (FormatInt (uint w)) < 2 ^ 62" using i(2) by (intro length_FormatInt) simp_all
  show "text_value parse_float f (FormatInt (uint w)) d = Inr (d\<lparr>fv_Type := FieldValueTypeUnsigned, fv_value := word_of_int (uint w)\<rparr>)"
    using assms(3) by (simp add: text_value_def has_kind_def kind_type_def ParseUint_FormatInt [OF i])
qed (simp add: FieldValue_Value_def AsUint64_def assms(4))

lemma reads_string:
  assumes "cell v = PutLengthEncodedString b" "length b < 2 ^ 62" "has_kind KString f" "read_back v = VBytes (Some b)"
  shows "reads parse_float f v d"
  by (rule reads_text [OF assms(1,2), of _ _ _ "d\<lparr>fv_Type := FieldValueTypeString, fv_str := b\<rparr>"])
    (use assms(3,4) in \<open>simp_all add: text_value_def has_kind_def kind_type_def FieldValue_Value_def AsString_def\<close>)

lemma cell_reads:
  assumes "plain_value v" "fits (Some f) v"
  shows "reads parse_float f v d"
proof (cases v)
  case (VBytes b)
  then show ?thesis using assms
    by (cases b) (auto simp: fits_def cell.simps formatTextValue_def intro: reads_null reads_string)
next
  case (VString b)
  then show ?thesis using assms
    by (cases b) (auto simp: fits_def cell.simps formatTextValue_def intro: reads_null reads_string)
qed (use assms in \<open>auto simp: fits_def cell.simps formatTextValue_def sext_def zext_def of_nat_unat
    intro: reads_null reads_signed reads_unsigned\<close>)

lemma text_loop_reads:
  assumes "list_all2 (\<lambda>f v. plain_value v \<and> fits (Some f) v) fs vs" "length ds = length fs"
  shows "\<exists>ds'. text_loop parse_float (concat (map cell vs)) fs ds = Inr ds' \<and> map FieldValue_Value ds' = map read_back vs"
  using assms
proof (induction fs arbitrary: vs ds)
  case (Cons f fs)
  obtain v vs1 d ds1 where l: "vs = v # vs1" "ds = d # ds1" using Cons.prems by (auto simp: list_all2_Cons1 length_Suc_conv)
  have "reads parse_float f v d" using cell_reads Cons.prems(1) l(1) by simp
  then obtain b isNull d' where "LengthEncodedString (cell v @ concat (map cell vs1)) = Inr (b, isNull, length (cell v))"
    "(if isNull then Inr (d\<lparr>fv_Type := FieldValueTypeNull\<rparr>) else text_value parse_float f b d) = Inr d'" "FieldValue_Value d' = read_back v"
    unfolding reads_def by meson
  moreover obtain ds' where "text_loop parse_float (concat (map cell vs1)) fs ds1 = Inr ds'" "map FieldValue_Value ds' = map read_back vs1"
    using Cons.IH [of vs1 ds1] Cons.prems l by auto
  ultimately show ?case by (simp add: l)
qed simp

lemma fits_all_Some: "list_all2 fits fos vs \<Longrightarrow> \<exists>fs. fos = map Some fs \<and> length fs = length vs"
  by (induction fos vs rule: list_all2_induct) (auto simp: fits_def, metis length_Cons list.map(2))

text \<open>
  C38. What is built in the text protocol is read back: for rows of integers, strings, byte
  slices and nils, of one kind in each column, the result set has a field for every name, and
  every row parses, into whatever old values, to the values it was built from.
\<close>

theorem text_result_roundtrip:
  assumes "vals \<noteq> []" "\<forall>vs \<in> set vals. list_all2 (\<lambda>c v. plain_value v \<and> kind_of v \<in> {None, Some (snd c)}) cs vs"
  shows "\<exists>r fs. BuildSimpleTextResultset format_float (map fst cs) vals = Inr r \<and> Fields r = map Some fs \<and> map f_Name fs = map fst cs \<and>
    list_all2 (\<lambda>vs row. \<exists>ds. ParseText parse_float row fs dst = Inr ds \<and> map FieldValue_Value ds = map read_back vs) vals (RowDatas r)"
proof -
  have "list_all2 col_inv cs (replicate (length cs) None)" by (simp add: list_all2_conv_all_nth col_inv_def)
  from text_rows_ok [OF this assms(2)] obtain fos where
    fos: "text_rows format_float (map fst cs) 0 (replicate (length cs) None) vals = Inr (fos, map (\<lambda>vs. concat (map cell vs)) vals)"
      "list_all2 col_inv cs fos" "\<forall>vs \<in> set vals. list_all2 fits fos vs" by blast
  obtain fs where fs: "fos = map Some fs" using fits_all_Some fos(3) assms(1) by (meson last_in_set)
  have "map f_Name fs = map fst cs"
    using fos(2) unfolding fs by (intro nth_equalityI) (auto simp: list_all2_conv_all_nth col_inv_def)
  moreover have "\<exists>ds. ParseText parse_float (concat (map cell vs)) fs dst = Inr ds \<and> map FieldValue_Value ds = map read_back vs"
    if "vs \<in> set vals" for vs
  proof -
    have "list_all2 (\<lambda>f v. plain_value v \<and> fits (Some f) v) fs vs"
      using bspec [OF assms(2) that] bspec [OF fos(3) that] unfolding fs by (auto simp: list_all2_conv_all_nth)
    then show ?thesis unfolding ParseText_def by (rule text_loop_reads) simp
  qed
  then have "list_all2 (\<lambda>vs row. \<exists>ds. ParseText parse_float row fs dst = Inr ds \<and> map FieldValue_Value ds = map read_back vs)
      vals (map (\<lambda>vs. concat (map cell vs)) vals)" by (simp add: list_all2_conv_all_nth)
  ultimately show ?thesis using fos(1) assms(1) fs by (simp add: BuildSimpleTextResultset_def new_Resultset_def)
qed

theorem text_result_roundtrip_witness:
  "\<exists>r. BuildSimpleTextResultset (\<lambda>_. []) [''n''] [[VInt64 5], [VNil]] = Inr r"
  using text_result_roundtrip [of "[[VInt64 5], [VNil]]" "[(''n'', KSigned)]" "\<lambda>_. []"] by auto

section \<open>NULLs in the binary protocol\<close>

lemma set_null_0: "nb \<noteq> [] \<Longrightarrow> set_null 0 nb = Inr (nb[0 := byte_of (of_byte (nb ! 0) OR 4 :: 8 word)])"
  by (simp add: set_null_def push_bit_eq_mult)

lemma set_null_twice:
  "nb \<noteq> [] \<Longrightarrow> set_null 0 (nb[0 := byte_of (of_byte (nb ! 0) OR 4 :: 8 word)]) = Inr (nb[0 := byte_of (of_byte (nb ! 0) OR 4 :: 8 word)])"
  by (simp add: set_null_0 of_byte_byte_of or.assoc unsigned_less [where 'a = nat and 'b = 8, simplified])

lemma formatField_plain: "plain_value v \<Longrightarrow> \<exists>g. formatField f v = Inr g"
  by (cases v) (simp_all add: formatField_def)

lemma formatBinaryValue_plain: "plain_value v \<Longrightarrow> v \<noteq> VNil \<Longrightarrow> \<exists>b. formatBinaryValue v = Inr b"
  by (cases v) (simp_all add: formatBinaryValue_def)

text \<open>Row 0: every NULL, in whatever column, sets the same bit.\<close>

lemma binary_row_0:
  assumes "set_null 0 nb = Inr nb'" "set_null 0 nb' = Inr nb'"
  shows "list_all plain_value vs \<Longrightarrow> length names = length vs \<Longrightarrow> length fos = length vs \<Longrightarrow> n \<in> {nb, nb'} \<Longrightarrow>
    \<exists>fs row. binary_row 0 names fos vs n = Inr (fs, if VNil \<in> set vs then nb' else n, row) \<and> length fs = length vs"
proof (induction vs arbitrary: names fos n)
  case (Cons v vs)
  obtain name names' fo fos' where l: "names = name # names'" "fos = fo # fos'"
    using Cons.prems by (auto simp: length_Suc_conv)
  have v: "plain_value v" using Cons.prems(1) by simp
  obtain g where g: "formatField (zero_Field\<lparr>f_Type := (case kind_of v of None \<Rightarrow> MYSQL_TYPE_NULL | Some k \<Rightarrow> kind_type k), f_Name := name\<rparr>) v = Inr g"
    using formatField_plain v by blast
  define n1 where "n1 = (if v = VNil then nb' else n)"
  have n1: "n1 \<in> {nb, nb'}" using Cons.prems(4) by (simp add: n1_def)
  obtain fs row where r: "binary_row 0 names' fos' vs n1 = Inr (fs, if VNil \<in> set vs then nb' else n1, row)" "length fs = length vs"
    using Cons.IH [of names' fos' n1] Cons.prems l n1 by auto
  show ?case
  proof (cases "v = VNil")
    case True
    have "set_null 0 n = Inr nb'" using assms Cons.prems(4) by auto
    then show ?thesis using r l True g fieldType_kind [OF v] by (auto simp: n1_def)
  next
    case False
    obtain b where "formatBinaryValue v = Inr b" using formatBinaryValue_plain v False by blast
    then show ?thesis using r l False g fieldType_kind [OF v] by (auto simp: n1_def Let_def)
  qed
qed simp

lemma null_bit_row_0:
  assumes "c < n" "bl = (n + 7 + 2) div 8"
  defines "nb \<equiv> replicate bl (CHR 0x00)"
  shows "null_bit (nb[0 := byte_of (of_byte (nb ! 0) OR 4 :: 8 word)]) c \<longleftrightarrow> c = 0"
proof -
  have bl: "(c + 2) div 8 < bl" "0 < bl" using assms(1) by (auto simp: assms(2))
  have z: "of_byte (CHR 0x00) = (0 :: 8 word)" by (simp add: of_byte_def)
  show ?thesis
  proof (cases "(c + 2) div 8 = 0")
    case True
    have b: "of_byte (byte_of (4 :: 8 word)) = (4 :: 8 word)" by (rule of_byte_byte_of) simp
    have k: "bit (4 :: 8 word) (c + 2) \<longleftrightarrow> c + 2 = 2"
      using bit_push_bit_iff [of 2 "1 :: 8 word" "c + 2"] True by (auto simp: push_bit_eq_mult bit_1_iff)
    have "(nb[0 := byte_of (of_byte (nb ! 0) OR 4 :: 8 word)]) ! 0 = byte_of (4 :: 8 word)" using bl(2) z by (simp add: nb_def)
    moreover have "(c + 2) mod 8 = c + 2" using True by presburger
    ultimately show ?thesis unfolding null_bit_def True by (simp only: b k) simp
  next
    case False
    then have "(nb[0 := byte_of (of_byte (nb ! 0) OR 4 :: 8 word)]) ! ((c + 2) div 8) = CHR 0x00" using bl(1) by (simp add: nb_def)
    moreover have "c \<noteq> 0" using False by auto
    ultimately show ?thesis by (simp add: null_bit_def z)
  qed
qed

lemma binary_rows_late_null:
  "fo \<noteq> None \<or> i = 0 \<Longrightarrow> 6 \<le> i + length ws \<Longrightarrow> binary_rows 1 [name] i [fo] (map (\<lambda>w. [VInt64 w]) ws @ [[VNil]]) = Inl Panic"
proof (induction ws arbitrary: i fo)
  case Nil
  then have "set_null i [CHR 0x00] = Inl Panic" by (simp add: set_null_def Let_def)
  then show ?case using Nil by (cases fo) (simp_all add: check_columns_def fieldType_def)
next
  case (Cons w ws)
  have "binary_rows 1 [name] (i + 1) [Some f] (map (\<lambda>w. [VInt64 w]) ws @ [[VNil]]) = Inl Panic" for f
    using Cons.IH [of "Some f" "i + 1"] Cons.prems(2) by simp
  then show ?case using Cons.prems(1)
    by (cases fo) (auto simp: check_columns_def fieldType_def formatField_def formatBinaryValue_def Let_def)
qed

text \<open>What the builder makes of two rows with a NULL, and what the parser reads from it.\<close>

definition int_field :: "string \<Rightarrow> Field" where
  "int_field x = zero_Field\<lparr>f_Type := MYSQL_TYPE_LONGLONG, f_Name := x, f_Charset := 63, f_Flag := BINARY_FLAG OR NOT_NULL_FLAG\<rparr>"

definition null_field :: "string \<Rightarrow> Field" where
  "null_field x = zero_Field\<lparr>f_Type := MYSQL_TYPE_NULL, f_Name := x, f_Charset := 33\<rparr>"

lemma int_field_signed: "\<not> isUnsigned (int_field x)" "f_Type (int_field x) = MYSQL_TYPE_LONGLONG"
  by (simp_all add: isUnsigned_def int_field_def)

lemmas build_defs = BuildSimpleBinaryResultset_def check_columns_def fieldType_def formatField_def formatBinaryValue_def Let_def
  int_field_def null_field_def

lemma build_lost:
  "BuildSimpleBinaryResultset [x, y] [[VInt64 a, VNil]] = Inr (new_Resultset\<lparr>
     Fields := [Some (int_field x), Some (null_field y)], RowDatas := [CHR 0x00 # CHR 0x04 # Uint64ToBytes a]\<rparr>)"
proof -
  have "set_null 0 [CHR 0x00] = Inr [CHR 0x04]" by code_simp
  then show ?thesis by (simp add: build_defs)
qed

lemma build_moved:
  "BuildSimpleBinaryResultset [x, y] [[VInt64 a, VInt64 b], [VNil, VInt64 c]] = Inr (new_Resultset\<lparr>
     Fields := [Some (int_field x), Some (int_field y)],
     RowDatas := [CHR 0x00 # CHR 0x00 # Uint64ToBytes a @ Uint64ToBytes b, CHR 0x00 # CHR 0x08 # Uint64ToBytes c]\<rparr>)"
proof -
  have "set_null (Suc 0) [CHR 0x00] = Inr [CHR 0x08]" by code_simp
  then show ?thesis by (simp add: build_defs)
qed

lemma row_dst_2: "\<exists>d1 d2. row_dst [f, g] dst = [d1, d2]"
  using length_row_dst [of "[f, g]" dst] by (metis length_2_iff length_Cons list.size(3) numeral_2_eq_2)

lemma read_int_field:
  "binary_value (CHR 0x00 # n # Uint64ToBytes w, spare) (int_field x) 2 d
     = Inr (d\<lparr>fv_Type := FieldValueTypeSigned, fv_value := w\<rparr>, 10)"
proof -
  have "slice_range (CHR 0x00 # n # Uint64ToBytes w, spare) 2 10 = Inr (Uint64ToBytes w)"
    by (simp add: slice_range_def word_bytes)
  moreover have "ParseBinaryInt64 (Uint64ToBytes w) = Inr w"
    using le_word_le_bytes [of 8 w "[]"] by (simp add: ParseBinaryInt64_def word_bytes)
  ultimately show ?thesis by (simp add: binary_value_def int_field_signed int_value_def sext_def)
qed

lemma parse_lost:
  "\<exists>ds. ParseBinary (CHR 0x00 # CHR 0x04 # Uint64ToBytes a, spare) [int_field x, null_field y] dst = Inr ds \<and>
     map FieldValue_Value ds = [VNil, VNil]"
proof -
  have b: "null_bit [CHR 0x04] 0" "\<not> null_bit [CHR 0x04] (Suc 0)" by code_simp+
  obtain d1 d2 where "row_dst [int_field x, null_field y] dst = [d1, d2]" using row_dst_2 by blast
  then show ?thesis using b
    by (simp add: ParseBinary_def index_def slice_range_def binary_value_def null_field_def FieldValue_Value_def)
qed

lemma parse_moved:
  "\<exists>ds. ParseBinary (CHR 0x00 # CHR 0x08 # Uint64ToBytes c, spare) [int_field x, int_field y] dst = Inr ds \<and>
     map FieldValue_Value ds = [VInt64 c, VNil]"
proof -
  have b: "\<not> null_bit [CHR 0x08] 0" "null_bit [CHR 0x08] (Suc 0)" by code_simp+
  obtain d1 d2 where "row_dst [int_field x, int_field y] dst = [d1, d2]" using row_dst_2 by blast
  then show ?thesis using b
    by (simp add: ParseBinary_def index_def slice_range_def read_int_field [unfolded numeral_2_eq_2] FieldValue_Value_def AsInt64_def)
qed

text \<open>
  C39. \<open>BuildSimpleBinaryResultset\<close> marks NULLs by the number of the row where the protocol and
  \<open>ParseBinary\<close> want the number of the column. In a result of one row, a NULL in any column marks
  the first column, and no other one, as NULL: the row \<open>(a, NULL)\<close> is read as \<open>(NULL, NULL)\<close>, so that
  \<open>a\<close> is lost. In the second row of a result, \<open>(NULL, c)\<close> is read as \<open>(c, NULL)\<close>: the NULL as the value of
  its neighbour and the value as NULL. And a result of one column panics on a NULL in its seventh
  row, or a later one.
\<close>

theorem binary_null_misplaced:
  assumes "length names = length vs" "list_all plain_value vs" "VNil \<in> set vs" "6 \<le> length ws"
  shows "(\<exists>r nb cells. BuildSimpleBinaryResultset names [vs] = Inr r \<and> RowDatas r = [[CHR 0x00] @ nb @ cells] \<and>
      length nb = (length names + 7 + 2) div 8 \<and> list_all (\<lambda>c. null_bit nb c \<longleftrightarrow> c = 0) [0 ..< length names]) \<and>
    (\<exists>r f g row. BuildSimpleBinaryResultset [x, y] [[VInt64 a, VNil]] = Inr r \<and> Fields r = [Some f, Some g] \<and> RowDatas r = [row] \<and>
      (\<exists>ds. ParseBinary (row, spare) [f, g] dst = Inr ds \<and> map FieldValue_Value ds = [VNil, VNil])) \<and>
    (\<exists>r f g row row'. BuildSimpleBinaryResultset [x, y] [[VInt64 a, VInt64 b], [VNil, VInt64 c]] = Inr r \<and>
      Fields r = [Some f, Some g] \<and> RowDatas r = [row, row'] \<and>
      (\<exists>ds. ParseBinary (row', spare) [f, g] dst = Inr ds \<and> map FieldValue_Value ds = [VInt64 c, VNil])) \<and>
    BuildSimpleBinaryResultset [name] (map (\<lambda>w. [VInt64 w]) ws @ [[VNil]]) = Inl Panic"
proof (intro conjI)
  let ?bl = "(length names + 7 + 2) div 8"
  define nb where "nb = replicate ?bl (CHR 0x00)"
  define nb' where "nb' = nb[0 := byte_of (of_byte (nb ! 0) OR 4 :: 8 word)]"
  have ne: "nb \<noteq> []" by (simp add: nb_def)
  obtain fs row where "binary_row 0 names (replicate (length names) None) vs nb = Inr (fs, nb', row)"
    using binary_row_0 [of nb nb' vs names "replicate (length names) None" nb] set_null_0 [OF ne] set_null_twice [OF ne] assms(1-3)
    by (auto simp: nb'_def)
  then have "BuildSimpleBinaryResultset names [vs] = Inr (new_Resultset\<lparr>Fields := fs, RowDatas := [[CHR 0x00] @ nb' @ row]\<rparr>)"
    using assms(1) by (simp add: BuildSimpleBinaryResultset_def check_columns_def nb_def)
  moreover have "length nb' = ?bl" by (simp add: nb'_def nb_def)
  moreover have "list_all (\<lambda>c. null_bit nb' c \<longleftrightarrow> c = 0) [0 ..< length names]"
    using null_bit_row_0 [of _ "length names" ?bl] by (simp add: list_all_iff nb'_def nb_def)
  ultimately show "\<exists>r nb cells. BuildSimpleBinaryResultset names [vs] = Inr r \<and> RowDatas r = [[CHR 0x00] @ nb @ cells] \<and>
      length nb = ?bl \<and> list_all (\<lambda>c. null_bit nb c \<longleftrightarrow> c = 0) [0 ..< length names]"
    by (intro exI [of _ "new_Resultset\<lparr>Fields := fs, RowDatas := [[CHR 0x00] @ nb' @ row]\<rparr>"] exI [of _ nb'] exI [of _ row]) simp
next
  show "\<exists>r f g row. BuildSimpleBinaryResultset [x, y] [[VInt64 a, VNil]] = Inr r \<and> Fields r = [Some f, Some g] \<and> RowDatas r = [row] \<and>
      (\<exists>ds. ParseBinary (row, spare) [f, g] dst = Inr ds \<and> map FieldValue_Value ds = [VNil, VNil])"
    using parse_lost [of a spare x y dst] by (simp add: build_lost)
  show "\<exists>r f g row row'. BuildSimpleBinaryResultset [x, y] [[VInt64 a, VInt64 b], [VNil, VInt64 c]] = Inr r \<and>
      Fields r = [Some f, Some g] \<and> RowDatas r = [row, row'] \<and>
      (\<exists>ds. ParseBinary (row', spare) [f, g] dst = Inr ds \<and> map FieldValue_Value ds = [VInt64 c, VNil])"
    using parse_moved [of c spare x y dst] by (simp add: build_moved)
  show "BuildSimpleBinaryResultset [name] (map (\<lambda>w. [VInt64 w]) ws @ [[VNil]]) = Inl Panic"
    using binary_rows_late_null [of None 0 ws name] assms(4) by (simp add: BuildSimpleBinaryResultset_def)
qed

theorem binary_null_misplaced_witness:
  "(\<exists>r nb cells. BuildSimpleBinaryResultset [''a'', ''b''] [[VInt64 5, VNil]] = Inr r \<and> RowDatas r = [[CHR 0x00] @ nb @ cells] \<and>
      null_bit nb 0 \<and> \<not> null_bit nb 1) \<and>
   (\<exists>r f g row row' ds. BuildSimpleBinaryResultset [''a'', ''b''] [[VInt64 1, VInt64 2], [VNil, VInt64 3]] = Inr r \<and>
      Fields r = [Some f, Some g] \<and> RowDatas r = [row, row'] \<and>
      ParseBinary (row', []) [f, g] [] = Inr ds \<and> map FieldValue_Value ds = [VInt64 3, VNil])"
proof -
  note m = binary_null_misplaced [of "[''a'', ''b'']" "[VInt64 5, VNil]" "[0, 0, 0, 0, 0, 0]" "''a''" "''b''" 1 "[]" "[]" 2 3 "''a''"]
  show ?thesis
  proof
    show "\<exists>r nb cells. BuildSimpleBinaryResultset [''a'', ''b''] [[VInt64 5, VNil]] = Inr r \<and> RowDatas r = [[CHR 0x00] @ nb @ cells] \<and>
        null_bit nb 0 \<and> \<not> null_bit nb 1"
      using m by (auto simp: upt_rec)
  qed (use m in \<open>simp; blast\<close>)
qed

end
