(* ===== verification/MysqlPacket.thy ===== *)
theory MysqlPacket
  imports MysqlUtil
begin

text \<open>
  The framing of the MySQL protocol (\<open>packet/conn.go\<close>): a payload is sent in frames of at most
  \<open>2\<^sup>2\<^sup>4 - 1\<close> bytes, each behind a header with its length and a sequence number of 8 bits. The
  connection writes to a network of any type with the operation \<open>send\<close>, which answers the number
  of bytes it took and an error; what it can still read before the stream ends are the bytes
  \<open>inp\<close>. \<open>WritePacket\<close> also overwrites the header bytes of the buffer it is given, which no caller
  looks at again.
\<close>

abbreviation MaxPayloadLen :: nat where "MaxPayloadLen \<equiv> 16777215"

abbreviation ErrBadConn :: gerr where "ErrBadConn \<equiv> ErrText ''connection was bad''"

record 'n Conn =
  net :: 'n
  inp :: bytes
  tls :: bool
  Sequence :: "8 word"
  pkgErr :: "gerr option"

definition NewConn :: "'n \<Rightarrow> bytes \<Rightarrow> 'n Conn" where
  "NewConn n i = \<lparr>net = n, inp = i, tls = False, Sequence = 0, pkgErr = None\<rparr>"

definition NewTLSConn :: "'n \<Rightarrow> bytes \<Rightarrow> 'n Conn" where
  "NewTLSConn n i = \<lparr>net = n, inp = i, tls = True, Sequence = 0, pkgErr = None\<rparr>"

text \<open>The capacity of the copy buffer.\<close>

definition copyNBuf_cap :: "'n Conn \<Rightarrow> nat" where
  "copyNBuf_cap c = (if tls c then 16 * 1024 else 8 * 1024 div 4)"

section \<open>Reading\<close>

text \<open>\<open>copyN\<close> with the capacity \<open>k + 1\<close> of the buffer: what has been written, and the rest of the stream.\<close>

function copyN_loop :: "nat \<Rightarrow> bytes \<Rightarrow> bytes \<Rightarrow> nat \<Rightarrow> nat \<Rightarrow> nat result \<times> bytes \<times> bytes" where
  "copyN_loop k w src n written =
     (if n = 0 then (Inr written, w, src)
      else let bcap = min (k + 1) n
        in if length src < bcap then (Inl (ErrText ''unexpected EOF''), w, [])
           else copyN_loop k (w @ take bcap src) (drop bcap src) (n - bcap) (written + bcap))"
  by pat_completeness auto
termination by (relation "measure (\<lambda>(k, w, src, n, written). n)") auto

declare copyN_loop.simps [simp del]

definition copyN :: "'n Conn \<Rightarrow> bytes \<Rightarrow> bytes \<Rightarrow> nat \<Rightarrow> nat result \<times> bytes \<times> bytes" where
  "copyN c w src n = copyN_loop (copyNBuf_cap c - 1) w src n 0"

lemma copyN_loop_consumes:
  "copyN_loop k w src n written = (r, w', src') \<Longrightarrow> length src' \<le> length src"
proof (induction k w src n written rule: copyN_loop.induct)
  case (1 k w src n written)
  show ?case
  proof (cases "n = 0 \<or> length src < min (k + 1) n")
    case True
    then show ?thesis using "1.prems" by (subst (asm) copyN_loop.simps) (auto simp: Let_def split: if_splits)
  next
    case False
    then have "length src' \<le> length (drop (min (k + 1) n) src)"
      using "1.IH" "1.prems" by (subst (asm) (2) copyN_loop.simps) (auto simp: Let_def)
    then show ?thesis by simp
  qed
qed

text \<open>The frames of one packet are written to \<open>w\<close>, one after another.\<close>

function ReadPacketTo :: "bytes \<Rightarrow> 'n Conn \<Rightarrow> unit result \<times> bytes \<times> 'n Conn" where
  "ReadPacketTo w c =
     (if length (inp c) < 4 then (Inl ErrBadConn, w, c\<lparr>inp := []\<rparr>)
      else let header = take 4 (inp c);
               len = unat (of_byte (header ! 0) OR push_bit 8 (of_byte (header ! 1)) OR push_bit 16 (of_byte (header ! 2)) :: 32 word);
               sequence = of_byte (header ! 3);
               c1 = c\<lparr>inp := drop 4 (inp c)\<rparr>
        in if sequence \<noteq> Sequence c
           then (Inl (ErrText (''invalid sequence '' @ FormatInt (uint sequence) @ '' != '' @ FormatInt (uint (Sequence c)))), w, c1)
           else case copyN c1 w (inp c1) len of
             (Inl e, w', rest) \<Rightarrow> (Inl ErrBadConn, w', c1\<lparr>Sequence := Sequence c + 1, inp := rest\<rparr>)
           | (Inr n, w', rest) \<Rightarrow>
               let c2 = c1\<lparr>Sequence := Sequence c + 1, inp := rest\<rparr>
               in if n \<noteq> len then (Inl ErrBadConn, w', c2)
                  else if len < MaxPayloadLen then (Inr (), w', c2)
                  else case ReadPacketTo w' c2 of (Inl e, w'', c3) \<Rightarrow> (Inl ErrBadConn, w'', c3) | (Inr _, w'', c3) \<Rightarrow> (Inr (), w'', c3))"
  by pat_completeness auto
termination
  by (relation "measure (\<lambda>(w, c). length (inp c))") (auto simp: copyN_def dest!: copyN_loop_consumes sym [of _ "copyN_loop _ _ _ _ _"])

declare ReadPacketTo.simps [simp del]

definition ReadPacketReuseMem :: "bytes \<Rightarrow> 'n Conn \<Rightarrow> bytes result \<times> 'n Conn" where
  "ReadPacketReuseMem dst c =
     (case ReadPacketTo [] c of
        (Inl e, _, c') \<Rightarrow> (Inl e, c'\<lparr>pkgErr := Some e\<rparr>)
      | (Inr _, buf, c') \<Rightarrow> (Inr (dst @ buf), c'))"

definition ReadPacket :: "'n Conn \<Rightarrow> bytes result \<times> 'n Conn" where
  "ReadPacket c = ReadPacketReuseMem [] c"

section \<open>Writing\<close>

type_synonym 'n send = "bytes \<Rightarrow> 'n \<Rightarrow> (nat \<times> gerr option) \<times> 'n"

text \<open>One \<open>Write\<close> and the checks behind it.\<close>

definition write_frame :: "'n send \<Rightarrow> bytes \<Rightarrow> 'n Conn \<Rightarrow> unit result \<times> 'n Conn" where
  "write_frame send frame c =
     (case send frame (net c) of
        ((n, Some e), net') \<Rightarrow> (Inl ErrBadConn, c\<lparr>net := net', pkgErr := Some ErrBadConn\<rparr>)
      | ((n, None), net') \<Rightarrow>
          if n \<noteq> length frame then (Inl ErrBadConn, c\<lparr>net := net', pkgErr := Some ErrBadConn\<rparr>)
          else (Inr (), c\<lparr>net := net', Sequence := Sequence c + 1\<rparr>))"

function write_loop :: "'n send \<Rightarrow> bytes \<Rightarrow> 'n Conn \<Rightarrow> unit result \<times> 'n Conn" where
  "write_loop send payload c =
     (if length payload \<ge> MaxPayloadLen then
        case write_frame send ([CHR 0xff, CHR 0xff, CHR 0xff, byte_of (Sequence c)] @ take MaxPayloadLen payload) c of
          (Inl e, c') \<Rightarrow> (Inl e, c')
        | (Inr _, c') \<Rightarrow> write_loop send (drop MaxPayloadLen payload) c'
      else let length = of_nat (length payload) :: 64 word
        in write_frame send ([byte_of length, byte_of (drop_bit 8 length), byte_of (drop_bit 16 length), byte_of (Sequence c)] @ payload) c)"
  by pat_completeness auto
termination by (relation "measure (\<lambda>(send, payload, c). length payload)") auto

declare write_loop.simps [simp del]

text \<open>The first four bytes of the data are room for the header.\<close>

definition WritePacket :: "'n send \<Rightarrow> bytes \<Rightarrow> 'n Conn \<Rightarrow> unit result \<times> 'n Conn" where
  "WritePacket send data c = (if length data < 4 then (Inl Panic, c) else write_loop send (drop 4 data) c)"

text \<open>\<open>errors.Wrap\<close>\<close>

definition wrap_err :: "string \<Rightarrow> 'a result \<times> 's \<Rightarrow> 'a result \<times> 's" where
  "wrap_err msg r = (case r of (Inl (ErrText e), s) \<Rightarrow> (Inl (ErrText (msg @ '': '' @ e)), s) | _ \<Rightarrow> r)"

definition WriteClearAuthPacket :: "'n send \<Rightarrow> string \<Rightarrow> 'n Conn \<Rightarrow> unit result \<times> 'n Conn" where
  "WriteClearAuthPacket send password c =
     wrap_err ''WritePacket failed'' (WritePacket send (replicate 4 (CHR 0x00) @ password @ [CHR 0x00]) c)"

definition WriteAuthSwitchPacket :: "'n send \<Rightarrow> bytes \<Rightarrow> bool \<Rightarrow> 'n Conn \<Rightarrow> unit result \<times> 'n Conn" where
  "WriteAuthSwitchPacket send authData addNUL c =
     wrap_err ''WritePacket failed''
       (WritePacket send (replicate 4 (CHR 0x00) @ authData @ (if addNUL then [CHR 0x00] else [])) c)"

text \<open>\<open>encrypt\<close> is the RSA encryption of \<open>EncryptPassword\<close> with the given key.\<close>

definition WriteEncryptedPassword :: "'n send \<Rightarrow> (bytes \<Rightarrow> bytes result) \<Rightarrow> string \<Rightarrow> bytes \<Rightarrow> 'n Conn \<Rightarrow> unit result \<times> 'n Conn" where
  "WriteEncryptedPassword send encrypt password seed c =
     (case wrap_err ''EncryptPassword failed'' (rbind (EncryptPassword_plain password seed) encrypt, c) of
        (Inl e, c') \<Rightarrow> (Inl e, c')
      | (Inr enc, c') \<Rightarrow> wrap_err ''WriteAuthSwitchPacket failed'' (WriteAuthSwitchPacket send enc False c'))"

definition ResetSequence :: "'n Conn \<Rightarrow> 'n Conn" where
  "ResetSequence c = c\<lparr>Sequence := 0\<rparr>"

definition IOErr :: "'n Conn \<Rightarrow> gerr option" where
  "IOErr c = pkgErr c"

section \<open>What is written is read back\<close>

lemma copyN_loop_ok:
  "n \<le> length src \<Longrightarrow> copyN_loop k w src n written = (Inr (written + n), w @ take n src, drop n src)"
proof (induction k w src n written rule: copyN_loop.induct)
  case (1 k w src n written)
  show ?case
  proof (cases "n = 0")
    case True
    then show ?thesis by (simp add: copyN_loop.simps)
  next
    case False
    define b where "b = min (k + 1) n"
    have b: "b \<le> n" "b \<le> length src" using "1.prems" by (simp_all add: b_def)
    have "take b src @ take (n - b) (drop b src) = take n src" using take_add [of b "n - b" src] b(1) by simp
    moreover have "copyN_loop k (w @ take b src) (drop b src) (n - b) (written + b) =
        (Inr (written + b + (n - b)), (w @ take b src) @ take (n - b) (drop b src), drop (n - b) (drop b src))"
      using "1.IH" [OF False b_def] b "1.prems" by simp
    ultimately show ?thesis using False b by (subst copyN_loop.simps, unfold Let_def b_def [symmetric]) simp
  qed
qed

lemma copyN_ok: "n \<le> length src \<Longrightarrow> copyN c w src n = (Inr n, w @ take n src, drop n src)"
  by (simp add: copyN_def copyN_loop_ok)

lemma frame_length:
  "unat (of_byte a OR push_bit 8 (of_byte b) OR push_bit 16 (of_byte c) :: 32 word) = le_nat [a, b, c]"
proof -
  have "of_byte a OR push_bit 8 (of_byte b) OR push_bit 16 (of_byte c) = (of_byte a OR push_bit 8 (of_byte b OR push_bit 8 (of_byte c)) :: 32 word)"
    by (simp add: push_bit_or)
  also have "\<dots> = of_nat (le_nat [a, b, c])" unfolding byte_or_push by (simp add: of_byte_def)
  finally have e: "of_byte a OR push_bit 8 (of_byte b) OR push_bit 16 (of_byte c) = (of_nat (le_nat [a, b, c]) :: 32 word)" .
  have "le_nat [a, b, c] < 2 ^ 24" using nat_of_char_less_256 [of a] nat_of_char_less_256 [of b] nat_of_char_less_256 [of c]
    by (simp del: nat_of_char_less_256)
  moreover have "unat (of_nat m :: 32 word) = m" if "m < 2 ^ 24" for m :: nat using that by (simp add: unat_of_nat)
  ultimately show ?thesis unfolding e by blast
qed

lemma inp_Sequence_commute: "c\<lparr>Sequence := s, inp := i\<rparr> = c\<lparr>inp := i, Sequence := s\<rparr>"
  by (cases c) simp

text \<open>Reading one frame with the expected sequence number.\<close>

lemma ReadPacketTo_frame:
  fixes c :: "'n Conn"
  assumes "length payload \<le> MaxPayloadLen"
    "inp c = le_bytes 3 (length payload) @ [byte_of (Sequence c)] @ payload @ rest"
  defines "c' \<equiv> c\<lparr>inp := rest, Sequence := Sequence c + 1\<rparr>"
  shows "ReadPacketTo w c =
    (if length payload < MaxPayloadLen then (Inr (), w @ payload, c')
     else case ReadPacketTo (w @ payload) c' of (Inl e, w'', c3) \<Rightarrow> (Inl ErrBadConn, w'', c3) | (Inr _, w'', c3) \<Rightarrow> (Inr (), w'', c3))"
proof -
  obtain x y z where b: "le_bytes 3 (length payload) = [x, y, z]"
    using length_3_iff [of "le_bytes 3 (length payload)"] by auto
  have "le_nat [x, y, z] = length payload" using assms(1) le_nat_le_bytes [of 3 "length payload"] unfolding b [symmetric] by simp
  moreover have "of_byte (byte_of (Sequence c)) = Sequence c"
    using unsigned_less [of "Sequence c", where 'a = nat] by (intro of_byte_byte_of) simp
  moreover have "copyN d w (payload @ rest) (length payload) = (Inr (length payload), w @ payload, rest)" for d :: "'n Conn"
    using copyN_ok [of "length payload" "payload @ rest"] by simp
  ultimately show ?thesis using assms(2)
    by (subst ReadPacketTo.simps) (simp add: Let_def b frame_length c'_def inp_Sequence_commute del: le_nat.simps)
qed

lemma unat_of_nat_64: "n < 2 ^ 24 \<Longrightarrow> unat (of_nat n :: 64 word) = n"
  by (simp add: unat_of_nat)

lemma frame_header:
  "n < 2 ^ 24 \<Longrightarrow> [byte_of (of_nat n :: 64 word), byte_of (drop_bit 8 (of_nat n :: 64 word)), byte_of (drop_bit 16 (of_nat n :: 64 word))] = le_bytes 3 n"
  unfolding byte_of_drop_bit le_bytes_3 by (simp only: byte_of_def unat_of_nat_64)

lemma frame_header_max: "[CHR 0xff, CHR 0xff, CHR 0xff] = le_bytes 3 MaxPayloadLen"
  unfolding le_bytes_3 by (simp add: char_of_def bit_0)

text \<open>A network that takes everything it is given.\<close>

definition pipe :: "bytes send" where
  "pipe b out = ((length b, None), out @ b)"

lemma write_frame_pipe: "write_frame pipe frame c = (Inr (), c\<lparr>net := net c @ frame, Sequence := Sequence c + 1\<rparr>)"
  by (simp add: write_frame_def pipe_def)

text \<open>The frames that the loop writes, from a sequence number on.\<close>

function frames :: "8 word \<Rightarrow> bytes \<Rightarrow> bytes" where
  "frames s payload =
     (if length payload \<ge> MaxPayloadLen
      then le_bytes 3 MaxPayloadLen @ [byte_of s] @ take MaxPayloadLen payload @ frames (s + 1) (drop MaxPayloadLen payload)
      else le_bytes 3 (length payload) @ [byte_of s] @ payload)"
  by pat_completeness auto
termination by (relation "measure (\<lambda>(s, payload). length payload)") auto

declare frames.simps [simp del]

lemma write_loop_pipe:
  "write_loop pipe payload c =
     (Inr (), c\<lparr>net := net c @ frames (Sequence c) payload, Sequence := Sequence c + of_nat (length payload div MaxPayloadLen) + 1\<rparr>)"
proof (induction "Sequence c" payload arbitrary: c rule: frames.induct)
  case (1 payload)
  show ?case
  proof (cases "length payload \<ge> MaxPayloadLen")
    case True
    let ?c = "c\<lparr>net := net c @ le_bytes 3 MaxPayloadLen @ [byte_of (Sequence c)] @ take MaxPayloadLen payload, Sequence := Sequence c + 1\<rparr>"
    have "write_loop pipe payload c = write_loop pipe (drop MaxPayloadLen payload) ?c"
      using True by (subst write_loop.simps) (simp add: write_frame_pipe frame_header_max [symmetric])
    moreover have "length payload div MaxPayloadLen = Suc (length (drop MaxPayloadLen payload) div MaxPayloadLen)"
      using True by (simp add: le_div_geq)
    ultimately show ?thesis using "1.hyps" [OF True, of ?c] True by (subst frames.simps) simp
  next
    case False
    then show ?thesis
      by (subst write_loop.simps, subst frames.simps) (simp add: write_frame_pipe Let_def frame_header [symmetric])
  qed
qed

lemma ReadPacketTo_frames:
  "inp c = frames (Sequence c) payload @ rest \<Longrightarrow>
     ReadPacketTo w c = (Inr (), w @ payload, c\<lparr>inp := rest, Sequence := Sequence c + of_nat (length payload div MaxPayloadLen) + 1\<rparr>)"
proof (induction "Sequence c" payload arbitrary: w c rule: frames.induct)
  case (1 payload)
  show ?case
  proof (cases "length payload \<ge> MaxPayloadLen")
    case True
    let ?r = "frames (Sequence c + 1) (drop MaxPayloadLen payload) @ rest"
    have "inp c = le_bytes 3 (length (take MaxPayloadLen payload)) @ [byte_of (Sequence c)] @ take MaxPayloadLen payload @ ?r"
      using "1.prems" True by (subst (asm) frames.simps) simp
    from ReadPacketTo_frame [OF _ this, of w] True
    have "ReadPacketTo w c = (case ReadPacketTo (w @ take MaxPayloadLen payload) (c\<lparr>inp := ?r, Sequence := Sequence c + 1\<rparr>) of
        (Inl e, w'', c3) \<Rightarrow> (Inl ErrBadConn, w'', c3) | (Inr _, w'', c3) \<Rightarrow> (Inr (), w'', c3))" by simp
    moreover have "length payload div MaxPayloadLen = Suc (length (drop MaxPayloadLen payload) div MaxPayloadLen)"
      using True by (simp add: le_div_geq)
    ultimately show ?thesis using "1.hyps" [OF True, of "c\<lparr>inp := ?r, Sequence := Sequence c + 1\<rparr>" "w @ take MaxPayloadLen payload"] by simp
  next
    case False
    then have "inp c = le_bytes 3 (length payload) @ [byte_of (Sequence c)] @ payload @ rest"
      using "1.prems" by (subst (asm) frames.simps) simp
    then show ?thesis using ReadPacketTo_frame [of payload c rest w] False by simp
  qed
qed

lemma length_frames: "length (frames s payload) = length payload + 4 * (length payload div MaxPayloadLen + 1)"
proof (induction s payload rule: frames.induct)
  case (1 s payload)
  show ?case
  proof (cases "length payload \<ge> MaxPayloadLen")
    case True
    then have "length payload div MaxPayloadLen = Suc ((length payload - MaxPayloadLen) div MaxPayloadLen)" by (simp add: le_div_geq)
    then show ?thesis using 1 [OF True] True by (subst frames.simps) simp
  qed (subst frames.simps, simp)
qed

text \<open>
  C40. A payload of any length, a multiple of the largest frame included, that one side writes
  over a network that takes all bytes is read by the other side, starting from the same
  sequence number: the reader gets the payload behind what it already has, leaves what follows
  in the stream, and both sides agree on the next sequence number (modulo 256). The stream
  carries four bytes for each frame, one frame more than the payload fills.
\<close>

theorem packet_roundtrip:
  "\<exists>c' stream. WritePacket pipe (h0 # h1 # h2 # h3 # payload) c = (Inr (), c') \<and> net c' = net c @ stream \<and> pkgErr c' = pkgErr c \<and>
     length stream = length payload + 4 * (length payload div MaxPayloadLen + 1) \<and>
     Sequence c' = Sequence c + of_nat (length payload div MaxPayloadLen) + 1 \<and>
     ReadPacketReuseMem dst (d\<lparr>inp := stream @ rest, Sequence := Sequence c\<rparr>) = (Inr (dst @ payload), d\<lparr>inp := rest, Sequence := Sequence c'\<rparr>)"
  using write_loop_pipe [of payload c] ReadPacketTo_frames [of "d\<lparr>inp := frames (Sequence c) payload @ rest, Sequence := Sequence c\<rparr>" payload rest "[]"]
    length_frames [of "Sequence c" payload]
  by (intro exI [of _ "c\<lparr>net := net c @ frames (Sequence c) payload, Sequence := Sequence c + of_nat (length payload div MaxPayloadLen) + 1\<rparr>"]
      exI [of _ "frames (Sequence c) payload"]) (simp add: WritePacket_def ReadPacketReuseMem_def)

end
