(* ===== verification/Spec2Isabelle.thy ===== *)
theory Spec2Isabelle
  imports ServerInv Snapshot GtidFlavor MysqlResult MysqlPacket
begin

text \<open>
  A verification development for IceFireDB: a replicated database that speaks the Redis protocol,
  and the MySQL protocol code of its SQL proxy.

  \<^bold>\<open>The program.\<close> A client sends the words of a command. The framework \<open>uhaha\<close> looks the command up
  in a table that the \<open>init\<close> functions of package \<open>main\<close> fill. A write goes through the Raft log and
  is applied on every node; a read runs on the node it reaches. The handlers (\<open>strings.go\<close>,
  \<open>lists.go\<close>, \<open>hashes.go\<close>, \<open>set.go\<close>, \<open>sorted_sets.go\<close>, \<open>scan.go\<close>, \<open>servers.go\<close>) check the words and
  call the data-type layer, the vendored package \<open>ledis\<close>, which keeps strings, lists, hashes, sets,
  sorted sets and expiry times as records of an ordered key-value store. The SQL proxy has its
  own code for the MySQL protocol: GTID sets, packets, columns, rows and result sets.

  \<^bold>\<open>Conventions.\<close> A Go string or byte slice is a \<open>string\<close>, and an \<open>option\<close> where \<open>nil\<close> matters. A Go
  integer is an \<open>int\<close> with \<open>wrap64\<close> or \<open>wrap32\<close> at each operation that can overflow, or a word in
  the MySQL code. An error is a value of \<open>gerr\<close>, and so is a panic, \<open>Panic\<close>. A line of the log is
  no step of the model; \<open>log.Fatalf\<close> in \<open>ledis\<close> is such a line and does not end the process. A
  function that changes the database takes it and returns it with its result. What Go leaves open is an argument: the order of map iteration, the order in which goroutines end, the
  clocks, \<open>regexp.Compile\<close>, hash functions, and the parsing and printing of floats.

  \<^bold>\<open>Theories, from the store up.\<close>
  \<^item> \<open>Prelude\<close>, \<open>GoStd\<close>, \<open>GoText\<close>: results and their composition, lists and orders, 32- and 64-bit
    integers, decimal numbers, and the parts of the Go library the code calls.
  \<^item> \<open>KvStore\<close>: the store as a sorted list of records, batches, and the range iterators of
    \<open>store/iterator.go\<close>. The locale \<open>ordered_kv\<close> is what a driver owes.
  \<^item> \<open>LedisCore\<close>: the record \<open>ledisdb\<close>, the layout of keys, the checks of sizes, \<open>Commit\<close>, and the
    expiry records of \<open>t_ttl.go\<close>. The layout is injective and ordered, and the relation \<open>keeps\<close> says
    that an operation changes records of one data type only.
  \<^item> \<open>LedisKV\<close>, \<open>PopCount\<close>, \<open>LedisList\<close>, \<open>Members\<close>, \<open>LedisHash\<close>, \<open>LedisSet\<close>, \<open>LedisZSet\<close>, \<open>LedisScan\<close>:
    the data types. Each has an abstraction (\<open>kv_of\<close>, \<open>list_of\<close>, \<open>hash_of\<close>, \<open>set_of\<close>, \<open>zset_of\<close>), an
    invariant of its records (\<open>list_inv\<close> and so on), what each operation does to the abstraction,
    and that it keeps the invariant. The locale \<open>member_layout\<close> in \<open>Members\<close> is the contract of
    containers with members and a size record, with interpretations for hashes, sets and sorted sets.
  \<^item> \<open>LedisFlush\<close>: \<open>FlushAll\<close> and \<open>flushType\<close>. The locale \<open>flushing\<close> says what the deletion of one key
    must do for the loop over the pages of keys to end; it is interpreted for the five data types.
  \<^item> \<open>LedisInv\<close>: no operation stores a container under a key of illegal size or an unreadable expiry.
  \<^item> \<open>CmdBase\<close>, \<open>CmdStrings\<close>, \<open>CmdLists\<close>, \<open>CmdHashes\<close>, \<open>CmdSets\<close>, \<open>CmdZSets\<close>, \<open>CmdScan\<close>: one definition per
    handler, with the properties that a client sees.
  \<^item> \<open>Server\<close>: the table of commands, the dispatch of \<open>uhaha\<close>, and a cluster as a step relation: clients
    submit writes, each node applies the next entry of the log, and nodes serve reads.
  \<^item> \<open>ServerInv\<close>: the invariant of the whole database over all commands, and \<open>FLUSHALL\<close>.
  \<^item> \<open>Snapshot\<close>: \<open>Persist\<close> and \<open>restore\<close> of \<open>main.go\<close>.
  \<^item> \<open>Uuid\<close>, \<open>GtidTypes\<close>, \<open>MysqlGtid\<close>, \<open>GtidSets\<close>, \<open>MariadbGtid\<close>, \<open>GtidFlavor\<close>: GTID sets of both flavors.
    The locale \<open>gtid_interface\<close> is the contract of \<open>GTIDSet\<close>, with both flavors as interpretations.
  \<^item> \<open>MysqlUtil\<close>, \<open>MysqlField\<close>, \<open>MysqlResult\<close>, \<open>MysqlPacket\<close>: the encodings of \<open>util.go\<close>, column
    definitions and rows, result sets, and packets over a byte stream.

  \<^bold>\<open>What the theorems show.\<close>
  \<^item> Composition (C1 to C4, C13, C14): after any sequence of admissible commands all records are well
    formed and \<open>FLUSHALL\<close> returns and empties the database; replicas that have applied the same
    entries agree as long as no command reads the clock of the node or writes although it is
    registered as a read. The cases outside these conditions are theorems too: replicas that part,
    a \<open>FLUSHALL\<close> that never returns, and (C26) an \<open>LTRIM\<close> that leaves a length without elements. What
    is admissible is the definition \<open>admissible\<close> in \<open>ServerInv\<close>; it leaves out \<open>LSET\<close> and the STORE
    commands on sets, and \<open>LTRIM\<close> with both indices before the head.
  \<^item> Refinement: the commands on records implement operations on lists, maps, sets and scores, with
    their answers, errors and effect on expiry.
  \<^item> Reads and scans: every reading command agrees with the abstraction, and a client that follows
    the cursors of a scan sees each matching item once and comes to the end.
  \<^item> Strings: ranges, bits and counters against definitions by byte, bit and sum, with wrap-around.
  \<^item> Round trips: snapshots, GTID sets as text and bytes, column definitions, text results, packets.
  \<^item> Safety of the MySQL code: an escaped string stays inside its literal, parsed rows have the types
    of their columns, and the inputs on which the readers of lengths panic.

  \<^bold>\<open>Bounds.\<close> Theorems about sizes assume \<open>room n db\<close>: the number of records stays below \<open>2\<^sup>6\<^sup>3\<close> after \<open>n\<close>
  more, since sizes are 64-bit counters. List theorems assume fewer than \<open>2\<^sup>3\<^sup>1\<close> arguments for the
  32-bit sequence numbers. A scan allocates its result by the \<open>COUNT\<close> of the client, and panics when
  that is more than \<open>2\<^sup>4\<^sup>8\<close> bytes (\<open>make_slice\<close>); C8 is about smaller counts. There is no fuel: loops that can run forever (\<open>flush_loop\<close>) are partial
  functions whose value \<open>None\<close> is not to return, and that they return is part of the theorems.

  \<^bold>\<open>Not modelled.\<close> The Raft consensus, ticks, the encoding of log entries and the RESP server (\<open>Server\<close>
  takes one log as given); start-up, flags and process figures; the storage drivers, which forward
  to engines and network services; errors of the storage engine, so that a commit fails only on a
  read-only handle; running out of memory; the sorted-set functions, blocking pops and background expiry of \<open>ledis\<close> that no
  command calls; handshake, sessions and pools of the MySQL client and server; the RSA step of
  passwords; the SQLite service, the Redis proxy and the publish-subscribe proxy, which are network I/O
  around protocol code of which the shared part is modelled.
\<close>

end
